(* ===== verification/Xv6_Prelude.thy ===== *)
theory Xv6_Prelude
  imports Main "HOL-Library.Word"
begin

text \<open>
  Shared vocabulary of the development: the machine-word types of \<open>types.h\<close>, the
  sequencing operator for fallible kernel code, and the generic facts on lists, options
  and words that the component theories use.

  A kernel function that can stop early (by \<open>panic\<close>, by spinning on a lock, by going to
  sleep) returns a value of a sum type: \<open>Inl\<close> holds the reason, \<open>Inr\<close> the normal
  result. \<open>bindR m f\<close> runs \<open>m\<close> and, only if it returned normally, \<open>f\<close> on its
  result, which is how one C statement follows another.
\<close>

type_synonym u8 = "8 word"
type_synonym u16 = "16 word"
type_synonym u32 = "32 word"

definition bindR :: "'e + 'a \<Rightarrow> ('a \<Rightarrow> 'e + 'b) \<Rightarrow> 'e + 'b" where
  "bindR m f = (case m of Inl e \<Rightarrow> Inl e | Inr x \<Rightarrow> f x)"

text \<open>\<open>returnsR m P\<close>: the code returned normally and its result satisfies \<open>P\<close>.\<close>

definition returnsR :: "'e + 'a \<Rightarrow> ('a \<Rightarrow> bool) \<Rightarrow> bool" where
  "returnsR m P = (case m of Inl _ \<Rightarrow> False | Inr x \<Rightarrow> P x)"

text \<open>\<open>wheneverR m P\<close>: if the code returns normally, its result satisfies \<open>P\<close>.\<close>

definition wheneverR :: "'e + 'a \<Rightarrow> ('a \<Rightarrow> bool) \<Rightarrow> bool" where
  "wheneverR m P = (case m of Inl _ \<Rightarrow> True | Inr x \<Rightarrow> P x)"

text \<open>Update of one array element through a function on it.\<close>

definition upd_nth :: "nat \<Rightarrow> ('a \<Rightarrow> 'a) \<Rightarrow> 'a list \<Rightarrow> 'a list" where
  "upd_nth i f xs = xs[i := f (xs ! i)]"

section \<open>Sequencing\<close>

lemma bindR_simps [simp]:
  "bindR (Inl e) f = Inl e"
  "bindR (Inr x) f = f x"
  by (simp_all add: bindR_def)

lemma bindR_cong [fundef_cong]:
  assumes "m = m'" and "\<And>x. m' = Inr x \<Longrightarrow> f x = f' x"
  shows "bindR m f = bindR m' f'"
  using assms by (cases m') (simp_all add: bindR_def)

lemma bindR_eq_Inr [simp]:
  "bindR m f = Inr y \<longleftrightarrow> (\<exists>x. m = Inr x \<and> f x = Inr y)"
  by (cases m) (simp_all add: bindR_def)

lemma bindR_eq_Inl:
  "bindR m f = Inl e \<longleftrightarrow> m = Inl e \<or> (\<exists>x. m = Inr x \<and> f x = Inl e)"
  by (cases m) (simp_all add: bindR_def)

lemma bindR_assoc: "bindR (bindR m f) g = bindR m (\<lambda>x. bindR (f x) g)"
  by (cases m) (simp_all add: bindR_def)

lemma bindR_return [simp]: "bindR m Inr = m"
  by (cases m) (simp_all add: bindR_def)

lemma returnsR_simps [simp]:
  "returnsR (Inl e) P = False"
  "returnsR (Inr x) P = P x"
  by (simp_all add: returnsR_def)

lemma returnsR_bindR [simp]:
  "returnsR (bindR m f) P = returnsR m (\<lambda>x. returnsR (f x) P)"
  by (cases m) simp_all

lemma returnsR_mono: "returnsR m P \<Longrightarrow> (\<And>x. m = Inr x \<Longrightarrow> P x \<Longrightarrow> Q x) \<Longrightarrow> returnsR m Q"
  by (cases m) simp_all

lemma returnsR_obtain: "returnsR m P \<Longrightarrow> \<exists>x. m = Inr x \<and> P x"
  by (cases m) simp_all

lemma wheneverR_simps [simp]:
  "wheneverR (Inl e) P"
  "wheneverR (Inr x) P = P x"
  by (simp_all add: wheneverR_def)

lemma wheneverR_bindR:
  "wheneverR m (\<lambda>x. wheneverR (f x) P) \<Longrightarrow> wheneverR (bindR m f) P"
  by (cases m) simp_all

section \<open>Arrays\<close>

lemma upd_nth_simps [simp]:
  "length (upd_nth i f xs) = length xs"
  "i < length xs \<Longrightarrow> upd_nth i f xs ! i = f (xs ! i)"
  "i \<noteq> j \<Longrightarrow> upd_nth i f xs ! j = xs ! j"
  by (simp_all add: upd_nth_def)

lemma upd_nth_nth: "j < length xs \<Longrightarrow> upd_nth i f xs ! j = (if i = j then f (xs ! j) else xs ! j)"
  by (simp add: upd_nth_def nth_list_update)

lemma upd_nth_compose: "upd_nth i f (upd_nth i g xs) = upd_nth i (f \<circ> g) xs"
  by (cases "i < length xs") (simp_all add: upd_nth_def list_update_beyond)

lemma upd_nth_out_of_range: "length xs \<le> i \<Longrightarrow> upd_nth i f xs = xs"
  by (simp add: upd_nth_def list_update_beyond)

lemma upd_nth_id: "f (xs ! i) = xs ! i \<Longrightarrow> upd_nth i f xs = xs"
  by (simp add: upd_nth_def)

lemma map_upd_nth: "(\<And>x. g (f x) = g x) \<Longrightarrow> map g (upd_nth i f xs) = map g xs"
  by (rule nth_equalityI) (simp_all add: upd_nth_nth)

section \<open>Scans for the first match\<close>

lemma find_upt_Some:
  "find P [m..<n] = Some i \<longleftrightarrow> m \<le> i \<and> i < n \<and> P i \<and> (\<forall>j. m \<le> j \<and> j < i \<longrightarrow> \<not> P j)"
proof
  assume "find P [m..<n] = Some i"
  then obtain k where k: "k < length [m..<n]" "P ([m..<n] ! k)" "i = [m..<n] ! k"
      "\<forall>j<k. \<not> P ([m..<n] ! j)"
    by (auto simp: find_Some_iff)
  show "m \<le> i \<and> i < n \<and> P i \<and> (\<forall>j. m \<le> j \<and> j < i \<longrightarrow> \<not> P j)"
  proof (intro conjI allI impI)
    fix j assume j: "m \<le> j \<and> j < i"
    then have "j - m < k" using k(1,3) by auto
    moreover have "[m..<n] ! (j - m) = j" using j k(1,3) by (auto simp: nth_upt)
    ultimately show "\<not> P j" using k(4) by metis
  qed (use k in simp_all)
next
  assume a: "m \<le> i \<and> i < n \<and> P i \<and> (\<forall>j. m \<le> j \<and> j < i \<longrightarrow> \<not> P j)"
  then show "find P [m..<n] = Some i"
    by (auto simp: find_Some_iff intro!: exI [where x = "i - m"])
qed

lemma find_upt_None: "find P [m..<n] = None \<longleftrightarrow> (\<forall>i. m \<le> i \<and> i < n \<longrightarrow> \<not> P i)"
  by (auto simp: find_None_iff)

section \<open>32-bit words as natural numbers\<close>

lemma unat_u32_less: "unat (a :: u32) < 4294967296"
  using unsigned_less [of a] by simp

lemma unat_u32_add:
  "unat ((a :: u32) + b) = (if unat a + unat b < 4294967296 then unat a + unat b
     else unat a + unat b - 4294967296)"
  by (simp add: unat_plus_if_size word_size)

lemma unat_u32_sub:
  "unat ((a :: u32) - b) = (if unat b \<le> unat a then unat a - unat b
     else unat a + 4294967296 - unat b)"
  by (simp add: unat_sub_if_size word_size)

lemma u32_eq_iff: "(a :: u32) = b \<longleftrightarrow> unat a = unat b"
  by (simp add: word_eq_iff_unsigned)

lemma sint_small:
  fixes m :: u32
  assumes "unat m < 2 ^ 31"
  shows "sint m = int (unat m)"
proof -
  have i: "uint m = int (unat m)" by simp
  have "int (unat m) < int (2 ^ 31)" using assms by (rule of_nat_less_iff [THEN iffD2])
  then have "uint m < 2 ^ 31" unfolding i by simp
  then have "signed_take_bit 31 (uint m) = uint m" using order_trans [of "- (2 ^ 31)" 0 "uint m"] by (intro signed_take_bit_int_eq_self) simp_all
  then show ?thesis unfolding i [symmetric] by (simp add: sint_uint)
qed

lemmas u32_nat = unat_u32_add unat_u32_sub u32_eq_iff word_le_nat_alt word_less_nat_alt unat_mod unat_div

lemma unat_of_nat_u32: "n < 4294967296 \<Longrightarrow> unat (of_nat n :: u32) = n"
  by (simp add: unat_of_nat take_bit_nat_eq_self)

end
