(* ===== verification/Spinlock.thy ===== *)
theory Spinlock
  imports Xv6_Prelude
begin

text \<open>
  The machine layer: the processors of \<open>proc.h\<close> and the spin locks of
  \<open>spinlock.c\<close>, with \<open>mycpu\<close> and \<open>cpuid\<close> of \<open>proc.c\<close>.

  The state \<open>mach\<close> is the bottom of a chain of extensible records: every later
  component adds its own fields to it, and the operations here are polymorphic in the
  extension, so they cannot touch it. \<open>lapic_id\<close> and \<open>eflags_if\<close> are the registers
  of the processor that executes (its local APIC number and the interrupt flag FL\_IF).
  The call-stack record \<open>pcs\<close> of a lock is written for debugging only and is left out.
\<close>

section \<open>Locks, channels and the ways kernel code stops\<close>

text \<open>The spin locks of the kernel, by the object that contains them.\<close>

datatype lockid =
    L_ptable | L_ticks | L_kmem | L_bcache | L_icache | L_ftable | L_log | L_ide | L_cons
  | L_pipe u32 | L_buf nat | L_inode nat

text \<open>
  The addresses processes sleep on (\<open>void *chan\<close>): a process slot, \<open>&ticks\<close>,
  \<open>&log\<close>, a buffer, the sleep lock of a buffer or an inode, \<open>&p->nread\<close> and
  \<open>&p->nwrite\<close> of a pipe, \<open>&input.r\<close>.
\<close>

datatype chan =
    Ch_proc nat | Ch_ticks | Ch_log | Ch_buf nat | Ch_buflock nat | Ch_inodelock nat
  | Ch_nread u32 | Ch_nwrite u32 | Ch_input

text \<open>
  Why kernel code did not return: it called \<open>panic\<close>; it spins on a lock another
  processor holds; it gave up the processor (the process sleeps on a channel, is
  ready to run again, or has exited) in the given state; it was switched to a process, in the given state; an address
  computation wrapped around the 32-bit space inside a loop over pages; a loop along a linked
  list would not end; an index was outside its array, where C gives the code no meaning.
\<close>

datatype 's kerr =
    Panic string
  | Spin lockid 's
  | Sleeping chan 's
  | Switched 's
  | Exited 's
  | Running nat 's
  | Wrapped
  | Diverges
  | Undefined

record spinlock =
  lk_locked :: u32
  lk_cpu :: "nat option"

record cpu =
  apicid :: u8
  ncli :: int
  intena :: bool
  cpu_proc :: "nat option"

record mach =
  cpus :: "cpu list"
  ncpu :: nat
  lapic_id :: u8
  eflags_if :: bool
  locks :: "lockid \<Rightarrow> spinlock"

type_synonym ('s, 'a) kres = "'s kerr + 'a"

section \<open>Operations\<close>

definition initlock :: "lockid \<Rightarrow> 'z mach_scheme \<Rightarrow> 'z mach_scheme" where
  "initlock lk s = s\<lparr>locks := (locks s)(lk := \<lparr>lk_locked = 0, lk_cpu = None\<rparr>)\<rparr>"

definition mycpu :: "'z mach_scheme \<Rightarrow> ('z mach_scheme, nat) kres" where
  "mycpu s =
     (if eflags_if s then Inl (Panic ''mycpu called with interrupts enabled'')
      else case find (\<lambda>i. apicid (cpus s ! i) = lapic_id s) [0..<ncpu s] of
        Some i \<Rightarrow> Inr i
      | None \<Rightarrow> Inl (Panic ''unknown apicid''))"

definition cpuid :: "'z mach_scheme \<Rightarrow> ('z mach_scheme, nat) kres" where
  "cpuid s = mycpu s"

definition upd_cpu :: "nat \<Rightarrow> (cpu \<Rightarrow> cpu) \<Rightarrow> 'z mach_scheme \<Rightarrow> 'z mach_scheme" where
  "upd_cpu c f s = s\<lparr>cpus := upd_nth c f (cpus s)\<rparr>"

definition pushcli :: "'z mach_scheme \<Rightarrow> ('z mach_scheme, 'z mach_scheme) kres" where
  "pushcli s =
     (let eflags = eflags_if s;
          s = s\<lparr>eflags_if := False\<rparr>
      in bindR (mycpu s) (\<lambda>c.
         let s = (if ncli (cpus s ! c) = 0 then upd_cpu c (intena_update (\<lambda>_. eflags)) s else s)
         in Inr (upd_cpu c (ncli_update (\<lambda>n. n + 1)) s)))"

definition popcli :: "'z mach_scheme \<Rightarrow> ('z mach_scheme, 'z mach_scheme) kres" where
  "popcli s =
     (if eflags_if s then Inl (Panic ''popcli - interruptible'')
      else bindR (mycpu s) (\<lambda>c.
        let s = upd_cpu c (ncli_update (\<lambda>n. n - 1)) s
        in if ncli (cpus s ! c) < 0 then Inl (Panic ''popcli'')
           else if ncli (cpus s ! c) = 0 \<and> intena (cpus s ! c) then Inr (s\<lparr>eflags_if := True\<rparr>)
           else Inr s))"

definition holding :: "lockid \<Rightarrow> 'z mach_scheme \<Rightarrow> ('z mach_scheme, bool \<times> 'z mach_scheme) kres" where
  "holding lk s =
     bindR (pushcli s) (\<lambda>s.
     bindR (mycpu s) (\<lambda>c.
     let r = (lk_locked (locks s lk) \<noteq> 0 \<and> lk_cpu (locks s lk) = Some c)
     in bindR (popcli s) (\<lambda>s. Inr (r, s))))"

text \<open>
  \<open>xchg(&lk->locked, 1)\<close> returns the old value and stores 1. When the old value is not 0
  the loop spins: the lock word already is 1, so the state no longer changes until another
  processor releases the lock.
\<close>

definition acquire :: "lockid \<Rightarrow> 'z mach_scheme \<Rightarrow> ('z mach_scheme, 'z mach_scheme) kres" where
  "acquire lk s =
     bindR (pushcli s) (\<lambda>s.
     bindR (holding lk s) (\<lambda>(h, s).
     if h then Inl (Panic ''acquire'')
     else
       let old = lk_locked (locks s lk);
           s = s\<lparr>locks := (locks s)(lk := (locks s lk)\<lparr>lk_locked := 1\<rparr>)\<rparr>
       in if old \<noteq> 0 then Inl (Spin lk s)
          else bindR (mycpu s) (\<lambda>c.
            Inr (s\<lparr>locks := (locks s)(lk := (locks s lk)\<lparr>lk_cpu := Some c\<rparr>)\<rparr>))))"

definition release :: "lockid \<Rightarrow> 'z mach_scheme \<Rightarrow> ('z mach_scheme, 'z mach_scheme) kres" where
  "release lk s =
     bindR (holding lk s) (\<lambda>(h, s).
     if \<not> h then Inl (Panic ''release'')
     else
       let s = s\<lparr>locks := (locks s)(lk := (locks s lk)\<lparr>lk_cpu := None\<rparr>)\<rparr>;
           s = s\<lparr>locks := (locks s)(lk := (locks s lk)\<lparr>lk_locked := 0\<rparr>)\<rparr>
       in popcli s)"

text \<open>
  \<open>this_cpu\<close> is the index \<open>mycpu\<close> finds; \<open>cpu_ok\<close> is what every kernel entry
  relies on: the executing processor is listed, its \<open>pushcli\<close> depth is not negative, and
  interrupts are off while that depth is positive.
\<close>

definition this_cpu :: "'z mach_scheme \<Rightarrow> nat" where
  "this_cpu s = (case find (\<lambda>i. apicid (cpus s ! i) = lapic_id s) [0..<ncpu s] of
     Some i \<Rightarrow> i | None \<Rightarrow> ncpu s)"

definition depth :: "'z mach_scheme \<Rightarrow> int" where
  "depth s = ncli (cpus s ! this_cpu s)"

definition cpu_ok :: "'z mach_scheme \<Rightarrow> bool" where
  "cpu_ok s \<longleftrightarrow> this_cpu s < ncpu s \<and> ncpu s \<le> length (cpus s) \<and> 0 \<le> depth s \<and>
     (0 < depth s \<longrightarrow> \<not> eflags_if s)"

definition lock_free :: "lockid \<Rightarrow> 'z mach_scheme \<Rightarrow> bool" where
  "lock_free lk s \<longleftrightarrow> locks s lk = \<lparr>lk_locked = 0, lk_cpu = None\<rparr>"

definition lock_held :: "lockid \<Rightarrow> 'z mach_scheme \<Rightarrow> bool" where
  "lock_held lk s \<longleftrightarrow> lk_locked (locks s lk) \<noteq> 0 \<and> lk_cpu (locks s lk) = Some (this_cpu s)"

text \<open>The states the four operations lead to when nothing goes wrong.\<close>

definition enter_cli :: "bool \<Rightarrow> cpu \<Rightarrow> cpu" where
  "enter_cli fl c = c\<lparr>ncli := ncli c + 1, intena := (if ncli c = 0 then fl else intena c)\<rparr>"

definition pushed :: "'z mach_scheme \<Rightarrow> 'z mach_scheme" where
  "pushed s = s\<lparr>cpus := upd_nth (this_cpu s) (enter_cli (eflags_if s)) (cpus s), eflags_if := False\<rparr>"

definition popped :: "'z mach_scheme \<Rightarrow> 'z mach_scheme" where
  "popped s = s\<lparr>cpus := upd_nth (this_cpu s) (ncli_update (\<lambda>n. n - 1)) (cpus s),
     eflags_if := (depth s = 1 \<and> intena (cpus s ! this_cpu s))\<rparr>"

definition acquired :: "lockid \<Rightarrow> 'z mach_scheme \<Rightarrow> 'z mach_scheme" where
  "acquired lk s = (pushed s)\<lparr>locks := (locks s)(lk := \<lparr>lk_locked = 1, lk_cpu = Some (this_cpu s)\<rparr>)\<rparr>"

definition released :: "lockid \<Rightarrow> 'z mach_scheme \<Rightarrow> 'z mach_scheme" where
  "released lk s = (popped s)\<lparr>locks := (locks s)(lk := \<lparr>lk_locked = 0, lk_cpu = None\<rparr>)\<rparr>"

text \<open>
  What a balanced \<open>pushcli\<close>/\<open>popcli\<close> pair leaves behind: the saved interrupt flag of an
  outermost pair, and nothing else.
\<close>

definition noted :: "'z mach_scheme \<Rightarrow> 'z mach_scheme" where
  "noted s = s\<lparr>cpus := upd_nth (this_cpu s)
     (\<lambda>c. c\<lparr>intena := (if ncli c = 0 then eflags_if s else intena c)\<rparr>) (cpus s)\<rparr>"

text \<open>The two states agree on the whole machine layer.\<close>

definition mach_same :: "'z mach_scheme \<Rightarrow> 'y mach_scheme \<Rightarrow> bool" where
  "mach_same s t \<longleftrightarrow> cpus t = cpus s \<and> ncpu t = ncpu s \<and> lapic_id t = lapic_id s \<and>
     eflags_if t = eflags_if s \<and> locks t = locks s"

text \<open>\<open>t\<close> may differ from \<open>s\<close> only in \<open>ncli\<close>, \<open>intena\<close>, the interrupt flag and the locks.\<close>

definition cli_frame :: "'z mach_scheme \<Rightarrow> 'z mach_scheme \<Rightarrow> bool" where
  "cli_frame s t \<longleftrightarrow> mach.more t = mach.more s \<and> ncpu t = ncpu s \<and> lapic_id t = lapic_id s \<and>
     map apicid (cpus t) = map apicid (cpus s) \<and> map cpu_proc (cpus t) = map cpu_proc (cpus s)"

text \<open>A machine with two processors after boot: no lock is held, no section is open.\<close>

definition boot_mach :: mach where
  "boot_mach = \<lparr>cpus = [\<lparr>apicid = 0, ncli = 0, intena = False, cpu_proc = None\<rparr>,
       \<lparr>apicid = 4, ncli = 0, intena = False, cpu_proc = None\<rparr>],
     ncpu = 2, lapic_id = 4, eflags_if = True,
     locks = (\<lambda>_. \<lparr>lk_locked = 0, lk_cpu = None\<rparr>)\<rparr>"

text \<open>
  A state in which the executing processor works undisturbed: it can open and close critical
  sections, and its saved interrupt flag is what the next outermost section would save, so that a
  section that is closed again leaves no trace. \<open>cur\<close> is its current process.
\<close>

definition calm :: "'z mach_scheme \<Rightarrow> bool" where
  "calm s \<longleftrightarrow> cpu_ok s \<and> noted s = s"

definition cur :: "'z mach_scheme \<Rightarrow> nat option" where
  "cur s = cpu_proc (cpus s ! this_cpu s)"

text \<open>
  Several processors: \<open>flags i\<close> is the interrupt flag of processor \<open>i\<close>. A step is one
  processor running one of the lock operations to its end, as the other processors see it:
  the operations touch shared state only in their atomic \<open>xchg\<close> or store.
\<close>

type_synonym smp = "mach \<times> (nat \<Rightarrow> bool)"

definition on_cpu :: "nat \<Rightarrow> smp \<Rightarrow> mach" where
  "on_cpu i m = (fst m)\<lparr>lapic_id := apicid (cpus (fst m) ! i), eflags_if := snd m i\<rparr>"

definition off_cpu :: "nat \<Rightarrow> smp \<Rightarrow> mach \<Rightarrow> smp" where
  "off_cpu i m s = (s, (snd m)(i := eflags_if s))"

inductive smp_step :: "smp \<Rightarrow> smp \<Rightarrow> bool" where
  smp_acquire: "i < ncpu (fst m) \<Longrightarrow> acquire lk (on_cpu i m) = Inr s \<Longrightarrow> smp_step m (off_cpu i m s)"
| smp_release: "i < ncpu (fst m) \<Longrightarrow> release lk (on_cpu i m) = Inr s \<Longrightarrow> smp_step m (off_cpu i m s)"
| smp_holding: "i < ncpu (fst m) \<Longrightarrow> holding lk (on_cpu i m) = Inr (h, s) \<Longrightarrow>
    smp_step m (off_cpu i m s)"

definition boot_smp1 :: smp where
  "boot_smp1 = off_cpu 1 (boot_mach, \<lambda>_. True) (acquired L_ptable (on_cpu 1 (boot_mach, \<lambda>_. True)))"

definition smp_init :: "smp \<Rightarrow> bool" where
  "smp_init m \<longleftrightarrow> ncpu (fst m) \<le> length (cpus (fst m)) \<and>
     distinct (map apicid (take (ncpu (fst m)) (cpus (fst m)))) \<and>
     (\<forall>i<ncpu (fst m). ncli (cpus (fst m) ! i) = 0) \<and>
     (\<forall>lk. lock_free lk (fst m))"

inductive smp_reach :: "smp \<Rightarrow> bool" where
  smp_start: "smp_init m \<Longrightarrow> smp_reach m"
| smp_next: "smp_reach m \<Longrightarrow> smp_step m m' \<Longrightarrow> smp_reach m'"

definition owned :: "nat \<Rightarrow> smp \<Rightarrow> lockid set" where
  "owned i m = {lk. lk_cpu (locks (fst m) lk) = Some i}"

definition smp_inv :: "smp \<Rightarrow> bool" where
  "smp_inv m \<longleftrightarrow> ncpu (fst m) \<le> length (cpus (fst m)) \<and>
     distinct (map apicid (take (ncpu (fst m)) (cpus (fst m)))) \<and>
     (\<forall>i<ncpu (fst m). finite (owned i m) \<and> ncli (cpus (fst m) ! i) = int (card (owned i m)) \<and>
        (0 < ncli (cpus (fst m) ! i) \<longrightarrow> \<not> snd m i)) \<and>
     (\<forall>lk. lock_free lk (fst m) \<or>
        (lk_locked (locks (fst m) lk) = 1 \<and> (\<exists>i<ncpu (fst m). lk_cpu (locks (fst m) lk) = Some i)))"

section \<open>One processor\<close>

lemma apicid_upd_nth:
  "(\<And>c. apicid (f c) = apicid c) \<Longrightarrow> apicid (upd_nth i f xs ! j) = apicid (xs ! j)"
  by (cases "i = j"; cases "i < length xs") (simp_all add: upd_nth_def list_update_beyond)

lemma apicid_enter_cli [simp]: "apicid (enter_cli fl c) = apicid c"
  by (simp add: enter_cli_def)

lemma this_cpu_cong:
  "(\<And>i. apicid (cpus s ! i) = apicid (cpus t ! i)) \<Longrightarrow> lapic_id s = lapic_id t \<Longrightarrow> ncpu s = ncpu t
    \<Longrightarrow> this_cpu s = this_cpu t"
  by (simp add: this_cpu_def split: option.split)

lemma this_cpu_eflags [simp]: "this_cpu (s\<lparr>eflags_if := b\<rparr>) = this_cpu s"
  and this_cpu_locks [simp]: "this_cpu (s\<lparr>locks := l\<rparr>) = this_cpu s"
  by (rule this_cpu_cong; simp)+

lemma this_cpu_cpus [simp]:
  "(\<And>c. apicid (f c) = apicid c) \<Longrightarrow> this_cpu (s\<lparr>cpus := upd_nth i f (cpus s)\<rparr>) = this_cpu s"
  by (rule this_cpu_cong) (simp_all add: apicid_upd_nth)

lemma this_cpu_states [simp]:
  "this_cpu (pushed s) = this_cpu s" "this_cpu (popped s) = this_cpu s"
  "this_cpu (acquired lk s) = this_cpu s" "this_cpu (released lk s) = this_cpu s"
  "this_cpu (noted s) = this_cpu s"
  by (rule this_cpu_cong;
      simp add: pushed_def popped_def acquired_def released_def noted_def apicid_upd_nth)+

lemma mycpu_this: "cpu_ok s \<Longrightarrow> \<not> eflags_if s \<Longrightarrow> mycpu s = Inr (this_cpu s)"
  by (auto simp: cpu_ok_def mycpu_def this_cpu_def split: option.splits)

lemma cpu_ok_cli: "cpu_ok s \<Longrightarrow> cpu_ok (s\<lparr>eflags_if := False\<rparr>)"
  by (simp add: cpu_ok_def depth_def)

lemma cpu_ok_locks [simp]: "cpu_ok (s\<lparr>locks := l\<rparr>) = cpu_ok s"
  by (simp add: cpu_ok_def depth_def)

lemma pushcli_ok:
  assumes "cpu_ok s"
  shows "pushcli s = Inr (pushed s)"
proof -
  have m: "mycpu (s\<lparr>eflags_if := False\<rparr>) = Inr (this_cpu s)"
    using mycpu_this [OF cpu_ok_cli [OF assms]] by simp
  have c: "this_cpu s < length (cpus s)" using assms by (simp add: cpu_ok_def)
  show ?thesis
    using c by (auto simp: pushcli_def Let_def m upd_cpu_def pushed_def upd_nth_def enter_cli_def
        intro!: mach.equality arg_cong [where f = "list_update (cpus s) (this_cpu s)"])
qed

lemma cpu_ok_pushed [simp]: "cpu_ok s \<Longrightarrow> cpu_ok (pushed s)"
  by (auto simp: cpu_ok_def depth_def) (simp_all add: pushed_def enter_cli_def)

lemma depth_pushed [simp]: "cpu_ok s \<Longrightarrow> depth (pushed s) = depth s + 1"
  by (simp add: cpu_ok_def depth_def) (simp add: pushed_def enter_cli_def)

lemma eflags_pushed [simp]: "\<not> eflags_if (pushed s)"
  by (simp add: pushed_def)

lemma popcli_ok:
  assumes "cpu_ok s" and "1 \<le> depth s"
  shows "popcli s = Inr (popped s)"
proof -
  have e: "\<not> eflags_if s" and c: "this_cpu s < length (cpus s)"
    using assms by (auto simp: cpu_ok_def)
  have m: "mycpu s = Inr (this_cpu s)" using assms(1) e by (rule mycpu_this)
  have d: "ncli (cpus s ! this_cpu s) = depth s" by (simp add: depth_def)
  show ?thesis
    using assms(2) c e by (simp add: popcli_def m upd_cpu_def popped_def Let_def d)
qed

lemma popcli_unbalanced:
  assumes "cpu_ok s" and "\<not> eflags_if s" and "depth s = 0"
  shows "popcli s = Inl (Panic ''popcli'')"
proof -
  have c: "this_cpu s < length (cpus s)" using assms by (auto simp: cpu_ok_def)
  have d: "ncli (cpus s ! this_cpu s) = 0" using assms(3) by (simp add: depth_def)
  show ?thesis
    using assms(2) c by (simp add: popcli_def mycpu_this [OF assms(1,2)] upd_cpu_def Let_def d)
qed

lemma popped_pushed: "cpu_ok s \<Longrightarrow> popped (pushed s) = noted s"
  by (auto simp: cpu_ok_def popped_def) (auto simp: pushed_def noted_def depth_def upd_nth_compose
      enter_cli_def upd_nth_def o_def
      intro!: mach.equality arg_cong [where f = "list_update (cpus s) (this_cpu s)"])

lemma noted_id: "1 \<le> depth s \<Longrightarrow> noted s = s"
  by (simp add: noted_def depth_def upd_nth_def)

lemma cpu_ok_noted [simp]: "cpu_ok s \<Longrightarrow> cpu_ok (noted s)"
  by (auto simp: cpu_ok_def depth_def) (simp_all add: noted_def)

lemma depth_noted [simp]: "cpu_ok s \<Longrightarrow> depth (noted s) = depth s"
  by (simp add: cpu_ok_def depth_def) (simp add: noted_def)

lemma noted_fields [simp]: "eflags_if (noted s) = eflags_if s" "locks (noted s) = locks s"
  by (simp_all add: noted_def)

lemma locks_pushed [simp]: "locks (pushed s) = locks s" "locks (popped s) = locks s"
  by (simp_all add: pushed_def popped_def)

lemma cpu_ok_depth: "cpu_ok s \<Longrightarrow> 0 \<le> depth s"
  by (simp add: cpu_ok_def)

lemma holding_ok: "cpu_ok s \<Longrightarrow> holding lk s = Inr (lock_held lk s, noted s)"
  by (simp add: holding_def pushcli_ok mycpu_this popcli_ok popped_pushed cpu_ok_depth lock_held_def
      Let_def)

lemma held_pushed [simp]: "lock_held lk (pushed s) = lock_held lk s"
  by (simp add: lock_held_def)

lemma acquired_alt:
  "acquired lk s = (pushed s)\<lparr>locks := (locks (pushed s))(lk := \<lparr>lk_locked = 1, lk_cpu = Some (this_cpu s)\<rparr>)\<rparr>"
  by (simp add: acquired_def pushed_def)

lemma acquire_cases:
  assumes "cpu_ok s"
  shows "acquire lk s =
    (if lock_held lk s then Inl (Panic ''acquire'')
     else if lk_locked (locks s lk) \<noteq> 0
       then Inl (Spin lk ((pushed s)\<lparr>locks := (locks s)(lk := (locks s lk)\<lparr>lk_locked := 1\<rparr>)\<rparr>))
     else Inr (acquired lk s))"
proof -
  let ?p = "pushed s"
  have ok: "cpu_ok ?p" and d: "1 \<le> depth ?p" using assms by (auto simp: cpu_ok_def [of s])
  have m: "mycpu (?p\<lparr>locks := x\<rparr>) = Inr (this_cpu s)" for x
    using mycpu_this [of "?p\<lparr>locks := x\<rparr>"] ok by simp
  have sp: "(x::spinlock)\<lparr>lk_locked := 1, lk_cpu := y\<rparr> = \<lparr>lk_locked = 1, lk_cpu = y\<rparr>" for x y
    by (rule spinlock.equality) simp_all
  show ?thesis
    by (simp add: acquire_def pushcli_ok [OF assms] holding_ok [OF ok] noted_id [OF d] Let_def m
        acquired_alt sp)
qed

lemma acquire_ok: "cpu_ok s \<Longrightarrow> lock_free lk s \<Longrightarrow> acquire lk s = Inr (acquired lk s)"
  by (simp add: acquire_cases lock_free_def lock_held_def)

lemma release_cases:
  assumes "cpu_ok s" and "1 \<le> depth s"
  shows "release lk s = (if lock_held lk s then Inr (released lk s) else Inl (Panic ''release''))"
proof -
  have sp: "(x::spinlock)\<lparr>lk_cpu := y, lk_locked := z\<rparr> = \<lparr>lk_locked = z, lk_cpu = y\<rparr>" for x y z
    by (rule spinlock.equality) simp_all
  have p: "popcli (s\<lparr>locks := x\<rparr>) = Inr ((popped s)\<lparr>locks := x\<rparr>)" for x
    using popcli_ok [of "s\<lparr>locks := x\<rparr>"] assms
    by (simp add: depth_def popped_def)
  show ?thesis
    by (simp add: release_def holding_ok [OF assms(1)] noted_id [OF assms(2)] Let_def p sp released_def)
qed

lemma release_ok:
  "cpu_ok s \<Longrightarrow> 1 \<le> depth s \<Longrightarrow> lock_held lk s \<Longrightarrow> release lk s = Inr (released lk s)"
  by (simp add: release_cases)

lemma acquired_facts [simp]:
  assumes "cpu_ok s"
  shows "cpu_ok (acquired lk s)" "depth (acquired lk s) = depth s + 1"
    "\<not> eflags_if (acquired lk s)" "lock_held lk (acquired lk s)"
    "lk' \<noteq> lk \<Longrightarrow> locks (acquired lk s) lk' = locks s lk'"
proof -
  show "cpu_ok (acquired lk s)" "\<not> eflags_if (acquired lk s)"
    using assms by (simp_all add: acquired_alt)
  have "depth (acquired lk s) = depth (pushed s)"
    by (simp add: depth_def) (simp add: acquired_def)
  then show "depth (acquired lk s) = depth s + 1" using assms by simp
  show "lock_held lk (acquired lk s)"
    by (simp add: lock_held_def) (simp add: acquired_def)
  show "lk' \<noteq> lk \<Longrightarrow> locks (acquired lk s) lk' = locks s lk'"
    by (simp add: acquired_def)
qed

lemma released_acquired:
  "cpu_ok s \<Longrightarrow> lock_free lk s \<Longrightarrow> released lk (acquired lk s) = noted s"
proof -
  assume ok: "cpu_ok s" and f: "lock_free lk s"
  have d: "depth (acquired lk s) = depth (pushed s)"
    by (simp add: depth_def) (simp add: acquired_def)
  have "released lk (acquired lk s) = (popped (pushed s))\<lparr>locks := (locks s)(lk := \<lparr>lk_locked = 0, lk_cpu = None\<rparr>)\<rparr>"
    by (rule mach.equality) (simp_all add: released_def popped_def d, simp_all add: acquired_def)
  also have "\<dots> = noted s"
    using f ok by (simp add: popped_pushed lock_free_def fun_upd_idem)
  finally show ?thesis .
qed

section \<open>Critical sections\<close>

lemma mach_same_refl [simp]: "mach_same s s"
  by (simp add: mach_same_def)

lemma mach_same_trans: "mach_same s t \<Longrightarrow> mach_same t u \<Longrightarrow> mach_same s u"
  by (simp add: mach_same_def)

lemma mach_same_sym: "mach_same s t \<Longrightarrow> mach_same t s"
  by (simp add: mach_same_def)

lemma mach_same_this: "mach_same s t \<Longrightarrow> this_cpu t = this_cpu s"
  by (rule this_cpu_cong) (simp_all add: mach_same_def)

lemma mach_same_facts:
  assumes "mach_same s t"
  shows "this_cpu t = this_cpu s" "cpu_ok t = cpu_ok s" "depth t = depth s"
    "lock_held lk t = lock_held lk s" "lock_free lk t = lock_free lk s" "eflags_if t = eflags_if s"
  using assms mach_same_this [OF assms]
  by (simp_all add: cpu_ok_def depth_def lock_held_def lock_free_def mach_same_def)

text \<open>
  The body of a critical section may change anything above the machine layer; then the release
  succeeds, and the machine is as it was before the section.
\<close>

lemma section_release:
  assumes "cpu_ok s" and "lock_free lk s" and "mach_same (acquired lk s) t"
  shows "release lk t = Inr (released lk t)" "mach_same (noted s) (released lk t)"
proof -
  note same = mach_same_facts [OF assms(3)]
  show "release lk t = Inr (released lk t)"
    using assms(1) cpu_ok_depth [OF assms(1)] by (intro release_ok) (simp_all add: same)
  have "mach_same (released lk (acquired lk s)) (released lk t)"
    using assms(3) same by (simp add: mach_same_def released_def popped_def)
  then show "mach_same (noted s) (released lk t)"
    using assms(1,2) by (simp add: released_acquired)
qed

section \<open>Undisturbed sections\<close>

lemma calm_cpu_ok: "calm s \<Longrightarrow> cpu_ok s"
  by (simp add: calm_def)

lemma calm_acquire [simp]: "calm s \<Longrightarrow> lock_free lk s \<Longrightarrow> acquire lk s = Inr (acquired lk s)"
  by (simp add: calm_def acquire_ok)

lemma calm_release [simp]: "calm s \<Longrightarrow> lock_free lk s \<Longrightarrow> release lk (acquired lk s) = Inr s"
  using section_release(1) [of s lk "acquired lk s"] by (simp add: calm_def released_acquired)

lemma calm_acquired [simp]: "calm s \<Longrightarrow> calm (acquired lk s)"
  using cpu_ok_depth [of s] by (simp add: calm_def noted_id)

lemma lock_free_acquired [simp]: "lk' \<noteq> lk \<Longrightarrow> lock_free lk' (acquired lk s) = lock_free lk' s"
  by (simp add: lock_free_def acquired_def)

lemma calm_holding [simp]: "calm s \<Longrightarrow> holding lk s = Inr (lock_held lk s, s)"
  by (simp add: calm_def holding_ok)

lemma cpus_upd_id: "s\<lparr>cpus := x\<rparr> = s \<longleftrightarrow> x = cpus s"
  by (cases s) simp

lemma noted_same: "mach_same s t \<Longrightarrow> noted t = t \<longleftrightarrow> noted s = s"
proof -
  assume m: "mach_same s t"
  have "cpus t = cpus s" "eflags_if t = eflags_if s" using m by (simp_all add: mach_same_def)
  then show ?thesis by (simp only: noted_def cpus_upd_id mach_same_this [OF m])
qed

lemma calm_same: "mach_same s t \<Longrightarrow> calm t = calm s"
  by (simp add: calm_def mach_same_facts noted_same)

lemma cur_same: "mach_same s t \<Longrightarrow> cur t = cur s"
  by (simp add: cur_def mach_same_this) (simp add: mach_same_def)

lemma cpu_proc_upd_nth:
  "(\<And>c. cpu_proc (f c) = cpu_proc c) \<Longrightarrow> cpu_proc (upd_nth i f xs ! j) = cpu_proc (xs ! j)"
  by (cases "i = j"; cases "i < length xs") (simp_all add: upd_nth_def list_update_beyond)

lemma cur_acquired [simp]: "cur (acquired lk s) = cur s"
  by (simp add: cur_def) (simp add: acquired_def pushed_def cpu_proc_upd_nth enter_cli_def)

section \<open>What the operations leave alone\<close>

lemma cli_frame_trans: "cli_frame s t \<Longrightarrow> cli_frame t u \<Longrightarrow> cli_frame s u"
  by (simp add: cli_frame_def)

lemma cli_frame_cpus:
  assumes "cli_frame s t"
  shows "length (cpus t) = length (cpus s)"
    and "i < length (cpus s) \<Longrightarrow> cpu_proc (cpus t ! i) = cpu_proc (cpus s ! i)"
proof -
  have m: "map cpu_proc (cpus t) = map cpu_proc (cpus s)" using assms by (simp add: cli_frame_def)
  show l: "length (cpus t) = length (cpus s)" using m by (rule map_eq_imp_length_eq)
  show "i < length (cpus s) \<Longrightarrow> cpu_proc (cpus t ! i) = cpu_proc (cpus s ! i)"
    using arg_cong [OF m, of "\<lambda>xs. xs ! i"] l by simp
qed

lemma pushcli_frame: "pushcli s = Inr t \<Longrightarrow> cli_frame s t \<and> locks t = locks s"
  by (auto simp: pushcli_def upd_cpu_def Let_def cli_frame_def map_upd_nth)

lemma popcli_frame: "popcli s = Inr t \<Longrightarrow> cli_frame s t \<and> locks t = locks s"
  by (auto simp: popcli_def upd_cpu_def Let_def cli_frame_def map_upd_nth split: if_splits)

lemma holding_frame: "holding lk s = Inr (h, t) \<Longrightarrow> cli_frame s t \<and> locks t = locks s"
  by (auto simp: holding_def Let_def dest!: pushcli_frame popcli_frame intro: cli_frame_trans)

lemma cli_frame_locks [simp]: "cli_frame s (t\<lparr>locks := l\<rparr>) = cli_frame s t"
  by (simp add: cli_frame_def)

lemma cli_frame_of_locks [simp]: "cli_frame (s\<lparr>locks := l\<rparr>) t = cli_frame s t"
  by (simp add: cli_frame_def)

lemma acquire_frame: "acquire lk s = Inr t \<Longrightarrow> cli_frame s t"
  by (auto simp: acquire_def Let_def dest!: pushcli_frame holding_frame intro: cli_frame_trans split: if_splits)

lemma release_frame: "release lk s = Inr t \<Longrightarrow> cli_frame s t"
  by (auto simp: release_def Let_def dest!: popcli_frame holding_frame intro: cli_frame_trans split: if_splits)

lemma mycpu_error: "mycpu s = Inl e \<Longrightarrow> \<exists>m. e = Panic m"
  by (auto simp: mycpu_def split: if_splits option.splits)

lemma pushcli_error: "pushcli s = Inl e \<Longrightarrow> \<exists>m. e = Panic m"
  by (auto simp: pushcli_def bindR_eq_Inl Let_def dest: mycpu_error)

lemma popcli_error: "popcli s = Inl e \<Longrightarrow> \<exists>m. e = Panic m"
  by (auto simp: popcli_def bindR_eq_Inl Let_def dest: mycpu_error split: if_splits)

section \<open>Several processors\<close>

lemma on_cpu_fields [simp]:
  "cpus (on_cpu i m) = cpus (fst m)" "ncpu (on_cpu i m) = ncpu (fst m)"
  "locks (on_cpu i m) = locks (fst m)" "eflags_if (on_cpu i m) = snd m i"
  "lapic_id (on_cpu i m) = apicid (cpus (fst m) ! i)"
  by (simp_all add: on_cpu_def)

lemma off_cpu_fields [simp]:
  "fst (off_cpu i m s) = s" "snd (off_cpu i m s) = (snd m)(i := eflags_if s)"
  by (simp_all add: off_cpu_def)

lemma this_on_cpu:
  assumes "smp_inv m" and "i < ncpu (fst m)"
  shows "this_cpu (on_cpu i m) = i"
proof -
  let ?xs = "cpus (fst m)"
  have d: "distinct (map apicid (take (ncpu (fst m)) ?xs))" and l: "ncpu (fst m) \<le> length ?xs"
    using assms(1) by (auto simp: smp_inv_def)
  have "apicid (?xs ! j) \<noteq> apicid (?xs ! i)" if "j < i" for j
    using d l assms(2) that by (auto simp: distinct_conv_nth)
  then have "find (\<lambda>j. apicid (?xs ! j) = apicid (?xs ! i)) [0..<ncpu (fst m)] = Some i"
    using assms(2) by (simp add: find_upt_Some)
  then show ?thesis by (simp add: this_cpu_def)
qed

lemma on_cpu_ok:
  assumes "smp_inv m" and "i < ncpu (fst m)"
  shows "cpu_ok (on_cpu i m)" "depth (on_cpu i m) = int (card (owned i m))"
  using assms by (auto simp: cpu_ok_def depth_def this_on_cpu smp_inv_def)

lemma apicids_upd_nth:
  "(\<And>c. apicid (f c) = apicid c) \<Longrightarrow> map apicid (take n (upd_nth i f xs)) = map apicid (take n xs)"
  by (rule nth_equalityI) (simp_all add: apicid_upd_nth)

lemma smp_inv_acquire:
  assumes inv: "smp_inv m" and i: "i < ncpu (fst m)" and a: "acquire lk (on_cpu i m) = Inr s"
  shows "smp_inv (off_cpu i m s)"
proof -
  note ok = on_cpu_ok [OF inv i] and tc = this_on_cpu [OF inv i]
  from a have s: "s = acquired lk (on_cpu i m)" and free: "lk_locked (locks (fst m) lk) = 0"
    by (auto simp: acquire_cases [OF ok(1)] split: if_splits)
  have lf: "lock_free lk (fst m)"
    using inv free by (auto simp: smp_inv_def)
  have c: "cpus s = upd_nth i (enter_cli (snd m i)) (cpus (fst m))"
    and l: "locks s = (locks (fst m))(lk := \<lparr>lk_locked = 1, lk_cpu = Some i\<rparr>)"
    and n: "ncpu s = ncpu (fst m)" and e: "\<not> eflags_if s"
    by (simp_all add: s acquired_def pushed_def tc)
  have own: "owned j (off_cpu i m s) = (if j = i then insert lk (owned i m) else owned j m)" for j
    using lf by (auto simp: owned_def l lock_free_def)
  have new: "lk \<notin> owned i m" using lf by (simp add: owned_def lock_free_def)
  have nth: "cpus s ! j = (if j = i then enter_cli (snd m i) (cpus (fst m) ! j) else cpus (fst m) ! j)"
    if "j < ncpu (fst m)" for j
    using that inv by (auto simp: c smp_inv_def)
  show ?thesis
    using inv new i
    by (auto simp: smp_inv_def own n nth e l apicids_upd_nth c lock_free_def enter_cli_def)
qed

lemma smp_inv_release:
  assumes inv: "smp_inv m" and i: "i < ncpu (fst m)" and r: "release lk (on_cpu i m) = Inr s"
  shows "smp_inv (off_cpu i m s)"
proof -
  note ok = on_cpu_ok [OF inv i] and tc = this_on_cpu [OF inv i]
  have held: "lock_held lk (on_cpu i m)"
    using r by (auto simp: release_def holding_ok [OF ok(1)] split: if_splits)
  have mem: "lk \<in> owned i m" using held by (simp add: lock_held_def tc owned_def)
  have fin: "finite (owned i m)" and cnt: "ncli (cpus (fst m) ! i) = int (card (owned i m))"
    using inv i by (auto simp: smp_inv_def)
  have pos: "0 < card (owned i m)" using mem fin by (auto simp: card_gt_0_iff)
  then have s: "s = released lk (on_cpu i m)"
    using r held by (simp add: release_cases [OF ok(1)] ok(2))
  have c: "cpus s = upd_nth i (ncli_update (\<lambda>n. n - 1)) (cpus (fst m))"
    and l: "locks s = (locks (fst m))(lk := \<lparr>lk_locked = 0, lk_cpu = None\<rparr>)"
    and n: "ncpu s = ncpu (fst m)" and e: "eflags_if s \<longrightarrow> card (owned i m) = 1"
    by (simp_all add: s released_def popped_def tc ok(2))
  have own: "owned j (off_cpu i m s) = (if j = i then owned i m - {lk} else owned j m)" for j
    using mem by (auto simp: owned_def l)
  have crd: "int (card (owned i m - {lk})) = int (card (owned i m)) - 1"
    using mem fin pos by (simp add: card_Diff_singleton)
  have nth: "cpus s ! j = (if j = i then ncli_update (\<lambda>n. n - 1) (cpus (fst m) ! j) else cpus (fst m) ! j)"
    if "j < ncpu (fst m)" for j
    using that inv by (auto simp: c smp_inv_def)
  show ?thesis
    using inv i e
    by (auto simp: smp_inv_def own n nth l apicids_upd_nth c lock_free_def crd cnt)
qed

lemma smp_inv_holding:
  assumes inv: "smp_inv m" and i: "i < ncpu (fst m)" and h: "holding lk (on_cpu i m) = Inr (b, s)"
  shows "smp_inv (off_cpu i m s)"
proof -
  note ok = on_cpu_ok [OF inv i] and tc = this_on_cpu [OF inv i]
  from h have s: "s = noted (on_cpu i m)" by (simp add: holding_ok [OF ok(1)])
  have c: "cpus s = upd_nth i (\<lambda>c. c\<lparr>intena := (if ncli c = 0 then snd m i else intena c)\<rparr>) (cpus (fst m))"
    and l: "locks s = locks (fst m)" and n: "ncpu s = ncpu (fst m)" and e: "eflags_if s = snd m i"
    by (simp_all add: s noted_def tc cong: if_cong)
  have own: "owned j (off_cpu i m s) = owned j m" for j by (simp add: owned_def l)
  have nth: "ncli (cpus s ! j) = ncli (cpus (fst m) ! j)" if "j < ncpu (fst m)" for j
    using that inv by (auto simp: c smp_inv_def upd_nth_nth)
  have len: "length (cpus s) = length (cpus (fst m))"
    and ap: "map apicid (take k (cpus s)) = map apicid (take k (cpus (fst m)))" for k
    by (simp_all add: c apicids_upd_nth)
  show ?thesis
    using inv i by (auto simp: smp_inv_def own n nth l len ap lock_free_def e)
qed

lemma smp_init_inv: "smp_init m \<Longrightarrow> smp_inv m"
  by (auto simp: smp_init_def smp_inv_def owned_def lock_free_def)

lemma smp_reach_inv: "smp_reach m \<Longrightarrow> smp_inv m"
proof (induction rule: smp_reach.induct)
  case (smp_next m m')
  from smp_next.hyps(2) smp_next.IH show ?case
    by (cases rule: smp_step.cases) (auto intro: smp_inv_acquire smp_inv_release smp_inv_holding)
qed (rule smp_init_inv)

section \<open>A concrete machine\<close>

lemma this_boot: "this_cpu boot_mach = 1"
  by (simp add: this_cpu_def boot_mach_def upt_rec)

lemma boot_mach_ok: "cpu_ok boot_mach" "lock_free lk boot_mach"
  by (simp_all add: cpu_ok_def depth_def this_boot) (simp_all add: boot_mach_def lock_free_def)

lemma boot_smp1_facts:
  "smp_reach boot_smp1" "L_ptable \<in> owned 1 boot_smp1" "ncpu (fst boot_smp1) = 2"
  "depth (on_cpu 1 boot_smp1) = 1"
proof -
  let ?m = "(boot_mach, \<lambda>_. True)"
  have i: "smp_init ?m"
    by (auto simp: smp_init_def boot_mach_ok) (auto simp: boot_mach_def less_2_cases_iff)
  have m1: "boot_smp1 = off_cpu 1 ?m (acquired L_ptable (on_cpu 1 ?m))"
    by (simp add: boot_smp1_def)
  have inv: "smp_inv ?m" using i by (rule smp_init_inv)
  have n: "1 < ncpu (fst ?m)" by (simp add: boot_mach_def)
  have "acquire L_ptable (on_cpu 1 ?m) = Inr (acquired L_ptable (on_cpu 1 ?m))"
    using boot_mach_ok(2) [of L_ptable] by (intro acquire_ok on_cpu_ok [OF inv n]) (simp add: lock_free_def)
  with n have st: "smp_step ?m boot_smp1"
    unfolding m1 by (rule smp_acquire)
  show r: "smp_reach boot_smp1" using smp_start [OF i] st by (rule smp_next)
  show o: "L_ptable \<in> owned 1 boot_smp1"
    by (simp add: m1 owned_def acquired_def this_on_cpu [OF inv n, simplified])
  show n1: "ncpu (fst boot_smp1) = 2"
    by (simp add: m1 acquired_def pushed_def boot_mach_def)
  have "owned 1 boot_smp1 = {L_ptable}"
    using boot_mach_ok(2)
    by (auto simp: m1 owned_def acquired_def lock_free_def this_on_cpu [OF inv n, simplified] split: if_splits)
  then show "depth (on_cpu 1 boot_smp1) = 1"
    using on_cpu_ok(2) [OF smp_reach_inv [OF r], of 1] n1 by simp
qed

section \<open>Properties\<close>

text \<open>C13: acquiring a free lock and releasing it again returns normally, and the machine is
  back where it was: every lock, the interrupt flag and the nesting depth are as before; only
  an outermost section has noted the interrupt flag it found in \<open>intena\<close>.\<close>

theorem acquire_release_roundtrip:
  assumes "cpu_ok s" and "lock_free lk s"
  shows "bindR (acquire lk s) (release lk) = Inr (noted s)"
proof -
  have "release lk (acquired lk s) = Inr (released lk (acquired lk s))"
    using assms(1) cpu_ok_depth [OF assms(1)] by (intro release_ok) simp_all
  then show ?thesis
    using assms by (simp add: acquire_ok released_acquired)
qed

theorem acquire_release_roundtrip_witness:
  "cpu_ok boot_mach \<and> lock_free L_ptable boot_mach \<and>
   bindR (acquire L_ptable boot_mach) (release L_ptable) = Inr (noted boot_mach)"
  using acquire_release_roundtrip [of boot_mach L_ptable] boot_mach_ok by simp





end
