(* ===== verification/Memory.thy ===== *)
theory Memory
  imports Xv6_Prelude
begin

unbundle bit_operations_syntax

text \<open>
  Byte-addressed memory and the block operations of \<open>string.c\<close> (with the string
  instructions \<open>stosb\<close> and \<open>stosl\<close> of \<open>x86.h\<close> they use). A memory maps every 32-bit
  address to a byte; an operation that writes returns the new memory. Loops that run a given
  number of times recurse on that number; address arithmetic wraps as on the machine.
\<close>

type_synonym memory = "u32 \<Rightarrow> u8"

definition load32 :: "memory \<Rightarrow> u32 \<Rightarrow> u32" where
  "load32 m a = ucast (m a) OR push_bit 8 (ucast (m (a + 1))) OR
     push_bit 16 (ucast (m (a + 2))) OR push_bit 24 (ucast (m (a + 3)))"

definition store32 :: "memory \<Rightarrow> u32 \<Rightarrow> u32 \<Rightarrow> memory" where
  "store32 m a v = m(a := ucast v, a + 1 := ucast (drop_bit 8 v),
     a + 2 := ucast (drop_bit 16 v), a + 3 := ucast (drop_bit 24 v))"

definition store16 :: "memory \<Rightarrow> u32 \<Rightarrow> u16 \<Rightarrow> memory" where
  "store16 m a v = m(a := ucast v, a + 1 := ucast (drop_bit 8 v))"

fun stosb :: "memory \<Rightarrow> u32 \<Rightarrow> u8 \<Rightarrow> nat \<Rightarrow> memory" where
  "stosb m addr data 0 = m"
| "stosb m addr data (Suc cnt) = stosb (m(addr := data)) (addr + 1) data cnt"

fun stosl :: "memory \<Rightarrow> u32 \<Rightarrow> u32 \<Rightarrow> nat \<Rightarrow> memory" where
  "stosl m addr data 0 = m"
| "stosl m addr data (Suc cnt) = stosl (store32 m addr data) (addr + 4) data cnt"

definition memset :: "memory \<Rightarrow> u32 \<Rightarrow> u32 \<Rightarrow> u32 \<Rightarrow> memory" where
  "memset m dst c n =
     (if dst mod 4 = 0 \<and> n mod 4 = 0 then
        let c = c AND 0xFF
        in stosl m dst (push_bit 24 c OR push_bit 16 c OR push_bit 8 c OR c) (unat (n div 4))
      else stosb m dst (ucast c) (unat n))"

fun memcmp :: "memory \<Rightarrow> u32 \<Rightarrow> u32 \<Rightarrow> nat \<Rightarrow> int" where
  "memcmp m s1 s2 0 = 0"
| "memcmp m s1 s2 (Suc n) =
     (if m s1 \<noteq> m s2 then uint (m s1) - uint (m s2) else memcmp m (s1 + 1) (s2 + 1) n)"

fun move_up :: "memory \<Rightarrow> u32 \<Rightarrow> u32 \<Rightarrow> nat \<Rightarrow> memory" where
  "move_up m d s 0 = m"
| "move_up m d s (Suc n) = move_up (m(d := m s)) (d + 1) (s + 1) n"

fun move_down :: "memory \<Rightarrow> u32 \<Rightarrow> u32 \<Rightarrow> nat \<Rightarrow> memory" where
  "move_down m d s 0 = m"
| "move_down m d s (Suc n) = move_down (m(d - 1 := m (s - 1))) (d - 1) (s - 1) n"

definition memmove :: "memory \<Rightarrow> u32 \<Rightarrow> u32 \<Rightarrow> u32 \<Rightarrow> memory" where
  "memmove m dst src n =
     (if src < dst \<and> src + n > dst then move_down m (dst + n) (src + n) (unat n)
      else move_up m dst src (unat n))"

definition memcpy :: "memory \<Rightarrow> u32 \<Rightarrow> u32 \<Rightarrow> u32 \<Rightarrow> memory" where
  "memcpy m dst src n = memmove m dst src n"

fun strncmp :: "memory \<Rightarrow> u32 \<Rightarrow> u32 \<Rightarrow> nat \<Rightarrow> int" where
  "strncmp m p q 0 = 0"
| "strncmp m p q (Suc n) =
     (if m p \<noteq> 0 \<and> m p = m q then strncmp m (p + 1) (q + 1) n
      else uint (m p) - uint (m q))"

fun strncpy_pad :: "memory \<Rightarrow> u32 \<Rightarrow> nat \<Rightarrow> memory" where
  "strncpy_pad m s 0 = m"
| "strncpy_pad m s (Suc n) = strncpy_pad (m(s := 0)) (s + 1) n"

fun strncpy :: "memory \<Rightarrow> u32 \<Rightarrow> u32 \<Rightarrow> nat \<Rightarrow> memory" where
  "strncpy m s t 0 = m"
| "strncpy m s t (Suc n) =
     (let c = m t; m = m(s := c)
      in if c \<noteq> 0 then strncpy m (s + 1) (t + 1) n else strncpy_pad m (s + 1) n)"

fun safestrcpy_loop :: "memory \<Rightarrow> u32 \<Rightarrow> u32 \<Rightarrow> nat \<Rightarrow> memory" where
  "safestrcpy_loop m s t 0 = m(s := 0)"
| "safestrcpy_loop m s t (Suc n) =
     (let c = m t; m = m(s := c)
      in if c \<noteq> 0 then safestrcpy_loop m (s + 1) (t + 1) n else m(s + 1 := 0))"

definition safestrcpy :: "memory \<Rightarrow> u32 \<Rightarrow> u32 \<Rightarrow> int \<Rightarrow> memory" where
  "safestrcpy m s t n = (if n \<le> 0 then m else safestrcpy_loop m s t (nat n - 1))"

partial_function (option) strlen_from :: "memory \<Rightarrow> u32 \<Rightarrow> nat \<Rightarrow> nat option" where
  "strlen_from m s n = (if m (s + of_nat n) = 0 then Some n else strlen_from m s (Suc n))"

definition strlen :: "memory \<Rightarrow> u32 \<Rightarrow> nat option" where
  "strlen m s = strlen_from m s 0"

text \<open>\<open>cstr m a\<close>: the NUL-terminated string at \<open>a\<close>, without its NUL.\<close>

definition cstr :: "memory \<Rightarrow> u32 \<Rightarrow> u8 list option" where
  "cstr m a = map_option (\<lambda>k. map (\<lambda>i. m (a + of_nat i)) [0..<k]) (strlen m a)"

text \<open>A block of bytes at an address: its contents, and the memory with other contents there.\<close>

definition load_bytes :: "memory \<Rightarrow> u32 \<Rightarrow> nat \<Rightarrow> u8 list" where
  "load_bytes m a n = map (\<lambda>i. m (a + of_nat i)) [0..<n]"

fun store_bytes :: "memory \<Rightarrow> u32 \<Rightarrow> u8 list \<Rightarrow> memory" where
  "store_bytes m a [] = m"
| "store_bytes m a (x # xs) = store_bytes (m(a := x)) (a + 1) xs"

text \<open>The \<open>n\<close> bytes at \<open>a\<close> and the \<open>k\<close> bytes at \<open>b\<close> do not overlap.\<close>

definition apart :: "u32 \<Rightarrow> nat \<Rightarrow> u32 \<Rightarrow> nat \<Rightarrow> bool" where
  "apart a n b k \<longleftrightarrow> (\<forall>i<n. \<forall>j<k. a + of_nat i \<noteq> b + of_nat j)"

section \<open>Words of memory\<close>

lemma load32_store32 [simp]: "load32 (store32 m a v) a = v"
proof (rule bit_word_eqI)
  fix n assume "n < LENGTH(32)"
  then consider "n < 8" | "8 \<le> n" "n < 16" | "16 \<le> n" "n < 24" | "24 \<le> n" "n < 32" by fastforce
  then show "bit (load32 (store32 m a v) a) n = bit v n"
    by cases (auto simp: load32_def store32_def bit_simps)
qed

lemma store32_other:
  "b - a \<ge> 4 \<Longrightarrow> store32 m a v b = m b"
  by (auto simp: store32_def word_le_nat_alt)

lemma aligned_apart:
  fixes a b :: u32
  assumes "a mod 4 = 0" and "b mod 4 = 0" and "a \<noteq> b" and "k < 4"
  shows "4 \<le> b + k - a"
proof -
  have "unat a mod 4 = 0" "unat b mod 4 = 0"
    using arg_cong [OF assms(1), of unat] arg_cong [OF assms(2), of unat] by (simp_all add: unat_mod)
  then obtain x y where x: "unat a = 4 * x" and y: "unat b = 4 * y" by (auto elim!: dvdE)
  have "x < 1073741824" "y < 1073741824" "unat k < 4" "x \<noteq> y"
    using unat_u32_less [of a] unat_u32_less [of b] assms(3,4) x y
    by (auto simp: word_less_nat_alt u32_eq_iff)
  then show ?thesis by (auto simp: u32_nat x y)
qed

lemma load32_store32_other:
  assumes "a mod 4 = 0" and "b mod 4 = 0" and "a \<noteq> b"
  shows "load32 (store32 m a v) b = load32 m b"
proof -
  have k: "4 \<le> b + k - a" if "k < 4" for k
    using assms that by (rule aligned_apart)
  show ?thesis
    using k [of 0] k [of 1] k [of 2] k [of 3] by (simp add: load32_def store32_other)
qed

section \<open>Filling\<close>

lemma offset_Suc:
  fixes a d :: u32
  assumes "n < 4294967295"
  shows "unat (a - (d + 1)) < n \<longleftrightarrow> unat (a - d) < Suc n \<and> a \<noteq> d"
  using assms unat_u32_less [of a] unat_u32_less [of d]
  by (simp add: u32_nat split: if_splits) arith

lemma stosb_apply: "n < 2 ^ 32 \<Longrightarrow> stosb m d c n a = (if unat (a - d) < n then c else m a)"
proof (induction n arbitrary: m d)
  case (Suc n)
  then show ?case using offset_Suc [of n a d] by auto
qed simp


lemma stosl_apply:
  assumes "4 * n \<le> 4294967292"
  shows "stosl m d v n a = (if unat (a - d) < 4 * n
     then ucast (drop_bit (8 * (unat (a - d) mod 4)) v) else m a)"
  using assms
proof (induction n arbitrary: m d)
  case (Suc n)
  have o: "unat (a - (d + 4)) = (if 4 \<le> unat (a - d) then unat (a - d) - 4 else unat (a - d) + 4294967292)"
    using unat_u32_less [of a] unat_u32_less [of d] by (auto simp: u32_nat)
  show ?case
  proof (cases "unat (a - d) < 4")
    case True
    then consider "unat (a - d) = 0" | "unat (a - d) = 1" | "unat (a - d) = 2" | "unat (a - d) = 3"
      by linarith
    then have "store32 m d v a = ucast (drop_bit (8 * unat (a - d)) v)"
    proof cases
      case 1 then have "a = d" by (simp add: unat_eq_0) then show ?thesis using 1 by (simp add: store32_def)
    next
      case 2 then have "a - d = 1" by (simp add: u32_eq_iff) then have "a = d + 1" by (simp add: algebra_simps)
      then show ?thesis using 2 by (simp add: store32_def)
    next
      case 3 then have "a - d = 2" by (simp add: u32_eq_iff) then have "a = d + 2" by (simp add: algebra_simps)
      then show ?thesis using 3 by (simp add: store32_def)
    next
      case 4 then have "a - d = 3" by (simp add: u32_eq_iff) then have "a = d + 3" by (simp add: algebra_simps)
      then show ?thesis using 4 by (simp add: store32_def)
    qed
    with True Suc o show ?thesis by simp
  next
    case False
    then have "store32 m d v a = m a" by (intro store32_other) (simp add: word_le_nat_alt)
    moreover have "(unat (a - d) - 4) mod 4 = unat (a - d) mod 4"
      using False by (metis mod_add_self2 le_add_diff_inverse2 not_less)
    ultimately show ?thesis using False Suc o by auto
  qed
qed simp

text \<open>Whichever instruction it uses, \<open>memset\<close> fills exactly the \<open>n\<close> bytes at \<open>dst\<close>.\<close>

lemma memset_apply: "memset m dst c n a = (if a - dst < n then ucast c else m a)"
proof (cases "dst mod 4 = 0 \<and> n mod 4 = 0")
  case True
  let ?w = "push_bit 24 (c AND 0xFF) OR push_bit 16 (c AND 0xFF) OR push_bit 8 (c AND 0xFF) OR (c AND 0xFF)"
  have "unat n mod 4 = 0" using True unat_mod [of n 4] by simp
  then have n: "4 * unat (n div 4) = unat n" by (simp add: unat_div) presburger
  have le: "4 * unat (n div 4) \<le> 4294967292"
  proof -
    have "unat (n div 4) < 1073741824" using unat_u32_less [of n] by (simp add: unat_div)
    then show ?thesis by simp
  qed
  have mask: "c AND 0xFF = take_bit 8 c" by (simp add: take_bit_eq_mask mask_eq_exp_minus_1)
  have byte: "ucast (drop_bit (8 * k) ?w) = (ucast c :: u8)" if "k < 4" for k
  proof (rule bit_word_eqI)
    fix i assume "i < LENGTH(8)"
    then have i: "i < 8" by simp
    from that consider "k = 0" | "k = 1" | "k = 2" | "k = 3" by linarith
    then show "bit (ucast (drop_bit (8 * k) ?w) :: u8) i = bit (ucast c :: u8) i"
      using i by cases (auto simp: mask bit_simps)
  qed
  have "memset m dst c n a = (if unat (a - dst) < unat n
      then ucast (drop_bit (8 * (unat (a - dst) mod 4)) ?w) else m a)"
    using True by (simp add: memset_def Let_def stosl_apply [OF le] n)
  then show ?thesis using byte [of "unat (a - dst) mod 4"] by (simp add: word_less_nat_alt)
next
  case False
  then have "memset m dst c n = stosb m dst (ucast c) (unat n)"
    unfolding memset_def by (rule if_not_P)
  then show ?thesis using unat_u32_less [of n] by (simp add: stosb_apply word_less_nat_alt)
qed

section \<open>Copying\<close>

lemma move_up_apply:
  assumes "unat d + n \<le> 4294967296" and "unat s + n \<le> 4294967296"
    and "unat d \<le> unat s \<or> unat s + n \<le> unat d"
  shows "move_up m d s n a = (if unat d \<le> unat a \<and> unat a < unat d + n then m (s + (a - d)) else m a)"
  using assms
proof (induction n arbitrary: m d s)
  case (Suc n)
  show ?case
  proof (cases "n = 0")
    case True
    have "unat d = unat a \<longleftrightarrow> a = d" by (auto simp: u32_eq_iff)
    with True show ?thesis by (auto simp: le_less_Suc_eq)
  next
    case False
    have d1: "unat (d + 1) = unat d + 1" and s1: "unat (s + 1) = unat s + 1"
      using Suc.prems False by (simp_all add: unat_u32_add)
    have "s + 1 + (a - (d + 1)) = s + (a - d)" by simp
    moreover have "s + (a - d) \<noteq> d" if "unat d < unat a" "unat a < unat d + Suc n"
      using that Suc.prems by (auto simp: u32_nat split: if_splits)
    moreover have "unat a = unat d \<longleftrightarrow> a = d" by (auto simp: u32_eq_iff)
    moreover have "move_up (m(d := m s)) (d + 1) (s + 1) n a =
        (if unat d + 1 \<le> unat a \<and> unat a < unat d + 1 + n then (m(d := m s)) (s + 1 + (a - (d + 1)))
         else (m(d := m s)) a)"
      by (subst Suc.IH) (use Suc.prems False in \<open>auto simp: d1 s1\<close>)
    ultimately show ?thesis by auto
  qed
qed auto

lemma move_down_apply:
  assumes "n \<le> unat d" and "n \<le> unat s" and "unat s \<le> unat d"
  shows "move_down m d s n a =
    (if unat d - n \<le> unat a \<and> unat a < unat d then m (s + (a - d)) else m a)"
  using assms
proof (induction n arbitrary: m d s)
  case (Suc n)
  have d1: "unat (d - 1) = unat d - 1" and s1: "unat (s - 1) = unat s - 1"
    using Suc.prems by (simp_all add: unat_u32_sub)
  have "s - 1 + (a - (d - 1)) = s + (a - d)" by simp
  moreover have "s + (a - d) \<noteq> d - 1" if "unat a < unat d - 1" "unat d - Suc n \<le> unat a"
    using that Suc.prems unat_u32_less [of s] by (auto simp: u32_nat split: if_splits)
  moreover have "a = d - 1 \<Longrightarrow> s + (a - d) = s - 1" by simp
  moreover have "unat a = unat d - 1 \<longleftrightarrow> a = d - 1" by (auto simp: u32_eq_iff d1)
  moreover have "move_down (m(d - 1 := m (s - 1))) (d - 1) (s - 1) n a =
      (if unat d - 1 - n \<le> unat a \<and> unat a < unat d - 1
       then (m(d - 1 := m (s - 1))) (s - 1 + (a - (d - 1))) else (m(d - 1 := m (s - 1))) a)"
    by (subst Suc.IH) (use Suc.prems in \<open>auto simp: d1 s1\<close>)
  moreover have "unat d - 1 - n = unat d - Suc n" by simp
  ultimately show ?case using Suc.prems
    by (cases "a = d - 1"; cases "unat a < unat d - 1") auto
qed auto

text \<open>\<open>memmove\<close> copies correctly also when the two blocks overlap.\<close>

lemma memmove_apply:
  assumes "unat dst + unat n < 4294967296" and "unat src + unat n < 4294967296"
  shows "memmove m dst src n a = (if a - dst < n then m (src + (a - dst)) else m a)"
proof -
  have in_range: "unat (a - dst) < unat n \<longleftrightarrow> unat dst \<le> unat a \<and> unat a < unat dst + unat n"
    using assms unat_u32_less [of a] by (auto simp: u32_nat)
  show ?thesis
  proof (cases "src < dst \<and> src + n > dst")
    case True
    have "src + n + (a - (dst + n)) = src + (a - dst)" by simp
    then show ?thesis
      using True assms move_down_apply [of "unat n" "dst + n" "src + n" m a]
      by (auto simp: memmove_def in_range unat_u32_add word_less_nat_alt)
  next
    case False
    then show ?thesis
      using assms move_up_apply [of dst "unat n" src m a]
      by (auto simp: memmove_def in_range unat_u32_add word_less_nat_alt)
  qed
qed

section \<open>Strings\<close>

lemma u32_offset_inj:
  fixes s :: u32
  assumes "i < 4294967296" and "j < 4294967296"
  shows "s + of_nat i = s + of_nat j \<longleftrightarrow> i = j"
  using assms by (auto simp: word_of_nat_eq_iff take_bit_eq_mod)

lemma strlen_from_finds:
  "(\<forall>i. n \<le> i \<and> i < k \<longrightarrow> m (s + of_nat i) \<noteq> 0) \<Longrightarrow> n \<le> k \<Longrightarrow> m (s + of_nat k) = 0
    \<Longrightarrow> strlen_from m s n = Some k"
proof (induction "k - n" arbitrary: n)
  case (Suc d)
  then show ?case by (subst strlen_from.simps) auto
qed (simp add: strlen_from.simps)

lemma strlen_from_Some:
  assumes "strlen_from m s n = Some k"
  shows "n \<le> k \<and> m (s + of_nat k) = 0 \<and> (\<forall>i. n \<le> i \<and> i < k \<longrightarrow> m (s + of_nat i) \<noteq> 0)"
proof (rule strlen_from.raw_induct [where P = "\<lambda>m s n k. n \<le> k \<and> m (s + of_nat k) = 0 \<and>
      (\<forall>i. n \<le> i \<and> i < k \<longrightarrow> m (s + of_nat i) \<noteq> 0)", OF _ assms])
  fix f :: "memory \<Rightarrow> u32 \<Rightarrow> nat \<Rightarrow> nat option" and m s n k
  assume IH: "\<And>m s n k. f m s n = Some k \<Longrightarrow>
      n \<le> k \<and> m (s + of_nat k) = 0 \<and> (\<forall>i. n \<le> i \<and> i < k \<longrightarrow> m (s + of_nat i) \<noteq> 0)"
    and eq: "(if m (s + of_nat n) = 0 then Some n else f m s (Suc n)) = Some k"
  show "n \<le> k \<and> m (s + of_nat k) = 0 \<and> (\<forall>i. n \<le> i \<and> i < k \<longrightarrow> m (s + of_nat i) \<noteq> 0)"
  proof (cases "m (s + of_nat n) = 0")
    case False
    with eq IH [of m s "Suc n" k] show ?thesis by (auto simp: Suc_le_eq) (metis le_neq_implies_less)
  qed (use eq in auto)
qed

lemma strlen_iff:
  "strlen m s = Some k \<longleftrightarrow> m (s + of_nat k) = 0 \<and> (\<forall>i<k. m (s + of_nat i) \<noteq> 0)"
  using strlen_from_finds [of 0 k m s] strlen_from_Some [of m s 0 k] by (auto simp: strlen_def)

lemma safestrcpy_loop_frame:
  "(\<forall>j\<le>n. a \<noteq> s + of_nat j) \<Longrightarrow> safestrcpy_loop m s t n a = m a"
proof (induction n arbitrary: m s t)
  case (Suc n)
  have "a \<noteq> s" "a \<noteq> s + 1" using Suc.prems [rule_format, of 0] Suc.prems [rule_format, of 1] by auto
  moreover have "\<forall>j\<le>n. a \<noteq> s + 1 + of_nat j"
  proof (intro allI impI)
    fix j assume "j \<le> n"
    then show "a \<noteq> s + 1 + of_nat j" using Suc.prems [rule_format, of "Suc j"] by (simp add: algebra_simps)
  qed
  ultimately show ?case by (simp add: Let_def Suc.IH)
qed simp

lemma safestrcpy_loop_copies:
  assumes "n < 4294967295" and "apart t (Suc n) s (Suc n)"
  shows "\<exists>k\<le>n. safestrcpy_loop m s t n (s + of_nat k) = 0 \<and>
    (\<forall>i<k. safestrcpy_loop m s t n (s + of_nat i) = m (t + of_nat i) \<and> m (t + of_nat i) \<noteq> 0) \<and>
    (k = n \<or> m (t + of_nat k) = 0)"
  using assms
proof (induction n arbitrary: m s t)
  case (Suc n)
  let ?m = "m(s := m t)"
  show ?case
  proof (cases "m t = 0")
    case True
    have "s + 1 \<noteq> s" by simp
    then show ?thesis using True by (intro exI [of _ 0]) (simp add: Let_def)
  next
    case False
    let ?r = "safestrcpy_loop ?m (s + 1) (t + 1) n"
    have ap: "apart (t + 1) (Suc n) (s + 1) (Suc n)"
      using Suc.prems(2) unfolding apart_def
      by (auto simp: algebra_simps dest: spec [of _ "Suc _"])
    have same: "?m (t + 1 + of_nat i) = m (t + 1 + of_nat i)" if "i \<le> n" for i
    proof -
      have "t + of_nat (Suc i) \<noteq> s + of_nat 0"
        using Suc.prems(2) [unfolded apart_def, rule_format, of "Suc i" 0] that by simp
      then show ?thesis by (simp add: algebra_simps)
    qed
    have "n < 4294967295" using Suc.prems(1) by simp
    from Suc.IH [OF this ap, of ?m] obtain k where k: "k \<le> n" "?r (s + 1 + of_nat k) = 0"
      "\<forall>i<k. ?r (s + 1 + of_nat i) = ?m (t + 1 + of_nat i) \<and> ?m (t + 1 + of_nat i) \<noteq> 0"
      "k = n \<or> ?m (t + 1 + of_nat k) = 0" by blast
    have keep: "?r s = m t"
    proof (subst safestrcpy_loop_frame)
      show "\<forall>j\<le>n. s \<noteq> s + 1 + of_nat j"
        using Suc.prems(1) u32_offset_inj [of 0 "Suc _" s] by (auto simp: algebra_simps)
    qed simp
    have r: "safestrcpy_loop m s t (Suc n) = ?r" using False by (simp add: Let_def)
    show ?thesis unfolding r
    proof (intro exI [of _ "Suc k"] conjI allI impI)
      fix i assume i: "i < Suc k"
      show "?r (s + of_nat i) = m (t + of_nat i)" "m (t + of_nat i) \<noteq> 0"
        using i k(1,3) keep False same by (cases i; force simp: algebra_simps)+
    qed (use k same in \<open>auto simp: algebra_simps\<close>)
  qed
qed simp

lemma cstr_iff:
  "cstr m a = Some xs \<longleftrightarrow> m (a + of_nat (length xs)) = 0 \<and>
     (\<forall>i<length xs. m (a + of_nat i) = xs ! i \<and> xs ! i \<noteq> 0)"
proof
  assume "cstr m a = Some xs"
  then show "m (a + of_nat (length xs)) = 0 \<and> (\<forall>i<length xs. m (a + of_nat i) = xs ! i \<and> xs ! i \<noteq> 0)"
    by (auto simp: cstr_def strlen_iff)
next
  assume r: "m (a + of_nat (length xs)) = 0 \<and> (\<forall>i<length xs. m (a + of_nat i) = xs ! i \<and> xs ! i \<noteq> 0)"
  then have "strlen m a = Some (length xs)" by (simp add: strlen_iff)
  moreover have "map (\<lambda>i. m (a + of_nat i)) [0..<length xs] = xs"
    using r by (intro nth_equalityI) simp_all
  ultimately show "cstr m a = Some xs" by (simp add: cstr_def)
qed

lemma safestrcpy_cstr:
  assumes t: "cstr m t = Some xs" and n: "0 < n" "n < 2 ^ 31" and ap: "apart t (nat n) s (nat n)"
  shows "cstr (safestrcpy m s t n) s = Some (take (nat n - 1) xs)"
proof -
  let ?n = "nat n - 1" and ?r = "safestrcpy m s t n"
  have l: "?r = safestrcpy_loop m s t ?n" using n by (simp add: safestrcpy_def)
  have "apart t (Suc ?n) s (Suc ?n)" "?n < 4294967295" using ap n by simp_all
  from safestrcpy_loop_copies [OF this(2,1), of m] obtain k where k: "k \<le> ?n" "?r (s + of_nat k) = 0"
    "\<forall>i<k. ?r (s + of_nat i) = m (t + of_nat i) \<and> m (t + of_nat i) \<noteq> 0"
    "k = ?n \<or> m (t + of_nat k) = 0" unfolding l by blast
  have xs: "m (t + of_nat (length xs)) = 0" "\<And>i. i < length xs \<Longrightarrow> m (t + of_nat i) = xs ! i \<and> xs ! i \<noteq> 0"
    using t by (simp_all add: cstr_iff)
  have "k \<le> length xs" using k(3) xs(1) by (metis not_le)
  moreover have "k = ?n \<or> k = length xs"
    using k(4) xs(2) \<open>k \<le> length xs\<close> by (metis le_neq_implies_less)
  ultimately have "k = length (take ?n xs)" using k(1) by auto
  with k xs \<open>k \<le> length xs\<close> show ?thesis by (simp add: cstr_iff)
qed

lemma strncmp_0_iff:
  "strncmp m p q n = 0 \<longleftrightarrow>
     (\<forall>i<n. (\<forall>j<i. m (p + of_nat j) \<noteq> 0) \<longrightarrow> m (p + of_nat i) = m (q + of_nat i))"
proof (induction n arbitrary: p q)
  case (Suc n)
  have split: "(\<forall>i<Suc n. P i) \<longleftrightarrow> P 0 \<and> (\<forall>i<n. P (Suc i))" for P
    by (auto simp: less_Suc_eq_0_disj)
  have pre: "(\<forall>j<Suc i. Q j) \<longleftrightarrow> Q 0 \<and> (\<forall>j<i. Q (Suc j))" for Q :: "nat \<Rightarrow> bool" and i
    by (auto simp: less_Suc_eq_0_disj)
  show ?case
    unfolding split pre by (auto simp: Suc.IH algebra_simps uint_0_iff simp flip: word_uint_eq_iff)
qed simp

lemma strncmp_cstr:
  assumes "cstr m p = Some xs" and "cstr m q = Some ys"
  shows "strncmp m p q n = 0 \<longleftrightarrow> take n xs = take n ys"
proof
  have x: "m (p + of_nat (length xs)) = 0" "\<And>i. i < length xs \<Longrightarrow> m (p + of_nat i) = xs ! i \<and> xs ! i \<noteq> 0"
    and y: "m (q + of_nat (length ys)) = 0" "\<And>i. i < length ys \<Longrightarrow> m (q + of_nat i) = ys ! i \<and> ys ! i \<noteq> 0"
    using assms by (simp_all add: cstr_iff)
  {
    assume "strncmp m p q n = 0"
    then have eq: "m (p + of_nat i) = m (q + of_nat i)" if "i < n" "i \<le> length xs" for i
      using that x(2) by (auto simp: strncmp_0_iff)
    have len: "length xs \<ge> n \<or> length ys = length xs"
    proof (rule ccontr)
      assume a: "\<not> (length xs \<ge> n \<or> length ys = length xs)"
      then have "m (q + of_nat (length xs)) = 0" using eq [of "length xs"] x(1) by simp
      then have "length ys \<le> length xs" using y(2) by (metis not_le)
      moreover have "length xs \<le> length ys"
        using a eq [of "length ys"] x(2) [of "length ys"] y(1) by (cases "length ys < length xs") auto
      ultimately show False using a by simp
    qed
    have ylen: "n \<le> length ys" if "n \<le> length xs"
      using that eq [of "length ys"] x(2) [of "length ys"] y(1) by (cases "n \<le> length ys") auto
    show "take n xs = take n ys"
    proof (rule nth_equalityI)
      show "length (take n xs) = length (take n ys)" using len ylen by (auto simp: min_def)
      fix i assume "i < length (take n xs)"
      then show "take n xs ! i = take n ys ! i"
        using eq [of i] x(2) [of i] y(2) [of i] len ylen by auto
    qed
  }
  assume tk: "take n xs = take n ys"
  show "strncmp m p q n = 0"
    unfolding strncmp_0_iff
  proof (intro allI impI)
    fix i assume i: "i < n" and nz: "\<forall>j<i. m (p + of_nat j) \<noteq> 0"
    have "i \<le> length xs" using nz x(1) by (metis not_le)
    moreover have "length xs = length ys \<or> n \<le> length xs \<and> n \<le> length ys"
      using arg_cong [OF tk, of length] by (auto simp: min_def split: if_splits)
    moreover have "xs ! i = ys ! i" if "i < length xs"
      using arg_cong [OF tk, of "\<lambda>zs. zs ! i"] i that by simp
    ultimately show "m (p + of_nat i) = m (q + of_nat i)"
      using x y i by (cases "i = length xs") (auto simp: le_less)
  qed
qed

section \<open>Properties\<close>

text \<open>C15: \<open>memmove\<close> is correct for overlapping blocks in either direction: afterwards the
  \<open>n\<close> bytes at \<open>dst\<close> are the bytes that were at \<open>src\<close>, and no other byte has changed.\<close>

theorem memmove_overlapping:
  assumes "unat dst + unat n < 2 ^ 32" and "unat src + unat n < 2 ^ 32"
  shows "map (\<lambda>i. memmove m dst src n (dst + of_nat i)) [0..<unat n] =
      map (\<lambda>i. m (src + of_nat i)) [0..<unat n] \<and>
    (\<forall>a. n \<le> a - dst \<longrightarrow> memmove m dst src n a = m a)"
proof -
  have r: "memmove m dst src n a = (if a - dst < n then m (src + (a - dst)) else m a)" for a
    using assms by (intro memmove_apply) simp_all
  have "(of_nat i :: u32) < n" if "i < unat n" for i
    using that unat_u32_less [of n] by (simp add: word_less_nat_alt unat_of_nat)
  then show ?thesis by (auto simp: r)
qed

theorem memmove_overlapping_witness:
  "unat (101 :: u32) + unat (4 :: u32) < 2 ^ 32 \<and>
   map (\<lambda>i. memmove ucast 101 100 4 (101 + of_nat i)) [0..<4] = [100, 101, 102, 103] \<and>
   memmove ucast 101 100 4 105 = 105"
  using memmove_overlapping [of 101 4 100 ucast]
  by (simp add: upt_rec)

text \<open>\<open>safestrcpy\<close> into a buffer of \<open>n\<close> bytes leaves a NUL-terminated string there, the
  first \<open>n - 1\<close> characters of the source at most.\<close>

theorem safestrcpy_terminates:
  assumes "cstr m t = Some xs" and "0 < n" and "n < 2 ^ 31" and "apart t (nat n) s (nat n)"
  shows "cstr (safestrcpy m s t n) s = Some (take (nat n - 1) xs)"
  using assms by (rule safestrcpy_cstr)

theorem safestrcpy_terminates_witness:
  "cstr (\<lambda>a. if a = 100 then 104 else if a = 101 then 105 else 0) 100 = Some [104, 105] \<and>
   cstr (safestrcpy (\<lambda>a. if a = 100 then 104 else if a = 101 then 105 else 0) 200 100 2) 200 = Some [104]"
proof -
  let ?m = "\<lambda>a :: u32. if a = 100 then 104 else if a = 101 then 105 else 0 :: u8"
  have c: "cstr ?m 100 = Some [104, 105]"
    by (simp add: cstr_iff less_Suc_eq)
  have a: "apart 100 (nat 2) 200 (nat 2)"
    by (auto simp: apart_def less_2_cases_iff)
  show ?thesis using c safestrcpy_terminates [OF c _ _ a] by simp
qed

end
