(* ===== verification/Kalloc.thy ===== *)
theory Kalloc
  imports Spinlock Memory
begin

unbundle bit_operations_syntax

text \<open>
  The physical page allocator of \<open>kalloc.c\<close>, on the memory of theory \<open>Memory\<close>. The free
  list is threaded through the free pages themselves: \<open>struct run\<close> is the first word of a
  page. \<open>mem\<close> is memory at the kernel addresses of \<open>memlayout.h\<close> (a kernel address is a
  physical address plus KERNBASE). \<open>ld_end\<close>, \<open>ld_data\<close>, \<open>ld_forkret\<close> and
  \<open>ld_trapret\<close> are the addresses the linker chose for \<open>end\<close>, \<open>data\<close>, \<open>forkret\<close> and
  \<open>trapret\<close>; no code changes them.
\<close>

record kmem = mach +
  mem :: memory
  freelist :: u32
  use_lock :: bool
  ld_end :: u32
  ld_data :: u32
  ld_forkret :: u32
  ld_trapret :: u32

abbreviation (input) PGSIZE :: u32 where "PGSIZE \<equiv> 4096"
abbreviation (input) KERNBASE :: u32 where "KERNBASE \<equiv> 0x80000000"
abbreviation (input) PHYSTOP :: u32 where "PHYSTOP \<equiv> 0xE000000"
abbreviation (input) EXTMEM :: u32 where "EXTMEM \<equiv> 0x100000"
abbreviation (input) DEVSPACE :: u32 where "DEVSPACE \<equiv> 0xFE000000"
abbreviation (input) KERNLINK :: u32 where "KERNLINK \<equiv> 0x80100000"

definition V2P :: "u32 \<Rightarrow> u32" where "V2P a = a - KERNBASE"

definition P2V :: "u32 \<Rightarrow> u32" where "P2V a = a + KERNBASE"

definition PGROUNDUP :: "u32 \<Rightarrow> u32" where "PGROUNDUP sz = (sz + PGSIZE - 1) AND NOT (PGSIZE - 1)"

definition PGROUNDDOWN :: "u32 \<Rightarrow> u32" where "PGROUNDDOWN a = a AND NOT (PGSIZE - 1)"

definition kfree :: "u32 \<Rightarrow> 'z kmem_scheme \<Rightarrow> ('z kmem_scheme, 'z kmem_scheme) kres" where
  "kfree v s =
     (if v mod PGSIZE \<noteq> 0 \<or> v < ld_end s \<or> V2P v \<ge> PHYSTOP then Inl (Panic ''kfree'')
      else
        let s = s\<lparr>mem := memset (mem s) v 1 PGSIZE\<rparr>
        in bindR (if use_lock s then acquire L_kmem s else Inr s) (\<lambda>s.
           let s = s\<lparr>mem := store32 (mem s) v (freelist s)\<rparr>;
               s = s\<lparr>freelist := v\<rparr>
           in if use_lock s then release L_kmem s else Inr s))"

definition kalloc :: "'z kmem_scheme \<Rightarrow> ('z kmem_scheme, u32 \<times> 'z kmem_scheme) kres" where
  "kalloc s =
     bindR (if use_lock s then acquire L_kmem s else Inr s) (\<lambda>s.
     let r = freelist s;
         s = (if r \<noteq> 0 then s\<lparr>freelist := load32 (mem s) r\<rparr> else s)
     in bindR (if use_lock s then release L_kmem s else Inr s) (\<lambda>s.
        Inr (r, s)))"

text \<open>
  The loop of \<open>freerange\<close>. Each round moves \<open>p\<close> up by a page; should \<open>p\<close> wrap around
  the address space the model stops with \<open>Wrapped\<close>, so the recursion ends.
\<close>

function freerange_loop :: "u32 \<Rightarrow> u32 \<Rightarrow> 'z kmem_scheme \<Rightarrow> ('z kmem_scheme, 'z kmem_scheme) kres" where
  "freerange_loop p vend s =
     (if p + PGSIZE \<le> vend then
        bindR (kfree p s) (\<lambda>s.
        if p + PGSIZE \<le> p then Inl Wrapped else freerange_loop (p + PGSIZE) vend s)
      else Inr s)"
  by pat_completeness auto
termination
  by (relation "measure (\<lambda>(p, vend, s). 4294967296 - unat p)")
    (auto simp: word_le_nat_alt not_le intro!: diff_less_mono2 unat_u32_less)

declare freerange_loop.simps [simp del]

definition freerange :: "u32 \<Rightarrow> u32 \<Rightarrow> 'z kmem_scheme \<Rightarrow> ('z kmem_scheme, 'z kmem_scheme) kres" where
  "freerange vstart vend s = freerange_loop (PGROUNDUP vstart) vend s"

definition kinit1 :: "u32 \<Rightarrow> u32 \<Rightarrow> 'z kmem_scheme \<Rightarrow> ('z kmem_scheme, 'z kmem_scheme) kres" where
  "kinit1 vstart vend s =
     (let s = initlock L_kmem s; s = s\<lparr>use_lock := False\<rparr> in freerange vstart vend s)"

definition kinit2 :: "u32 \<Rightarrow> u32 \<Rightarrow> 'z kmem_scheme \<Rightarrow> ('z kmem_scheme, 'z kmem_scheme) kres" where
  "kinit2 vstart vend s =
     bindR (freerange vstart vend s) (\<lambda>s. Inr (s\<lparr>use_lock := True\<rparr>))"

text \<open>The abstract view: the list of pages threaded through memory from address \<open>r\<close>.\<close>

fun run_list :: "memory \<Rightarrow> u32 \<Rightarrow> u32 list \<Rightarrow> bool" where
  "run_list m r [] \<longleftrightarrow> r = 0"
| "run_list m r (p # ps) \<longleftrightarrow> r = p \<and> p \<noteq> 0 \<and> run_list m (load32 m p) ps"

definition phys_page :: "u32 \<Rightarrow> u32 \<Rightarrow> bool" where
  "phys_page e v \<longleftrightarrow> v mod PGSIZE = 0 \<and> e \<le> v \<and> V2P v < PHYSTOP"

definition kmem_inv :: "u32 list \<Rightarrow> 'z kmem_scheme \<Rightarrow> bool" where
  "kmem_inv ps s \<longleftrightarrow> 0 < ld_end s \<and> distinct ps \<and> (\<forall>p\<in>set ps. phys_page (ld_end s) p) \<and>
     run_list (mem s) (freelist s) ps"

definition page_range :: "u32 \<Rightarrow> nat \<Rightarrow> u32 list" where
  "page_range p n = map (\<lambda>k. p + of_nat k * PGSIZE) [0..<n]"

definition kmem_ready :: "'z kmem_scheme \<Rightarrow> bool" where
  "kmem_ready s \<longleftrightarrow> (use_lock s \<longrightarrow> cpu_ok s \<and> lock_free L_kmem s)"

text \<open>
  The interface of a page allocator: \<open>pages ps s\<close> says that \<open>ps\<close> are the free pages of
  \<open>s\<close>, in the order they will be handed out, and that the allocator can be called.
\<close>

locale page_allocator =
  fixes alloc :: "'s \<Rightarrow> 'e + (u32 \<times> 's)"
    and free :: "u32 \<Rightarrow> 's \<Rightarrow> 'e + 's"
    and page :: "'s \<Rightarrow> u32 \<Rightarrow> bool"
    and pages :: "u32 list \<Rightarrow> 's \<Rightarrow> bool"
  assumes pages_wf: "pages ps s \<Longrightarrow> distinct ps \<and> 0 \<notin> set ps \<and> (\<forall>p\<in>set ps. page s p)"
    and alloc_Cons: "pages (p # ps) s \<Longrightarrow> returnsR (alloc s) (\<lambda>(r, t). r = p \<and> pages ps t \<and> page t = page s)"
    and alloc_Nil: "pages [] s \<Longrightarrow> returnsR (alloc s) (\<lambda>(r, t). r = 0 \<and> pages [] t \<and> page t = page s)"
    and free_page: "pages ps s \<Longrightarrow> page s v \<Longrightarrow> v \<notin> set ps \<Longrightarrow>
      returnsR (free v s) (\<lambda>t. pages (v # ps) t \<and> page t = page s)"
begin

primrec alloc_n :: "nat \<Rightarrow> 's \<Rightarrow> 'e + (u32 list \<times> 's)" where
  "alloc_n 0 s = Inr ([], s)"
| "alloc_n (Suc n) s = bindR (alloc s) (\<lambda>(p, s). bindR (alloc_n n s) (\<lambda>(ps, s). Inr (p # ps, s)))"

lemma alloc_n_takes:
  "pages ps s \<Longrightarrow> n \<le> length ps \<Longrightarrow>
   returnsR (alloc_n n s) (\<lambda>(qs, t). qs = take n ps \<and> pages (drop n ps) t)"
proof (induction n arbitrary: ps s)
  case (Suc n)
  then obtain p ps' where ps: "ps = p # ps'" by (cases ps) auto
  have "returnsR (alloc s) (\<lambda>(r, t). r = p \<and> pages ps' t \<and> page t = page s)"
    using Suc.prems(1) unfolding ps by (rule alloc_Cons)
  then obtain t where t: "alloc s = Inr (p, t)" "pages ps' t" by (auto dest!: returnsR_obtain)
  have "returnsR (alloc_n n t) (\<lambda>(qs, t). qs = take n ps' \<and> pages (drop n ps') t)"
    using t(2) Suc.prems(2) ps by (intro Suc.IH) simp_all
  then show ?case using t(1) by (auto simp: ps dest!: returnsR_obtain)
qed simp

lemma alloc_n_distinct:
  assumes "pages ps s" and "n \<le> length ps"
  shows "returnsR (alloc_n n s) (\<lambda>(qs, t). length qs = n \<and> distinct qs \<and> 0 \<notin> set qs)"
  using alloc_n_takes [OF assms] pages_wf [OF assms(1)] assms(2)
  by (auto elim!: returnsR_mono dest: in_set_takeD)

lemma alloc_free_roundtrip:
  assumes "pages (p # ps) s"
  shows "returnsR (bindR (alloc s) (\<lambda>(r, t). free r t)) (pages (p # ps))"
proof -
  have wf: "p \<notin> set ps" "page s p" using pages_wf [OF assms] by auto
  obtain t where t: "alloc s = Inr (p, t)" "pages ps t" "page t = page s"
    using alloc_Cons [OF assms] by (auto dest!: returnsR_obtain)
  show ?thesis using free_page [OF t(2), of p] wf t by (auto elim: returnsR_mono)
qed

end

text \<open>A machine at boot, with the kernel image ending at 0x80110000.\<close>

definition boot_kmem :: kmem where
  "boot_kmem = \<lparr>cpus = cpus boot_mach, ncpu = ncpu boot_mach, lapic_id = lapic_id boot_mach,
     eflags_if = eflags_if boot_mach, locks = locks boot_mach, mem = (\<lambda>_. 0), freelist = 0,
     use_lock = False, ld_end = 0x80110000, ld_data = 0x80108000, ld_forkret = 0x80103000,
     ld_trapret = 0x80105000\<rparr>"

definition kmem_noted :: "'z kmem_scheme \<Rightarrow> 'z kmem_scheme" where
  "kmem_noted s = (if use_lock s then noted s else s)"

section \<open>Pages do not overlap\<close>

lemma page_apart:
  fixes p q a :: u32
  assumes "p mod 4096 = 0" and "q mod 4096 = 0" and "p \<noteq> q" and "a - p < 4096"
  shows "4096 \<le> a - q"
proof -
  have "unat p mod 4096 = 0" "unat q mod 4096 = 0"
    using arg_cong [OF assms(1), of unat] arg_cong [OF assms(2), of unat] by (simp_all add: unat_mod)
  then obtain x y where x: "unat p = 4096 * x" and y: "unat q = 4096 * y" by (auto elim!: dvdE)
  obtain k where k: "k = a - p" by simp
  have "x < 1048576" "y < 1048576" "unat k < 4096" "x \<noteq> y"
    using unat_u32_less [of p] unat_u32_less [of q] assms(3,4) x y
    by (auto simp: word_less_nat_alt u32_eq_iff k)
  moreover have "a - q = p + k - q" by (simp add: k)
  ultimately show ?thesis by (auto simp: u32_nat x y)
qed

lemma page_word_aligned: "(p :: u32) mod 4096 = 0 \<Longrightarrow> p mod 4 = 0"
proof -
  assume "p mod 4096 = 0"
  then have "unat p mod 4096 = 0" using unat_mod [of p 4096] by simp
  moreover have "unat p mod 4096 mod 4 = unat p mod 4" by (rule mod_mod_cancel) simp
  ultimately have "unat p mod 4 = 0" by simp
  then show ?thesis by (simp add: u32_eq_iff unat_mod)
qed

lemma load32_other_page:
  assumes "p mod 4096 = 0" and "q mod 4096 = 0" and "p \<noteq> q"
    and "\<And>a. 4096 \<le> a - p \<Longrightarrow> m' a = m a"
  shows "load32 m' q = load32 m q"
proof -
  have k: "m' (q + k) = m (q + k)" if "k < 4" for k
  proof -
    have "q + k - q < 4096" using that by (simp add: word_less_nat_alt)
    then show ?thesis using page_apart [of q p "q + k"] assms by simp
  qed
  show ?thesis using k [of 0] k [of 1] k [of 2] k [of 3] by (simp add: load32_def)
qed

lemma store32_in_page: "4096 \<le> a - p \<Longrightarrow> store32 m p v a = m a"
  by (rule store32_other) (simp add: word_le_nat_alt)

section \<open>The free list in memory\<close>

lemma run_list_frame:
  "run_list m r ps \<Longrightarrow> (\<And>p. p \<in> set ps \<Longrightarrow> load32 m' p = load32 m p) \<Longrightarrow> run_list m' r ps"
  by (induction ps arbitrary: r) simp_all

lemma run_list_Nil_iff: "run_list m 0 ps \<longleftrightarrow> ps = []"
  by (cases ps) auto

lemma run_list_unique: "run_list m r ps \<Longrightarrow> run_list m r qs \<Longrightarrow> ps = qs"
proof (induction ps arbitrary: r qs)
  case (Cons p ps)
  then show ?case by (cases qs) auto
qed (simp add: run_list_Nil_iff)

section \<open>One call\<close>

lemma mach_same_kmem [simp]:
  "mach_same t (s\<lparr>mem := a\<rparr>) = mach_same t s" "mach_same t (s\<lparr>freelist := b\<rparr>) = mach_same t s"
  "mach_same t (s\<lparr>use_lock := c\<rparr>) = mach_same t s"
  by (simp_all add: mach_same_def)

lemmas mach_facts_kmem [simp] =
  mach_same_facts [of s "s\<lparr>mem := m\<rparr>" for s m, simplified]
  mach_same_facts [of s "s\<lparr>freelist := r\<rparr>" for s r, simplified]
  mach_same_facts [of s "s\<lparr>use_lock := b\<rparr>" for s b, simplified]

lemma kmem_fields_acquired [simp]:
  "mem (acquired lk s) = mem s" "freelist (acquired lk s) = freelist s"
  "use_lock (acquired lk s) = use_lock s" "ld_end (acquired lk s) = ld_end s"
  "mem (released lk s) = mem s" "freelist (released lk s) = freelist s"
  "use_lock (released lk s) = use_lock s" "ld_end (released lk s) = ld_end s"
  "mem (noted s) = mem s" "freelist (noted s) = freelist s"
  "use_lock (noted s) = use_lock s" "ld_end (noted s) = ld_end s"
  by (simp_all add: acquired_def released_def noted_def pushed_def popped_def)

lemma kmem_more_acquired [simp]:
  "ld_data (acquired lk s) = ld_data s" "ld_forkret (acquired lk s) = ld_forkret s"
  "ld_trapret (acquired lk s) = ld_trapret s" "kmem.more (acquired lk s) = kmem.more s"
  "ld_data (released lk s) = ld_data s" "ld_forkret (released lk s) = ld_forkret s"
  "ld_trapret (released lk s) = ld_trapret s" "kmem.more (released lk s) = kmem.more s"
  "ld_data (noted s) = ld_data s" "ld_forkret (noted s) = ld_forkret s"
  "ld_trapret (noted s) = ld_trapret s" "kmem.more (noted s) = kmem.more s"
  by (simp_all add: acquired_def released_def noted_def pushed_def popped_def)

lemma kmem_eqI:
  assumes "mach_same s t" "mem s = mem t" "freelist s = freelist t" "use_lock s = use_lock t"
    "ld_end s = ld_end t" "ld_data s = ld_data t" "ld_forkret s = ld_forkret t"
    "ld_trapret s = ld_trapret t" "kmem.more s = kmem.more t"
  shows "s = t"
  using assms by (intro kmem.equality) (simp_all add: mach_same_def)

lemma kmem_section:
  assumes "cpu_ok s" and "lock_free L_kmem s"
  shows "release L_kmem ((acquired L_kmem s)\<lparr>mem := m, freelist := r\<rparr>) =
    Inr ((noted s)\<lparr>mem := m, freelist := r\<rparr>)"
proof -
  let ?t = "(acquired L_kmem s)\<lparr>mem := m, freelist := r\<rparr>"
  have same: "mach_same (acquired L_kmem s) ?t" by simp
  note rel = section_release [OF assms same]
  have "released L_kmem ?t = (noted s)\<lparr>mem := m, freelist := r\<rparr>"
    by (rule kmem_eqI) (simp_all add: mach_same_sym [OF rel(2)])
  with rel(1) show ?thesis by simp
qed

lemma kalloc_eq:
  assumes "kmem_ready s"
  shows "kalloc s = Inr (freelist s,
    (kmem_noted s)\<lparr>freelist := (if freelist s \<noteq> 0 then load32 (mem s) (freelist s) else 0)\<rparr>)"
proof (cases "use_lock s")
  case True
  then have ok: "cpu_ok s" "lock_free L_kmem s" using assms by (simp_all add: kmem_ready_def)
  have id: "(acquired L_kmem s)\<lparr>mem := mem s, freelist := r\<rparr> = (acquired L_kmem s)\<lparr>freelist := r\<rparr>"
    "(noted s)\<lparr>mem := mem s, freelist := r\<rparr> = (noted s)\<lparr>freelist := r\<rparr>" for r
    by (rule kmem.equality; simp)+
  have id0: "(acquired L_kmem s)\<lparr>freelist := freelist s\<rparr> = acquired L_kmem s"
    by (rule kmem.equality; simp)
  have rel: "release L_kmem ((acquired L_kmem s)\<lparr>freelist := r\<rparr>) = Inr ((noted s)\<lparr>freelist := r\<rparr>)" for r
    using kmem_section [OF ok, where m = "mem s" and r = r] by (simp only: id)
  have rel0: "release L_kmem (acquired L_kmem s) = Inr ((noted s)\<lparr>freelist := freelist s\<rparr>)"
    using rel [of "freelist s"] by (simp only: id0)
  show ?thesis
    using True by (auto simp: kalloc_def acquire_ok [OF ok] Let_def kmem_noted_def rel rel0)
next
  case False
  have id0: "s\<lparr>freelist := freelist s\<rparr> = s" by simp
  show ?thesis using False id0 by (auto simp: kalloc_def Let_def kmem_noted_def)
qed

lemma kfree_eq:
  assumes "kmem_ready s" and "phys_page (ld_end s) v"
  shows "kfree v s = Inr ((kmem_noted s)\<lparr>mem := store32 (memset (mem s) v 1 PGSIZE) v (freelist s),
    freelist := v\<rparr>)"
proof -
  let ?m = "memset (mem s) v 1 PGSIZE"
  let ?s = "s\<lparr>mem := ?m\<rparr>"
  have page: "\<not> (v mod PGSIZE \<noteq> 0 \<or> v < ld_end s \<or> V2P v \<ge> PHYSTOP)"
    using assms(2) by (auto simp: phys_page_def)
  show ?thesis
  proof (cases "use_lock s")
    case True
    have same: "mach_same s ?s" by simp
    have ok: "cpu_ok ?s" "lock_free L_kmem ?s"
      using assms(1) True by (simp_all add: kmem_ready_def mach_same_facts [OF same])
    have n: "(noted ?s)\<lparr>mem := x, freelist := r\<rparr> = (noted s)\<lparr>mem := x, freelist := r\<rparr>" for x r
      by (rule kmem.equality) (simp_all add: noted_def mach_same_this [OF same] cong: if_cong)
    show ?thesis
      using True page kmem_section [OF ok, where m = "store32 ?m v (freelist s)" and r = v]
      by (simp add: kfree_def acquire_ok [OF ok] Let_def kmem_noted_def n)
  next
    case False
    then show ?thesis using page by (simp add: kfree_def Let_def kmem_noted_def)
  qed
qed

lemma kfree_bad_page:
  "\<not> phys_page (ld_end s) v \<Longrightarrow> kfree v s = Inl (Panic ''kfree'')"
  unfolding kfree_def phys_page_def by (rule if_P) (metis not_le)

section \<open>The allocator meets its interface\<close>

lemma kmem_ready_noted [simp]: "kmem_ready s \<Longrightarrow> kmem_ready (kmem_noted s)"
  by (auto simp: kmem_ready_def kmem_noted_def lock_free_def)

lemma kmem_noted_fields [simp]:
  "mem (kmem_noted s) = mem s" "freelist (kmem_noted s) = freelist s"
  "use_lock (kmem_noted s) = use_lock s" "ld_end (kmem_noted s) = ld_end s"
  by (simp_all add: kmem_noted_def)

lemma kmem_ready_upd [simp]:
  "kmem_ready (s\<lparr>mem := m\<rparr>) = kmem_ready s" "kmem_ready (s\<lparr>freelist := r\<rparr>) = kmem_ready s"
  by (simp_all add: kmem_ready_def)

lemma kmem_inv_page_nonzero: "kmem_inv ps s \<Longrightarrow> p \<in> set ps \<Longrightarrow> p \<noteq> 0"
  by (auto simp: kmem_inv_def phys_page_def word_less_nat_alt word_le_nat_alt)

lemma kalloc_inv:
  assumes "kmem_inv (p # ps) s" and "kmem_ready s"
  shows "returnsR (kalloc s) (\<lambda>(r, t). r = p \<and> kmem_inv ps t \<and> kmem_ready t \<and> mem t = mem s \<and>
    ld_end t = ld_end s \<and> use_lock t = use_lock s)"
  using assms by (auto simp: kalloc_eq kmem_inv_def)

lemma kalloc_empty:
  assumes "kmem_inv [] s" and "kmem_ready s"
  shows "returnsR (kalloc s) (\<lambda>(r, t). r = 0 \<and> kmem_inv [] t \<and> kmem_ready t \<and> mem t = mem s \<and>
    ld_end t = ld_end s \<and> use_lock t = use_lock s)"
  using assms by (auto simp: kalloc_eq kmem_inv_def)

lemma kfree_inv:
  assumes "kmem_inv ps s" and "kmem_ready s" and "phys_page (ld_end s) v" and "v \<notin> set ps"
  shows "returnsR (kfree v s) (\<lambda>t. kmem_inv (v # ps) t \<and> kmem_ready t \<and> ld_end t = ld_end s \<and>
    use_lock t = use_lock s \<and> (\<forall>a. PGSIZE \<le> a - v \<longrightarrow> mem t a = mem s a))"
proof -
  let ?m = "store32 (memset (mem s) v 1 PGSIZE) v (freelist s)"
  have v: "v mod 4096 = 0" "v \<noteq> 0"
    using assms(1,3) by (auto simp: phys_page_def kmem_inv_def word_less_nat_alt word_le_nat_alt)
  have frame: "?m a = mem s a" if "4096 \<le> a - v" for a
    using that by (auto simp: store32_in_page memset_apply not_less)
  have "run_list ?m (freelist s) ps"
  proof (rule run_list_frame)
    show "run_list (mem s) (freelist s) ps" using assms(1) by (simp add: kmem_inv_def)
    fix p assume p: "p \<in> set ps"
    then have "p mod 4096 = 0" "v \<noteq> p" using assms(1,4) by (auto simp: kmem_inv_def phys_page_def)
    then show "load32 ?m p = load32 (mem s) p" by (intro load32_other_page [OF v(1)] frame)
  qed
  then show ?thesis
    using assms v frame by (auto simp: kfree_eq kmem_inv_def)
qed

interpretation kmem_alloc: page_allocator kalloc kfree "\<lambda>s. phys_page (ld_end s)"
  "\<lambda>ps s. kmem_inv ps s \<and> kmem_ready s"
proof (unfold_locales, goal_cases)
  case (1 ps s)
  then show ?case using kmem_inv_page_nonzero [of ps s 0] by (auto simp: kmem_inv_def)
next
  case (2 p ps s)
  then show ?case using kalloc_inv [of p ps s] by (auto elim!: returnsR_mono)
next
  case (3 s)
  then show ?case using kalloc_empty [of s] by (auto elim!: returnsR_mono)
next
  case (4 ps s v)
  then show ?case using kfree_inv [of ps s v] by (auto elim!: returnsR_mono)
qed

section \<open>Rounding to pages\<close>

lemma and_not_4095: "(a :: u32) AND NOT 4095 = a - a mod 4096"
proof -
  have m: "a mod 4096 = a AND 4095"
    using take_bit_eq_mod [of 12 a] take_bit_eq_mask [of 12 a] by (simp add: mask_eq_exp_minus_1)
  have "a - (a AND 4095) = a AND NOT (a AND 4095)"
    by (rule disjunctive_diff) (simp add: bit_and_iff)
  also have "\<dots> = a AND NOT 4095" by (rule bit_word_eqI) (auto simp: bit_simps)
  finally show ?thesis by (simp add: m)
qed

lemma unat_PGROUNDDOWN: "unat (PGROUNDDOWN a) = unat a - unat a mod 4096"
proof -
  have "(4096 :: u32) - 1 = 4095" by simp
  then have "PGROUNDDOWN a = a - a mod 4096" by (simp only: PGROUNDDOWN_def and_not_4095)
  then show ?thesis by (simp add: unat_u32_sub unat_mod)
qed

lemma unat_PGROUNDUP:
  assumes "unat a \<le> 4294963200"
  shows "unat (PGROUNDUP a) = (unat a + 4095) div 4096 * 4096"
proof -
  have "PGROUNDUP a = PGROUNDDOWN (a + 4095)" by (simp add: PGROUNDUP_def PGROUNDDOWN_def add.commute)
  moreover have "unat (a + 4095) = unat a + 4095" using assms by (simp add: unat_u32_add)
  ultimately show ?thesis by (simp add: unat_PGROUNDDOWN minus_mod_eq_div_mult)
qed

lemma PGROUNDUP_aligned:
  assumes "unat a \<le> 4294963200"
  shows "PGROUNDUP a mod 4096 = 0"
  by (simp add: u32_eq_iff unat_mod unat_PGROUNDUP [OF assms])

section \<open>Freeing a range\<close>

lemma page_range_Suc: "page_range p (Suc n) = p # page_range (p + PGSIZE) n"
proof -
  have "[0..<Suc n] = 0 # map Suc [0..<n]" by (simp add: map_Suc_upt upt_conv_Cons del: upt_Suc)
  then show ?thesis by (simp add: page_range_def algebra_simps del: upt_Suc)
qed

lemma page_range_above:
  assumes "unat p + 4096 * n < 4294967296"
  shows "p \<notin> set (page_range (p + PGSIZE) n)"
proof -
  have "p \<noteq> p + PGSIZE + of_nat k * PGSIZE" if "k < n" for k
  proof -
    have "4096 * Suc k \<le> 4096 * n" using that by simp
    with assms have "4096 * Suc k < 4294967296" by linarith
    then have "unat (of_nat (4096 * Suc k) :: u32) = 4096 * Suc k" by (rule unat_of_nat_u32)
    then have "of_nat (4096 * Suc k) \<noteq> (0 :: u32)" by (metis mult_is_0 nat.distinct(1) unat_0 zero_neq_numeral)
    then show ?thesis by (simp add: add.assoc mult.commute)
  qed
  then show ?thesis unfolding page_range_def by (simp add: image_iff)
qed

lemma freerange_loop_frees:
  assumes "kmem_inv ps s" and "kmem_ready s" and "p mod 4096 = 0" and "ld_end s \<le> p"
    and "0x80000000 \<le> unat p" and "unat p \<le> unat vend" and "unat vend \<le> 0x8E000000"
    and "n = (unat vend - unat p) div 4096" and "set (page_range p n) \<inter> set ps = {}"
  shows "returnsR (freerange_loop p vend s) (\<lambda>t. kmem_inv (rev (page_range p n) @ ps) t \<and>
    kmem_ready t \<and> use_lock t = use_lock s \<and> ld_end t = ld_end s)"
  using assms
proof (induction n arbitrary: p s ps)
  case 0
  have "unat vend < unat p + 4096" using 0(6,8) by (simp add: div_eq_0_iff)
  with 0(6,7) have "\<not> p + PGSIZE \<le> vend" by (simp add: word_le_nat_alt unat_u32_add)
  with 0(1,2) show ?case by (subst freerange_loop.simps) (simp add: page_range_def)
next
  case (Suc n)
  have room: "unat p + 4096 \<le> unat vend"
  proof (rule ccontr)
    assume "\<not> unat p + 4096 \<le> unat vend"
    then have "(unat vend - unat p) div 4096 = 0" by (intro div_less) linarith
    with Suc.prems(8) show False by simp
  qed
  have p1: "unat (p + PGSIZE) = unat p + 4096" using room Suc.prems(7) by (simp add: unat_u32_add)
  have go: "p + PGSIZE \<le> vend" "\<not> p + PGSIZE \<le> p" using room p1 by (simp_all only: word_le_nat_alt)
  have page: "phys_page (ld_end s) p"
    using Suc.prems(3-5,7) room by (simp add: phys_page_def V2P_def word_less_nat_alt unat_u32_sub)
  have n: "n = (unat vend - unat (p + PGSIZE)) div 4096"
  proof -
    have "unat vend - unat p = 4096 + (unat vend - unat (p + PGSIZE))" using room p1 by linarith
    then have "Suc n = (4096 + (unat vend - unat (p + PGSIZE))) div 4096" using Suc.prems(8) by (simp only:)
    then show ?thesis by simp
  qed
  have "4096 * n \<le> unat vend - unat (p + PGSIZE)" by (subst n) (rule times_div_less_eq_dividend)
  then have "p \<notin> set (page_range (p + PGSIZE) n)"
    using Suc.prems(7) p1 room by (intro page_range_above) linarith
  then have ps: "p \<notin> set ps" "set (page_range (p + PGSIZE) n) \<inter> set (p # ps) = {}"
    using Suc.prems(9) by (auto simp: page_range_Suc)
  obtain t where t: "kfree p s = Inr t" "kmem_inv (p # ps) t" "kmem_ready t" "ld_end t = ld_end s"
      "use_lock t = use_lock s"
    using kfree_inv [OF Suc.prems(1,2) page ps(1)] by (auto dest!: returnsR_obtain)
  have "returnsR (freerange_loop (p + PGSIZE) vend t) (\<lambda>u. kmem_inv (rev (page_range (p + PGSIZE) n) @ p # ps) u \<and>
      kmem_ready u \<and> use_lock u = use_lock t \<and> ld_end u = ld_end t)"
  proof (rule Suc.IH [OF t(2,3) _ _ _ _ Suc.prems(7) n ps(2)])
    show "(p + PGSIZE) mod 4096 = 0"
      using arg_cong [OF Suc.prems(3), of unat] by (simp add: u32_eq_iff unat_mod p1)
    show "ld_end t \<le> p + PGSIZE" using Suc.prems(4) t(4) p1 by (simp add: word_le_nat_alt)
  qed (use Suc.prems(5) p1 room in simp_all)
  then show ?case
    using go t by (subst freerange_loop.simps) (simp add: page_range_Suc)
qed

lemma round_up_le: "(a + 4095) div 4096 * 4096 \<le> 4096 * y \<longleftrightarrow> a \<le> 4096 * (y :: nat)"
  using div_less_iff_less_mult [of 4096 "a + 4095" "Suc y"] by auto

lemma page_aligned_unat:
  assumes "(v :: u32) mod 4096 = 0"
  shows "\<exists>y. unat v = 4096 * y"
proof -
  have "unat v mod 4096 = 0" using arg_cong [OF assms, of unat] by (simp add: unat_mod)
  then show ?thesis by (auto elim: dvdE)
qed

lemma set_page_range:
  assumes "p mod 4096 = 0" and "unat p + 4096 * n < 4294967296"
  shows "set (page_range p n) = {v :: u32. v mod 4096 = 0 \<and> unat p \<le> unat v \<and> unat v < unat p + 4096 * n}"
proof -
  obtain x where x: "unat p = 4096 * x"
    using page_aligned_unat [OF assms(1)] by blast
  have k: "unat (p + of_nat k * PGSIZE) = 4096 * (x + k)" if "k < n" for k
  proof -
    have k: "4096 * k < 4294967296" "unat p + 4096 * k < 4294967296" using that assms(2) by linarith+
    have "unat (of_nat k * PGSIZE) = 4096 * k" using unat_of_nat_u32 [OF k(1)] by (simp add: mult.commute)
    then show ?thesis using k(2) by (simp add: unat_u32_add x)
  qed
  show ?thesis
  proof (intro set_eqI iffI)
    fix v :: u32 assume "v \<in> set (page_range p n)"
    then show "v \<in> {v. v mod 4096 = 0 \<and> unat p \<le> unat v \<and> unat v < unat p + 4096 * n}"
      by (auto simp: page_range_def k u32_eq_iff [of "_ mod _"] unat_mod x)
  next
    fix v :: u32 assume v: "v \<in> {v. v mod 4096 = 0 \<and> unat p \<le> unat v \<and> unat v < unat p + 4096 * n}"
    then obtain y where y: "unat v = 4096 * y"
      using page_aligned_unat [of v] by auto
    have yx: "x \<le> y" "y - x < n" using v by (auto simp: x y)
    then have "v = p + of_nat (y - x) * PGSIZE" by (simp only: u32_eq_iff k y) simp
    then show "v \<in> set (page_range p n)" using yx(2) by (auto simp: page_range_def)
  qed
qed

lemma freerange_frees:
  assumes "kmem_inv ps s" and "kmem_ready s" and "ld_end s \<le> vstart"
    and "0x80000000 \<le> unat vstart" and "unat vstart \<le> unat vend" and "unat vend \<le> 0x8E000000"
    and "vend mod 4096 = 0"
    and "\<And>v. v \<in> set ps \<Longrightarrow> v < vstart \<or> vend \<le> v"
  shows "returnsR (freerange vstart vend s) (\<lambda>t. \<exists>qs. kmem_inv (qs @ ps) t \<and>
    set qs = {v :: u32. v mod 4096 = 0 \<and> vstart \<le> v \<and> v < vend} \<and>
    kmem_ready t \<and> use_lock t = use_lock s \<and> ld_end t = ld_end s)"
proof -
  let ?p = "PGROUNDUP vstart"
  let ?n = "(unat vend - unat ?p) div 4096"
  have p: "unat ?p = (unat vstart + 4095) div 4096 * 4096" using assms(5,6) by (intro unat_PGROUNDUP) simp
  obtain e where e: "unat vend = 4096 * e"
    using page_aligned_unat [OF assms(7)] by blast
  have al: "?p mod 4096 = 0" using assms(5,6) by (intro PGROUNDUP_aligned) simp
  have ge: "unat vstart \<le> unat ?p" unfolding p by linarith
  have le: "unat ?p \<le> unat vend" using assms(5) unfolding p e by (simp only: round_up_le)
  have n: "unat ?p + 4096 * ?n = unat vend" using le by (simp add: p e flip: right_diff_distrib')
  have pr: "set (page_range ?p ?n) = {v :: u32. v mod 4096 = 0 \<and> vstart \<le> v \<and> v < vend}"
  proof -
    have "unat ?p \<le> unat v \<longleftrightarrow> unat vstart \<le> unat v" if "v mod 4096 = 0" for v :: u32
    proof -
      obtain y where y: "unat v = 4096 * y"
        using page_aligned_unat [OF \<open>v mod 4096 = 0\<close>] by blast
      show ?thesis unfolding p y by (rule round_up_le)
    qed
    moreover have "unat ?p + 4096 * ?n < 4294967296" using n assms(6) by linarith
    ultimately show ?thesis
      unfolding set_page_range [OF al \<open>unat ?p + 4096 * ?n < 4294967296\<close>] n word_le_nat_alt word_less_nat_alt
      by (intro Collect_cong conj_cong refl) (simp only:)
  qed
  have "set (page_range ?p ?n) \<inter> set ps = {}" unfolding pr disjoint_iff mem_Collect_eq using assms(8) by (meson leD)
  moreover have "ld_end s \<le> ?p" using assms(3) ge by (simp add: word_le_nat_alt)
  ultimately have "returnsR (freerange_loop ?p vend s) (\<lambda>t. kmem_inv (rev (page_range ?p ?n) @ ps) t \<and>
      kmem_ready t \<and> use_lock t = use_lock s \<and> ld_end t = ld_end s)"
    using assms(4) ge by (intro freerange_loop_frees [OF assms(1,2) al _ _ le assms(6) refl]) simp_all
  then show ?thesis unfolding freerange_def 
    by (rule returnsR_mono) (rule exI [of _ "rev (page_range ?p ?n)"], simp only: set_rev pr simp_thms)
qed

lemma range_join:
  "(a :: 'a :: linorder) \<le> b \<Longrightarrow> b \<le> c \<Longrightarrow>
   (Q \<and> b \<le> v \<and> v < c) \<or> (Q \<and> a \<le> v \<and> v < b) \<longleftrightarrow> Q \<and> a \<le> v \<and> v < c"
  by auto

lemma kinit_free_pages:
  assumes "0x80100000 \<le> unat (ld_end s)" and "unat (ld_end s) \<le> 0x80400000"
    and "freelist s = 0"
  shows "returnsR (bindR (kinit1 (ld_end s) (P2V 0x400000) s) (kinit2 (P2V 0x400000) (P2V PHYSTOP)))
    (\<lambda>t. \<exists>ps. kmem_inv ps t \<and> set ps = {v. phys_page (ld_end s) v} \<and> use_lock t)"
proof -
  let ?e = "ld_end s"
  let ?s = "(initlock L_kmem s)\<lparr>use_lock := False\<rparr>"
  have s: "kmem_inv [] ?s" "kmem_ready ?s" "ld_end ?s = ?e"
    using assms by (simp_all add: kmem_inv_def kmem_ready_def initlock_def word_less_nat_alt)
  have "returnsR (freerange ?e (P2V 0x400000) ?s) (\<lambda>t. \<exists>qs. kmem_inv (qs @ []) t \<and>
      set qs = {v. v mod 4096 = 0 \<and> ?e \<le> v \<and> v < P2V 0x400000} \<and>
      kmem_ready t \<and> use_lock t = use_lock ?s \<and> ld_end t = ld_end ?s)"
    by (rule freerange_frees [OF s(1,2)]) (use assms s(3) in \<open>simp_all add: P2V_def\<close>)
  then obtain t qs where t: "kinit1 ?e (P2V 0x400000) s = Inr t" "kmem_inv qs t" "kmem_ready t"
      "set qs = {v. v mod 4096 = 0 \<and> ?e \<le> v \<and> v < P2V 0x400000}" "ld_end t = ?e"
    by (auto simp: kinit1_def Let_def s(3) dest!: returnsR_obtain)
  have "returnsR (freerange (P2V 0x400000) (P2V PHYSTOP) t) (\<lambda>u. \<exists>rs. kmem_inv (rs @ qs) u \<and>
      set rs = {v. v mod 4096 = 0 \<and> P2V 0x400000 \<le> v \<and> v < P2V PHYSTOP} \<and>
      kmem_ready u \<and> use_lock u = use_lock t \<and> ld_end u = ld_end t)"
  proof (rule freerange_frees [OF t(2,3)])
    show "v < P2V 0x400000 \<or> P2V PHYSTOP \<le> v" if "v \<in> set qs" for v
      using that unfolding t(4) by blast
  qed (use assms(2) t(5) in \<open>simp_all add: P2V_def word_le_nat_alt\<close>)
  then obtain u rs where u: "freerange (P2V 0x400000) (P2V PHYSTOP) t = Inr u" "kmem_inv (rs @ qs) u"
      "set rs = {v. v mod 4096 = 0 \<and> P2V 0x400000 \<le> v \<and> v < P2V PHYSTOP}" by (auto dest!: returnsR_obtain)
  have "V2P v < PHYSTOP \<longleftrightarrow> v < P2V PHYSTOP" if "?e \<le> v" for v
    using that assms(1) by (auto simp: V2P_def P2V_def word_less_nat_alt word_le_nat_alt unat_u32_sub)
  then have "phys_page ?e v \<longleftrightarrow> v mod 4096 = 0 \<and> ?e \<le> v \<and> v < P2V PHYSTOP" for v
    unfolding phys_page_def by blast
  then have "set (rs @ qs) = {v. phys_page ?e v}"
    using range_join [of ?e "P2V 0x400000" "P2V PHYSTOP"] assms(2)
    by (intro set_eqI) (simp only: set_append Un_iff mem_Collect_eq t(4) u(3), simp add: P2V_def word_le_nat_alt)
  moreover have "kmem_inv (rs @ qs) (u\<lparr>use_lock := True\<rparr>)" using u(2) by (simp add: kmem_inv_def)
  ultimately have "\<exists>ps. kmem_inv ps (u\<lparr>use_lock := True\<rparr>) \<and> set ps = {v. phys_page ?e v}" by blast
  then show ?thesis by (simp add: t(1) kinit2_def u(1))
qed

section \<open>Properties\<close>

text \<open>
  C14: booting the allocator as \<open>main\<close> does (\<open>kinit1\<close> on the memory between the end of
  the kernel and 4 MB, then \<open>kinit2\<close> on the rest up to PHYSTOP) succeeds, puts every whole
  physical page above the kernel on the free list exactly once and no other address, and
  switches locking on.
\<close>

theorem kinit_frees_all:
  assumes "0x80100000 \<le> unat (ld_end s)" and "unat (ld_end s) \<le> 0x80400000"
    and "freelist s = 0"
  shows "returnsR (bindR (kinit1 (ld_end s) (P2V 0x400000) s) (kinit2 (P2V 0x400000) (P2V PHYSTOP)))
    (\<lambda>t. \<exists>ps. kmem_inv ps t \<and> set ps = {v. phys_page (ld_end s) v} \<and> use_lock t)"
  using assms by (rule kinit_free_pages)

theorem kinit_frees_all_witness:
  "returnsR (bindR (kinit1 0x80110000 (P2V 0x400000) boot_kmem) (kinit2 (P2V 0x400000) (P2V PHYSTOP)))
    (\<lambda>t. \<exists>ps. kmem_inv ps t \<and> set ps = {v. phys_page 0x80110000 v} \<and> use_lock t)"
  using kinit_frees_all [of boot_kmem] by (simp add: boot_kmem_def)

text \<open>
  With the allocator's lock free and at least \<open>n\<close> pages on the free list, \<open>n\<close>
  calls of \<open>kalloc\<close> in a row all succeed and return \<open>n\<close> different non-null pages,
  those at the head of the free list in order; what is left on the list is the rest of it.
\<close>

theorem kalloc_distinct_pages:
  assumes "kmem_inv ps s" and "kmem_ready s" and "n \<le> length ps"
  shows "returnsR (kmem_alloc.alloc_n n s) (\<lambda>(qs, t). qs = take n ps \<and> distinct qs \<and> 0 \<notin> set qs \<and>
    kmem_inv (drop n ps) t)"
proof -
  have "distinct ps" "0 \<notin> set ps" using kmem_alloc.pages_wf [of ps s] assms(1,2) by simp_all
  with kmem_alloc.alloc_n_takes [of ps s n] assms show ?thesis
    by (auto elim!: returnsR_mono dest: in_set_takeD)
qed

theorem kalloc_distinct_pages_witness:
  "let s = boot_kmem\<lparr>mem := store32 (mem boot_kmem) 0x80400000 0x80500000, freelist := 0x80400000\<rparr>
   in returnsR (kmem_alloc.alloc_n 2 s) (\<lambda>(qs, t). qs = [0x80400000, 0x80500000] \<and> distinct qs \<and>
     0 \<notin> set qs \<and> kmem_inv [] t)"
  using kalloc_distinct_pages [of "[0x80400000, 0x80500000]"
      "boot_kmem\<lparr>mem := store32 (mem boot_kmem) 0x80400000 0x80500000, freelist := 0x80400000\<rparr>" 2]
  by (simp add: boot_kmem_def kmem_inv_def kmem_ready_def phys_page_def V2P_def Let_def load32_store32
      load32_def store32_def)

section \<open>Critical sections and the fields of \<open>kmem\<close>\<close>

lemma acquired_kmem [simp]:
  "mem (acquired lk s) = mem s"
  "freelist (acquired lk s) = freelist s"
  "use_lock (acquired lk s) = use_lock s"
  "ld_end (acquired lk s) = ld_end s"
  "ld_data (acquired lk s) = ld_data s"
  "ld_forkret (acquired lk s) = ld_forkret s"
  "ld_trapret (acquired lk s) = ld_trapret s"
  by (simp_all add: acquired_def pushed_def)

lemma acquired_upd_kmem [simp]:
  "(acquired lk s)\<lparr>mem := x_mem\<rparr> = acquired lk (s\<lparr>mem := x_mem\<rparr>)"
  "(acquired lk s)\<lparr>freelist := x_freelist\<rparr> = acquired lk (s\<lparr>freelist := x_freelist\<rparr>)"
  "(acquired lk s)\<lparr>use_lock := x_use_lock\<rparr> = acquired lk (s\<lparr>use_lock := x_use_lock\<rparr>)"
  by (cases s, simp add: acquired_def pushed_def this_cpu_def cong: option.case_cong)+

lemma calm_kmem [simp]:
  "calm (s\<lparr>mem := x_mem\<rparr>) = calm s"
  "calm (s\<lparr>freelist := x_freelist\<rparr>) = calm s"
  "calm (s\<lparr>use_lock := x_use_lock\<rparr>) = calm s"
  by (rule calm_same, simp add: mach_same_def)+

lemma cur_kmem [simp]:
  "cur (s\<lparr>mem := x_mem\<rparr>) = cur s"
  "cur (s\<lparr>freelist := x_freelist\<rparr>) = cur s"
  "cur (s\<lparr>use_lock := x_use_lock\<rparr>) = cur s"
  by (rule cur_same, simp add: mach_same_def)+

lemma lock_free_kmem [simp]:
  "lock_free lk (s\<lparr>mem := x_mem\<rparr>) = lock_free lk s"
  "lock_free lk (s\<lparr>freelist := x_freelist\<rparr>) = lock_free lk s"
  "lock_free lk (s\<lparr>use_lock := x_use_lock\<rparr>) = lock_free lk s"
  by (simp_all add: lock_free_def)

end
