(* ===== verification/Vm.thy ===== *)
theory Vm
  imports Kalloc
begin

unbundle bit_operations_syntax

text \<open>
  Page tables and segments: \<open>vm.c\<close> with the macros and descriptors of \<open>mmu.h\<close>. A page
  directory is named by the kernel address of its page; its entries and those of the page
  tables are words of memory, read and written in place. \<open>cr3\<close> and \<open>task_reg\<close> are
  registers of the executing processor; \<open>gdt\<close> and \<open>tss\<close> give, for each processor,
  its descriptor table and the three fields of its task state segment that the kernel uses.
  A processor's task state segment is an object of \<open>cpus\<close>, whose address the linker
  chose; \<open>ts_addr\<close> stands for it. The console messages of \<open>allocuvm\<close> are left out.
\<close>

section \<open>Definitions\<close>

record segdesc =
  sd_lim_15_0 :: "16 word"
  sd_base_15_0 :: "16 word"
  sd_base_23_16 :: "8 word"
  sd_type :: "4 word"
  sd_s :: "1 word"
  sd_dpl :: "2 word"
  sd_p :: "1 word"
  sd_lim_19_16 :: "4 word"
  sd_avl :: "1 word"
  sd_rsv1 :: "1 word"
  sd_db :: "1 word"
  sd_g :: "1 word"
  sd_base_31_24 :: "8 word"

record taskstate =
  ts_ss0 :: u16
  ts_esp0 :: u32
  ts_iomb :: u16

record vm = kmem +
  kpgdir :: u32
  cr3 :: u32
  task_reg :: u16
  gdt :: "nat \<Rightarrow> nat \<Rightarrow> segdesc"
  gdt_loaded :: "nat \<Rightarrow> bool"
  tss :: "nat \<Rightarrow> taskstate"
  ts_addr :: "nat \<Rightarrow> u32"

abbreviation (input) PTE_P :: u32 where "PTE_P \<equiv> 0x001"
abbreviation (input) PTE_W :: u32 where "PTE_W \<equiv> 0x002"
abbreviation (input) PTE_U :: u32 where "PTE_U \<equiv> 0x004"
abbreviation (input) KSTACKSIZE :: u32 where "KSTACKSIZE \<equiv> 4096"
abbreviation (input) SEG_KCODE :: nat where "SEG_KCODE \<equiv> 1"
abbreviation (input) SEG_KDATA :: nat where "SEG_KDATA \<equiv> 2"
abbreviation (input) SEG_UCODE :: nat where "SEG_UCODE \<equiv> 3"
abbreviation (input) SEG_UDATA :: nat where "SEG_UDATA \<equiv> 4"
abbreviation (input) SEG_TSS :: nat where "SEG_TSS \<equiv> 5"

definition PDX :: "u32 \<Rightarrow> u32" where "PDX va = drop_bit 22 va AND 0x3FF"

definition PTX :: "u32 \<Rightarrow> u32" where "PTX va = drop_bit 12 va AND 0x3FF"

definition PGADDR :: "u32 \<Rightarrow> u32 \<Rightarrow> u32 \<Rightarrow> u32" where
  "PGADDR d t off = push_bit 22 d OR push_bit 12 t OR off"

definition PTE_ADDR :: "u32 \<Rightarrow> u32" where "PTE_ADDR pte = pte AND NOT 0xFFF"

definition PTE_FLAGS :: "u32 \<Rightarrow> u32" where "PTE_FLAGS pte = pte AND 0xFFF"

definition SEG :: "4 word \<Rightarrow> u32 \<Rightarrow> u32 \<Rightarrow> 2 word \<Rightarrow> segdesc" where
  "SEG ty base lim dpl =
     \<lparr>sd_lim_15_0 = ucast (drop_bit 12 lim AND 0xffff), sd_base_15_0 = ucast (base AND 0xffff),
      sd_base_23_16 = ucast (drop_bit 16 base AND 0xff), sd_type = ty, sd_s = 1, sd_dpl = dpl,
      sd_p = 1, sd_lim_19_16 = ucast (drop_bit 28 lim), sd_avl = 0, sd_rsv1 = 0, sd_db = 1, sd_g = 1,
      sd_base_31_24 = ucast (drop_bit 24 base)\<rparr>"

definition SEG16 :: "4 word \<Rightarrow> u32 \<Rightarrow> u32 \<Rightarrow> 2 word \<Rightarrow> segdesc" where
  "SEG16 ty base lim dpl =
     \<lparr>sd_lim_15_0 = ucast (lim AND 0xffff), sd_base_15_0 = ucast (base AND 0xffff),
      sd_base_23_16 = ucast (drop_bit 16 base AND 0xff), sd_type = ty, sd_s = 1, sd_dpl = dpl,
      sd_p = 1, sd_lim_19_16 = ucast (drop_bit 16 lim), sd_avl = 0, sd_rsv1 = 0, sd_db = 1, sd_g = 0,
      sd_base_31_24 = ucast (drop_bit 24 base)\<rparr>"

definition seginit :: "'z vm_scheme \<Rightarrow> ('z vm_scheme, 'z vm_scheme) kres" where
  "seginit s =
     bindR (cpuid s) (\<lambda>c.
     let g = (gdt s c)(SEG_KCODE := SEG 0xA 0 0xffffffff 0, SEG_KDATA := SEG 0x2 0 0xffffffff 0,
                       SEG_UCODE := SEG 0xA 0 0xffffffff 3, SEG_UDATA := SEG 0x2 0 0xffffffff 3)
     in Inr (s\<lparr>gdt := (gdt s)(c := g), gdt_loaded := (gdt_loaded s)(c := True)\<rparr>))"

text \<open>The address of the entry for \<open>va\<close>, or 0.\<close>

definition walkpgdir :: "u32 \<Rightarrow> u32 \<Rightarrow> bool \<Rightarrow> 'z kmem_scheme \<Rightarrow> ('z kmem_scheme, u32 \<times> 'z kmem_scheme) kres" where
  "walkpgdir pgdir va alloc s =
     (let pde = pgdir + 4 * PDX va
      in if load32 (mem s) pde AND PTE_P \<noteq> 0
         then let pgtab = P2V (PTE_ADDR (load32 (mem s) pde)) in Inr (pgtab + 4 * PTX va, s)
         else if \<not> alloc then Inr (0, s)
         else bindR (kalloc s) (\<lambda>(pgtab, s).
           if pgtab = 0 then Inr (0, s)
           else
             let s = s\<lparr>mem := memset (mem s) pgtab 0 PGSIZE\<rparr>;
                 s = s\<lparr>mem := store32 (mem s) pde (V2P pgtab OR PTE_P OR PTE_W OR PTE_U)\<rparr>
             in Inr (pgtab + 4 * PTX va, s)))"

text \<open>
  The loop of \<open>mappages\<close>: it stops when \<open>a\<close> reaches \<open>last\<close>, both multiples of the
  page size. For addresses that differ by less than a page it would never stop; the model
  returns \<open>Wrapped\<close> there.
\<close>

function mappages_loop :: "u32 \<Rightarrow> u32 \<Rightarrow> u32 \<Rightarrow> u32 \<Rightarrow> u32 \<Rightarrow> 'z kmem_scheme \<Rightarrow> ('z kmem_scheme, int \<times> 'z kmem_scheme) kres" where
  "mappages_loop pgdir a last' pa perm s =
     bindR (walkpgdir pgdir a True s) (\<lambda>(pte, s).
     if pte = 0 then Inr (-1, s)
     else if load32 (mem s) pte AND PTE_P \<noteq> 0 then Inl (Panic ''remap'')
     else
       let s = s\<lparr>mem := store32 (mem s) pte (pa OR perm OR PTE_P)\<rparr>
       in if a = last' then Inr (0, s)
          else if last' - a < PGSIZE then Inl Wrapped
          else mappages_loop pgdir (a + PGSIZE) last' (pa + PGSIZE) perm s)"
  by pat_completeness auto
termination
proof (relation "measure (\<lambda>(pgdir, a, last', pa, perm, s). unat (last' - a))")
  fix a last' :: u32
  assume "\<not> last' - a < PGSIZE"
  then have "unat (last' - a - PGSIZE) < unat (last' - a)"
    by (simp add: word_less_nat_alt unat_u32_sub [of "last' - a"])
  then show "((pgdir, a + PGSIZE, last', pa + PGSIZE, perm, s'), pgdir, a, last', pa, perm, s) \<in>
      measure (\<lambda>(pgdir, a, last', pa, perm, s). unat (last' - a))" for pgdir pa perm :: u32 and s s' :: "'z kmem_scheme"
    by (simp add: algebra_simps)
qed simp

declare mappages_loop.simps [simp del]

definition mappages :: "u32 \<Rightarrow> u32 \<Rightarrow> u32 \<Rightarrow> u32 \<Rightarrow> u32 \<Rightarrow> 'z kmem_scheme \<Rightarrow> ('z kmem_scheme, int \<times> 'z kmem_scheme) kres" where
  "mappages pgdir va sz pa perm s =
     (let a = PGROUNDDOWN va; last' = PGROUNDDOWN (va + sz - 1)
      in mappages_loop pgdir a last' pa perm s)"

text \<open>
  The loop of \<open>deallocuvm\<close>: where a page table is missing it goes on at the first address of
  the next one. Should the address wrap around to a smaller one the model stops with
  \<open>Wrapped\<close>.
\<close>

function deallocuvm_loop :: "u32 \<Rightarrow> u32 \<Rightarrow> u32 \<Rightarrow> 'z kmem_scheme \<Rightarrow> ('z kmem_scheme, 'z kmem_scheme) kres" where
  "deallocuvm_loop pgdir a oldsz s =
     (if a < oldsz then
        bindR (walkpgdir pgdir a False s) (\<lambda>(pte, s).
        bindR (if pte = 0 then Inr (PGADDR (PDX a + 1) 0 0 - PGSIZE, s)
               else if load32 (mem s) pte AND PTE_P \<noteq> 0 then
                 let pa = PTE_ADDR (load32 (mem s) pte)
                 in if pa = 0 then Inl (Panic ''kfree'')
                    else let v = P2V pa
                         in bindR (kfree v s) (\<lambda>s. Inr (a, s\<lparr>mem := store32 (mem s) pte 0\<rparr>))
               else Inr (a, s)) (\<lambda>(a', s).
        if a' + PGSIZE \<le> a then Inl Wrapped else deallocuvm_loop pgdir (a' + PGSIZE) oldsz s))
      else Inr s)"
  by pat_completeness auto
termination
  by (relation "measure (\<lambda>(pgdir, a, oldsz, s). 4294967296 - unat a)")
    (auto simp: word_le_nat_alt not_le intro!: diff_less_mono2 unat_u32_less)

declare deallocuvm_loop.simps [simp del]

definition deallocuvm :: "u32 \<Rightarrow> u32 \<Rightarrow> u32 \<Rightarrow> 'z kmem_scheme \<Rightarrow> ('z kmem_scheme, u32 \<times> 'z kmem_scheme) kres" where
  "deallocuvm pgdir oldsz newsz s =
     (if newsz \<ge> oldsz then Inr (oldsz, s)
      else bindR (deallocuvm_loop pgdir (PGROUNDUP newsz) oldsz s) (\<lambda>s. Inr (newsz, s)))"

fun freevm_loop :: "u32 \<Rightarrow> nat list \<Rightarrow> 'z kmem_scheme \<Rightarrow> ('z kmem_scheme, 'z kmem_scheme) kres" where
  "freevm_loop pgdir [] s = Inr s"
| "freevm_loop pgdir (i # js) s =
     (let pde = load32 (mem s) (pgdir + 4 * of_nat i)
      in if pde AND PTE_P \<noteq> 0
         then bindR (kfree (P2V (PTE_ADDR pde)) s) (\<lambda>s. freevm_loop pgdir js s)
         else freevm_loop pgdir js s)"

definition freevm :: "u32 \<Rightarrow> 'z kmem_scheme \<Rightarrow> ('z kmem_scheme, 'z kmem_scheme) kres" where
  "freevm pgdir s =
     (if pgdir = 0 then Inl (Panic ''freevm: no pgdir'')
      else
        bindR (deallocuvm pgdir KERNBASE 0 s) (\<lambda>(_, s).
        bindR (freevm_loop pgdir [0..<1024] s) (\<lambda>s.
        kfree pgdir s)))"

text \<open>The table \<open>kmap\<close>: virtual address, physical start and end, permissions.\<close>

definition kmap :: "u32 \<Rightarrow> (u32 \<times> u32 \<times> u32 \<times> u32) list" where
  "kmap data =
     [(KERNBASE, 0, EXTMEM, PTE_W),
      (KERNLINK, V2P KERNLINK, V2P data, 0),
      (data, V2P data, PHYSTOP, PTE_W),
      (DEVSPACE, DEVSPACE, 0, PTE_W)]"

fun setupkvm_loop :: "u32 \<Rightarrow> (u32 \<times> u32 \<times> u32 \<times> u32) list \<Rightarrow> 'z kmem_scheme \<Rightarrow> ('z kmem_scheme, u32 \<times> 'z kmem_scheme) kres" where
  "setupkvm_loop pgdir [] s = Inr (pgdir, s)"
| "setupkvm_loop pgdir ((virt, phys_start, phys_end, perm) # ks) s =
     bindR (mappages pgdir virt (phys_end - phys_start) phys_start perm s) (\<lambda>(r, s).
     if r < 0 then bindR (freevm pgdir s) (\<lambda>s. Inr (0, s))
     else setupkvm_loop pgdir ks s)"

definition setupkvm :: "'z kmem_scheme \<Rightarrow> ('z kmem_scheme, u32 \<times> 'z kmem_scheme) kres" where
  "setupkvm s =
     bindR (kalloc s) (\<lambda>(pgdir, s).
     if pgdir = 0 then Inr (0, s)
     else
       let s = s\<lparr>mem := memset (mem s) pgdir 0 PGSIZE\<rparr>
       in if P2V PHYSTOP > DEVSPACE then Inl (Panic ''PHYSTOP too high'')
          else setupkvm_loop pgdir (kmap (ld_data s)) s)"

definition switchkvm :: "'z vm_scheme \<Rightarrow> 'z vm_scheme" where
  "switchkvm s = s\<lparr>cr3 := V2P (kpgdir s)\<rparr>"

definition kvmalloc :: "'z vm_scheme \<Rightarrow> ('z vm_scheme, 'z vm_scheme) kres" where
  "kvmalloc s = bindR (setupkvm s) (\<lambda>(pgdir, s). Inr (switchkvm (s\<lparr>kpgdir := pgdir\<rparr>)))"

text \<open>\<open>switchuvm\<close> takes the two fields of the process it uses; \<open>None\<close> is the null pointer.\<close>

definition switchuvm :: "(u32 \<times> u32) option \<Rightarrow> 'z vm_scheme \<Rightarrow> ('z vm_scheme, 'z vm_scheme) kres" where
  "switchuvm p s = (case p of
     None \<Rightarrow> Inl (Panic ''switchuvm: no process'')
   | Some (kstack, pgdir) \<Rightarrow>
       if kstack = 0 then Inl (Panic ''switchuvm: no kstack'')
       else if pgdir = 0 then Inl (Panic ''switchuvm: no pgdir'')
       else
         bindR (pushcli s) (\<lambda>s.
         bindR (mycpu s) (\<lambda>c.
         let d = (SEG16 0x9 (ts_addr s c) 103 0)\<lparr>sd_s := 0\<rparr>;
             s = s\<lparr>gdt := (gdt s)(c := (gdt s c)(SEG_TSS := d)),
                   tss := (tss s)(c := \<lparr>ts_ss0 = 16, ts_esp0 = kstack + KSTACKSIZE, ts_iomb = 0xFFFF\<rparr>),
                   task_reg := 40, cr3 := V2P pgdir\<rparr>
         in popcli s)))"

text \<open>
  A write through the null pointer in \<open>inituvm\<close>, when no page is left, is a page fault in the
  kernel, which ends in \<open>panic\<close>.
\<close>

definition inituvm :: "u32 \<Rightarrow> u32 \<Rightarrow> u32 \<Rightarrow> 'z kmem_scheme \<Rightarrow> ('z kmem_scheme, 'z kmem_scheme) kres" where
  "inituvm pgdir init sz s =
     (if sz \<ge> PGSIZE then Inl (Panic ''inituvm: more than a page'')
      else
        bindR (kalloc s) (\<lambda>(m, s).
        if m = 0 then Inl (Panic ''trap'')
        else
          let s = s\<lparr>mem := memset (mem s) m 0 PGSIZE\<rparr>
          in bindR (mappages pgdir 0 PGSIZE (V2P m) (PTE_W OR PTE_U) s) (\<lambda>(_, s).
             Inr (s\<lparr>mem := memmove (mem s) m init sz\<rparr>))))"

text \<open>
  The loop of \<open>allocuvm\<close>; its result is None when memory ran out (after undoing what was
  done) and the new size otherwise.
\<close>

function allocuvm_loop :: "u32 \<Rightarrow> u32 \<Rightarrow> u32 \<Rightarrow> u32 \<Rightarrow> 'z kmem_scheme \<Rightarrow> ('z kmem_scheme, u32 \<times> 'z kmem_scheme) kres" where
  "allocuvm_loop pgdir a oldsz newsz s =
     (if a < newsz then
        bindR (kalloc s) (\<lambda>(m, s).
        if m = 0 then bindR (deallocuvm pgdir newsz oldsz s) (\<lambda>(_, s). Inr (0, s))
        else
          let s = s\<lparr>mem := memset (mem s) m 0 PGSIZE\<rparr>
          in bindR (mappages pgdir a PGSIZE (V2P m) (PTE_W OR PTE_U) s) (\<lambda>(r, s).
             if r < 0 then
               bindR (deallocuvm pgdir newsz oldsz s) (\<lambda>(_, s).
               bindR (kfree m s) (\<lambda>s. Inr (0, s)))
             else if a + PGSIZE \<le> a then Inl Wrapped
             else allocuvm_loop pgdir (a + PGSIZE) oldsz newsz s))
      else Inr (newsz, s))"
  by pat_completeness auto
termination
  by (relation "measure (\<lambda>(pgdir, a, oldsz, newsz, s). 4294967296 - unat a)")
    (auto simp: word_le_nat_alt not_le intro!: diff_less_mono2 unat_u32_less)

declare allocuvm_loop.simps [simp del]

definition allocuvm :: "u32 \<Rightarrow> u32 \<Rightarrow> u32 \<Rightarrow> 'z kmem_scheme \<Rightarrow> ('z kmem_scheme, u32 \<times> 'z kmem_scheme) kres" where
  "allocuvm pgdir oldsz newsz s =
     (if newsz \<ge> KERNBASE then Inr (0, s)
      else if newsz < oldsz then Inr (oldsz, s)
      else allocuvm_loop pgdir (PGROUNDUP oldsz) oldsz newsz s)"

definition clearpteu :: "u32 \<Rightarrow> u32 \<Rightarrow> 'z kmem_scheme \<Rightarrow> ('z kmem_scheme, 'z kmem_scheme) kres" where
  "clearpteu pgdir uva s =
     bindR (walkpgdir pgdir uva False s) (\<lambda>(pte, s).
     if pte = 0 then Inl (Panic ''clearpteu'')
     else Inr (s\<lparr>mem := store32 (mem s) pte (load32 (mem s) pte AND NOT PTE_U)\<rparr>))"

function copyuvm_loop :: "u32 \<Rightarrow> u32 \<Rightarrow> u32 \<Rightarrow> u32 \<Rightarrow> 'z kmem_scheme \<Rightarrow> ('z kmem_scheme, u32 \<times> 'z kmem_scheme) kres" where
  "copyuvm_loop pgdir d i sz s =
     (if i < sz then
        bindR (walkpgdir pgdir i False s) (\<lambda>(pte, s).
        if pte = 0 then Inl (Panic ''copyuvm: pte should exist'')
        else if load32 (mem s) pte AND PTE_P = 0 then Inl (Panic ''copyuvm: page not present'')
        else
          let pa = PTE_ADDR (load32 (mem s) pte);
              flags = PTE_FLAGS (load32 (mem s) pte)
          in bindR (kalloc s) (\<lambda>(m, s).
             if m = 0 then bindR (freevm d s) (\<lambda>s. Inr (0, s))
             else
               let s = s\<lparr>mem := memmove (mem s) m (P2V pa) PGSIZE\<rparr>
               in bindR (mappages d i PGSIZE (V2P m) flags s) (\<lambda>(r, s).
                  if r < 0 then
                    bindR (kfree m s) (\<lambda>s. bindR (freevm d s) (\<lambda>s. Inr (0, s)))
                  else if i + PGSIZE \<le> i then Inl Wrapped
                  else copyuvm_loop pgdir d (i + PGSIZE) sz s)))
      else Inr (d, s))"
  by pat_completeness auto
termination
  by (relation "measure (\<lambda>(pgdir, d, i, sz, s). 4294967296 - unat i)")
    (auto simp: word_le_nat_alt not_le intro!: diff_less_mono2 unat_u32_less)

declare copyuvm_loop.simps [simp del]

definition copyuvm :: "u32 \<Rightarrow> u32 \<Rightarrow> 'z kmem_scheme \<Rightarrow> ('z kmem_scheme, u32 \<times> 'z kmem_scheme) kres" where
  "copyuvm pgdir sz s =
     bindR (setupkvm s) (\<lambda>(d, s).
     if d = 0 then Inr (0, s) else copyuvm_loop pgdir d 0 sz s)"

text \<open>
  What the processor does with a user address: it walks the page directory in \<open>cr3\<close>. The
  result is the kernel address of the byte, None a page fault. \<open>uload32\<close> and
  \<open>ustore32\<close> are the kernel's accesses to a word at a user address; a fault in the kernel
  ends in \<open>panic\<close>.
\<close>

definition xlate :: "memory \<Rightarrow> u32 \<Rightarrow> u32 \<Rightarrow> u32 option" where
  "xlate m pgdir va =
     (let pde = load32 m (pgdir + 4 * PDX va)
      in if pde AND PTE_P = 0 then None
         else
           let pte = load32 m (P2V (PTE_ADDR pde) + 4 * PTX va)
           in if pte AND PTE_P = 0 then None
              else Some (P2V (PTE_ADDR pte) + (va AND 0xFFF)))"

definition uload8 :: "u32 \<Rightarrow> 'z vm_scheme \<Rightarrow> ('z vm_scheme, u8) kres" where
  "uload8 va s = (case xlate (mem s) (P2V (cr3 s)) va of
     None \<Rightarrow> Inl (Panic ''trap'') | Some a \<Rightarrow> Inr (mem s a))"

definition uload32 :: "u32 \<Rightarrow> 'z vm_scheme \<Rightarrow> ('z vm_scheme, u32) kres" where
  "uload32 va s =
     bindR (uload8 va s) (\<lambda>b0. bindR (uload8 (va + 1) s) (\<lambda>b1.
     bindR (uload8 (va + 2) s) (\<lambda>b2. bindR (uload8 (va + 3) s) (\<lambda>b3.
     Inr (ucast b0 OR push_bit 8 (ucast b1) OR push_bit 16 (ucast b2) OR push_bit 24 (ucast b3))))))"

definition ustore8 :: "u32 \<Rightarrow> u8 \<Rightarrow> 'z vm_scheme \<Rightarrow> ('z vm_scheme, 'z vm_scheme) kres" where
  "ustore8 va b s = (case xlate (mem s) (P2V (cr3 s)) va of
     None \<Rightarrow> Inl (Panic ''trap'') | Some a \<Rightarrow> Inr (s\<lparr>mem := (mem s)(a := b)\<rparr>))"

definition ustore32 :: "u32 \<Rightarrow> u32 \<Rightarrow> 'z vm_scheme \<Rightarrow> ('z vm_scheme, 'z vm_scheme) kres" where
  "ustore32 va w s =
     bindR (ustore8 va (ucast w) s) (\<lambda>s. bindR (ustore8 (va + 1) (ucast (drop_bit 8 w)) s) (\<lambda>s.
     bindR (ustore8 (va + 2) (ucast (drop_bit 16 w)) s) (\<lambda>s. ustore8 (va + 3) (ucast (drop_bit 24 w)) s)))"

text \<open>
  \<open>uva2ka\<close> reads the entry without testing the pointer: when \<open>walkpgdir\<close> returns null it
  reads the word at user address 0.
\<close>

definition uva2ka :: "u32 \<Rightarrow> u32 \<Rightarrow> 'z vm_scheme \<Rightarrow> ('z vm_scheme, u32 \<times> 'z vm_scheme) kres" where
  "uva2ka pgdir uva s =
     bindR (walkpgdir pgdir uva False s) (\<lambda>(pte, s).
     bindR (if pte = 0 then uload32 0 s else Inr (load32 (mem s) pte)) (\<lambda>w.
     if w AND PTE_P = 0 then Inr (0, s)
     else if w AND PTE_U = 0 then Inr (0, s)
     else Inr (P2V (PTE_ADDR w), s)))"

text \<open>
  \<open>copyout\<close> takes the bytes to copy. A piece ends at the end of a page of the destination,
  and is not empty.
\<close>

lemma copyout_chunk: "0 < unat (PGSIZE - (va - PGROUNDDOWN va))"
proof -
  have "unat (va - PGROUNDDOWN va) = unat va mod 4096" by (simp add: unat_u32_sub unat_PGROUNDDOWN)
  moreover have "unat va mod 4096 < 4096" by simp
  ultimately show ?thesis by (simp add: unat_u32_sub)
qed

function copyout :: "u32 \<Rightarrow> u32 \<Rightarrow> u8 list \<Rightarrow> 'z vm_scheme \<Rightarrow> ('z vm_scheme, int \<times> 'z vm_scheme) kres" where
  "copyout pgdir va buf s =
     (if buf \<noteq> [] then
        let va0 = PGROUNDDOWN va
        in bindR (uva2ka pgdir va0 s) (\<lambda>(pa0, s).
           if pa0 = 0 then Inr (-1, s)
           else
             let n = min (unat (PGSIZE - (va - va0))) (length buf);
                 s = s\<lparr>mem := store_bytes (mem s) (pa0 + (va - va0)) (take n buf)\<rparr>
             in copyout pgdir (va0 + PGSIZE) (drop n buf) s)
      else Inr (0, s))"
  by pat_completeness auto
termination
  by (relation "measure (\<lambda>(pgdir, va, buf, s). length buf)") (simp_all add: copyout_chunk)

declare copyout.simps [simp del]

section \<open>Critical sections and the fields of \<open>vm\<close>\<close>

lemma acquired_vm [simp]:
  "kpgdir (acquired lk s) = kpgdir s"
  "cr3 (acquired lk s) = cr3 s"
  "task_reg (acquired lk s) = task_reg s"
  "gdt (acquired lk s) = gdt s"
  "gdt_loaded (acquired lk s) = gdt_loaded s"
  "tss (acquired lk s) = tss s"
  "ts_addr (acquired lk s) = ts_addr s"
  by (simp_all add: acquired_def pushed_def)

lemma acquired_upd_vm [simp]:
  "(acquired lk s)\<lparr>kpgdir := x_kpgdir\<rparr> = acquired lk (s\<lparr>kpgdir := x_kpgdir\<rparr>)"
  "(acquired lk s)\<lparr>cr3 := x_cr3\<rparr> = acquired lk (s\<lparr>cr3 := x_cr3\<rparr>)"
  "(acquired lk s)\<lparr>task_reg := x_task_reg\<rparr> = acquired lk (s\<lparr>task_reg := x_task_reg\<rparr>)"
  "(acquired lk s)\<lparr>gdt := x_gdt\<rparr> = acquired lk (s\<lparr>gdt := x_gdt\<rparr>)"
  "(acquired lk s)\<lparr>gdt_loaded := x_gdt_loaded\<rparr> = acquired lk (s\<lparr>gdt_loaded := x_gdt_loaded\<rparr>)"
  "(acquired lk s)\<lparr>tss := x_tss\<rparr> = acquired lk (s\<lparr>tss := x_tss\<rparr>)"
  by (cases s, simp add: acquired_def pushed_def this_cpu_def cong: option.case_cong)+

lemma calm_vm [simp]:
  "calm (s\<lparr>kpgdir := x_kpgdir\<rparr>) = calm s"
  "calm (s\<lparr>cr3 := x_cr3\<rparr>) = calm s"
  "calm (s\<lparr>task_reg := x_task_reg\<rparr>) = calm s"
  "calm (s\<lparr>gdt := x_gdt\<rparr>) = calm s"
  "calm (s\<lparr>gdt_loaded := x_gdt_loaded\<rparr>) = calm s"
  "calm (s\<lparr>tss := x_tss\<rparr>) = calm s"
  by (rule calm_same, simp add: mach_same_def)+

lemma cur_vm [simp]:
  "cur (s\<lparr>kpgdir := x_kpgdir\<rparr>) = cur s"
  "cur (s\<lparr>cr3 := x_cr3\<rparr>) = cur s"
  "cur (s\<lparr>task_reg := x_task_reg\<rparr>) = cur s"
  "cur (s\<lparr>gdt := x_gdt\<rparr>) = cur s"
  "cur (s\<lparr>gdt_loaded := x_gdt_loaded\<rparr>) = cur s"
  "cur (s\<lparr>tss := x_tss\<rparr>) = cur s"
  by (rule cur_same, simp add: mach_same_def)+

lemma lock_free_vm [simp]:
  "lock_free lk (s\<lparr>kpgdir := x_kpgdir\<rparr>) = lock_free lk s"
  "lock_free lk (s\<lparr>cr3 := x_cr3\<rparr>) = lock_free lk s"
  "lock_free lk (s\<lparr>task_reg := x_task_reg\<rparr>) = lock_free lk s"
  "lock_free lk (s\<lparr>gdt := x_gdt\<rparr>) = lock_free lk s"
  "lock_free lk (s\<lparr>gdt_loaded := x_gdt_loaded\<rparr>) = lock_free lk s"
  "lock_free lk (s\<lparr>tss := x_tss\<rparr>) = lock_free lk s"
  by (simp_all add: lock_free_def)

section \<open>What the address-space functions change\<close>

text \<open>
  All functions on address spaces change memory and the free list only, when interrupts are
  accounted for (\<open>calm\<close>).
\<close>

definition mem_frame :: "'z kmem_scheme \<Rightarrow> 'z kmem_scheme \<Rightarrow> bool" where
  "mem_frame s t \<longleftrightarrow> t = s\<lparr>mem := mem t, freelist := freelist t\<rparr>"

lemma mem_frame_refl [simp]: "mem_frame s s"
  by (simp add: mem_frame_def)

lemma mem_frame_upd [simp]:
  "mem_frame s (s\<lparr>mem := m\<rparr>)" "mem_frame s (s\<lparr>freelist := l\<rparr>)" "mem_frame s (s\<lparr>freelist := l, mem := m\<rparr>)"
  "mem_frame s (s\<lparr>mem := m, freelist := l\<rparr>)"
  by (simp_all add: mem_frame_def)

lemma mem_frame_trans: "mem_frame s t \<Longrightarrow> mem_frame t u \<Longrightarrow> mem_frame s u"
proof -
  assume a: "mem_frame s t" and b: "mem_frame t u"
  have "u = s\<lparr>mem := mem t, freelist := freelist t, mem := mem u, freelist := freelist u\<rparr>"
    using a b unfolding mem_frame_def by metis
  then show ?thesis by (simp add: mem_frame_def)
qed

lemma mem_frameD: "mem_frame s t \<Longrightarrow> \<exists>m l. t = s\<lparr>mem := m, freelist := l\<rparr>"
  unfolding mem_frame_def by blast

lemma mem_frame_calm: "mem_frame s t \<Longrightarrow> calm t = calm s" "mem_frame s t \<Longrightarrow> lock_free lk t = lock_free lk s"
  "mem_frame s t \<Longrightarrow> cur t = cur s"
  by (auto dest!: mem_frameD)

definition mem_calm :: "'z kmem_scheme \<Rightarrow> bool" where
  "mem_calm s \<longleftrightarrow> calm s \<and> lock_free L_kmem s"

lemma mem_frame_mem_calm: "mem_frame s t \<Longrightarrow> mem_calm t = mem_calm s"
  by (simp add: mem_calm_def mem_frame_calm)

lemma mem_calm_upd [simp]: "mem_calm (s\<lparr>mem := m\<rparr>) = mem_calm s" "mem_calm (s\<lparr>freelist := l\<rparr>) = mem_calm s"
  by (simp_all add: mem_calm_def)

lemma kalloc_calm:
  "mem_calm s \<Longrightarrow>
   kalloc s = Inr (freelist s, s\<lparr>freelist := (if freelist s \<noteq> 0 then load32 (mem s) (freelist s) else 0)\<rparr>)"
  by (subst kalloc_eq) (simp_all add: kmem_ready_def kmem_noted_def calm_def mem_calm_def)

lemma kfree_calm:
  "mem_calm s \<Longrightarrow> phys_page (ld_end s) v \<Longrightarrow>
   kfree v s = Inr (s\<lparr>mem := store32 (memset (mem s) v 1 PGSIZE) v (freelist s), freelist := v\<rparr>)"
  by (subst kfree_eq) (simp_all add: kmem_ready_def kmem_noted_def calm_def phys_page_def mem_calm_def)

lemma kalloc_frame: "mem_calm s \<Longrightarrow> kalloc s = Inr (r, t) \<Longrightarrow> mem_frame s t"
  by (auto simp: kalloc_calm)

lemma kfree_frame: "mem_calm s \<Longrightarrow> kfree v s = Inr t \<Longrightarrow> mem_frame s t"
proof -
  assume c: "mem_calm s" and k: "kfree v s = Inr t"
  have "phys_page (ld_end s) v" using k by (auto simp: kfree_def phys_page_def split: if_splits)
  then show ?thesis using c k by (auto simp: kfree_calm)
qed

text \<open>A computation all of whose results keep the frame, and the same for results that carry a value.\<close>

definition framed :: "'z kmem_scheme \<Rightarrow> ('z kmem_scheme, 'z kmem_scheme) kres \<Rightarrow> bool" where
  "framed s m \<longleftrightarrow> mem_calm s \<longrightarrow> wheneverR m (\<lambda>t. mem_frame s t)"

definition framed2 :: "'z kmem_scheme \<Rightarrow> ('z kmem_scheme, 'b \<times> 'z kmem_scheme) kres \<Rightarrow> bool" where
  "framed2 s m \<longleftrightarrow> mem_calm s \<longrightarrow> wheneverR m (\<lambda>(r, t). mem_frame s t)"

lemma framed_Inr [simp]: "framed s (Inr t) \<longleftrightarrow> (mem_calm s \<longrightarrow> mem_frame s t)"
  "framed2 s (Inr (r, t)) \<longleftrightarrow> (mem_calm s \<longrightarrow> mem_frame s t)" "framed s (Inl e)" "framed2 s (Inl e)"
  by (simp_all add: framed_def framed2_def)

lemma framed_bind:
  "framed s m \<Longrightarrow> (\<And>t. m = Inr t \<Longrightarrow> mem_frame s t \<Longrightarrow> framed t (f t)) \<Longrightarrow> framed s (bindR m f)"
  "framed2 s m' \<Longrightarrow> (\<And>r t. m' = Inr (r, t) \<Longrightarrow> mem_frame s t \<Longrightarrow> framed t (g (r, t))) \<Longrightarrow> framed s (bindR m' g)"
  by (auto simp: framed_def framed2_def wheneverR_def bindR_def mem_frame_mem_calm intro: mem_frame_trans
      split: sum.splits)

lemma framed2_bind:
  "framed s m \<Longrightarrow> (\<And>t. m = Inr t \<Longrightarrow> mem_frame s t \<Longrightarrow> framed2 t (f t)) \<Longrightarrow> framed2 s (bindR m f)"
  "framed2 s m' \<Longrightarrow> (\<And>r t. m' = Inr (r, t) \<Longrightarrow> mem_frame s t \<Longrightarrow> framed2 t (g (r, t))) \<Longrightarrow> framed2 s (bindR m' g)"
  by (fastforce simp: framed_def framed2_def wheneverR_def bindR_def mem_frame_mem_calm intro: mem_frame_trans
      split: sum.splits)+

lemma framed_if: "(b \<Longrightarrow> framed s m) \<Longrightarrow> (\<not> b \<Longrightarrow> framed s n) \<Longrightarrow> framed s (if b then m else n)"
  "(b \<Longrightarrow> framed2 s m') \<Longrightarrow> (\<not> b \<Longrightarrow> framed2 s n') \<Longrightarrow> framed2 s (if b then m' else n')"
  by simp_all

lemma framed_step: "framed (s\<lparr>mem := m\<rparr>) x \<Longrightarrow> framed s x" "framed2 (s\<lparr>mem := m\<rparr>) y \<Longrightarrow> framed2 s y"
  by (auto simp: framed_def framed2_def wheneverR_def intro: mem_frame_trans [OF mem_frame_upd(1)] split: sum.splits)

lemma kalloc_framed: "framed2 s (kalloc s)" and kfree_framed: "framed s (kfree v s)"
  by (auto simp: framed_def framed2_def wheneverR_def dest: kalloc_frame kfree_frame split: sum.splits)

lemmas framed_intros = framed_bind framed2_bind framed_if kalloc_framed kfree_framed

lemma walkpgdir_framed: "framed2 s (walkpgdir pd va alloc s)"
  unfolding walkpgdir_def Let_def
  by (rule framed_intros | simp only: prod.case | (simp; fail) | rule framed_step)+

lemma mappages_loop_framed: "framed2 s (mappages_loop pd a l pa perm s)"
proof (induction pd a l pa perm s rule: mappages_loop.induct)
  case (1 pd a l pa perm s)
  show ?case
    by (subst mappages_loop.simps, unfold Let_def)
      (rule framed_intros walkpgdir_framed | simp only: prod.case | (simp; fail) | rule "1.IH" refl | assumption | rule framed_step)+
qed

lemma mappages_framed: "framed2 s (mappages pd va n pa perm s)"
  unfolding mappages_def Let_def by (rule mappages_loop_framed)

lemma deallocuvm_loop_framed: "framed s (deallocuvm_loop pd a n s)"
proof (induction pd a n s rule: deallocuvm_loop.induct)
  case (1 pd a n s)
  show ?case
    by (subst deallocuvm_loop.simps, unfold Let_def)
      (rule framed_intros walkpgdir_framed | simp only: prod.case | (simp; fail) | rule "1.IH" [unfolded Let_def] refl | assumption)+
qed

lemma deallocuvm_framed: "framed2 s (deallocuvm pd o' n s)"
  unfolding deallocuvm_def by (rule framed_intros deallocuvm_loop_framed | simp only: prod.case | (simp; fail))+

lemma freevm_loop_framed: "framed s (freevm_loop pd js s)"
  by (induction pd js s rule: freevm_loop.induct)
    (auto simp: Let_def intro!: framed_intros)

lemma freevm_framed: "framed s (freevm pd s)"
  unfolding freevm_def by (rule framed_intros deallocuvm_framed freevm_loop_framed | simp only: prod.case | (simp; fail))+

lemma setupkvm_loop_framed: "framed2 s (setupkvm_loop pd ks s)"
proof (induction pd ks s rule: setupkvm_loop.induct)
  case (2 pd va a b perm ks s)
  then show ?case
    by (auto intro!: framed_intros mappages_framed freevm_framed)
qed simp

lemma setupkvm_framed: "framed2 s (setupkvm s)"
  unfolding setupkvm_def Let_def
  by (rule framed_intros | simp only: prod.case | (simp; fail) | rule framed_step, rule setupkvm_loop_framed)+

lemma inituvm_framed: "framed s (inituvm pd i n s)"
  unfolding inituvm_def Let_def
  by (rule framed_intros | simp only: prod.case | (simp; fail) | rule framed_step, rule framed_intros mappages_framed)+

lemma allocuvm_loop_framed: "framed2 s (allocuvm_loop pd a o' n s)"
proof (induction pd a o' n s rule: allocuvm_loop.induct)
  case (1 pd a o' n s)
  show ?case
    by (subst allocuvm_loop.simps, unfold Let_def)
      (rule framed_intros deallocuvm_framed mappages_framed | simp only: prod.case | (simp; fail) | rule "1.IH" refl | assumption | rule framed_step)+
qed

lemma allocuvm_framed: "framed2 s (allocuvm pd o' n s)"
  unfolding allocuvm_def by (rule framed_intros allocuvm_loop_framed | simp only: prod.case | (simp; fail))+

lemma copyuvm_loop_framed: "framed2 s (copyuvm_loop pd d i n s)"
proof (induction pd d i n s rule: copyuvm_loop.induct)
  case (1 pd d i n s)
  show ?case
    by (subst copyuvm_loop.simps, unfold Let_def)
      (rule framed_intros walkpgdir_framed freevm_framed mappages_framed | simp only: prod.case | (simp; fail) | rule "1.IH" refl | assumption | rule framed_step)+
qed

lemma copyuvm_framed: "framed2 s (copyuvm pd n s)"
  unfolding copyuvm_def by (rule framed_intros setupkvm_framed copyuvm_loop_framed | simp only: prod.case | (simp; fail))+

lemma clearpteu_framed: "framed s (clearpteu pd va s)"
  unfolding clearpteu_def by (rule framed_intros walkpgdir_framed | simp only: prod.case | (simp; fail))+

lemma framed_frame: "framed s m \<Longrightarrow> mem_calm s \<Longrightarrow> m = Inr t \<Longrightarrow> mem_frame s t"
  "framed2 s m' \<Longrightarrow> mem_calm s \<Longrightarrow> m' = Inr (r, t) \<Longrightarrow> mem_frame s t"
  by (simp_all add: framed_def framed2_def)

end
