(* ===== verification/Proc.thy ===== *)
theory Proc
  imports Vm
begin

unbundle bit_operations_syntax

text \<open>
  The process table and the scheduler of \<open>proc.c\<close>. A process is named by its slot in
  \<open>ptable.proc\<close>. A C \<open>int\<close> of a process is the machine word, read with \<open>sint\<close> where
  the code compares it as a signed number. Trap frames and contexts live on the kernel stack,
  in memory.

  A process that gives up the processor comes back in a state that the rest of the system has
  changed meanwhile. \<open>sched\<close>, \<open>yield\<close> and \<open>sleep\<close> therefore take the changes to
  come as a list (\<open>envs\<close>), one per switch, and so does a loop that may sleep many
  times; when the list is used up the result is \<open>Sleeping\<close> (or \<open>Switched\<close>, for
  \<open>yield\<close>) with the state in which the processor was given up. In the same way \<open>scheduler\<close> takes the list of what the processes
  it switches to do until they switch back; when it is used up the result is
  \<open>Running\<close> with the chosen process and the state in which it starts. \<open>swtch.S\<close>
  itself saves and loads registers only; the stack pointers it keeps in \<open>p->context\<close> and
  \<open>c->scheduler\<close> are not part of the state.
\<close>

section \<open>Definitions\<close>

datatype procstate = UNUSED | EMBRYO | SLEEPING | RUNNABLE | RUNNING | ZOMBIE

record proc =
  sz :: u32
  pgdir :: u32
  kstack :: u32
  state :: procstate
  pid :: u32
  parent :: "nat option"
  tf :: u32
  p_context :: u32
  p_chan :: "chan option"
  killed :: bool
  ofile :: "nat option list"
  cwd :: "nat option"
  p_name :: "u8 list"
  priority :: u32
  ctime :: u32
  stime :: u32
  retime :: u32
  rutime :: u32
  time_slice :: u32
  queue_time :: u32

record ptab = vm +
  procs :: "proc list"
  nextpid :: u32
  initproc :: "nat option"
  forkret_first :: bool

abbreviation (input) NPROC :: nat where "NPROC \<equiv> 64"
abbreviation (input) INTERV :: u32 where "INTERV \<equiv> 5"
abbreviation (input) P1TO2 :: int where "P1TO2 \<equiv> 200"
abbreviation (input) P2TO3 :: int where "P2TO3 \<equiv> 100"

abbreviation proc_at :: "'z ptab_scheme \<Rightarrow> nat \<Rightarrow> proc" where
  "proc_at s i \<equiv> procs s ! i"

definition upd_proc :: "nat \<Rightarrow> (proc \<Rightarrow> proc) \<Rightarrow> 'z ptab_scheme \<Rightarrow> 'z ptab_scheme" where
  "upd_proc i f s = s\<lparr>procs := upd_nth i f (procs s)\<rparr>"

definition pinit :: "'z ptab_scheme \<Rightarrow> 'z ptab_scheme" where
  "pinit s = initlock L_ptable s"

definition myproc :: "'z mach_scheme \<Rightarrow> ('z mach_scheme, nat option \<times> 'z mach_scheme) kres" where
  "myproc s =
     bindR (pushcli s) (\<lambda>s.
     bindR (mycpu s) (\<lambda>c.
     let p = cpu_proc (cpus s ! c)
     in bindR (popcli s) (\<lambda>s. Inr (p, s))))"

text \<open>
  Code that follows the result of \<open>myproc\<close> without testing it: with no current process it
  reads through a null pointer, which faults in the kernel.
\<close>

definition curproc :: "'z mach_scheme \<Rightarrow> ('z mach_scheme, nat \<times> 'z mach_scheme) kres" where
  "curproc s = bindR (myproc s) (\<lambda>(p, s).
     case p of None \<Rightarrow> Inl (Panic ''trap'') | Some i \<Rightarrow> Inr (i, s))"

definition allocproc :: "'z ptab_scheme \<Rightarrow> ('z ptab_scheme, nat option \<times> 'z ptab_scheme) kres" where
  "allocproc s =
     bindR (acquire L_ptable s) (\<lambda>s.
     case find (\<lambda>i. state (proc_at s i) = UNUSED) [0..<NPROC] of
       None \<Rightarrow> bindR (release L_ptable s) (\<lambda>s. Inr (None, s))
     | Some p \<Rightarrow>
         let s = upd_proc p (\<lambda>q. q\<lparr>state := EMBRYO, pid := nextpid s\<rparr>) s;
             s = s\<lparr>nextpid := nextpid s + 1\<rparr>;
             s = upd_proc p (\<lambda>q. q\<lparr>priority := 2, retime := 0, rutime := 0, stime := 0, ctime := 0,
                                   queue_time := 0\<rparr>) s
         in bindR (release L_ptable s) (\<lambda>s.
            bindR (kalloc s) (\<lambda>(ks, s).
            let s = upd_proc p (\<lambda>q. q\<lparr>kstack := ks\<rparr>) s
            in if ks = 0 then Inr (None, upd_proc p (\<lambda>q. q\<lparr>state := UNUSED\<rparr>) s)
               else
                 let sp = ks + KSTACKSIZE - 76;
                     s = upd_proc p (\<lambda>q. q\<lparr>tf := sp\<rparr>) s;
                     sp = sp - 4;
                     s = s\<lparr>mem := store32 (mem s) sp (ld_trapret s)\<rparr>;
                     sp = sp - 20;
                     s = upd_proc p (\<lambda>q. q\<lparr>p_context := sp\<rparr>) s;
                     s = s\<lparr>mem := memset (mem s) sp 0 20\<rparr>;
                     s = s\<lparr>mem := store32 (mem s) (sp + 16) (ld_forkret s)\<rparr>
                 in Inr (Some p, s))))"

definition growproc :: "u32 \<Rightarrow> 'z ptab_scheme \<Rightarrow> ('z ptab_scheme, int \<times> 'z ptab_scheme) kres" where
  "growproc n s =
     bindR (curproc s) (\<lambda>(cp, s).
     let sz0 = sz (proc_at s cp); pd = pgdir (proc_at s cp)
     in bindR (if 0 < sint n then allocuvm pd sz0 (sz0 + n) s
               else if sint n < 0 then deallocuvm pd sz0 (sz0 + n) s
               else Inr (sz0, s)) (\<lambda>(sz1, s).
        if n \<noteq> 0 \<and> sz1 = 0 then Inr (-1, s)
        else
          let s = upd_proc cp (\<lambda>q. q\<lparr>sz := sz1\<rparr>) s
          in bindR (switchuvm (Some (kstack (proc_at s cp), pgdir (proc_at s cp))) s) (\<lambda>s.
             Inr (0, s))))"

definition wakeup1 :: "chan option \<Rightarrow> 'z ptab_scheme \<Rightarrow> 'z ptab_scheme" where
  "wakeup1 ch s = s\<lparr>procs := map (\<lambda>p. if state p = SLEEPING \<and> p_chan p = ch then p\<lparr>state := RUNNABLE\<rparr> else p)
     (procs s)\<rparr>"

definition wakeup :: "chan \<Rightarrow> 'z ptab_scheme \<Rightarrow> ('z ptab_scheme, 'z ptab_scheme) kres" where
  "wakeup ch s = bindR (acquire L_ptable s) (\<lambda>s. release L_ptable (wakeup1 (Some ch) s))"

text \<open>\<open>sched\<close> up to the call of \<open>swtch\<close>, with the interrupt state it keeps on the stack.\<close>

definition sched_enter :: "'z ptab_scheme \<Rightarrow> ('z ptab_scheme, bool \<times> 'z ptab_scheme) kres" where
  "sched_enter s =
     bindR (curproc s) (\<lambda>(p, s).
     bindR (holding L_ptable s) (\<lambda>(h, s).
     if \<not> h then Inl (Panic ''sched ptable.lock'')
     else bindR (mycpu s) (\<lambda>c.
       if ncli (cpus s ! c) \<noteq> 1 then Inl (Panic ''sched locks'')
       else if state (proc_at s p) = RUNNING then Inl (Panic ''sched running'')
       else if eflags_if s then Inl (Panic ''sched interruptible'')
       else Inr (intena (cpus s ! c), s))))"

text \<open>The last statement of \<open>sched\<close>, when the process is switched to again.\<close>

definition sched_leave :: "bool \<Rightarrow> 'z ptab_scheme \<Rightarrow> ('z ptab_scheme, 'z ptab_scheme) kres" where
  "sched_leave fl s = bindR (mycpu s) (\<lambda>c. Inr (upd_cpu c (\<lambda>x. x\<lparr>intena := fl\<rparr>) s))"

definition sched :: "('z ptab_scheme \<Rightarrow> 'z ptab_scheme) list \<Rightarrow> 'z ptab_scheme \<Rightarrow>
    ('z ptab_scheme, ('z ptab_scheme \<Rightarrow> 'z ptab_scheme) list \<times> 'z ptab_scheme) kres" where
  "sched envs s =
     bindR (sched_enter s) (\<lambda>(fl, s).
     case envs of [] \<Rightarrow> Inl (Switched s)
     | env # envs \<Rightarrow> bindR (sched_leave fl (env s)) (\<lambda>s. Inr (envs, s)))"

definition yield :: "('z ptab_scheme \<Rightarrow> 'z ptab_scheme) list \<Rightarrow> 'z ptab_scheme \<Rightarrow> ('z ptab_scheme, 'z ptab_scheme) kres" where
  "yield envs s =
     bindR (acquire L_ptable s) (\<lambda>s.
     bindR (curproc s) (\<lambda>(p, s).
     bindR (sched envs (upd_proc p (\<lambda>q. q\<lparr>state := RUNNABLE\<rparr>) s)) (\<lambda>(_, s).
     release L_ptable s)))"

text \<open>\<open>sleep\<close> up to the switch away from the process; the result carries its slot.\<close>

definition sleep_enter :: "chan \<Rightarrow> lockid \<Rightarrow> 'z ptab_scheme \<Rightarrow> ('z ptab_scheme, (nat \<times> bool) \<times> 'z ptab_scheme) kres" where
  "sleep_enter ch lk s =
     bindR (myproc s) (\<lambda>(p, s).
     case p of None \<Rightarrow> Inl (Panic ''sleep'')
     | Some p \<Rightarrow>
         bindR (if lk \<noteq> L_ptable then bindR (acquire L_ptable s) (release lk) else Inr s) (\<lambda>s.
         bindR (sched_enter (upd_proc p (\<lambda>q. q\<lparr>p_chan := Some ch, state := SLEEPING\<rparr>) s)) (\<lambda>(fl, s).
         Inr ((p, fl), s))))"

definition sleep_leave :: "nat \<Rightarrow> bool \<Rightarrow> lockid \<Rightarrow> 'z ptab_scheme \<Rightarrow> ('z ptab_scheme, 'z ptab_scheme) kres" where
  "sleep_leave p fl lk s =
     bindR (sched_leave fl s) (\<lambda>s.
     let s = upd_proc p (\<lambda>q. q\<lparr>p_chan := None\<rparr>) s
     in if lk \<noteq> L_ptable then bindR (release L_ptable s) (acquire lk) else Inr s)"

text \<open>
  One call of \<open>sleep\<close>, taking what happens meanwhile from the head of \<open>envs\<close>; the rest
  of the list is returned.
\<close>

definition sleep :: "chan \<Rightarrow> lockid \<Rightarrow> ('z ptab_scheme \<Rightarrow> 'z ptab_scheme) list \<Rightarrow> 'z ptab_scheme \<Rightarrow>
    ('z ptab_scheme, ('z ptab_scheme \<Rightarrow> 'z ptab_scheme) list \<times> 'z ptab_scheme) kres" where
  "sleep ch lk envs s =
     bindR (sleep_enter ch lk s) (\<lambda>((p, fl), s).
     case envs of [] \<Rightarrow> Inl (Sleeping ch s)
     | env # envs \<Rightarrow> bindR (sleep_leave p fl lk (env s)) (\<lambda>s. Inr (envs, s)))"

definition kill :: "u32 \<Rightarrow> 'z ptab_scheme \<Rightarrow> ('z ptab_scheme, int \<times> 'z ptab_scheme) kres" where
  "kill n s =
     bindR (acquire L_ptable s) (\<lambda>s.
     case find (\<lambda>i. pid (proc_at s i) = n) [0..<NPROC] of
       Some i \<Rightarrow>
         let s = upd_proc i (\<lambda>p. p\<lparr>killed := True\<rparr>) s;
             s = (if state (proc_at s i) = SLEEPING then upd_proc i (\<lambda>p. p\<lparr>state := RUNNABLE\<rparr>) s else s)
         in bindR (release L_ptable s) (\<lambda>s. Inr (0, s))
     | None \<Rightarrow> bindR (release L_ptable s) (\<lambda>s. Inr (-1, s)))"

definition change_prio :: "u32 \<Rightarrow> 'z ptab_scheme \<Rightarrow> ('z ptab_scheme, int \<times> 'z ptab_scheme) kres" where
  "change_prio prio s =
     bindR (curproc s) (\<lambda>(cp, s).
     let n = pid (proc_at s cp)
     in bindR (acquire L_ptable s) (\<lambda>s.
        case find (\<lambda>i. pid (proc_at s i) = n) [0..<NPROC] of
          Some i \<Rightarrow> bindR (release L_ptable (upd_proc i (\<lambda>p. p\<lparr>priority := prio\<rparr>) s)) (\<lambda>s. Inr (0, s))
        | None \<Rightarrow> bindR (release L_ptable s) (\<lambda>s. Inr (-1, s))))"

subsection \<open>Waiting for children\<close>

text \<open>What the three wait calls share on finding a zombie child in slot \<open>i\<close>.\<close>

definition reap :: "nat \<Rightarrow> 'z ptab_scheme \<Rightarrow> ('z ptab_scheme, u32 \<times> 'z ptab_scheme) kres" where
  "reap i s =
     (let n = pid (proc_at s i)
      in bindR (kfree (kstack (proc_at s i)) s) (\<lambda>s.
         let s = upd_proc i (\<lambda>p. p\<lparr>kstack := 0\<rparr>) s
         in bindR (freevm (pgdir (proc_at s i)) s) (\<lambda>s.
            Inr (n, upd_proc i (\<lambda>p. p\<lparr>pid := 0, parent := None, p_name := (p_name p)[0 := 0],
                                      killed := False, state := UNUSED\<rparr>) s))))"

definition wait_reap :: "nat \<Rightarrow> 'z ptab_scheme \<Rightarrow> ('z ptab_scheme, u32 \<times> 'z ptab_scheme) kres" where
  "wait_reap i s = reap i s"

definition wait2_reap :: "u32 \<Rightarrow> u32 \<Rightarrow> u32 \<Rightarrow> nat \<Rightarrow> 'z ptab_scheme \<Rightarrow> ('z ptab_scheme, u32 \<times> 'z ptab_scheme) kres" where
  "wait2_reap retime_p rutime_p stime_p i s =
     bindR (reap i s) (\<lambda>(n, s).
     bindR (ustore32 retime_p (retime (proc_at s i)) s) (\<lambda>s.
     bindR (ustore32 rutime_p (rutime (proc_at s i)) s) (\<lambda>s.
     bindR (ustore32 stime_p (stime (proc_at s i)) s) (\<lambda>s.
     Inr (n, upd_proc i (\<lambda>p. p\<lparr>priority := 1, retime := 0, rutime := 0, stime := 0\<rparr>) s)))))"

definition wait3_reap :: "u32 \<Rightarrow> nat \<Rightarrow> 'z ptab_scheme \<Rightarrow> ('z ptab_scheme, u32 \<times> 'z ptab_scheme) kres" where
  "wait3_reap prio_p i s =
     bindR (reap i s) (\<lambda>(n, s).
     bindR (ustore32 prio_p (priority (proc_at s i)) s) (\<lambda>s.
     Inr (n, upd_proc i (\<lambda>p. p\<lparr>priority := 1, retime := 0, rutime := 0, stime := 0\<rparr>) s)))"

text \<open>
  The scan for exited children, with the three calls' own way of reaping as an argument: the
  first zombie child is reaped and its pid returned; otherwise the flag \<open>havekids\<close>.
\<close>

fun wait_scan :: "(nat \<Rightarrow> 'z ptab_scheme \<Rightarrow> ('z ptab_scheme, u32 \<times> 'z ptab_scheme) kres) \<Rightarrow> nat \<Rightarrow> nat list \<Rightarrow>
    bool \<Rightarrow> 'z ptab_scheme \<Rightarrow> ('z ptab_scheme, (u32 option \<times> bool) \<times> 'z ptab_scheme) kres" where
  "wait_scan rp cp [] havekids s = Inr ((None, havekids), s)"
| "wait_scan rp cp (i # js) havekids s =
     (if parent (proc_at s i) \<noteq> Some cp then wait_scan rp cp js havekids s
      else if state (proc_at s i) = ZOMBIE then bindR (rp i s) (\<lambda>(n, s). Inr ((Some n, True), s))
      else wait_scan rp cp js True s)"

text \<open>The endless loop of the wait calls; each further round follows a sleep.\<close>

fun wait_loop :: "(nat \<Rightarrow> 'z ptab_scheme \<Rightarrow> ('z ptab_scheme, u32 \<times> 'z ptab_scheme) kres) \<Rightarrow> nat \<Rightarrow>
    ('z ptab_scheme \<Rightarrow> 'z ptab_scheme) list \<Rightarrow> 'z ptab_scheme \<Rightarrow> ('z ptab_scheme, u32 \<times> 'z ptab_scheme) kres" where
  "wait_loop rp cp envs s =
     bindR (wait_scan rp cp [0..<NPROC] False s) (\<lambda>((found, havekids), s).
     case found of
       Some n \<Rightarrow> bindR (release L_ptable s) (\<lambda>s. Inr (n, s))
     | None \<Rightarrow>
         if \<not> havekids \<or> killed (proc_at s cp) then bindR (release L_ptable s) (\<lambda>s. Inr (-1, s))
         else bindR (sleep_enter (Ch_proc cp) L_ptable s) (\<lambda>((p, fl), s).
           case envs of [] \<Rightarrow> Inl (Sleeping (Ch_proc cp) s)
           | env # envs \<Rightarrow> bindR (sleep_leave p fl L_ptable (env s)) (\<lambda>s. wait_loop rp cp envs s)))"

declare wait_loop.simps [simp del]

definition wait :: "('z ptab_scheme \<Rightarrow> 'z ptab_scheme) list \<Rightarrow> 'z ptab_scheme \<Rightarrow> ('z ptab_scheme, u32 \<times> 'z ptab_scheme) kres" where
  "wait envs s = bindR (curproc s) (\<lambda>(cp, s).
     bindR (acquire L_ptable s) (\<lambda>s. wait_loop wait_reap cp envs s))"

definition wait2 :: "u32 \<Rightarrow> u32 \<Rightarrow> u32 \<Rightarrow> ('z ptab_scheme \<Rightarrow> 'z ptab_scheme) list \<Rightarrow> 'z ptab_scheme \<Rightarrow>
    ('z ptab_scheme, u32 \<times> 'z ptab_scheme) kres" where
  "wait2 retime_p rutime_p stime_p envs s = bindR (curproc s) (\<lambda>(cp, s).
     bindR (acquire L_ptable s) (\<lambda>s. wait_loop (wait2_reap retime_p rutime_p stime_p) cp envs s))"

definition wait3 :: "u32 \<Rightarrow> ('z ptab_scheme \<Rightarrow> 'z ptab_scheme) list \<Rightarrow> 'z ptab_scheme \<Rightarrow>
    ('z ptab_scheme, u32 \<times> 'z ptab_scheme) kres" where
  "wait3 prio_p envs s = bindR (curproc s) (\<lambda>(cp, s).
     bindR (acquire L_ptable s) (\<lambda>s. wait_loop (wait3_reap prio_p) cp envs s))"

subsection \<open>The scheduler\<close>

text \<open>
  The inner loop of \<open>scheduler\<close>: starting from a candidate it keeps the first process whose
  priority beats the best so far. The candidate is a process, so the later test for a null
  pointer never fires.
\<close>

definition better :: "proc list \<Rightarrow> nat \<Rightarrow> nat \<Rightarrow> nat" where
  "better ps h q = (if state (ps ! q) = RUNNABLE \<and> sint (priority (ps ! q)) > sint (priority (ps ! h)) then q else h)"

definition highest_priority_p :: "proc list \<Rightarrow> nat \<Rightarrow> nat" where
  "highest_priority_p ps p = foldl (better ps) p [0..<NPROC]"

text \<open>What the scheduler does with the chosen process before it switches to it.\<close>

definition dispatch :: "nat \<Rightarrow> nat \<Rightarrow> 'z ptab_scheme \<Rightarrow> ('z ptab_scheme, 'z ptab_scheme) kres" where
  "dispatch c p s =
     bindR (switchuvm (Some (kstack (proc_at s p), pgdir (proc_at s p)))
              (upd_cpu c (\<lambda>x. x\<lparr>cpu_proc := Some p\<rparr>) s)) (\<lambda>s.
     Inr (upd_proc p (\<lambda>q. q\<lparr>state := RUNNING, time_slice := INTERV, queue_time := queue_time q + 1,
                            rutime := rutime q + 1\<rparr>) s))"

text \<open>The accounting done for each slot after a process has run; \<open>n\<close> is that process's pid.\<close>

definition account :: "u32 \<Rightarrow> proc \<Rightarrow> proc" where
  "account n w =
     (let w = w\<lparr>ctime := ctime w + 1\<rparr>;
          w = (if pid w \<noteq> n then
                 if state w = SLEEPING then w\<lparr>stime := stime w + 1\<rparr> else w\<lparr>retime := retime w + 1\<rparr>
               else w)
      in if sint (priority w) = 2 \<and> sint (queue_time w) \<ge> P2TO3 then w\<lparr>queue_time := 0, priority := 3\<rparr>
         else if sint (priority w) = 1 \<and> sint (queue_time w) \<ge> P1TO2 then w\<lparr>queue_time := 0, priority := 2\<rparr>
         else w)"

text \<open>After the switch back: \<open>p\<close> is the process that ran.\<close>

definition after_run :: "nat \<Rightarrow> nat \<Rightarrow> 'z ptab_scheme \<Rightarrow> 'z ptab_scheme" where
  "after_run c p s =
     (let s = switchkvm s;
          s = upd_cpu c (\<lambda>x. x\<lparr>cpu_proc := None\<rparr>) s
      in s\<lparr>procs := map (account (pid (proc_at s p))) (procs s)\<rparr>)"

text \<open>
  One pass over the table from slot \<open>p\<close> on. The inner loops reuse \<open>p\<close>, so after a process
  has run the pass goes on at the slot behind it.
\<close>

function scheduler_scan :: "nat \<Rightarrow> nat \<Rightarrow> ('z ptab_scheme \<Rightarrow> 'z ptab_scheme) list \<Rightarrow> 'z ptab_scheme \<Rightarrow>
    ('z ptab_scheme, ('z ptab_scheme \<Rightarrow> 'z ptab_scheme) list \<times> 'z ptab_scheme) kres" where
  "scheduler_scan c p runs s =
     (if p < NPROC then
        if state (proc_at s p) \<noteq> RUNNABLE then scheduler_scan c (p + 1) runs s
        else
          let h = highest_priority_p (procs s) p
          in bindR (dispatch c h s) (\<lambda>s.
             case runs of
               [] \<Rightarrow> Inl (Running h s)
             | run # runs \<Rightarrow> scheduler_scan c (h + 1) runs (after_run c h (run s)))
      else Inr (runs, s))"
  by pat_completeness auto
termination
  by (relation "measures [\<lambda>(c, p, runs, s). length runs, \<lambda>(c, p, runs, s). NPROC - p]") auto

declare scheduler_scan.simps [simp del]

definition scheduler_pass :: "nat \<Rightarrow> ('z ptab_scheme \<Rightarrow> 'z ptab_scheme) list \<Rightarrow> 'z ptab_scheme \<Rightarrow>
    ('z ptab_scheme, ('z ptab_scheme \<Rightarrow> 'z ptab_scheme) list \<times> 'z ptab_scheme) kres" where
  "scheduler_pass c runs s =
     (let s = s\<lparr>eflags_if := True\<rparr>
      in bindR (acquire L_ptable s) (\<lambda>s.
         bindR (scheduler_scan c 0 runs s) (\<lambda>(runs, s).
         bindR (release L_ptable s) (\<lambda>s. Inr (runs, s)))))"

text \<open>The endless loop, cut after \<open>n\<close> passes.\<close>

fun scheduler_passes :: "nat \<Rightarrow> nat \<Rightarrow> ('z ptab_scheme \<Rightarrow> 'z ptab_scheme) list \<Rightarrow> 'z ptab_scheme \<Rightarrow>
    ('z ptab_scheme, ('z ptab_scheme \<Rightarrow> 'z ptab_scheme) list \<times> 'z ptab_scheme) kres" where
  "scheduler_passes 0 c runs s = Inr (runs, s)"
| "scheduler_passes (Suc n) c runs s =
     bindR (scheduler_pass c runs s) (\<lambda>(runs, s). scheduler_passes n c runs s)"

definition scheduler :: "nat \<Rightarrow> ('z ptab_scheme \<Rightarrow> 'z ptab_scheme) list \<Rightarrow> 'z ptab_scheme \<Rightarrow>
    ('z ptab_scheme, ('z ptab_scheme \<Rightarrow> 'z ptab_scheme) list \<times> 'z ptab_scheme) kres" where
  "scheduler n runs s =
     bindR (mycpu s) (\<lambda>c. scheduler_passes n c runs (upd_cpu c (\<lambda>x. x\<lparr>cpu_proc := None\<rparr>) s))"

text \<open>The scheduler that was kept for comparison.\<close>

fun scheduler_original_scan :: "nat \<Rightarrow> nat list \<Rightarrow> ('z ptab_scheme \<Rightarrow> 'z ptab_scheme) list \<Rightarrow> 'z ptab_scheme \<Rightarrow>
    ('z ptab_scheme, ('z ptab_scheme \<Rightarrow> 'z ptab_scheme) list \<times> 'z ptab_scheme) kres" where
  "scheduler_original_scan c [] runs s = Inr (runs, s)"
| "scheduler_original_scan c (p # js) runs s =
     (if state (proc_at s p) \<noteq> RUNNABLE then scheduler_original_scan c js runs s
      else
        bindR (switchuvm (Some (kstack (proc_at s p), pgdir (proc_at s p)))
                 (upd_cpu c (\<lambda>x. x\<lparr>cpu_proc := Some p\<rparr>) s)) (\<lambda>s.
        let s = upd_proc p (\<lambda>q. q\<lparr>state := RUNNING\<rparr>) s
        in case runs of
             [] \<Rightarrow> Inl (Running p s)
           | run # runs \<Rightarrow>
               scheduler_original_scan c js runs
                 (upd_cpu c (\<lambda>x. x\<lparr>cpu_proc := None\<rparr>) (switchkvm (run s)))))"

definition scheduler_original_pass :: "nat \<Rightarrow> ('z ptab_scheme \<Rightarrow> 'z ptab_scheme) list \<Rightarrow> 'z ptab_scheme \<Rightarrow>
    ('z ptab_scheme, ('z ptab_scheme \<Rightarrow> 'z ptab_scheme) list \<times> 'z ptab_scheme) kres" where
  "scheduler_original_pass c runs s =
     (let s = s\<lparr>eflags_if := True\<rparr>
      in bindR (acquire L_ptable s) (\<lambda>s.
         bindR (scheduler_original_scan c [0..<NPROC] runs s) (\<lambda>(runs, s).
         bindR (release L_ptable s) (\<lambda>s. Inr (runs, s)))))"

subsection \<open>What is stated about the scheduler\<close>

text \<open>
  Process \<open>q\<close> waits at the lowest priority; a rival of higher priority is ready; \<open>busy\<close>
  says of what runs that it leaves \<open>q\<close> waiting and again some rival ready.
\<close>

definition waits :: "nat \<Rightarrow> 'z ptab_scheme \<Rightarrow> bool" where
  "waits q s \<longleftrightarrow> length (procs s) = NPROC \<and> q < NPROC \<and> state (proc_at s q) = RUNNABLE \<and>
     priority (proc_at s q) = 1 \<and> sint (queue_time (proc_at s q)) < P1TO2"

definition rival :: "nat \<Rightarrow> procstate set \<Rightarrow> 'z ptab_scheme \<Rightarrow> bool" where
  "rival q sts s \<longleftrightarrow> (\<exists>k<NPROC. k \<noteq> q \<and> state (proc_at s k) \<in> sts \<and> 1 < sint (priority (proc_at s k)))"

definition busy :: "nat \<Rightarrow> ('z ptab_scheme \<Rightarrow> 'z ptab_scheme) \<Rightarrow> bool" where
  "busy q run \<longleftrightarrow> (\<forall>s. waits q s \<longrightarrow> rival q {RUNNABLE, RUNNING} s \<longrightarrow>
     waits q (run s) \<and> rival q {RUNNABLE} (run s))"

text \<open>
  Process slots in use have different pids; the time a process has been in the table is split
  among sleeping, ready and running. While \<open>h\<close> runs, its current round is already counted in
  \<open>rutime\<close> but not yet in \<open>ctime\<close>.
\<close>

definition pids_distinct :: "'z ptab_scheme \<Rightarrow> bool" where
  "pids_distinct s \<longleftrightarrow> (\<forall>i<NPROC. \<forall>j<NPROC. i \<noteq> j \<longrightarrow> state (proc_at s i) \<noteq> UNUSED \<longrightarrow>
     state (proc_at s j) \<noteq> UNUSED \<longrightarrow> pid (proc_at s i) \<noteq> pid (proc_at s j))"

definition time_split :: "u32 \<Rightarrow> proc \<Rightarrow> bool" where
  "time_split d p \<longleftrightarrow> state p \<noteq> UNUSED \<longrightarrow> ctime p + d = stime p + retime p + rutime p"

definition times_ok :: "'z ptab_scheme \<Rightarrow> bool" where
  "times_ok s \<longleftrightarrow> length (procs s) = NPROC \<and> pids_distinct s \<and> (\<forall>i<NPROC. time_split 0 (proc_at s i))"

definition times_running :: "nat \<Rightarrow> 'z ptab_scheme \<Rightarrow> bool" where
  "times_running h s \<longleftrightarrow> length (procs s) = NPROC \<and> pids_distinct s \<and> h < NPROC \<and>
     state (proc_at s h) \<noteq> UNUSED \<and> time_split 1 (proc_at s h) \<and>
     (\<forall>i<NPROC. i \<noteq> h \<longrightarrow> time_split 0 (proc_at s i))"

text \<open>What runs leaves a process \<open>q\<close> that is ready as it is, in a table of the same size.\<close>

definition keeps_ready :: "nat \<Rightarrow> ('z ptab_scheme \<Rightarrow> 'z ptab_scheme) \<Rightarrow> bool" where
  "keeps_ready q run \<longleftrightarrow> (\<forall>s. length (procs (run s)) = length (procs s) \<and>
     (q < length (procs s) \<longrightarrow> state (proc_at s q) = RUNNABLE \<longrightarrow> state (proc_at (run s) q) = RUNNABLE))"

text \<open>What a process that was switched to may do to the tables themselves: nothing.\<close>

definition keeps_tables :: "('z ptab_scheme \<Rightarrow> 'z ptab_scheme) \<Rightarrow> bool" where
  "keeps_tables run \<longleftrightarrow> (\<forall>s. length (procs (run s)) = length (procs s) \<and> length (cpus (run s)) = length (cpus s))"

text \<open>
  Rule for invariants of the scheduler: \<open>I\<close> holds between the runs, \<open>D h\<close> when process
  \<open>h\<close> starts. Both are about the process table and the number of processors only.
\<close>

definition table_pred :: "('z ptab_scheme \<Rightarrow> bool) \<Rightarrow> bool" where
  "table_pred I \<longleftrightarrow> (\<forall>s t. procs t = procs s \<longrightarrow> length (cpus t) = length (cpus s) \<longrightarrow> I s \<longrightarrow> I t)"

definition best :: "'z ptab_scheme \<Rightarrow> nat \<Rightarrow> bool" where
  "best s h \<longleftrightarrow> h < NPROC \<and> state (proc_at s h) = RUNNABLE \<and>
     (\<forall>q<NPROC. state (proc_at s q) = RUNNABLE \<longrightarrow> sint (priority (proc_at s q)) \<le> sint (priority (proc_at s h)))"

definition sched_step_ok :: "nat \<Rightarrow> ('z ptab_scheme \<Rightarrow> bool) \<Rightarrow> (nat \<Rightarrow> 'z ptab_scheme \<Rightarrow> bool) \<Rightarrow>
    ('z ptab_scheme \<Rightarrow> 'z ptab_scheme) set \<Rightarrow> bool" where
  "sched_step_ok c I D R \<longleftrightarrow> (\<forall>s h u. I s \<longrightarrow> best s h \<longrightarrow> dispatch c h s = Inr u \<longrightarrow>
     D h u \<and> (\<forall>run\<in>R. I (after_run c h (run u))))"

definition sched_post :: "('z ptab_scheme \<Rightarrow> bool) \<Rightarrow> (nat \<Rightarrow> 'z ptab_scheme \<Rightarrow> bool) \<Rightarrow>
    ('z ptab_scheme \<Rightarrow> 'z ptab_scheme) set \<Rightarrow>
    ('z ptab_scheme, ('z ptab_scheme \<Rightarrow> 'z ptab_scheme) list \<times> 'z ptab_scheme) kres \<Rightarrow> bool" where
  "sched_post I D R r \<longleftrightarrow> (\<forall>h t. r = Inl (Running h t) \<longrightarrow> D h t) \<and>
     (\<forall>runs t. r = Inr (runs, t) \<longrightarrow> set runs \<subseteq> R \<and> I t)"

text \<open>A table with three ready processes, and the run in which the running process yields at once.\<close>

definition unused_proc :: proc where
  "unused_proc = \<lparr>sz = 0, pgdir = 0, kstack = 0, state = UNUSED, pid = 0, parent = None, tf = 0, p_context = 0,
     p_chan = None, killed = False, ofile = replicate 16 None, cwd = None, p_name = replicate 16 0,
     priority = 0, ctime = 0, stime = 0, retime = 0, rutime = 0, time_slice = 0, queue_time = 0\<rparr>"

definition ready_proc :: "u32 \<Rightarrow> u32 \<Rightarrow> proc" where
  "ready_proc n prio = unused_proc\<lparr>sz := 4096, pgdir := 0x80600000 + n * 4096, kstack := 0x80500000 + n * 4096,
     state := RUNNABLE, pid := n, priority := prio\<rparr>"

definition demo_ptab :: ptab where
  "demo_ptab = \<lparr>cpus = cpus boot_mach, ncpu = ncpu boot_mach, lapic_id = lapic_id boot_mach,
     eflags_if = False, locks = locks boot_mach, mem = (\<lambda>_. 0), freelist = 0,
     use_lock = True, ld_end = 0x80110000, ld_data = 0x80108000, ld_forkret = 0x80103000,
     ld_trapret = 0x80105000, kpgdir = 0x80400000, cr3 = 0x400000, task_reg = 0,
     gdt = (\<lambda>_ _. SEG 0 0 0 0), gdt_loaded = (\<lambda>_. True),
     tss = (\<lambda>_. \<lparr>ts_ss0 = 0, ts_esp0 = 0, ts_iomb = 0\<rparr>), ts_addr = (\<lambda>_. 0x80112000),
     procs = (replicate NPROC unused_proc)[0 := ready_proc 1 1, 1 := ready_proc 2 3, 5 := ready_proc 3 3],
     nextpid = 4, initproc = Some 0, forkret_first = True\<rparr>"

definition yield_back :: "'z ptab_scheme \<Rightarrow> 'z ptab_scheme" where
  "yield_back s = s\<lparr>procs := map (\<lambda>p. if state p = RUNNING then p\<lparr>state := RUNNABLE\<rparr> else p) (procs s)\<rparr>"

section \<open>The choice of the scheduler\<close>

lemma foldl_better:
  assumes "h = foldl (better ps) p [0..<n]"
  shows "(h = p \<and> (\<forall>q<n. state (ps ! q) = RUNNABLE \<longrightarrow> sint (priority (ps ! q)) \<le> sint (priority (ps ! p)))) \<or>
    (h < n \<and> state (ps ! h) = RUNNABLE \<and> sint (priority (ps ! p)) < sint (priority (ps ! h)) \<and>
     (\<forall>q<n. state (ps ! q) = RUNNABLE \<longrightarrow> sint (priority (ps ! q)) \<le> sint (priority (ps ! h))) \<and>
     (\<forall>q<h. state (ps ! q) = RUNNABLE \<longrightarrow> sint (priority (ps ! q)) < sint (priority (ps ! h))))"
  using assms
proof (induction n arbitrary: h)
  case (Suc n)
  let ?g = "foldl (better ps) p [0..<n]"
  have h: "h = better ps ?g n" using Suc.prems by simp
  show ?case
  proof (cases "state (ps ! n) = RUNNABLE \<and> sint (priority (ps ! n)) > sint (priority (ps ! ?g))")
    case True
    then have "h = n" by (simp add: h better_def)
    then show ?thesis using True Suc.IH [OF refl] by (fastforce simp: less_Suc_eq)
  next
    case False
    then have "h = ?g" by (auto simp: h better_def)
    then show ?thesis using False Suc.IH [OF refl] by (auto simp: less_Suc_eq not_less)
  qed
qed simp

lemma highest_priority_p_choice:
  assumes "p < NPROC" and "state (ps ! p) = RUNNABLE"
  shows "highest_priority_p ps p < NPROC" "state (ps ! highest_priority_p ps p) = RUNNABLE"
    "q < NPROC \<Longrightarrow> state (ps ! q) = RUNNABLE \<Longrightarrow>
      sint (priority (ps ! q)) \<le> sint (priority (ps ! highest_priority_p ps p))"
  using foldl_better [OF refl, of ps p NPROC] assms by (auto simp: highest_priority_p_def)

section \<open>Frames\<close>

lemma cli_frame_ptab:
  assumes "cli_frame s t"
  shows "procs t = procs s" "nextpid t = nextpid s" "initproc t = initproc s"
    "mem t = mem s" "freelist t = freelist s" "use_lock t = use_lock s" "ld_end t = ld_end s"
    "kpgdir t = kpgdir s" "cr3 t = cr3 s" "ptab.more t = ptab.more s"
proof -
  have "mach.more t = mach.more s" using assms by (simp add: cli_frame_def)
  then show "procs t = procs s" "nextpid t = nextpid s" "initproc t = initproc s"
    "mem t = mem s" "freelist t = freelist s" "use_lock t = use_lock s" "ld_end t = ld_end s"
    "kpgdir t = kpgdir s" "cr3 t = cr3 s" "ptab.more t = ptab.more s"
    by (cases s; cases t; simp)+
qed

lemma upd_proc_simps [simp]:
  "procs (upd_proc i f s) = upd_nth i f (procs s)" "mach_same t (upd_proc i f s) = mach_same t s"
  "mem (upd_proc i f s) = mem s" "cpus (upd_proc i f s) = cpus s" "cr3 (upd_proc i f s) = cr3 s"
  "freelist (upd_proc i f s) = freelist s" "nextpid (upd_proc i f s) = nextpid s"
  "locks (upd_proc i f s) = locks s" "eflags_if (upd_proc i f s) = eflags_if s"
  by (simp_all add: upd_proc_def mach_same_def)

lemma upd_cpu_simps [simp]:
  "procs (upd_cpu c f s) = procs s" "cpus (upd_cpu c f s) = upd_nth c f (cpus s)"
  "mem (upd_cpu c f s) = mem s" "cr3 (upd_cpu c f s) = cr3 s"
  by (simp_all add: upd_cpu_def)

lemma switchuvm_frame:
  assumes "switchuvm (Some (ks, pd)) s = Inr t"
  shows "procs t = procs s" "cr3 t = V2P pd" "length (cpus t) = length (cpus s)" "pd \<noteq> 0"
    "i < length (cpus s) \<Longrightarrow> cpu_proc (cpus t ! i) = cpu_proc (cpus s ! i)"
proof -
  obtain a c g d where a: "pushcli s = Inr a" and nz: "pd \<noteq> 0"
    and t: "popcli (a\<lparr>gdt := g, tss := d, task_reg := 40, cr3 := V2P pd\<rparr>) = Inr t"
    using assms by (auto simp: switchuvm_def Let_def split: if_splits)
  let ?b = "a\<lparr>gdt := g, tss := d, task_reg := 40, cr3 := V2P pd\<rparr>"
  have fa: "cli_frame s a" and ft: "cli_frame ?b t"
    using pushcli_frame [OF a] popcli_frame [OF t] by simp_all
  show "procs t = procs s" "cr3 t = V2P pd" "pd \<noteq> 0"
    using cli_frame_ptab [OF fa] cli_frame_ptab [OF ft] nz by simp_all
  show "length (cpus t) = length (cpus s)"
    using cli_frame_cpus(1) [OF fa] cli_frame_cpus(1) [OF ft] by simp
  show "i < length (cpus s) \<Longrightarrow> cpu_proc (cpus t ! i) = cpu_proc (cpus s ! i)"
    using cli_frame_cpus [OF fa] cli_frame_cpus [OF ft] by simp
qed

lemma dispatch_result:
  assumes "dispatch c p s = Inr t" and "p < length (procs s)" and "c < length (cpus s)"
  shows "procs t = upd_nth p (\<lambda>q. q\<lparr>state := RUNNING, time_slice := INTERV,
      queue_time := queue_time q + 1, rutime := rutime q + 1\<rparr>) (procs s)"
    "cr3 t = V2P (pgdir (proc_at s p))" "length (cpus t) = length (cpus s)"
    "cpu_proc (cpus t ! c) = Some p"
proof -
  obtain x where x: "switchuvm (Some (kstack (proc_at s p), pgdir (proc_at s p)))
      (upd_cpu c (\<lambda>x. x\<lparr>cpu_proc := Some p\<rparr>) s) = Inr x"
    and t: "t = upd_proc p (\<lambda>q. q\<lparr>state := RUNNING, time_slice := INTERV,
      queue_time := queue_time q + 1, rutime := rutime q + 1\<rparr>) x"
    using assms(1) by (auto simp: dispatch_def)
  note f = switchuvm_frame [OF x]
  show "procs t = upd_nth p (\<lambda>q. q\<lparr>state := RUNNING, time_slice := INTERV,
      queue_time := queue_time q + 1, rutime := rutime q + 1\<rparr>) (procs s)"
    "cr3 t = V2P (pgdir (proc_at s p))" "length (cpus t) = length (cpus s)"
    "cpu_proc (cpus t ! c) = Some p"
    using f assms(3) by (simp_all add: t)
qed

lemma switchuvm_error: "switchuvm p s = Inl e \<Longrightarrow> \<exists>m. e = Panic m"
  by (auto simp: switchuvm_def bindR_eq_Inl Let_def dest: mycpu_error pushcli_error popcli_error
      split: option.splits if_splits)

lemma dispatch_error: "dispatch c p s \<noteq> Inl (Running h t)"
  by (auto simp: dispatch_def bindR_eq_Inl dest: switchuvm_error)

section \<open>Passes of the scheduler\<close>

lemma after_run_simps [simp]:
  "length (procs (after_run c p s)) = length (procs s)" "length (cpus (after_run c p s)) = length (cpus s)"
  "procs (after_run c p s) = map (account (pid (proc_at s p))) (procs s)"
  by (simp_all add: after_run_def switchkvm_def Let_def)

lemma scheduler_scan_rule:
  assumes "sched_step_ok c I D R" and "I s" and "set runs \<subseteq> R"
  shows "sched_post I D R (scheduler_scan c p runs s)"
  using assms
proof (induction c p runs s rule: scheduler_scan.induct)
  case (1 c p runs s)
  note scan = scheduler_scan.simps [of c p runs s]
  show ?case
  proof (cases "p < NPROC \<and> state (proc_at s p) = RUNNABLE")
    case False
    then show ?thesis using "1.IH"(1) "1.prems" scan by (auto simp: sched_post_def)
  next
    case True
    let ?h = "highest_priority_p (procs s) p"
    have best: "best s ?h"
      using highest_priority_p_choice [of p "procs s"] True by (auto simp: best_def)
    show ?thesis
    proof (cases "dispatch c ?h s")
      case (Inl e)
      then have "scheduler_scan c p runs s = Inl e" using True scan by (simp add: Let_def)
      then show ?thesis using Inl dispatch_error [of c ?h s] by (auto simp: sched_post_def)
    next
      case (Inr u)
      have step: "D ?h u" "\<forall>run\<in>R. I (after_run c ?h (run u))"
        using "1.prems"(1,2) best Inr by (auto simp: sched_step_ok_def)
      show ?thesis
      proof (cases runs)
        case Nil
        then show ?thesis using step(1) True scan Inr by (auto simp: sched_post_def)
      next
        case (Cons run runs')
        then have "scheduler_scan c p runs s = scheduler_scan c (?h + 1) runs' (after_run c ?h (run u))"
          using True scan Inr by (simp add: Let_def)
        then show ?thesis using "1.IH"(2) [OF _ _ refl Inr Cons] True "1.prems"(1,3) step(2) Cons by simp
      qed
    qed
  qed
qed

lemma table_predD:
  "table_pred I \<Longrightarrow> I s \<Longrightarrow> procs t = procs s \<Longrightarrow> length (cpus t) = length (cpus s) \<Longrightarrow> I t"
  unfolding table_pred_def by blast

lemma cli_frame_table: "table_pred I \<Longrightarrow> cli_frame s t \<Longrightarrow> I s \<Longrightarrow> I t"
  by (erule table_predD) (simp_all add: cli_frame_ptab(1) cli_frame_cpus(1))

lemma holding_error: "holding lk s = Inl e \<Longrightarrow> \<exists>m. e = Panic m"
  by (auto simp: holding_def bindR_eq_Inl Let_def dest: mycpu_error pushcli_error popcli_error)

lemma acquire_error: "acquire lk s = Inl e \<Longrightarrow> (\<exists>m. e = Panic m) \<or> (\<exists>t. e = Spin lk t)"
  unfolding acquire_def bindR_eq_Inl
  by (auto simp: bindR_eq_Inl Let_def dest: mycpu_error pushcli_error holding_error split: if_splits)

lemma release_error: "release lk s = Inl e \<Longrightarrow> \<exists>m. e = Panic m"
  by (auto simp: release_def bindR_eq_Inl Let_def dest: holding_error popcli_error split: if_splits)

lemma scheduler_pass_rule:
  assumes "sched_step_ok c I D R" and "table_pred I" and "I s" and "set runs \<subseteq> R"
  shows "sched_post I D R (scheduler_pass c runs s)"
proof (cases "acquire L_ptable (s\<lparr>eflags_if := True\<rparr>)")
  case (Inl e)
  then show ?thesis using acquire_error [OF Inl] by (auto simp: scheduler_pass_def sched_post_def Let_def)
next
  case (Inr a)
  have "I (s\<lparr>eflags_if := True\<rparr>)" by (rule table_predD [OF assms(2,3)]) simp_all
  then have "I a" by (rule cli_frame_table [OF assms(2) acquire_frame [OF Inr]])
  then have scan: "sched_post I D R (scheduler_scan c 0 runs a)"
    using assms(1,4) by (intro scheduler_scan_rule)
  show ?thesis
  proof (cases "scheduler_scan c 0 runs a")
    case (Inl e)
    then show ?thesis using scan Inr by (auto simp: scheduler_pass_def sched_post_def Let_def)
  next
    case (Inr x)
    obtain rs b where x: "x = (rs, b)" by (cases x)
    have b: "set rs \<subseteq> R" "I b" using scan Inr x by (auto simp: sched_post_def)
    have "scheduler_pass c runs s = bindR (release L_ptable b) (\<lambda>s. Inr (rs, s))"
      using \<open>acquire L_ptable (s\<lparr>eflags_if := True\<rparr>) = Inr a\<close> Inr x by (simp add: scheduler_pass_def Let_def)
    then show ?thesis
      using b cli_frame_table [OF assms(2) release_frame] release_error [of L_ptable b]
      by (auto simp: sched_post_def bindR_eq_Inl)
  qed
qed

lemma scheduler_passes_rule:
  assumes "sched_step_ok c I D R" and "table_pred I" and "I s" and "set runs \<subseteq> R"
  shows "sched_post I D R (scheduler_passes n c runs s)"
  using assms(3,4)
proof (induction n arbitrary: runs s)
  case (Suc n)
  have p: "sched_post I D R (scheduler_pass c runs s)"
    using assms(1,2) Suc.prems by (intro scheduler_pass_rule)
  show ?case
  proof (cases "scheduler_pass c runs s")
    case (Inr x)
    obtain rs b where x: "x = (rs, b)" by (cases x)
    have "I b" "set rs \<subseteq> R" using p Inr x by (simp_all add: sched_post_def)
    then have "sched_post I D R (scheduler_passes n c rs b)" by (rule Suc.IH)
    then show ?thesis by (simp add: Inr x)
  qed (use p in \<open>simp add: sched_post_def\<close>)
qed (simp add: sched_post_def)

lemma scheduler_rule:
  assumes "\<And>c. c < length (cpus s) \<Longrightarrow> sched_step_ok c I D R" and "table_pred I" and "I s"
    and "set runs \<subseteq> R" and "ncpu s \<le> length (cpus s)"
  shows "sched_post I D R (scheduler n runs s)"
proof (cases "mycpu s")
  case (Inl e)
  then show ?thesis using mycpu_error [OF Inl] by (auto simp: scheduler_def sched_post_def)
next
  case (Inr c)
  then have "c < length (cpus s)"
    using assms(5) by (auto simp: mycpu_def find_upt_Some split: if_splits option.splits)
  moreover have "I (upd_cpu c (\<lambda>x. x\<lparr>cpu_proc := None\<rparr>) s)"
    by (rule table_predD [OF assms(2,3)]) simp_all
  ultimately show ?thesis
    using scheduler_passes_rule [OF assms(1,2) _ assms(4)] Inr by (simp add: scheduler_def)
qed

section \<open>What the scheduler guarantees\<close>

lemma scheduler_choice:
  assumes "length (procs s) = NPROC" and "ncpu s \<le> length (cpus s)" and "\<forall>run\<in>set runs. keeps_tables run"
  shows "sched_post (\<lambda>t. length (procs t) = NPROC \<and> length (cpus t) = length (cpus s))
    (\<lambda>h t. h < NPROC \<and> state (proc_at t h) = RUNNING \<and> time_slice (proc_at t h) = INTERV \<and>
      cr3 t = V2P (pgdir (proc_at t h)) \<and>
      (\<forall>q<NPROC. q \<noteq> h \<longrightarrow> state (proc_at t q) = RUNNABLE \<longrightarrow>
         sint (priority (proc_at t q)) \<le> sint (priority (proc_at t h)))) (set runs) (scheduler n runs s)"
    (is "sched_post ?I ?D _ _")
proof (rule scheduler_rule)
  fix c assume c: "c < length (cpus s)"
  show "sched_step_ok c ?I ?D (set runs)"
    unfolding sched_step_ok_def
  proof (intro allI impI)
    fix a h u assume I: "?I a" and b: "best a h" and d: "dispatch c h a = Inr u"
    have h: "h < length (procs a)" and ca: "c < length (cpus a)" using I b c by (simp_all add: best_def)
    note r = dispatch_result [OF d h ca]
    show "?D h u \<and> (\<forall>run\<in>set runs. ?I (after_run c h (run u)))"
      using I b assms(3) by (auto simp: r best_def upd_nth_nth keeps_tables_def)
  qed
qed (use assms in \<open>simp_all add: table_pred_def\<close>)

lemma account_waits:
  assumes "priority w = 1" and "sint (queue_time w) < P1TO2"
  shows "state (account n w) = state w" "priority (account n w) = 1" "queue_time (account n w) = queue_time w"
  using assms by (simp_all add: account_def Let_def)

lemma account_state [simp]: "state (account n w) = state w" "pid (account n w) = pid w"
  by (simp_all add: account_def Let_def)

lemma account_priority: "1 < sint (priority w) \<Longrightarrow> 1 < sint (priority (account n w))"
  by (auto simp: account_def Let_def)

lemma waits_after_run: "waits q s \<Longrightarrow> waits q (after_run c h s)"
  by (simp add: waits_def account_waits)

lemma rival_after_run: "length (procs s) = NPROC \<Longrightarrow> rival q sts s \<Longrightarrow> rival q sts (after_run c h s)"
proof -
  assume l: "length (procs s) = NPROC" and "rival q sts s"
  then obtain k where "k < NPROC" "k \<noteq> q" "state (proc_at s k) \<in> sts" "1 < sint (priority (proc_at s k))"
    by (auto simp: rival_def)
  then show ?thesis using l unfolding rival_def by (intro exI [of _ k]) (simp add: account_priority)
qed

lemma starvation_step:
  assumes "waits q s" and "rival q {RUNNABLE} s" and "best s h" and "dispatch c h s = Inr u"
    and "c < length (cpus s)"
  shows "h \<noteq> q" "waits q u" "rival q {RUNNABLE, RUNNING} u"
proof -
  have h: "h < length (procs s)" using assms(1,3) by (simp add: waits_def best_def)
  obtain k where k: "k < NPROC" "k \<noteq> q" "state (proc_at s k) = RUNNABLE" "1 < sint (priority (proc_at s k))"
    using assms(2) by (auto simp: rival_def)
  have ph: "1 < sint (priority (proc_at s h))" using assms(3) k by (force simp: best_def)
  then show hq: "h \<noteq> q" using assms(1) by (auto simp: waits_def)
  note r = dispatch_result(1) [OF assms(4) h assms(5)]
  show "waits q u" using assms(1) hq by (simp add: waits_def r)
  have "h < NPROC" using assms(3) by (simp add: best_def)
  then show "rival q {RUNNABLE, RUNNING} u"
    using ph hq h unfolding rival_def by (intro exI [of _ h]) (simp add: r)
qed

lemma scheduler_starves:
  assumes "waits q s" and "rival q {RUNNABLE} s" and "ncpu s \<le> length (cpus s)"
    and "\<forall>run\<in>set runs. busy q run \<and> keeps_tables run"
  shows "sched_post (\<lambda>t. waits q t \<and> rival q {RUNNABLE} t \<and> length (cpus t) = length (cpus s))
    (\<lambda>h t. h \<noteq> q \<and> waits q t) (set runs) (scheduler n runs s)"
    (is "sched_post ?I ?D _ _")
proof (rule scheduler_rule)
  fix c assume c: "c < length (cpus s)"
  show "sched_step_ok c ?I ?D (set runs)"
    unfolding sched_step_ok_def
  proof (intro allI impI conjI ballI)
    fix a h u assume I: "?I a" and b: "best a h" and d: "dispatch c h a = Inr u"
    have ca: "c < length (cpus a)" and h: "h < length (procs a)"
      using I b c by (simp_all add: waits_def best_def)
    note st = starvation_step [OF _ _ b d ca, of q] and r = dispatch_result(3) [OF d h ca]
    show "h \<noteq> q" "waits q u" using st I by simp_all
    fix run assume "run \<in> set runs"
    then have run: "busy q run" "keeps_tables run" using assms(4) by simp_all
    have "waits q (run u)" "rival q {RUNNABLE} (run u)" using run(1) st I by (simp_all add: busy_def)
    moreover have "length (procs (run u)) = NPROC" using calculation(1) by (simp add: waits_def)
    ultimately show "waits q (after_run c h (run u))" "rival q {RUNNABLE} (after_run c h (run u))"
      by (simp_all add: waits_after_run rival_after_run)
    show "length (cpus (after_run c h (run u))) = length (cpus s)"
      using run(2) I r by (simp add: keeps_tables_def)
  qed
qed (use assms in \<open>simp_all add: table_pred_def waits_def rival_def\<close>)

lemma account_time_split:
  "pid w \<noteq> n \<Longrightarrow> time_split 0 w \<Longrightarrow> time_split 0 (account n w)"
  "time_split 1 w \<Longrightarrow> pid w = n \<Longrightarrow> time_split 0 (account n w)"
  by (auto simp: time_split_def account_def Let_def)

lemma times_after_run:
  assumes "times_running h s"
  shows "times_ok (after_run c h s)"
  unfolding times_ok_def
proof (intro conjI allI impI)
  have l: "length (procs s) = NPROC" using assms by (simp add: times_running_def)
  then show "length (procs (after_run c h s)) = NPROC" by simp
  show "pids_distinct (after_run c h s)" using assms l by (simp add: times_running_def pids_distinct_def)
  fix i assume i: "i < NPROC"
  show "time_split 0 (proc_at (after_run c h s) i)"
  proof (cases "i = h")
    case True
    then show ?thesis using assms l i by (simp add: times_running_def account_time_split)
  next
    case False
    show ?thesis
    proof (cases "state (proc_at s i) = UNUSED")
      case True
      then show ?thesis using l i by (simp add: time_split_def)
    next
      case nu: False
      have "pid (proc_at s i) \<noteq> pid (proc_at s h)" "time_split 0 (proc_at s i)"
        using assms False nu i by (auto simp: times_running_def pids_distinct_def)
      then show ?thesis using l i by (simp add: account_time_split)
    qed
  qed
qed

lemma times_dispatch:
  assumes "times_ok s" and "best s h" and "dispatch c h s = Inr u" and "c < length (cpus s)"
  shows "times_running h u"
proof -
  have h: "h < length (procs s)" using assms(1,2) by (simp add: times_ok_def best_def)
  note r = dispatch_result(1) [OF assms(3) h assms(4)]
  show ?thesis
    using assms(1,2) by (auto simp: times_running_def times_ok_def pids_distinct_def best_def r upd_nth_nth
        time_split_def algebra_simps)
qed

lemma scheduler_times:
  assumes "times_ok s" and "ncpu s \<le> length (cpus s)"
    and "\<forall>run\<in>set runs. keeps_tables run \<and> (\<forall>h s. times_running h s \<longrightarrow> times_running h (run s))"
  shows "sched_post (\<lambda>t. times_ok t \<and> length (cpus t) = length (cpus s)) times_running (set runs)
    (scheduler n runs s)"
    (is "sched_post ?I _ _ _")
proof (rule scheduler_rule)
  fix c assume c: "c < length (cpus s)"
  show "sched_step_ok c ?I times_running (set runs)"
    unfolding sched_step_ok_def
  proof (intro allI impI conjI ballI)
    fix a h u assume I: "?I a" and b: "best a h" and d: "dispatch c h a = Inr u"
    have ca: "c < length (cpus a)" and h: "h < length (procs a)"
      using I b c by (simp_all add: times_ok_def best_def)
    show u: "times_running h u" using I by (intro times_dispatch [OF _ b d ca]) simp
    fix run assume "run \<in> set runs"
    then have run: "keeps_tables run" "times_running h (run u)" using assms(3) u by simp_all
    show "times_ok (after_run c h (run u))" by (rule times_after_run [OF run(2)])
    show "length (cpus (after_run c h (run u))) = length (cpus s)"
      using run(1) I dispatch_result(3) [OF d h ca] by (simp add: keeps_tables_def)
  qed
qed (use assms in \<open>simp_all add: table_pred_def times_ok_def pids_distinct_def\<close>)

lemma scheduler_original_serves:
  assumes "q \<in> set js" and "state (proc_at s q) = RUNNABLE" and "length js \<le> length runs"
    and "\<forall>run\<in>set runs. keeps_ready q run" and "q < length (procs s)"
  shows "\<exists>k\<le>length runs. \<exists>e. scheduler_original_scan c js (take k runs) s = Inl e \<and>
    ((\<exists>m. e = Panic m) \<or> (\<exists>t. e = Running q t))"
  using assms
proof (induction js arbitrary: runs s)
  case (Cons p js)
  show ?case
  proof (cases "state (proc_at s p) = RUNNABLE")
    case False
    then have "q \<in> set js" using Cons.prems(1,2) by auto
    then show ?thesis using Cons.IH [of s runs] Cons.prems False by simp
  next
    case run: True
    let ?sw = "switchuvm (Some (kstack (proc_at s p), pgdir (proc_at s p))) (upd_cpu c (\<lambda>x. x\<lparr>cpu_proc := Some p\<rparr>) s)"
    show ?thesis
    proof (cases ?sw)
      case (Inl e)
      then show ?thesis using run switchuvm_error [OF Inl] by (intro exI [of _ 0]) simp
    next
      case (Inr u)
      have u: "procs u = procs s" using switchuvm_frame(1) [OF Inr] by simp
      show ?thesis
      proof (cases "p = q")
        case True
        then show ?thesis using run Inr by (intro exI [of _ 0]) (simp add: Let_def)
      next
        case False
        obtain r rs where rs: "runs = r # rs" using Cons.prems(3) by (cases runs) auto
        let ?v = "r (upd_proc p (\<lambda>q. q\<lparr>state := RUNNING\<rparr>) u)"
        let ?w = "upd_cpu c (\<lambda>x. x\<lparr>cpu_proc := None\<rparr>) (switchkvm ?v)"
        have v: "state (proc_at ?v q) = RUNNABLE" "q < length (procs ?v)"
          using Cons.prems(2,4,5) False rs u by (auto simp: keeps_ready_def)
        then obtain k e where "k \<le> length rs" "scheduler_original_scan c js (take k rs) ?w = Inl e"
            "(\<exists>m. e = Panic m) \<or> (\<exists>t. e = Running q t)"
          using Cons.IH [of ?w rs] Cons.prems(1,3,4) False rs by (auto simp: switchkvm_def)
        then show ?thesis
          using run Inr rs by (intro exI [of _ "Suc k"]) (auto simp: Let_def)
      qed
    qed
  qed
qed simp

section \<open>Properties\<close>

text \<open>
  C1: whenever the scheduler switches to a process, however many passes and runs came before, the
  process was ready, its page table is loaded, it has a fresh time slice of INTERV ticks, and no
  process that is ready has a higher priority.
\<close>

theorem scheduler_runs_highest:
  assumes "length (procs s) = NPROC" and "ncpu s \<le> length (cpus s)" and "\<forall>run\<in>set runs. keeps_tables run"
    and "scheduler n runs s = Inl (Running h t)"
  shows "h < NPROC \<and> state (proc_at t h) = RUNNING \<and> time_slice (proc_at t h) = INTERV \<and>
    cr3 t = V2P (pgdir (proc_at t h)) \<and>
    (\<forall>q<NPROC. q \<noteq> h \<longrightarrow> state (proc_at t q) = RUNNABLE \<longrightarrow>
       sint (priority (proc_at t q)) \<le> sint (priority (proc_at t h)))"
  using scheduler_choice [OF assms(1-3), of n] assms(4) by (simp add: sched_post_def)

lemma yield_back_keeps_tables: "keeps_tables yield_back"
  by (simp add: keeps_tables_def yield_back_def)

theorem scheduler_runs_highest_witness:
  "\<exists>t. scheduler 1 [yield_back] demo_ptab = Inl (Running 5 t) \<and> state (proc_at t 5) = RUNNING \<and>
    (\<forall>q<NPROC. q \<noteq> 5 \<longrightarrow> state (proc_at t q) = RUNNABLE \<longrightarrow>
       sint (priority (proc_at t q)) \<le> sint (priority (proc_at t 5)))"
proof -
  have "case scheduler 1 [yield_back] demo_ptab of Inl (Running h t) \<Rightarrow> h = 5 | _ \<Rightarrow> False" by code_simp
  then obtain t where t: "scheduler 1 [yield_back] demo_ptab = Inl (Running 5 t)"
    by (auto split: sum.splits kerr.splits)
  have "length (procs demo_ptab) = NPROC" "ncpu demo_ptab \<le> length (cpus demo_ptab)"
    by (simp_all add: demo_ptab_def boot_mach_def)
  then show ?thesis
    using scheduler_runs_highest [OF _ _ _ t] t by (simp add: yield_back_keeps_tables)
qed


lemma yield_back_busy: "busy q (yield_back :: 'z ptab_scheme \<Rightarrow> _)"
proof -
  have "rival q {RUNNABLE} (yield_back s)" if w: "waits q s" and v: "rival q {RUNNABLE, RUNNING} s" for s :: "'z ptab_scheme"
  proof -
    obtain k where "k < NPROC" "k \<noteq> q" "state (proc_at s k) \<in> {RUNNABLE, RUNNING}" "1 < sint (priority (proc_at s k))"
      using v by (auto simp: rival_def)
    then show ?thesis
      using w unfolding rival_def waits_def by (intro exI [of _ k]) (auto simp: yield_back_def)
  qed
  moreover have "waits q (yield_back s)" if "waits q s" for s :: "'z ptab_scheme"
    using that by (simp add: waits_def yield_back_def)
  ultimately show ?thesis by (simp add: busy_def)
qed



lemma yield_back_times:
  assumes "times_running h s"
  shows "times_running h (yield_back s)"
proof -
  let ?f = "\<lambda>p. if state p = RUNNING then p\<lparr>state := RUNNABLE\<rparr> else p"
  have l: "length (procs s) = NPROC" using assms by (simp add: times_running_def)
  have "state (?f p) = UNUSED \<longleftrightarrow> state p = UNUSED" "pid (?f p) = pid p" "time_split d (?f p) = time_split d p" for p d
    by (auto simp: time_split_def)
  then show ?thesis using assms l by (simp add: times_running_def pids_distinct_def yield_back_def)
qed




section \<open>Critical sections and the fields of \<open>ptab\<close>\<close>

lemma acquired_ptab [simp]:
  "procs (acquired lk s) = procs s"
  "nextpid (acquired lk s) = nextpid s"
  "initproc (acquired lk s) = initproc s"
  "forkret_first (acquired lk s) = forkret_first s"
  by (simp_all add: acquired_def pushed_def)

lemma acquired_upd_ptab [simp]:
  "(acquired lk s)\<lparr>procs := x_procs\<rparr> = acquired lk (s\<lparr>procs := x_procs\<rparr>)"
  "(acquired lk s)\<lparr>nextpid := x_nextpid\<rparr> = acquired lk (s\<lparr>nextpid := x_nextpid\<rparr>)"
  "(acquired lk s)\<lparr>initproc := x_initproc\<rparr> = acquired lk (s\<lparr>initproc := x_initproc\<rparr>)"
  "(acquired lk s)\<lparr>forkret_first := x_forkret_first\<rparr> = acquired lk (s\<lparr>forkret_first := x_forkret_first\<rparr>)"
  by (cases s, simp add: acquired_def pushed_def this_cpu_def cong: option.case_cong)+

lemma calm_ptab [simp]:
  "calm (s\<lparr>procs := x_procs\<rparr>) = calm s"
  "calm (s\<lparr>nextpid := x_nextpid\<rparr>) = calm s"
  "calm (s\<lparr>initproc := x_initproc\<rparr>) = calm s"
  "calm (s\<lparr>forkret_first := x_forkret_first\<rparr>) = calm s"
  by (rule calm_same, simp add: mach_same_def)+

lemma cur_ptab [simp]:
  "cur (s\<lparr>procs := x_procs\<rparr>) = cur s"
  "cur (s\<lparr>nextpid := x_nextpid\<rparr>) = cur s"
  "cur (s\<lparr>initproc := x_initproc\<rparr>) = cur s"
  "cur (s\<lparr>forkret_first := x_forkret_first\<rparr>) = cur s"
  by (rule cur_same, simp add: mach_same_def)+

lemma lock_free_ptab [simp]:
  "lock_free lk (s\<lparr>procs := x_procs\<rparr>) = lock_free lk s"
  "lock_free lk (s\<lparr>nextpid := x_nextpid\<rparr>) = lock_free lk s"
  "lock_free lk (s\<lparr>initproc := x_initproc\<rparr>) = lock_free lk s"
  "lock_free lk (s\<lparr>forkret_first := x_forkret_first\<rparr>) = lock_free lk s"
  by (simp_all add: lock_free_def)

end
