(* ===== verification/Sleeplock.thy ===== *)
theory Sleeplock
  imports Proc
begin

text \<open>
  The long-term locks of \<open>sleeplock.c\<close>. Each is part of a buffer or an inode and is named
  here by the spin lock inside it; \<open>slocks\<close> holds the two fields that are more than debugging
  information. A process that has to wait for such a lock sleeps; as in theory \<open>Proc\<close>, what
  the rest of the system does meanwhile is given by a list.
\<close>

section \<open>Definitions\<close>

record sleeplock =
  sl_locked :: bool
  sl_pid :: u32

record slk = ptab +
  slocks :: "lockid \<Rightarrow> sleeplock"

text \<open>The address a process sleeps on is that of the sleep lock; only buffers and inodes have one.\<close>

fun sl_chan :: "lockid \<Rightarrow> chan" where
  "sl_chan (L_buf i) = Ch_buflock i"
| "sl_chan (L_inode i) = Ch_inodelock i"
| "sl_chan lk = Ch_log"

definition upd_slock :: "lockid \<Rightarrow> sleeplock \<Rightarrow> 'z slk_scheme \<Rightarrow> 'z slk_scheme" where
  "upd_slock lk x s = s\<lparr>slocks := (slocks s)(lk := x)\<rparr>"

definition initsleeplock :: "lockid \<Rightarrow> 'z slk_scheme \<Rightarrow> 'z slk_scheme" where
  "initsleeplock lk s = upd_slock lk \<lparr>sl_locked = False, sl_pid = 0\<rparr> (initlock lk s)"

fun acquiresleep_loop :: "lockid \<Rightarrow> ('z slk_scheme \<Rightarrow> 'z slk_scheme) list \<Rightarrow> 'z slk_scheme \<Rightarrow>
    ('z slk_scheme, 'z slk_scheme) kres" where
  "acquiresleep_loop lk envs s =
     (if sl_locked (slocks s lk) then
        bindR (sleep_enter (sl_chan lk) lk s) (\<lambda>((p, fl), s).
        case envs of [] \<Rightarrow> Inl (Sleeping (sl_chan lk) s)
        | env # envs \<Rightarrow> bindR (sleep_leave p fl lk (env s)) (\<lambda>s. acquiresleep_loop lk envs s))
      else Inr s)"

declare acquiresleep_loop.simps [simp del]

definition acquiresleep :: "lockid \<Rightarrow> ('z slk_scheme \<Rightarrow> 'z slk_scheme) list \<Rightarrow> 'z slk_scheme \<Rightarrow>
    ('z slk_scheme, 'z slk_scheme) kres" where
  "acquiresleep lk envs s =
     bindR (acquire lk s) (\<lambda>s.
     bindR (acquiresleep_loop lk envs s) (\<lambda>s.
     bindR (curproc s) (\<lambda>(p, s).
     release lk (upd_slock lk \<lparr>sl_locked = True, sl_pid = pid (proc_at s p)\<rparr> s))))"

definition releasesleep :: "lockid \<Rightarrow> 'z slk_scheme \<Rightarrow> ('z slk_scheme, 'z slk_scheme) kres" where
  "releasesleep lk s =
     bindR (acquire lk s) (\<lambda>s.
     bindR (wakeup (sl_chan lk) (upd_slock lk \<lparr>sl_locked = False, sl_pid = 0\<rparr> s)) (\<lambda>s.
     release lk s))"

definition holdingsleep :: "lockid \<Rightarrow> 'z slk_scheme \<Rightarrow> ('z slk_scheme, bool \<times> 'z slk_scheme) kres" where
  "holdingsleep lk s =
     bindR (acquire lk s) (\<lambda>s.
     bindR (if sl_locked (slocks s lk)
            then bindR (curproc s) (\<lambda>(p, s). Inr (sl_pid (slocks s lk) = pid (proc_at s p), s))
            else Inr (False, s)) (\<lambda>(r, s).
     bindR (release lk s) (\<lambda>s. Inr (r, s))))"

section \<open>Critical sections and the fields of \<open>slk\<close>\<close>

lemma acquired_slk [simp]:
  "slocks (acquired lk s) = slocks s"
  by (simp_all add: acquired_def pushed_def)

lemma acquired_upd_slk [simp]:
  "(acquired lk s)\<lparr>slocks := x_slocks\<rparr> = acquired lk (s\<lparr>slocks := x_slocks\<rparr>)"
  by (cases s, simp add: acquired_def pushed_def this_cpu_def cong: option.case_cong)+

lemma calm_slk [simp]:
  "calm (s\<lparr>slocks := x_slocks\<rparr>) = calm s"
  by (rule calm_same, simp add: mach_same_def)+

lemma cur_slk [simp]:
  "cur (s\<lparr>slocks := x_slocks\<rparr>) = cur s"
  by (rule cur_same, simp add: mach_same_def)+

lemma lock_free_slk [simp]:
  "lock_free lk (s\<lparr>slocks := x_slocks\<rparr>) = lock_free lk s"
  by (simp_all add: lock_free_def)

end
