(* ===== verification/Bio.thy ===== *)
theory Bio
  imports Sleeplock
begin

unbundle bit_operations_syntax

text \<open>
  The buffer cache of \<open>bio.c\<close> on the disk of \<open>memide.c\<close>, which keeps the blocks in
  memory and finishes each request at once. A buffer is named by its slot; slot NBUF is
  \<open>bcache.head\<close>, the head of the circular list. \<open>memdisk\<close> gives the contents of a block
  of the disk image. \<open>diskw\<close> records the blocks written to the disk, in order; no code reads
  it, it is there to speak about crashes between two writes.

  The file system code is modelled for a process that finds the sleep locks it needs free: where
  it would have to wait, the result is \<open>Sleeping\<close>.
\<close>

section \<open>Definitions\<close>

record buf =
  b_flags :: u32
  b_dev :: u32
  b_blockno :: u32
  b_refcnt :: u32
  b_prev :: nat
  b_next :: nat
  b_qnext :: "nat option"
  b_data :: "u8 list"

record bio = slk +
  bufs :: "buf list"
  memdisk :: "u32 \<Rightarrow> u8 list"
  disksize :: u32
  diskw :: "(u32 \<times> u8 list) list"

abbreviation (input) NBUF :: nat where "NBUF \<equiv> 30"
abbreviation (input) BSIZE :: nat where "BSIZE \<equiv> 512"
abbreviation (input) B_VALID :: u32 where "B_VALID \<equiv> 2"
abbreviation (input) B_DIRTY :: u32 where "B_DIRTY \<equiv> 4"

abbreviation buf_at :: "'z bio_scheme \<Rightarrow> nat \<Rightarrow> buf" where
  "buf_at s i \<equiv> bufs s ! i"

definition upd_buf :: "nat \<Rightarrow> (buf \<Rightarrow> buf) \<Rightarrow> 'z bio_scheme \<Rightarrow> 'z bio_scheme" where
  "upd_buf i f s = s\<lparr>bufs := upd_nth i f (bufs s)\<rparr>"

text \<open>Little-endian numbers in a block of bytes.\<close>

definition get16 :: "u8 list \<Rightarrow> nat \<Rightarrow> u16" where
  "get16 bs i = ucast (bs ! i) OR push_bit 8 (ucast (bs ! (i + 1)))"

definition get32 :: "u8 list \<Rightarrow> nat \<Rightarrow> u32" where
  "get32 bs i = ucast (bs ! i) OR push_bit 8 (ucast (bs ! (i + 1))) OR
     push_bit 16 (ucast (bs ! (i + 2))) OR push_bit 24 (ucast (bs ! (i + 3)))"

definition put16 :: "nat \<Rightarrow> u16 \<Rightarrow> u8 list \<Rightarrow> u8 list" where
  "put16 i w bs = bs[i := ucast w, i + 1 := ucast (drop_bit 8 w)]"

definition put32 :: "nat \<Rightarrow> u32 \<Rightarrow> u8 list \<Rightarrow> u8 list" where
  "put32 i w bs = bs[i := ucast w, i + 1 := ucast (drop_bit 8 w), i + 2 := ucast (drop_bit 16 w),
     i + 3 := ucast (drop_bit 24 w)]"

text \<open>Bytes \<open>xs\<close> copied into a block at offset \<open>i\<close>.\<close>

definition put_bytes :: "nat \<Rightarrow> u8 list \<Rightarrow> u8 list \<Rightarrow> u8 list" where
  "put_bytes i xs bs = take i bs @ xs @ drop (i + length xs) bs"

text \<open>\<open>ideinit\<close> of the memory disk: the image and its size are those the linker put in.\<close>

definition mem_ideinit :: "(u32 \<Rightarrow> u8 list) \<Rightarrow> u32 \<Rightarrow> 'z bio_scheme \<Rightarrow> 'z bio_scheme" where
  "mem_ideinit img imgsize s = s\<lparr>memdisk := img, disksize := imgsize div 512\<rparr>"

definition mem_iderw :: "nat \<Rightarrow> 'z bio_scheme \<Rightarrow> ('z bio_scheme, 'z bio_scheme) kres" where
  "mem_iderw b s =
     bindR (holdingsleep (L_buf b) s) (\<lambda>(h, s).
     if \<not> h then Inl (Panic ''iderw: buf not locked'')
     else if b_flags (buf_at s b) AND (B_VALID OR B_DIRTY) = B_VALID then Inl (Panic ''iderw: nothing to do'')
     else if b_dev (buf_at s b) \<noteq> 1 then Inl (Panic ''iderw: request not for disk 1'')
     else if b_blockno (buf_at s b) \<ge> disksize s then Inl (Panic ''iderw: block out of range'')
     else
       let p = b_blockno (buf_at s b);
           s = (if b_flags (buf_at s b) AND B_DIRTY \<noteq> 0
                then let s = upd_buf b (\<lambda>x. x\<lparr>b_flags := b_flags x AND NOT B_DIRTY\<rparr>) s
                     in s\<lparr>memdisk := (memdisk s)(p := b_data (buf_at s b)),
                          diskw := diskw s @ [(p, b_data (buf_at s b))]\<rparr>
                else upd_buf b (\<lambda>x. x\<lparr>b_data := memdisk s p\<rparr>) s)
       in Inr (upd_buf b (\<lambda>x. x\<lparr>b_flags := b_flags x OR B_VALID\<rparr>) s))"

text \<open>Put buffer \<open>b\<close> between the head of the list and the buffer after it.\<close>

definition link_front :: "nat \<Rightarrow> buf list \<Rightarrow> buf list" where
  "link_front b bs =
     (let bs = upd_nth b (\<lambda>x. x\<lparr>b_next := b_next (bs ! NBUF)\<rparr>) bs;
          bs = upd_nth b (\<lambda>x. x\<lparr>b_prev := NBUF\<rparr>) bs;
          bs = upd_nth (b_next (bs ! NBUF)) (\<lambda>x. x\<lparr>b_prev := b\<rparr>) bs
      in upd_nth NBUF (\<lambda>x. x\<lparr>b_next := b\<rparr>) bs)"

definition unlink :: "nat \<Rightarrow> buf list \<Rightarrow> buf list" where
  "unlink b bs =
     (let bs = upd_nth (b_next (bs ! b)) (\<lambda>x. x\<lparr>b_prev := b_prev (bs ! b)\<rparr>) bs
      in upd_nth (b_prev (bs ! b)) (\<lambda>x. x\<lparr>b_next := b_next (bs ! b)\<rparr>) bs)"

definition binit :: "'z bio_scheme \<Rightarrow> 'z bio_scheme" where
  "binit s =
     (let s = initlock L_bcache s;
          s = upd_buf NBUF (\<lambda>x. x\<lparr>b_prev := NBUF, b_next := NBUF\<rparr>) s
      in foldl (\<lambda>s b. initsleeplock (L_buf b) (s\<lparr>bufs := link_front b (bufs s)\<rparr>)) s [0..<NBUF])"

text \<open>
  The two scans of \<open>bget\<close>, from buffer \<open>b\<close> along the links until the head is reached. The
  number bounds the steps; a list of NBUF buffers and a head needs no more than NBUF.
\<close>

fun bget_forward :: "nat \<Rightarrow> u32 \<Rightarrow> u32 \<Rightarrow> buf list \<Rightarrow> nat \<Rightarrow> ('s, nat option) kres" where
  "bget_forward 0 dv bn bs b = (if b = NBUF then Inr None else Inl Diverges)"
| "bget_forward (Suc n) dv bn bs b =
     (if b = NBUF then Inr None
      else if b_dev (bs ! b) = dv \<and> b_blockno (bs ! b) = bn then Inr (Some b)
      else bget_forward n dv bn bs (b_next (bs ! b)))"

fun bget_backward :: "nat \<Rightarrow> buf list \<Rightarrow> nat \<Rightarrow> ('s, nat option) kres" where
  "bget_backward 0 bs b = (if b = NBUF then Inr None else Inl Diverges)"
| "bget_backward (Suc n) bs b =
     (if b = NBUF then Inr None
      else if b_refcnt (bs ! b) = 0 \<and> b_flags (bs ! b) AND B_DIRTY = 0 then Inr (Some b)
      else bget_backward n bs (b_prev (bs ! b)))"

definition bget :: "u32 \<Rightarrow> u32 \<Rightarrow> 'z bio_scheme \<Rightarrow> ('z bio_scheme, nat \<times> 'z bio_scheme) kres" where
  "bget dv bn s =
     bindR (acquire L_bcache s) (\<lambda>s.
     bindR (bget_forward NBUF dv bn (bufs s) (b_next (buf_at s NBUF))) (\<lambda>r.
     case r of
       Some b \<Rightarrow>
         bindR (release L_bcache (upd_buf b (\<lambda>x. x\<lparr>b_refcnt := b_refcnt x + 1\<rparr>) s)) (\<lambda>s.
         bindR (acquiresleep (L_buf b) [] s) (\<lambda>s. Inr (b, s)))
     | None \<Rightarrow>
         bindR (bget_backward NBUF (bufs s) (b_prev (buf_at s NBUF))) (\<lambda>r.
         case r of
           Some b \<Rightarrow>
             bindR (release L_bcache (upd_buf b (\<lambda>x. x\<lparr>b_dev := dv, b_blockno := bn, b_flags := 0, b_refcnt := 1\<rparr>) s)) (\<lambda>s.
             bindR (acquiresleep (L_buf b) [] s) (\<lambda>s. Inr (b, s)))
         | None \<Rightarrow> Inl (Panic ''bget: no buffers''))))"

definition bread :: "u32 \<Rightarrow> u32 \<Rightarrow> 'z bio_scheme \<Rightarrow> ('z bio_scheme, nat \<times> 'z bio_scheme) kres" where
  "bread dv bn s =
     bindR (bget dv bn s) (\<lambda>(b, s).
     if b_flags (buf_at s b) AND B_VALID = 0 then bindR (mem_iderw b s) (\<lambda>s. Inr (b, s))
     else Inr (b, s))"

definition bwrite :: "nat \<Rightarrow> 'z bio_scheme \<Rightarrow> ('z bio_scheme, 'z bio_scheme) kres" where
  "bwrite b s =
     bindR (holdingsleep (L_buf b) s) (\<lambda>(h, s).
     if \<not> h then Inl (Panic ''bwrite'')
     else mem_iderw b (upd_buf b (\<lambda>x. x\<lparr>b_flags := b_flags x OR B_DIRTY\<rparr>) s))"

definition brelse :: "nat \<Rightarrow> 'z bio_scheme \<Rightarrow> ('z bio_scheme, 'z bio_scheme) kres" where
  "brelse b s =
     bindR (holdingsleep (L_buf b) s) (\<lambda>(h, s).
     if \<not> h then Inl (Panic ''brelse'')
     else
       bindR (releasesleep (L_buf b) s) (\<lambda>s.
       bindR (acquire L_bcache s) (\<lambda>s.
       let s = upd_buf b (\<lambda>x. x\<lparr>b_refcnt := b_refcnt x - 1\<rparr>) s;
           s = (if b_refcnt (buf_at s b) = 0 then s\<lparr>bufs := link_front b (unlink b (bufs s))\<rparr> else s)
       in release L_bcache s)))"

section \<open>Critical sections and the fields of \<open>bio\<close>\<close>

lemma acquired_bio [simp]:
  "bufs (acquired lk s) = bufs s"
  "memdisk (acquired lk s) = memdisk s"
  "disksize (acquired lk s) = disksize s"
  "diskw (acquired lk s) = diskw s"
  by (simp_all add: acquired_def pushed_def)

lemma acquired_upd_bio [simp]:
  "(acquired lk s)\<lparr>bufs := x_bufs\<rparr> = acquired lk (s\<lparr>bufs := x_bufs\<rparr>)"
  "(acquired lk s)\<lparr>memdisk := x_memdisk\<rparr> = acquired lk (s\<lparr>memdisk := x_memdisk\<rparr>)"
  "(acquired lk s)\<lparr>disksize := x_disksize\<rparr> = acquired lk (s\<lparr>disksize := x_disksize\<rparr>)"
  "(acquired lk s)\<lparr>diskw := x_diskw\<rparr> = acquired lk (s\<lparr>diskw := x_diskw\<rparr>)"
  by (cases s, simp add: acquired_def pushed_def this_cpu_def cong: option.case_cong)+

lemma calm_bio [simp]:
  "calm (s\<lparr>bufs := x_bufs\<rparr>) = calm s"
  "calm (s\<lparr>memdisk := x_memdisk\<rparr>) = calm s"
  "calm (s\<lparr>disksize := x_disksize\<rparr>) = calm s"
  "calm (s\<lparr>diskw := x_diskw\<rparr>) = calm s"
  by (rule calm_same, simp add: mach_same_def)+

lemma cur_bio [simp]:
  "cur (s\<lparr>bufs := x_bufs\<rparr>) = cur s"
  "cur (s\<lparr>memdisk := x_memdisk\<rparr>) = cur s"
  "cur (s\<lparr>disksize := x_disksize\<rparr>) = cur s"
  "cur (s\<lparr>diskw := x_diskw\<rparr>) = cur s"
  by (rule cur_same, simp add: mach_same_def)+

lemma lock_free_bio [simp]:
  "lock_free lk (s\<lparr>bufs := x_bufs\<rparr>) = lock_free lk s"
  "lock_free lk (s\<lparr>memdisk := x_memdisk\<rparr>) = lock_free lk s"
  "lock_free lk (s\<lparr>disksize := x_disksize\<rparr>) = lock_free lk s"
  "lock_free lk (s\<lparr>diskw := x_diskw\<rparr>) = lock_free lk s"
  by (simp_all add: lock_free_def)

end
