(* ===== verification/Ide.thy ===== *)
theory Ide
  imports Bio
begin

unbundle bit_operations_syntax

text \<open>
  The driver of \<open>ide.c\<close>: a queue of requests linked through the buffers, served one after the
  other by a disk that interrupts when it is done. The disk is modelled by what it does on the
  commands the driver sends: \<open>ide_cmd\<close> holds the command being served (write or read, drive,
  sector, and the data sent with a write) and \<open>ide_disk\<close> the contents of the sectors;
  \<open>ide_status\<close> gives the status register as the driver reads it. The sectors of a block are
  its bytes, since BSIZE is the sector size.
\<close>

section \<open>Definitions\<close>

datatype ide_command =
    Ide_read u32 u32
  | Ide_write u32 u32 "u8 list"

record ide = bio +
  idequeue :: "nat option"
  havedisk1 :: bool
  ide_disk :: "u32 \<Rightarrow> u32 \<Rightarrow> u8 list"
  ide_cmd :: "ide_command option"
  ide_status :: "u32 list"

abbreviation (input) FSSIZE :: u32 where "FSSIZE \<equiv> 1000"

text \<open>
  \<open>idewait\<close> reads the status register until the disk is ready; \<open>ide_status\<close> is the list
  of the values it will read. If the list ends first the loop goes on.
\<close>

fun idewait_loop :: "u32 list \<Rightarrow> (u32 \<times> u32 list) option" where
  "idewait_loop [] = None"
| "idewait_loop (r # rs) = (if r AND 0xC0 = 0x40 then Some (r, rs) else idewait_loop rs)"

definition idewait :: "bool \<Rightarrow> 'z ide_scheme \<Rightarrow> ('z ide_scheme, int \<times> 'z ide_scheme) kres" where
  "idewait checkerr s = (case idewait_loop (ide_status s) of
     None \<Rightarrow> Inl Diverges
   | Some (r, rs) \<Rightarrow>
       Inr (if checkerr \<and> r AND 0x21 \<noteq> 0 then -1 else 0, s\<lparr>ide_status := rs\<rparr>))"

text \<open>
  The probe for a second disk reads the status register up to 1000 times; a register that gives
  no more values reads as 0.
\<close>

fun ide_probe :: "nat \<Rightarrow> u32 list \<Rightarrow> bool \<times> u32 list" where
  "ide_probe 0 rs = (False, rs)"
| "ide_probe (Suc n) [] = (False, [])"
| "ide_probe (Suc n) (r # rs) = (if r \<noteq> 0 then (True, rs) else ide_probe n rs)"

definition ideinit :: "'z ide_scheme \<Rightarrow> ('z ide_scheme, 'z ide_scheme) kres" where
  "ideinit s =
     bindR (idewait False (initlock L_ide s)) (\<lambda>(r, s).
     case ide_probe 1000 (ide_status s) of
       (found, rs) \<Rightarrow> Inr (s\<lparr>havedisk1 := (found \<or> havedisk1 s), ide_status := rs\<rparr>))"

text \<open>
  The disk receives a command with its last output: for a write it then holds the new data. The
  sector number is split over three ports and half of a fourth, so its upper four bits are lost.
\<close>

definition idestart :: "nat option \<Rightarrow> 'z ide_scheme \<Rightarrow> ('z ide_scheme, 'z ide_scheme) kres" where
  "idestart bp s = (case bp of
     None \<Rightarrow> Inl (Panic ''idestart'')
   | Some b \<Rightarrow>
       if b_blockno (buf_at s b) \<ge> FSSIZE then Inl (Panic ''incorrect blockno'')
       else
         let sector_per_block = 512 div 512;
             sector = b_blockno (buf_at s b) * sector_per_block
         in if sector_per_block > 7 then Inl (Panic ''idestart'')
            else
              bindR (idewait False s) (\<lambda>(_, s).
              let lba = (sector AND 0xff) OR push_bit 8 (drop_bit 8 sector AND 0xff) OR
                        push_bit 16 (drop_bit 16 sector AND 0xff) OR push_bit 24 (drop_bit 24 sector AND 0x0f);
                  drive = b_dev (buf_at s b) AND 1
              in if b_flags (buf_at s b) AND B_DIRTY \<noteq> 0
                 then Inr (s\<lparr>ide_cmd := Some (Ide_write drive lba (b_data (buf_at s b)))\<rparr>)
                 else Inr (s\<lparr>ide_cmd := Some (Ide_read drive lba)\<rparr>)))"

text \<open>The disk finishes its command: a write reaches the sector; a read has its data ready.\<close>

definition disk_done :: "'z ide_scheme \<Rightarrow> 'z ide_scheme" where
  "disk_done s = (case ide_cmd s of
     Some (Ide_write d n xs) \<Rightarrow> s\<lparr>ide_disk := (ide_disk s)(d := (ide_disk s d)(n := xs))\<rparr>
   | _ \<Rightarrow> s)"

definition disk_data :: "'z ide_scheme \<Rightarrow> u8 list" where
  "disk_data s = (case ide_cmd s of Some (Ide_read d n) \<Rightarrow> ide_disk s d n | _ \<Rightarrow> [])"

definition ideintr :: "'z ide_scheme \<Rightarrow> ('z ide_scheme, 'z ide_scheme) kres" where
  "ideintr s =
     bindR (acquire L_ide s) (\<lambda>s.
     case idequeue s of
       None \<Rightarrow> release L_ide s
     | Some b \<Rightarrow>
         let s = s\<lparr>idequeue := b_qnext (buf_at s b)\<rparr>
         in bindR (if b_flags (buf_at s b) AND B_DIRTY = 0
                   then bindR (idewait True s) (\<lambda>(r, s).
                     Inr (if r \<ge> 0 then upd_buf b (\<lambda>x. x\<lparr>b_data := disk_data s\<rparr>) s else s))
                   else Inr s) (\<lambda>s.
            let s = upd_buf b (\<lambda>x. x\<lparr>b_flags := b_flags x OR B_VALID\<rparr>) s;
                s = upd_buf b (\<lambda>x. x\<lparr>b_flags := b_flags x AND NOT B_DIRTY\<rparr>) s
            in bindR (wakeup (Ch_buf b) s) (\<lambda>s.
               bindR (if idequeue s \<noteq> None then idestart (idequeue s) s else Inr s) (\<lambda>s.
               release L_ide s))))"

text \<open>The last buffer of the queue from buffer \<open>b\<close> on; the number bounds the steps.\<close>

fun queue_last :: "nat \<Rightarrow> buf list \<Rightarrow> nat \<Rightarrow> nat option" where
  "queue_last 0 bs b = None"
| "queue_last (Suc n) bs b = (case b_qnext (bs ! b) of None \<Rightarrow> Some b | Some c \<Rightarrow> queue_last n bs c)"

definition queue_append :: "nat \<Rightarrow> 'z ide_scheme \<Rightarrow> ('z ide_scheme, 'z ide_scheme) kres" where
  "queue_append b s =
     (let s = upd_buf b (\<lambda>x. x\<lparr>b_qnext := None\<rparr>) s
      in case idequeue s of
           None \<Rightarrow> Inr (s\<lparr>idequeue := Some b\<rparr>)
         | Some h \<Rightarrow> (case queue_last (length (bufs s)) (bufs s) h of
             None \<Rightarrow> Inl Diverges
           | Some l \<Rightarrow> Inr (upd_buf l (\<lambda>x. x\<lparr>b_qnext := Some b\<rparr>) s)))"

fun iderw_wait :: "nat \<Rightarrow> ('z ide_scheme \<Rightarrow> 'z ide_scheme) list \<Rightarrow> 'z ide_scheme \<Rightarrow> ('z ide_scheme, 'z ide_scheme) kres" where
  "iderw_wait b envs s =
     (if b_flags (buf_at s b) AND (B_VALID OR B_DIRTY) \<noteq> B_VALID then
        bindR (sleep_enter (Ch_buf b) L_ide s) (\<lambda>((p, fl), s).
        case envs of [] \<Rightarrow> Inl (Sleeping (Ch_buf b) s)
        | env # envs \<Rightarrow> bindR (sleep_leave p fl L_ide (env s)) (\<lambda>s. iderw_wait b envs s))
      else Inr s)"

declare iderw_wait.simps [simp del]

definition iderw :: "nat \<Rightarrow> ('z ide_scheme \<Rightarrow> 'z ide_scheme) list \<Rightarrow> 'z ide_scheme \<Rightarrow> ('z ide_scheme, 'z ide_scheme) kres" where
  "iderw b envs s =
     bindR (holdingsleep (L_buf b) s) (\<lambda>(h, s).
     if \<not> h then Inl (Panic ''iderw: buf not locked'')
     else if b_flags (buf_at s b) AND (B_VALID OR B_DIRTY) = B_VALID then Inl (Panic ''iderw: nothing to do'')
     else if b_dev (buf_at s b) \<noteq> 0 \<and> \<not> havedisk1 s then Inl (Panic ''iderw: ide disk 1 not present'')
     else
       bindR (acquire L_ide s) (\<lambda>s.
       bindR (queue_append b s) (\<lambda>s.
       bindR (if idequeue s = Some b then idestart (Some b) s else Inr s) (\<lambda>s.
       bindR (iderw_wait b envs s) (\<lambda>s.
       release L_ide s)))))"

section \<open>Critical sections and the fields of \<open>ide\<close>\<close>

lemma ide_probe_iff: "fst (ide_probe n rs) \<longleftrightarrow> (\<exists>r\<in>set (take n rs). r \<noteq> 0)"
  by (induction n rs rule: ide_probe.induct) auto

lemma acquired_ide [simp]:
  "idequeue (acquired lk s) = idequeue s"
  "havedisk1 (acquired lk s) = havedisk1 s"
  "ide_disk (acquired lk s) = ide_disk s"
  "ide_cmd (acquired lk s) = ide_cmd s"
  "ide_status (acquired lk s) = ide_status s"
  by (simp_all add: acquired_def pushed_def)

lemma acquired_upd_ide [simp]:
  "(acquired lk s)\<lparr>idequeue := x_idequeue\<rparr> = acquired lk (s\<lparr>idequeue := x_idequeue\<rparr>)"
  "(acquired lk s)\<lparr>havedisk1 := x_havedisk1\<rparr> = acquired lk (s\<lparr>havedisk1 := x_havedisk1\<rparr>)"
  "(acquired lk s)\<lparr>ide_disk := x_ide_disk\<rparr> = acquired lk (s\<lparr>ide_disk := x_ide_disk\<rparr>)"
  "(acquired lk s)\<lparr>ide_cmd := x_ide_cmd\<rparr> = acquired lk (s\<lparr>ide_cmd := x_ide_cmd\<rparr>)"
  "(acquired lk s)\<lparr>ide_status := x_ide_status\<rparr> = acquired lk (s\<lparr>ide_status := x_ide_status\<rparr>)"
  by (cases s, simp add: acquired_def pushed_def this_cpu_def cong: option.case_cong)+

lemma calm_ide [simp]:
  "calm (s\<lparr>idequeue := x_idequeue\<rparr>) = calm s"
  "calm (s\<lparr>havedisk1 := x_havedisk1\<rparr>) = calm s"
  "calm (s\<lparr>ide_disk := x_ide_disk\<rparr>) = calm s"
  "calm (s\<lparr>ide_cmd := x_ide_cmd\<rparr>) = calm s"
  "calm (s\<lparr>ide_status := x_ide_status\<rparr>) = calm s"
  by (rule calm_same, simp add: mach_same_def)+

lemma cur_ide [simp]:
  "cur (s\<lparr>idequeue := x_idequeue\<rparr>) = cur s"
  "cur (s\<lparr>havedisk1 := x_havedisk1\<rparr>) = cur s"
  "cur (s\<lparr>ide_disk := x_ide_disk\<rparr>) = cur s"
  "cur (s\<lparr>ide_cmd := x_ide_cmd\<rparr>) = cur s"
  "cur (s\<lparr>ide_status := x_ide_status\<rparr>) = cur s"
  by (rule cur_same, simp add: mach_same_def)+

lemma lock_free_ide [simp]:
  "lock_free lk (s\<lparr>idequeue := x_idequeue\<rparr>) = lock_free lk s"
  "lock_free lk (s\<lparr>havedisk1 := x_havedisk1\<rparr>) = lock_free lk s"
  "lock_free lk (s\<lparr>ide_disk := x_ide_disk\<rparr>) = lock_free lk s"
  "lock_free lk (s\<lparr>ide_cmd := x_ide_cmd\<rparr>) = lock_free lk s"
  "lock_free lk (s\<lparr>ide_status := x_ide_status\<rparr>) = lock_free lk s"
  by (simp_all add: lock_free_def)

end
