(* ===== verification/Log.thy ===== *)
theory Log
  imports Bio
begin

unbundle bit_operations_syntax

text \<open>
  The write-ahead log of \<open>log.c\<close>. The fields of \<open>struct log\<close> are part of the state. The
  counters are C ints and never leave a small range, except that \<open>lh.n\<close> is read from the
  disk: a header with more than LOGSIZE entries overruns the array and has no meaning in C
  (\<open>Undefined\<close>). \<open>begin_op\<close> may sleep; as in theory \<open>Proc\<close> it takes a list of what
  happens meanwhile. \<open>readsb\<close> of \<open>fs.c\<close>, which \<open>initlog\<close> calls, is here too.
\<close>

section \<open>Definitions\<close>

record superblock =
  sb_size :: u32
  sb_nblocks :: u32
  sb_ninodes :: u32
  sb_nlog :: u32
  sb_logstart :: u32
  sb_inodestart :: u32
  sb_bmapstart :: u32

record logst = bio +
  log_start :: u32
  log_size :: int
  outstanding :: int
  committing :: bool
  log_dev :: u32
  lh_n :: int
  lh_block :: "u32 list"

abbreviation (input) MAXOPBLOCKS :: int where "MAXOPBLOCKS \<equiv> 10"
abbreviation (input) LOGSIZE :: nat where "LOGSIZE \<equiv> 30"

definition superblock_of :: "u8 list \<Rightarrow> superblock" where
  "superblock_of d = \<lparr>sb_size = get32 d 0, sb_nblocks = get32 d 4, sb_ninodes = get32 d 8, sb_nlog = get32 d 12,
     sb_logstart = get32 d 16, sb_inodestart = get32 d 20, sb_bmapstart = get32 d 24\<rparr>"

definition readsb :: "u32 \<Rightarrow> 'z bio_scheme \<Rightarrow> ('z bio_scheme, superblock \<times> 'z bio_scheme) kres" where
  "readsb dv s =
     bindR (bread dv 1 s) (\<lambda>(bp, s).
     let sb = superblock_of (b_data (buf_at s bp))
     in bindR (brelse bp s) (\<lambda>s. Inr (sb, s)))"

fun install_trans_loop :: "nat list \<Rightarrow> 'z logst_scheme \<Rightarrow> ('z logst_scheme, 'z logst_scheme) kres" where
  "install_trans_loop [] s = Inr s"
| "install_trans_loop (tail # ts) s =
     bindR (bread (log_dev s) (log_start s + of_nat tail + 1) s) (\<lambda>(lbuf, s).
     bindR (bread (log_dev s) (lh_block s ! tail) s) (\<lambda>(dbuf, s).
     let s = upd_buf dbuf (\<lambda>x. x\<lparr>b_data := b_data (buf_at s lbuf)\<rparr>) s
     in bindR (bwrite dbuf s) (\<lambda>s.
        bindR (brelse lbuf s) (\<lambda>s.
        bindR (brelse dbuf s) (\<lambda>s.
        install_trans_loop ts s)))))"

definition install_trans :: "'z logst_scheme \<Rightarrow> ('z logst_scheme, 'z logst_scheme) kres" where
  "install_trans s = install_trans_loop [0..<nat (lh_n s)] s"

definition read_head :: "'z logst_scheme \<Rightarrow> ('z logst_scheme, 'z logst_scheme) kres" where
  "read_head s =
     bindR (bread (log_dev s) (log_start s) s) (\<lambda>(b, s).
     let d = b_data (buf_at s b); n = sint (get32 d 0)
     in if n > int LOGSIZE then Inl Undefined
        else
          let s = s\<lparr>lh_n := n,
                lh_block := foldl (\<lambda>bl i. bl[i := get32 d (4 + 4 * i)]) (lh_block s) [0..<nat n]\<rparr>
          in brelse b s)"

definition write_head :: "'z logst_scheme \<Rightarrow> ('z logst_scheme, 'z logst_scheme) kres" where
  "write_head s =
     bindR (bread (log_dev s) (log_start s) s) (\<lambda>(b, s).
     let s = upd_buf b (\<lambda>x. x\<lparr>b_data := put32 0 (word_of_int (lh_n s)) (b_data x)\<rparr>) s;
         s = upd_buf b (\<lambda>x. x\<lparr>b_data := foldl (\<lambda>d i. put32 (4 + 4 * i) (lh_block s ! i) d) (b_data x)
               [0..<nat (lh_n s)]\<rparr>) s
     in bindR (bwrite b s) (\<lambda>s. brelse b s))"

definition recover_from_log :: "'z logst_scheme \<Rightarrow> ('z logst_scheme, 'z logst_scheme) kres" where
  "recover_from_log s =
     bindR (read_head s) (\<lambda>s.
     bindR (install_trans s) (\<lambda>s.
     write_head (s\<lparr>lh_n := 0\<rparr>)))"

text \<open>The size test on \<open>struct logheader\<close> (124 bytes) is decided when the kernel is compiled.\<close>

definition initlog :: "u32 \<Rightarrow> 'z logst_scheme \<Rightarrow> ('z logst_scheme, 'z logst_scheme) kres" where
  "initlog dv s =
     (let s = initlock L_log s
      in bindR (readsb dv s) (\<lambda>(sb, s).
         recover_from_log (s\<lparr>log_start := sb_logstart sb, log_size := sint (sb_nlog sb), log_dev := dv\<rparr>)))"

fun begin_op_loop :: "('z logst_scheme \<Rightarrow> 'z logst_scheme) list \<Rightarrow> 'z logst_scheme \<Rightarrow> ('z logst_scheme, 'z logst_scheme) kres" where
  "begin_op_loop envs s =
     (if committing s \<or> lh_n s + (outstanding s + 1) * MAXOPBLOCKS > int LOGSIZE then
        bindR (sleep_enter Ch_log L_log s) (\<lambda>((p, fl), s).
        case envs of [] \<Rightarrow> Inl (Sleeping Ch_log s)
        | env # envs \<Rightarrow> bindR (sleep_leave p fl L_log (env s)) (\<lambda>s. begin_op_loop envs s))
      else release L_log (s\<lparr>outstanding := outstanding s + 1\<rparr>))"

declare begin_op_loop.simps [simp del]

definition begin_op :: "('z logst_scheme \<Rightarrow> 'z logst_scheme) list \<Rightarrow> 'z logst_scheme \<Rightarrow> ('z logst_scheme, 'z logst_scheme) kres" where
  "begin_op envs s = bindR (acquire L_log s) (\<lambda>s. begin_op_loop envs s)"

fun write_log_loop :: "nat list \<Rightarrow> 'z logst_scheme \<Rightarrow> ('z logst_scheme, 'z logst_scheme) kres" where
  "write_log_loop [] s = Inr s"
| "write_log_loop (tail # ts) s =
     bindR (bread (log_dev s) (log_start s + of_nat tail + 1) s) (\<lambda>(tob, s).
     bindR (bread (log_dev s) (lh_block s ! tail) s) (\<lambda>(fromb, s).
     let s = upd_buf tob (\<lambda>x. x\<lparr>b_data := b_data (buf_at s fromb)\<rparr>) s
     in bindR (bwrite tob s) (\<lambda>s.
        bindR (brelse fromb s) (\<lambda>s.
        bindR (brelse tob s) (\<lambda>s.
        write_log_loop ts s)))))"

definition write_log :: "'z logst_scheme \<Rightarrow> ('z logst_scheme, 'z logst_scheme) kres" where
  "write_log s = write_log_loop [0..<nat (lh_n s)] s"

definition commit :: "'z logst_scheme \<Rightarrow> ('z logst_scheme, 'z logst_scheme) kres" where
  "commit s =
     (if lh_n s > 0 then
        bindR (write_log s) (\<lambda>s.
        bindR (write_head s) (\<lambda>s.
        bindR (install_trans s) (\<lambda>s.
        write_head (s\<lparr>lh_n := 0\<rparr>))))
      else Inr s)"

definition end_op :: "'z logst_scheme \<Rightarrow> ('z logst_scheme, 'z logst_scheme) kres" where
  "end_op s =
     bindR (acquire L_log s) (\<lambda>s.
     let s = s\<lparr>outstanding := outstanding s - 1\<rparr>
     in if committing s then Inl (Panic ''log.committing'')
        else if outstanding s = 0 then
          bindR (release L_log (s\<lparr>committing := True\<rparr>)) (\<lambda>s.
          bindR (commit s) (\<lambda>s.
          bindR (acquire L_log s) (\<lambda>s.
          bindR (wakeup Ch_log (s\<lparr>committing := False\<rparr>)) (\<lambda>s.
          release L_log s))))
        else bindR (wakeup Ch_log s) (\<lambda>s. release L_log s))"

text \<open>The position where \<open>log_write\<close> records a block: that of an earlier record, or the end.\<close>

definition log_slot :: "u32 \<Rightarrow> 'z logst_scheme \<Rightarrow> nat" where
  "log_slot bn s = (case find (\<lambda>i. lh_block s ! i = bn) [0..<nat (lh_n s)] of Some i \<Rightarrow> i | None \<Rightarrow> nat (lh_n s))"

definition log_write :: "nat \<Rightarrow> 'z logst_scheme \<Rightarrow> ('z logst_scheme, 'z logst_scheme) kres" where
  "log_write b s =
     (if lh_n s \<ge> int LOGSIZE \<or> lh_n s \<ge> log_size s - 1 then Inl (Panic ''too big a transaction'')
      else if outstanding s < 1 then Inl (Panic ''log_write outside of trans'')
      else
        bindR (acquire L_log s) (\<lambda>s.
        let i = log_slot (b_blockno (buf_at s b)) s;
            s = s\<lparr>lh_block := (lh_block s)[i := b_blockno (buf_at s b)]\<rparr>;
            s = (if int i = lh_n s then s\<lparr>lh_n := lh_n s + 1\<rparr> else s);
            s = upd_buf b (\<lambda>x. x\<lparr>b_flags := b_flags x OR B_DIRTY\<rparr>) s
        in release L_log s))"

section \<open>Critical sections and the fields of \<open>logst\<close>\<close>

lemma acquired_logst [simp]:
  "log_start (acquired lk s) = log_start s"
  "log_size (acquired lk s) = log_size s"
  "outstanding (acquired lk s) = outstanding s"
  "committing (acquired lk s) = committing s"
  "log_dev (acquired lk s) = log_dev s"
  "lh_n (acquired lk s) = lh_n s"
  "lh_block (acquired lk s) = lh_block s"
  by (simp_all add: acquired_def pushed_def)

lemma acquired_upd_logst [simp]:
  "(acquired lk s)\<lparr>log_start := x_log_start\<rparr> = acquired lk (s\<lparr>log_start := x_log_start\<rparr>)"
  "(acquired lk s)\<lparr>log_size := x_log_size\<rparr> = acquired lk (s\<lparr>log_size := x_log_size\<rparr>)"
  "(acquired lk s)\<lparr>outstanding := x_outstanding\<rparr> = acquired lk (s\<lparr>outstanding := x_outstanding\<rparr>)"
  "(acquired lk s)\<lparr>committing := x_committing\<rparr> = acquired lk (s\<lparr>committing := x_committing\<rparr>)"
  "(acquired lk s)\<lparr>log_dev := x_log_dev\<rparr> = acquired lk (s\<lparr>log_dev := x_log_dev\<rparr>)"
  "(acquired lk s)\<lparr>lh_n := x_lh_n\<rparr> = acquired lk (s\<lparr>lh_n := x_lh_n\<rparr>)"
  "(acquired lk s)\<lparr>lh_block := x_lh_block\<rparr> = acquired lk (s\<lparr>lh_block := x_lh_block\<rparr>)"
  by (cases s, simp add: acquired_def pushed_def this_cpu_def cong: option.case_cong)+

lemma calm_logst [simp]:
  "calm (s\<lparr>log_start := x_log_start\<rparr>) = calm s"
  "calm (s\<lparr>log_size := x_log_size\<rparr>) = calm s"
  "calm (s\<lparr>outstanding := x_outstanding\<rparr>) = calm s"
  "calm (s\<lparr>committing := x_committing\<rparr>) = calm s"
  "calm (s\<lparr>log_dev := x_log_dev\<rparr>) = calm s"
  "calm (s\<lparr>lh_n := x_lh_n\<rparr>) = calm s"
  "calm (s\<lparr>lh_block := x_lh_block\<rparr>) = calm s"
  by (rule calm_same, simp add: mach_same_def)+

lemma cur_logst [simp]:
  "cur (s\<lparr>log_start := x_log_start\<rparr>) = cur s"
  "cur (s\<lparr>log_size := x_log_size\<rparr>) = cur s"
  "cur (s\<lparr>outstanding := x_outstanding\<rparr>) = cur s"
  "cur (s\<lparr>committing := x_committing\<rparr>) = cur s"
  "cur (s\<lparr>log_dev := x_log_dev\<rparr>) = cur s"
  "cur (s\<lparr>lh_n := x_lh_n\<rparr>) = cur s"
  "cur (s\<lparr>lh_block := x_lh_block\<rparr>) = cur s"
  by (rule cur_same, simp add: mach_same_def)+

lemma lock_free_logst [simp]:
  "lock_free lk (s\<lparr>log_start := x_log_start\<rparr>) = lock_free lk s"
  "lock_free lk (s\<lparr>log_size := x_log_size\<rparr>) = lock_free lk s"
  "lock_free lk (s\<lparr>outstanding := x_outstanding\<rparr>) = lock_free lk s"
  "lock_free lk (s\<lparr>committing := x_committing\<rparr>) = lock_free lk s"
  "lock_free lk (s\<lparr>log_dev := x_log_dev\<rparr>) = lock_free lk s"
  "lock_free lk (s\<lparr>lh_n := x_lh_n\<rparr>) = lock_free lk s"
  "lock_free lk (s\<lparr>lh_block := x_lh_block\<rparr>) = lock_free lk s"
  by (simp_all add: lock_free_def)

end
