(* ===== verification/Inode.thy ===== *)
theory Inode
  imports Log
begin

unbundle bit_operations_syntax

text \<open>
  The lower half of \<open>fs.c\<close>: the block allocator, the inode cache, and the mapping from a
  file's block numbers to disk blocks. An inode is named by its slot in \<open>icache\<close>. The
  on-disk \<open>struct dinode\<close> is 64 bytes of a block, read and written in place.
\<close>

section \<open>Definitions\<close>

record inode =
  i_dev :: u32
  i_inum :: u32
  i_ref :: int
  i_valid :: bool
  i_type :: u16
  i_major :: u16
  i_minor :: u16
  i_nlink :: u16
  i_size :: u32
  i_addrs :: "u32 list"

record icache = logst +
  inodes :: "inode list"
  sb :: superblock

abbreviation (input) NINODE :: nat where "NINODE \<equiv> 50"
abbreviation (input) NDIRECT :: nat where "NDIRECT \<equiv> 12"
abbreviation (input) NINDIRECT :: nat where "NINDIRECT \<equiv> 128"
abbreviation (input) BPB :: nat where "BPB \<equiv> 4096"
abbreviation (input) T_DIR :: u16 where "T_DIR \<equiv> 1"
abbreviation (input) T_FILE :: u16 where "T_FILE \<equiv> 2"
abbreviation (input) T_DEV :: u16 where "T_DEV \<equiv> 3"
abbreviation (input) ROOTDEV :: u32 where "ROOTDEV \<equiv> 1"
abbreviation (input) ROOTINO :: u32 where "ROOTINO \<equiv> 1"

abbreviation inode_at :: "'z icache_scheme \<Rightarrow> nat \<Rightarrow> inode" where
  "inode_at s i \<equiv> inodes s ! i"

definition upd_inode :: "nat \<Rightarrow> (inode \<Rightarrow> inode) \<Rightarrow> 'z icache_scheme \<Rightarrow> 'z icache_scheme" where
  "upd_inode i f s = s\<lparr>inodes := upd_nth i f (inodes s)\<rparr>"

definition IBLOCK :: "u32 \<Rightarrow> superblock \<Rightarrow> u32" where "IBLOCK i sb' = i div 8 + sb_inodestart sb'"

definition BBLOCK :: "u32 \<Rightarrow> superblock \<Rightarrow> u32" where "BBLOCK b sb' = b div 4096 + sb_bmapstart sb'"

subsection \<open>Blocks\<close>

definition bzero :: "u32 \<Rightarrow> u32 \<Rightarrow> 'z icache_scheme \<Rightarrow> ('z icache_scheme, 'z icache_scheme) kres" where
  "bzero dv bno s =
     bindR (bread dv bno s) (\<lambda>(bp, s).
     bindR (log_write bp (upd_buf bp (\<lambda>x. x\<lparr>b_data := replicate BSIZE 0\<rparr>) s)) (\<lambda>s.
     brelse bp s))"

definition bit_free :: "u8 list \<Rightarrow> nat \<Rightarrow> bool" where
  "bit_free d bi \<longleftrightarrow> d ! (bi div 8) AND push_bit (bi mod 8) 1 = 0"

fun balloc_loop :: "nat list \<Rightarrow> u32 \<Rightarrow> 'z icache_scheme \<Rightarrow> ('z icache_scheme, u32 \<times> 'z icache_scheme) kres" where
  "balloc_loop [] dv s = Inl (Panic ''balloc: out of blocks'')"
| "balloc_loop (b # bs) dv s =
     bindR (bread dv (BBLOCK (of_nat b) (sb s)) s) (\<lambda>(bp, s).
     case find (\<lambda>bi. b + bi < unat (sb_size (sb s)) \<and> bit_free (b_data (buf_at s bp)) bi) [0..<BPB] of
       Some bi \<Rightarrow>
         let s = upd_buf bp (\<lambda>x. x\<lparr>b_data := upd_nth (bi div 8) (\<lambda>y. y OR push_bit (bi mod 8) 1) (b_data x)\<rparr>) s
         in bindR (log_write bp s) (\<lambda>s.
            bindR (brelse bp s) (\<lambda>s.
            bindR (bzero dv (of_nat (b + bi)) s) (\<lambda>s.
            Inr (of_nat (b + bi), s))))
     | None \<Rightarrow> bindR (brelse bp s) (\<lambda>s. balloc_loop bs dv s))"

definition balloc :: "u32 \<Rightarrow> 'z icache_scheme \<Rightarrow> ('z icache_scheme, u32 \<times> 'z icache_scheme) kres" where
  "balloc dv s = balloc_loop (map ((*) BPB) [0..<(unat (sb_size (sb s)) + (BPB - 1)) div BPB]) dv s"

definition bfree :: "u32 \<Rightarrow> u32 \<Rightarrow> 'z icache_scheme \<Rightarrow> ('z icache_scheme, 'z icache_scheme) kres" where
  "bfree dv b s =
     bindR (bread dv (BBLOCK b (sb s)) s) (\<lambda>(bp, s).
     let bi = unat b mod BPB
     in if bit_free (b_data (buf_at s bp)) bi then Inl (Panic ''freeing free block'')
        else
          let s = upd_buf bp (\<lambda>x. x\<lparr>b_data := upd_nth (bi div 8) (\<lambda>y. y AND NOT (push_bit (bi mod 8) 1)) (b_data x)\<rparr>) s
          in bindR (log_write bp s) (\<lambda>s. brelse bp s))"

subsection \<open>Inodes\<close>

text \<open>The super block is read last; the message it prints is left out.\<close>

definition iinit :: "u32 \<Rightarrow> 'z icache_scheme \<Rightarrow> ('z icache_scheme, 'z icache_scheme) kres" where
  "iinit dv s =
     (let s = initlock L_icache s;
          s = foldl (\<lambda>s i. initsleeplock (L_inode i) s) s [0..<NINODE]
      in bindR (readsb dv s) (\<lambda>(x, s). Inr (s\<lparr>sb := x\<rparr>)))"

text \<open>The fields of the \<open>dinode\<close> at offset \<open>o\<close> of a block, in memory and on disk.\<close>

definition load_dinode :: "u8 list \<Rightarrow> nat \<Rightarrow> inode \<Rightarrow> inode" where
  "load_dinode d off ip = ip\<lparr>i_type := get16 d off, i_major := get16 d (off + 2), i_minor := get16 d (off + 4),
     i_nlink := get16 d (off + 6), i_size := get32 d (off + 8),
     i_addrs := map (\<lambda>k. get32 d (off + 12 + 4 * k)) [0..<NDIRECT + 1]\<rparr>"

definition store_dinode :: "inode \<Rightarrow> nat \<Rightarrow> u8 list \<Rightarrow> u8 list" where
  "store_dinode ip off d =
     (let d = put16 off (i_type ip) d; d = put16 (off + 2) (i_major ip) d; d = put16 (off + 4) (i_minor ip) d;
          d = put16 (off + 6) (i_nlink ip) d; d = put32 (off + 8) (i_size ip) d
      in foldl (\<lambda>d k. put32 (off + 12 + 4 * k) (i_addrs ip ! k) d) d [0..<NDIRECT + 1])"

definition dinode_off :: "u32 \<Rightarrow> nat" where "dinode_off inum = 64 * (unat inum mod 8)"

definition iget :: "u32 \<Rightarrow> u32 \<Rightarrow> 'z icache_scheme \<Rightarrow> ('z icache_scheme, nat \<times> 'z icache_scheme) kres" where
  "iget dv inum s =
     bindR (acquire L_icache s) (\<lambda>s.
     case find (\<lambda>i. i_ref (inode_at s i) > 0 \<and> i_dev (inode_at s i) = dv \<and> i_inum (inode_at s i) = inum) [0..<NINODE] of
       Some ip \<Rightarrow>
         bindR (release L_icache (upd_inode ip (\<lambda>x. x\<lparr>i_ref := i_ref x + 1\<rparr>) s)) (\<lambda>s. Inr (ip, s))
     | None \<Rightarrow> (case find (\<lambda>i. i_ref (inode_at s i) = 0) [0..<NINODE] of
           None \<Rightarrow> Inl (Panic ''iget: no inodes'')
         | Some ip \<Rightarrow>
             bindR (release L_icache (upd_inode ip (\<lambda>x. x\<lparr>i_dev := dv, i_inum := inum, i_ref := 1, i_valid := False\<rparr>) s)) (\<lambda>s.
             Inr (ip, s))))"

fun ialloc_loop :: "nat list \<Rightarrow> u32 \<Rightarrow> u16 \<Rightarrow> 'z icache_scheme \<Rightarrow> ('z icache_scheme, nat \<times> 'z icache_scheme) kres" where
  "ialloc_loop [] dv ty s = Inl (Panic ''ialloc: no inodes'')"
| "ialloc_loop (inum # is') dv ty s =
     bindR (bread dv (IBLOCK (of_nat inum) (sb s)) s) (\<lambda>(bp, s).
     let off = dinode_off (of_nat inum)
     in if get16 (b_data (buf_at s bp)) off = 0 then
          let s = upd_buf bp (\<lambda>x. x\<lparr>b_data := put_bytes off (replicate 64 0) (b_data x)\<rparr>) s;
              s = upd_buf bp (\<lambda>x. x\<lparr>b_data := put16 off ty (b_data x)\<rparr>) s
          in bindR (log_write bp s) (\<lambda>s.
             bindR (brelse bp s) (\<lambda>s.
             iget dv (of_nat inum) s))
        else bindR (brelse bp s) (\<lambda>s. ialloc_loop is' dv ty s))"

definition ialloc :: "u32 \<Rightarrow> u16 \<Rightarrow> 'z icache_scheme \<Rightarrow> ('z icache_scheme, nat \<times> 'z icache_scheme) kres" where
  "ialloc dv ty s = ialloc_loop [1..<unat (sb_ninodes (sb s))] dv ty s"

definition iupdate :: "nat \<Rightarrow> 'z icache_scheme \<Rightarrow> ('z icache_scheme, 'z icache_scheme) kres" where
  "iupdate ip s =
     bindR (bread (i_dev (inode_at s ip)) (IBLOCK (i_inum (inode_at s ip)) (sb s)) s) (\<lambda>(bp, s).
     let s = upd_buf bp (\<lambda>x. x\<lparr>b_data := store_dinode (inode_at s ip) (dinode_off (i_inum (inode_at s ip))) (b_data x)\<rparr>) s
     in bindR (log_write bp s) (\<lambda>s. brelse bp s))"

definition idup :: "nat \<Rightarrow> 'z icache_scheme \<Rightarrow> ('z icache_scheme, nat \<times> 'z icache_scheme) kres" where
  "idup ip s =
     bindR (acquire L_icache s) (\<lambda>s.
     bindR (release L_icache (upd_inode ip (\<lambda>x. x\<lparr>i_ref := i_ref x + 1\<rparr>) s)) (\<lambda>s.
     Inr (ip, s)))"

definition ilock :: "nat \<Rightarrow> 'z icache_scheme \<Rightarrow> ('z icache_scheme, 'z icache_scheme) kres" where
  "ilock ip s =
     (if i_ref (inode_at s ip) < 1 then Inl (Panic ''ilock'')
      else
        bindR (acquiresleep (L_inode ip) [] s) (\<lambda>s.
        if i_valid (inode_at s ip) then Inr s
        else
          bindR (bread (i_dev (inode_at s ip)) (IBLOCK (i_inum (inode_at s ip)) (sb s)) s) (\<lambda>(bp, s).
          let s = upd_inode ip (\<lambda>x. load_dinode (b_data (buf_at s bp)) (dinode_off (i_inum x)) x) s
          in bindR (brelse bp s) (\<lambda>s.
             let s = upd_inode ip (\<lambda>x. x\<lparr>i_valid := True\<rparr>) s
             in if i_type (inode_at s ip) = 0 then Inl (Panic ''ilock: no type'') else Inr s))))"

definition iunlock :: "nat \<Rightarrow> 'z icache_scheme \<Rightarrow> ('z icache_scheme, 'z icache_scheme) kres" where
  "iunlock ip s =
     bindR (holdingsleep (L_inode ip) s) (\<lambda>(h, s).
     if \<not> h \<or> i_ref (inode_at s ip) < 1 then Inl (Panic ''iunlock'')
     else releasesleep (L_inode ip) s)"

subsection \<open>Inode content\<close>

definition bmap :: "nat \<Rightarrow> nat \<Rightarrow> 'z icache_scheme \<Rightarrow> ('z icache_scheme, u32 \<times> 'z icache_scheme) kres" where
  "bmap ip bn s =
     (if bn < NDIRECT then
        let addr = i_addrs (inode_at s ip) ! bn
        in if addr = 0 then
             bindR (balloc (i_dev (inode_at s ip)) s) (\<lambda>(addr, s).
             Inr (addr, upd_inode ip (\<lambda>x. x\<lparr>i_addrs := (i_addrs x)[bn := addr]\<rparr>) s))
           else Inr (addr, s)
      else if bn - NDIRECT < NINDIRECT then
        let bn = bn - NDIRECT; addr = i_addrs (inode_at s ip) ! NDIRECT
        in bindR (if addr = 0 then
                    bindR (balloc (i_dev (inode_at s ip)) s) (\<lambda>(addr, s).
                    Inr (addr, upd_inode ip (\<lambda>x. x\<lparr>i_addrs := (i_addrs x)[NDIRECT := addr]\<rparr>) s))
                  else Inr (addr, s)) (\<lambda>(addr, s).
           bindR (bread (i_dev (inode_at s ip)) addr s) (\<lambda>(bp, s).
           let addr = get32 (b_data (buf_at s bp)) (4 * bn)
           in bindR (if addr = 0 then
                       bindR (balloc (i_dev (inode_at s ip)) s) (\<lambda>(addr, s).
                       bindR (log_write bp (upd_buf bp (\<lambda>x. x\<lparr>b_data := put32 (4 * bn) addr (b_data x)\<rparr>) s)) (\<lambda>s.
                       Inr (addr, s)))
                     else Inr (addr, s)) (\<lambda>(addr, s).
              bindR (brelse bp s) (\<lambda>s. Inr (addr, s)))))
      else Inl (Panic ''bmap: out of range''))"

fun itrunc_direct :: "nat list \<Rightarrow> nat \<Rightarrow> 'z icache_scheme \<Rightarrow> ('z icache_scheme, 'z icache_scheme) kres" where
  "itrunc_direct [] ip s = Inr s"
| "itrunc_direct (i # is') ip s =
     (if i_addrs (inode_at s ip) ! i \<noteq> 0 then
        bindR (bfree (i_dev (inode_at s ip)) (i_addrs (inode_at s ip) ! i) s) (\<lambda>s.
        itrunc_direct is' ip (upd_inode ip (\<lambda>x. x\<lparr>i_addrs := (i_addrs x)[i := 0]\<rparr>) s))
      else itrunc_direct is' ip s)"

fun itrunc_indirect :: "nat list \<Rightarrow> nat \<Rightarrow> nat \<Rightarrow> 'z icache_scheme \<Rightarrow> ('z icache_scheme, 'z icache_scheme) kres" where
  "itrunc_indirect [] ip bp s = Inr s"
| "itrunc_indirect (j # js) ip bp s =
     (let a = get32 (b_data (buf_at s bp)) (4 * j)
      in if a \<noteq> 0 then bindR (bfree (i_dev (inode_at s ip)) a s) (\<lambda>s. itrunc_indirect js ip bp s)
         else itrunc_indirect js ip bp s)"

definition itrunc :: "nat \<Rightarrow> 'z icache_scheme \<Rightarrow> ('z icache_scheme, 'z icache_scheme) kres" where
  "itrunc ip s =
     bindR (itrunc_direct [0..<NDIRECT] ip s) (\<lambda>s.
     bindR (if i_addrs (inode_at s ip) ! NDIRECT \<noteq> 0 then
              bindR (bread (i_dev (inode_at s ip)) (i_addrs (inode_at s ip) ! NDIRECT) s) (\<lambda>(bp, s).
              bindR (itrunc_indirect [0..<NINDIRECT] ip bp s) (\<lambda>s.
              bindR (brelse bp s) (\<lambda>s.
              bindR (bfree (i_dev (inode_at s ip)) (i_addrs (inode_at s ip) ! NDIRECT) s) (\<lambda>s.
              Inr (upd_inode ip (\<lambda>x. x\<lparr>i_addrs := (i_addrs x)[NDIRECT := 0]\<rparr>) s)))))
            else Inr s) (\<lambda>s.
     iupdate ip (upd_inode ip (\<lambda>x. x\<lparr>i_size := 0\<rparr>) s)))"

definition iput :: "nat \<Rightarrow> 'z icache_scheme \<Rightarrow> ('z icache_scheme, 'z icache_scheme) kres" where
  "iput ip s =
     bindR (acquiresleep (L_inode ip) [] s) (\<lambda>s.
     bindR (if i_valid (inode_at s ip) \<and> i_nlink (inode_at s ip) = 0 then
              bindR (acquire L_icache s) (\<lambda>s.
              let r = i_ref (inode_at s ip)
              in bindR (release L_icache s) (\<lambda>s.
                 if r = 1 then
                   bindR (itrunc ip s) (\<lambda>s.
                   bindR (iupdate ip (upd_inode ip (\<lambda>x. x\<lparr>i_type := 0\<rparr>) s)) (\<lambda>s.
                   Inr (upd_inode ip (\<lambda>x. x\<lparr>i_valid := False\<rparr>) s)))
                 else Inr s))
            else Inr s) (\<lambda>s.
     bindR (releasesleep (L_inode ip) s) (\<lambda>s.
     bindR (acquire L_icache s) (\<lambda>s.
     release L_icache (upd_inode ip (\<lambda>x. x\<lparr>i_ref := i_ref x - 1\<rparr>) s)))))"

definition iunlockput :: "nat \<Rightarrow> 'z icache_scheme \<Rightarrow> ('z icache_scheme, 'z icache_scheme) kres" where
  "iunlockput ip s = bindR (iunlock ip s) (\<lambda>s. iput ip s)"

section \<open>Critical sections and the fields of \<open>icache\<close>\<close>

lemma acquired_icache [simp]:
  "inodes (acquired lk s) = inodes s"
  "sb (acquired lk s) = sb s"
  by (simp_all add: acquired_def pushed_def)

lemma acquired_upd_icache [simp]:
  "(acquired lk s)\<lparr>inodes := x_inodes\<rparr> = acquired lk (s\<lparr>inodes := x_inodes\<rparr>)"
  "(acquired lk s)\<lparr>sb := x_sb\<rparr> = acquired lk (s\<lparr>sb := x_sb\<rparr>)"
  by (cases s, simp add: acquired_def pushed_def this_cpu_def cong: option.case_cong)+

lemma calm_icache [simp]:
  "calm (s\<lparr>inodes := x_inodes\<rparr>) = calm s"
  "calm (s\<lparr>sb := x_sb\<rparr>) = calm s"
  by (rule calm_same, simp add: mach_same_def)+

lemma cur_icache [simp]:
  "cur (s\<lparr>inodes := x_inodes\<rparr>) = cur s"
  "cur (s\<lparr>sb := x_sb\<rparr>) = cur s"
  by (rule cur_same, simp add: mach_same_def)+

lemma lock_free_icache [simp]:
  "lock_free lk (s\<lparr>inodes := x_inodes\<rparr>) = lock_free lk s"
  "lock_free lk (s\<lparr>sb := x_sb\<rparr>) = lock_free lk s"
  by (simp_all add: lock_free_def)

end
