(* ===== verification/Console.thy ===== *)
theory Console
  imports Inode
begin

unbundle bit_operations_syntax

text \<open>
  The console of \<open>console.c\<close>, the keyboard decoder of \<open>kbd.c\<close> and the serial port of
  \<open>uart.c\<close> as far as the console uses it. \<open>crt\<close> is the text memory of the display and
  \<open>crt_pos\<close> its cursor register; \<open>uart_out\<close> is what has been sent on the serial line,
  \<open>uart\<close> tells whether there is one. An interrupt hands over the characters its device has
  ready (\<open>getc\<close> returns them one by one, then a negative number), so it takes a list.

  A buffer that a call fills is modelled by the bytes the call stores in it, from its start:
  \<open>consoleread\<close> returns them with its result, and the caller puts them in place. The listing
  of processes on control-P is left out.
\<close>

section \<open>Definitions\<close>

record cons = icache +
  cons_locking :: bool
  panicked :: bool
  cons_dev :: bool
  crt :: "nat \<Rightarrow> u16"
  crt_pos :: u16
  uart :: bool
  uart_out :: "u8 list"
  input_buf :: "u8 list"
  input_r :: u32
  input_w :: u32
  input_e :: u32
  kbd_shift :: u32

abbreviation (input) INPUT_BUF :: u32 where "INPUT_BUF \<equiv> 128"
abbreviation (input) BACKSPACE :: u32 where "BACKSPACE \<equiv> 0x100"

subsection \<open>Output\<close>

text \<open>The digits of a number, last one first, as \<open>printint\<close> collects them.\<close>

function int_digits :: "nat \<Rightarrow> nat \<Rightarrow> u8 list" where
  "int_digits x base =
     (let d = x mod base; c = (if d < 10 then 48 + of_nat d else 87 + of_nat d)
      in if base < 2 \<or> x div base = 0 then [c] else c # int_digits (x div base) base)"
  by pat_completeness auto
termination
  by (relation "measure fst") (auto simp: not_less intro!: div_less_dividend intro: gr0I)

declare int_digits.simps [simp del]

definition printint :: "u32 \<Rightarrow> nat \<Rightarrow> bool \<Rightarrow> u8 list" where
  "printint xx base sign =
     (let neg = (sign \<and> sint xx < 0);
          x = (if neg then - xx else xx)
      in rev (int_digits (unat x) base @ (if neg then [45] else [])))"

text \<open>
  The arguments of \<open>cprintf\<close> are numbers or strings; \<open>cformat\<close> is the text it prints.
  None means that it reads an argument that is not there.
\<close>

datatype cparg = C_num u32 | C_str "u8 list option"

fun cformat :: "u8 list \<Rightarrow> cparg list \<Rightarrow> u8 list option" where
  "cformat [] as = Some []"
| "cformat [c] as = (if c \<noteq> 37 then Some [c] else Some [])"
| "cformat (c # d # fmt) as =
     (if c \<noteq> 37 then map_option ((#) c) (cformat (d # fmt) as)
      else if d = 100 then
        (case as of C_num n # as \<Rightarrow> map_option ((@) (printint n 10 True)) (cformat fmt as) | _ \<Rightarrow> None)
      else if d = 120 \<or> d = 112 then
        (case as of C_num n # as \<Rightarrow> map_option ((@) (printint n 16 False)) (cformat fmt as) | _ \<Rightarrow> None)
      else if d = 115 then
        (case as of
           C_str None # as \<Rightarrow> map_option ((@) [40, 110, 117, 108, 108, 41]) (cformat fmt as)
         | C_str (Some t) # as \<Rightarrow> map_option ((@) t) (cformat fmt as)
         | _ \<Rightarrow> None)
      else if d = 37 then map_option ((#) 37) (cformat fmt as)
      else map_option (\<lambda>t. 37 # d # t) (cformat fmt as))"

definition uartputc :: "u8 \<Rightarrow> 'z cons_scheme \<Rightarrow> 'z cons_scheme" where
  "uartputc c s = (if uart s then s\<lparr>uart_out := uart_out s @ [c]\<rparr> else s)"

definition cgaputc :: "u32 \<Rightarrow> 'z cons_scheme \<Rightarrow> ('z cons_scheme, 'z cons_scheme) kres" where
  "cgaputc c s =
     (let pos = unat (crt_pos s);
          (pos, s) = (if c = 10 then (pos + (80 - pos mod 80), s)
                      else if c = BACKSPACE then (pos - 1, s)
                      else (pos + 1, s\<lparr>crt := (crt s)(pos := ucast (c AND 0xff) OR 0x0700)\<rparr>))
      in if pos > 25 * 80 then Inl (Panic ''pos under/overflow'')
         else
           let (pos, s) =
                 (if pos div 80 \<ge> 24
                  then let s = s\<lparr>crt := (\<lambda>i. if i < 23 * 80 then crt s (i + 80) else crt s i)\<rparr>;
                           pos = pos - 80
                       in (pos, s\<lparr>crt := (\<lambda>i. if pos \<le> i \<and> i < 24 * 80 then 0 else crt s i)\<rparr>)
                  else (pos, s));
               s = s\<lparr>crt_pos := of_nat pos\<rparr>
           in Inr (s\<lparr>crt := (crt s)(pos := 32 OR 0x0700)\<rparr>))"

text \<open>Once a processor has panicked, output stops every processor.\<close>

definition consputc :: "u32 \<Rightarrow> 'z cons_scheme \<Rightarrow> ('z cons_scheme, 'z cons_scheme) kres" where
  "consputc c s =
     (if panicked s then Inl Diverges
      else
        cgaputc c (if c = BACKSPACE then uartputc 8 (uartputc 32 (uartputc 8 s)) else uartputc (ucast c) s))"

fun consputs :: "u8 list \<Rightarrow> 'z cons_scheme \<Rightarrow> ('z cons_scheme, 'z cons_scheme) kres" where
  "consputs [] s = Inr s"
| "consputs (c # cs) s = bindR (consputc (ucast c) s) (\<lambda>s. consputs cs s)"

definition cprintf :: "u8 list option \<Rightarrow> cparg list \<Rightarrow> 'z cons_scheme \<Rightarrow> ('z cons_scheme, 'z cons_scheme) kres" where
  "cprintf fmt as s =
     (let locking = cons_locking s
      in bindR (if locking then acquire L_cons s else Inr s) (\<lambda>s.
         case fmt of
           None \<Rightarrow> Inl (Panic ''null fmt'')
         | Some fmt \<Rightarrow> (case cformat fmt as of
             None \<Rightarrow> Inl Undefined
           | Some out \<Rightarrow>
               bindR (consputs out s) (\<lambda>s.
               if locking then release L_cons s else Inr s))))"

subsection \<open>Input\<close>

definition input_put :: "u8 \<Rightarrow> 'z cons_scheme \<Rightarrow> 'z cons_scheme" where
  "input_put c s = s\<lparr>input_buf := (input_buf s)[unat (input_e s mod INPUT_BUF) := c], input_e := input_e s + 1\<rparr>"

text \<open>Control-U: erase to the start of the line.\<close>

lemma uartputc_input [simp]:
  "input_e (uartputc c s) = input_e s" "input_w (uartputc c s) = input_w s" "input_r (uartputc c s) = input_r s"
  "input_buf (uartputc c s) = input_buf s"
  by (simp_all add: uartputc_def)

lemma cgaputc_input:
  "cgaputc c s = Inr t \<Longrightarrow> input_e t = input_e s \<and> input_w t = input_w s \<and> input_r t = input_r s \<and>
     input_buf t = input_buf s"
  by (auto simp: cgaputc_def Let_def split: if_splits)

lemma consputc_input:
  "consputc c s = Inr t \<Longrightarrow> input_e t = input_e s \<and> input_w t = input_w s \<and> input_r t = input_r s \<and>
     input_buf t = input_buf s"
  by (auto simp: consputc_def dest!: cgaputc_input split: if_splits)

function kill_line :: "'z cons_scheme \<Rightarrow> ('z cons_scheme, 'z cons_scheme) kres" where
  "kill_line s =
     (if input_e s \<noteq> input_w s \<and> input_buf s ! unat ((input_e s - 1) mod INPUT_BUF) \<noteq> 10 then
        bindR (consputc BACKSPACE (s\<lparr>input_e := input_e s - 1\<rparr>)) (\<lambda>s. kill_line s)
      else Inr s)"
  by pat_completeness auto
termination
proof (relation "measure (\<lambda>s. unat (input_e s - input_w s))")
  fix s t :: "'z cons_scheme"
  assume ne: "input_e s \<noteq> input_w s \<and> input_buf s ! unat ((input_e s - 1) mod INPUT_BUF) \<noteq> 10"
    and t: "consputc BACKSPACE (s\<lparr>input_e := input_e s - 1\<rparr>) = Inr t"
  have "0 < unat (input_e s - input_w s)" using ne by (simp add: unat_gt_0)
  then have "unat (input_e s - input_w s - 1) < unat (input_e s - input_w s)"
    by (simp add: unat_u32_sub [of "input_e s - input_w s"])
  moreover have "input_e t - input_w t = input_e s - input_w s - 1"
    using consputc_input [OF t] by simp
  ultimately show "(t, s) \<in> measure (\<lambda>s. unat (input_e s - input_w s))" by simp
qed simp

declare kill_line.simps [simp del]

definition consoleintr_char :: "u32 \<Rightarrow> 'z cons_scheme \<Rightarrow> ('z cons_scheme, 'z cons_scheme) kres" where
  "consoleintr_char c s =
     (if c = 16 then Inr s
      else if c = 21 then kill_line s
      else if c = 8 \<or> c = 0x7f then
        if input_e s \<noteq> input_w s then consputc BACKSPACE (s\<lparr>input_e := input_e s - 1\<rparr>) else Inr s
      else if c \<noteq> 0 \<and> input_e s - input_r s < INPUT_BUF then
        let c = (if c = 13 then 10 else c)
        in bindR (consputc c (input_put (ucast c) s)) (\<lambda>s.
           if c = 10 \<or> c = 4 \<or> input_e s = input_r s + INPUT_BUF
           then wakeup Ch_input (s\<lparr>input_w := input_e s\<rparr>) else Inr s)
      else Inr s)"

fun consoleintr_loop :: "u32 list \<Rightarrow> 'z cons_scheme \<Rightarrow> ('z cons_scheme, 'z cons_scheme) kres" where
  "consoleintr_loop [] s = Inr s"
| "consoleintr_loop (c # cs) s = bindR (consoleintr_char c s) (\<lambda>s. consoleintr_loop cs s)"

definition consoleintr :: "u32 list \<Rightarrow> 'z cons_scheme \<Rightarrow> ('z cons_scheme, 'z cons_scheme) kres" where
  "consoleintr cs s =
     bindR (acquire L_cons s) (\<lambda>s.
     bindR (consoleintr_loop cs s) (\<lambda>s.
     release L_cons s))"

text \<open>
  The loop of \<open>consoleread\<close>: \<open>n\<close> bytes are still wanted, of \<open>target\<close>. The result is
  None when the process was killed while it waited, else what is left of \<open>n\<close>; with it come
  the bytes stored.
\<close>

function consoleread_loop :: "nat \<Rightarrow> nat \<Rightarrow> ('z cons_scheme \<Rightarrow> 'z cons_scheme) list \<Rightarrow> u8 list \<Rightarrow> 'z cons_scheme \<Rightarrow>
    ('z cons_scheme, (nat option \<times> u8 list) \<times> 'z cons_scheme) kres" where
  "consoleread_loop n target envs acc s =
     (if n = 0 then Inr ((Some n, acc), s)
      else if input_r s = input_w s then
        bindR (curproc s) (\<lambda>(p, s).
        if killed (proc_at s p) then Inr ((None, acc), s)
        else bindR (sleep_enter Ch_input L_cons s) (\<lambda>((p, fl), s).
          case envs of [] \<Rightarrow> Inl (Sleeping Ch_input s)
          | env # envs \<Rightarrow> bindR (sleep_leave p fl L_cons (env s)) (\<lambda>s. consoleread_loop n target envs acc s)))
      else
        let c = input_buf s ! unat (input_r s mod INPUT_BUF); s = s\<lparr>input_r := input_r s + 1\<rparr>
        in if c = 4 then
             Inr ((Some n, acc), if n < target then s\<lparr>input_r := input_r s - 1\<rparr> else s)
           else if c = 10 then Inr ((Some (n - 1), acc @ [c]), s)
           else consoleread_loop (n - 1) target envs (acc @ [c]) s)"
  by pat_completeness auto
termination
  by (relation "measures [\<lambda>(n, target, envs, acc, s). n, \<lambda>(n, target, envs, acc, s). length envs]") auto

declare consoleread_loop.simps [simp del]

definition consoleread :: "nat \<Rightarrow> int \<Rightarrow> ('z cons_scheme \<Rightarrow> 'z cons_scheme) list \<Rightarrow> 'z cons_scheme \<Rightarrow>
    ('z cons_scheme, (int \<times> u8 list) \<times> 'z cons_scheme) kres" where
  "consoleread ip n envs s =
     bindR (iunlock ip s) (\<lambda>s.
     bindR (acquire L_cons s) (\<lambda>s.
     bindR (consoleread_loop (nat n) (nat n) envs [] s) (\<lambda>((left, bytes), s).
     bindR (release L_cons s) (\<lambda>s.
     bindR (ilock ip s) (\<lambda>s.
     case left of
       None \<Rightarrow> Inr ((-1, bytes), s)
     | Some k \<Rightarrow> Inr ((int (nat n) - int k, bytes), s))))))"

definition consolewrite :: "nat \<Rightarrow> u8 list \<Rightarrow> 'z cons_scheme \<Rightarrow> ('z cons_scheme, int \<times> 'z cons_scheme) kres" where
  "consolewrite ip buf' s =
     bindR (iunlock ip s) (\<lambda>s.
     bindR (acquire L_cons s) (\<lambda>s.
     bindR (consputs buf' s) (\<lambda>s.
     bindR (release L_cons s) (\<lambda>s.
     bindR (ilock ip s) (\<lambda>s.
     Inr (int (length buf'), s))))))"

text \<open>The interrupt controller is not part of the state.\<close>

definition consoleinit :: "'z cons_scheme \<Rightarrow> 'z cons_scheme" where
  "consoleinit s = (initlock L_cons s)\<lparr>cons_dev := True, cons_locking := True\<rparr>"

subsection \<open>Keyboard and serial line\<close>

definition shiftcode :: "u8 list" where
  "shiftcode =
    [0, 0, 0, 0, 0, 0, 0, 0, 0, 0, 0, 0, 0, 0, 0, 0,
     0, 0, 0, 0, 0, 0, 0, 0, 0, 0, 0, 0, 0, 2, 0, 0,
     0, 0, 0, 0, 0, 0, 0, 0, 0, 0, 1, 0, 0, 0, 0, 0,
     0, 0, 0, 0, 0, 0, 1, 0, 4, 0, 0, 0, 0, 0, 0, 0,
     0, 0, 0, 0, 0, 0, 0, 0, 0, 0, 0, 0, 0, 0, 0, 0,
     0, 0, 0, 0, 0, 0, 0, 0, 0, 0, 0, 0, 0, 0, 0, 0,
     0, 0, 0, 0, 0, 0, 0, 0, 0, 0, 0, 0, 0, 0, 0, 0,
     0, 0, 0, 0, 0, 0, 0, 0, 0, 0, 0, 0, 0, 0, 0, 0,
     0, 0, 0, 0, 0, 0, 0, 0, 0, 0, 0, 0, 0, 0, 0, 0,
     0, 0, 0, 0, 0, 0, 0, 0, 0, 0, 0, 0, 0, 2, 0, 0,
     0, 0, 0, 0, 0, 0, 0, 0, 0, 0, 0, 0, 0, 0, 0, 0,
     0, 0, 0, 0, 0, 0, 0, 0, 4, 0, 0, 0, 0, 0, 0, 0,
     0, 0, 0, 0, 0, 0, 0, 0, 0, 0, 0, 0, 0, 0, 0, 0,
     0, 0, 0, 0, 0, 0, 0, 0, 0, 0, 0, 0, 0, 0, 0, 0,
     0, 0, 0, 0, 0, 0, 0, 0, 0, 0, 0, 0, 0, 0, 0, 0,
     0, 0, 0, 0, 0, 0, 0, 0, 0, 0, 0, 0, 0, 0, 0, 0]"

definition togglecode :: "u8 list" where
  "togglecode =
    [0, 0, 0, 0, 0, 0, 0, 0, 0, 0, 0, 0, 0, 0, 0, 0,
     0, 0, 0, 0, 0, 0, 0, 0, 0, 0, 0, 0, 0, 0, 0, 0,
     0, 0, 0, 0, 0, 0, 0, 0, 0, 0, 0, 0, 0, 0, 0, 0,
     0, 0, 0, 0, 0, 0, 0, 0, 0, 0, 8, 0, 0, 0, 0, 0,
     0, 0, 0, 0, 0, 16, 32, 0, 0, 0, 0, 0, 0, 0, 0, 0,
     0, 0, 0, 0, 0, 0, 0, 0, 0, 0, 0, 0, 0, 0, 0, 0,
     0, 0, 0, 0, 0, 0, 0, 0, 0, 0, 0, 0, 0, 0, 0, 0,
     0, 0, 0, 0, 0, 0, 0, 0, 0, 0, 0, 0, 0, 0, 0, 0,
     0, 0, 0, 0, 0, 0, 0, 0, 0, 0, 0, 0, 0, 0, 0, 0,
     0, 0, 0, 0, 0, 0, 0, 0, 0, 0, 0, 0, 0, 0, 0, 0,
     0, 0, 0, 0, 0, 0, 0, 0, 0, 0, 0, 0, 0, 0, 0, 0,
     0, 0, 0, 0, 0, 0, 0, 0, 0, 0, 0, 0, 0, 0, 0, 0,
     0, 0, 0, 0, 0, 0, 0, 0, 0, 0, 0, 0, 0, 0, 0, 0,
     0, 0, 0, 0, 0, 0, 0, 0, 0, 0, 0, 0, 0, 0, 0, 0,
     0, 0, 0, 0, 0, 0, 0, 0, 0, 0, 0, 0, 0, 0, 0, 0,
     0, 0, 0, 0, 0, 0, 0, 0, 0, 0, 0, 0, 0, 0, 0, 0]"

definition normalmap :: "u8 list" where
  "normalmap =
    [0, 27, 49, 50, 51, 52, 53, 54, 55, 56, 57, 48, 45, 61, 8, 9,
     113, 119, 101, 114, 116, 121, 117, 105, 111, 112, 91, 93, 10, 0, 97, 115,
     100, 102, 103, 104, 106, 107, 108, 59, 39, 96, 0, 92, 122, 120, 99, 118,
     98, 110, 109, 44, 46, 47, 0, 42, 0, 32, 0, 0, 0, 0, 0, 0,
     0, 0, 0, 0, 0, 0, 0, 55, 56, 57, 45, 52, 53, 54, 43, 49,
     50, 51, 48, 46, 0, 0, 0, 0, 0, 0, 0, 0, 0, 0, 0, 0,
     0, 0, 0, 0, 0, 0, 0, 0, 0, 0, 0, 0, 0, 0, 0, 0,
     0, 0, 0, 0, 0, 0, 0, 0, 0, 0, 0, 0, 0, 0, 0, 0,
     0, 0, 0, 0, 0, 0, 0, 0, 0, 0, 0, 0, 0, 0, 0, 0,
     0, 0, 0, 0, 0, 0, 0, 224, 0, 0, 0, 0, 10, 0, 0, 0,
     0, 0, 0, 0, 0, 0, 0, 0, 0, 0, 0, 0, 0, 0, 0, 0,
     0, 0, 0, 0, 0, 47, 0, 0, 0, 0, 0, 0, 0, 0, 0, 0,
     0, 0, 0, 0, 0, 0, 0, 0, 226, 230, 0, 228, 0, 229, 0, 225,
     227, 231, 232, 233, 0, 0, 0, 0, 0, 0, 0, 0, 0, 0, 0, 0,
     0, 0, 0, 0, 0, 0, 0, 0, 0, 0, 0, 0, 0, 0, 0, 0,
     0, 0, 0, 0, 0, 0, 0, 0, 0, 0, 0, 0, 0, 0, 0, 0]"

definition shiftmap :: "u8 list" where
  "shiftmap =
    [0, 27, 33, 64, 35, 36, 37, 94, 38, 42, 40, 41, 95, 43, 8, 9,
     81, 87, 69, 82, 84, 89, 85, 73, 79, 80, 123, 125, 10, 0, 65, 83,
     68, 70, 71, 72, 74, 75, 76, 58, 34, 126, 0, 124, 90, 88, 67, 86,
     66, 78, 77, 60, 62, 63, 0, 42, 0, 32, 0, 0, 0, 0, 0, 0,
     0, 0, 0, 0, 0, 0, 0, 55, 56, 57, 45, 52, 53, 54, 43, 49,
     50, 51, 48, 46, 0, 0, 0, 0, 0, 0, 0, 0, 0, 0, 0, 0,
     0, 0, 0, 0, 0, 0, 0, 0, 0, 0, 0, 0, 0, 0, 0, 0,
     0, 0, 0, 0, 0, 0, 0, 0, 0, 0, 0, 0, 0, 0, 0, 0,
     0, 0, 0, 0, 0, 0, 0, 0, 0, 0, 0, 0, 0, 0, 0, 0,
     0, 0, 0, 0, 0, 0, 0, 224, 0, 0, 0, 0, 10, 0, 0, 0,
     0, 0, 0, 0, 0, 0, 0, 0, 0, 0, 0, 0, 0, 0, 0, 0,
     0, 0, 0, 0, 0, 47, 0, 0, 0, 0, 0, 0, 0, 0, 0, 0,
     0, 0, 0, 0, 0, 0, 0, 0, 226, 230, 0, 228, 0, 229, 0, 225,
     227, 231, 232, 233, 0, 0, 0, 0, 0, 0, 0, 0, 0, 0, 0, 0,
     0, 0, 0, 0, 0, 0, 0, 0, 0, 0, 0, 0, 0, 0, 0, 0,
     0, 0, 0, 0, 0, 0, 0, 0, 0, 0, 0, 0, 0, 0, 0, 0]"

definition ctlmap :: "u8 list" where
  "ctlmap =
    [0, 0, 0, 0, 0, 0, 0, 0, 0, 0, 0, 0, 0, 0, 0, 0,
     17, 23, 5, 18, 20, 25, 21, 9, 15, 16, 0, 0, 13, 0, 1, 19,
     4, 6, 7, 8, 10, 11, 12, 0, 0, 0, 0, 28, 26, 24, 3, 22,
     2, 14, 13, 0, 0, 239, 0, 0, 0, 0, 0, 0, 0, 0, 0, 0,
     0, 0, 0, 0, 0, 0, 0, 0, 0, 0, 0, 0, 0, 0, 0, 0,
     0, 0, 0, 0, 0, 0, 0, 0, 0, 0, 0, 0, 0, 0, 0, 0,
     0, 0, 0, 0, 0, 0, 0, 0, 0, 0, 0, 0, 0, 0, 0, 0,
     0, 0, 0, 0, 0, 0, 0, 0, 0, 0, 0, 0, 0, 0, 0, 0,
     0, 0, 0, 0, 0, 0, 0, 0, 0, 0, 0, 0, 0, 0, 0, 0,
     0, 0, 0, 0, 0, 0, 0, 224, 0, 0, 0, 0, 13, 0, 0, 0,
     0, 0, 0, 0, 0, 0, 0, 0, 0, 0, 0, 0, 0, 0, 0, 0,
     0, 0, 0, 0, 0, 239, 0, 0, 0, 0, 0, 0, 0, 0, 0, 0,
     0, 0, 0, 0, 0, 0, 0, 0, 226, 230, 0, 228, 0, 229, 0, 225,
     227, 231, 232, 233, 0, 0, 0, 0, 0, 0, 0, 0, 0, 0, 0, 0,
     0, 0, 0, 0, 0, 0, 0, 0, 0, 0, 0, 0, 0, 0, 0, 0,
     0, 0, 0, 0, 0, 0, 0, 0, 0, 0, 0, 0, 0, 0, 0, 0]"

text \<open>
  \<open>kbdgetc\<close> on a byte from the keyboard: the character (0 for none) and the new state of the
  shift keys. With no byte ready it returns -1.
\<close>

definition kbd_decode :: "u8 \<Rightarrow> u32 \<Rightarrow> u32 \<times> u32" where
  "kbd_decode data shift =
     (if data = 0xE0 then (0, shift OR 64)
      else if data AND 0x80 \<noteq> 0 then
        let data = (if shift AND 64 \<noteq> 0 then data else data AND 0x7F)
        in (0, shift AND NOT (ucast (shiftcode ! unat data) OR 64))
      else
        let (data, shift) = (if shift AND 64 \<noteq> 0 then (data OR 0x80, shift AND NOT 64) else (data, shift));
            shift = shift OR ucast (shiftcode ! unat data);
            shift = shift XOR ucast (togglecode ! unat data);
            charcode = [normalmap, shiftmap, ctlmap, ctlmap] ! unat (shift AND 3);
            c = ucast (charcode ! unat data)
        in (if shift AND 8 \<noteq> 0 then
              if 97 \<le> c \<and> c \<le> 122 then c - 32
              else if 65 \<le> c \<and> c \<le> 90 then c + 32
              else c
            else c, shift))"

fun kbd_chars :: "u8 list \<Rightarrow> u32 \<Rightarrow> u32 list \<times> u32" where
  "kbd_chars [] shift = ([], shift)"
| "kbd_chars (d # ds) shift =
     (let (c, shift) = kbd_decode d shift; (cs, shift) = kbd_chars ds shift in (c # cs, shift))"

definition kbdintr :: "u8 list \<Rightarrow> 'z cons_scheme \<Rightarrow> ('z cons_scheme, 'z cons_scheme) kres" where
  "kbdintr ds s =
     (let (cs, shift) = kbd_chars ds (kbd_shift s) in consoleintr cs (s\<lparr>kbd_shift := shift\<rparr>))"

definition uartintr :: "u8 list \<Rightarrow> 'z cons_scheme \<Rightarrow> ('z cons_scheme, 'z cons_scheme) kres" where
  "uartintr ds s = consoleintr (if uart s then map ucast ds else []) s"

section \<open>Critical sections and the fields of \<open>cons\<close>\<close>

lemma acquired_cons [simp]:
  "cons_locking (acquired lk s) = cons_locking s"
  "panicked (acquired lk s) = panicked s"
  "cons_dev (acquired lk s) = cons_dev s"
  "crt (acquired lk s) = crt s"
  "crt_pos (acquired lk s) = crt_pos s"
  "uart (acquired lk s) = uart s"
  "uart_out (acquired lk s) = uart_out s"
  "input_buf (acquired lk s) = input_buf s"
  "input_r (acquired lk s) = input_r s"
  "input_w (acquired lk s) = input_w s"
  "input_e (acquired lk s) = input_e s"
  "kbd_shift (acquired lk s) = kbd_shift s"
  by (simp_all add: acquired_def pushed_def)

lemma acquired_upd_cons [simp]:
  "(acquired lk s)\<lparr>cons_locking := x_cons_locking\<rparr> = acquired lk (s\<lparr>cons_locking := x_cons_locking\<rparr>)"
  "(acquired lk s)\<lparr>panicked := x_panicked\<rparr> = acquired lk (s\<lparr>panicked := x_panicked\<rparr>)"
  "(acquired lk s)\<lparr>cons_dev := x_cons_dev\<rparr> = acquired lk (s\<lparr>cons_dev := x_cons_dev\<rparr>)"
  "(acquired lk s)\<lparr>crt := x_crt\<rparr> = acquired lk (s\<lparr>crt := x_crt\<rparr>)"
  "(acquired lk s)\<lparr>crt_pos := x_crt_pos\<rparr> = acquired lk (s\<lparr>crt_pos := x_crt_pos\<rparr>)"
  "(acquired lk s)\<lparr>uart := x_uart\<rparr> = acquired lk (s\<lparr>uart := x_uart\<rparr>)"
  "(acquired lk s)\<lparr>uart_out := x_uart_out\<rparr> = acquired lk (s\<lparr>uart_out := x_uart_out\<rparr>)"
  "(acquired lk s)\<lparr>input_buf := x_input_buf\<rparr> = acquired lk (s\<lparr>input_buf := x_input_buf\<rparr>)"
  "(acquired lk s)\<lparr>input_r := x_input_r\<rparr> = acquired lk (s\<lparr>input_r := x_input_r\<rparr>)"
  "(acquired lk s)\<lparr>input_w := x_input_w\<rparr> = acquired lk (s\<lparr>input_w := x_input_w\<rparr>)"
  "(acquired lk s)\<lparr>input_e := x_input_e\<rparr> = acquired lk (s\<lparr>input_e := x_input_e\<rparr>)"
  "(acquired lk s)\<lparr>kbd_shift := x_kbd_shift\<rparr> = acquired lk (s\<lparr>kbd_shift := x_kbd_shift\<rparr>)"
  by (cases s, simp add: acquired_def pushed_def this_cpu_def cong: option.case_cong)+

lemma calm_cons [simp]:
  "calm (s\<lparr>cons_locking := x_cons_locking\<rparr>) = calm s"
  "calm (s\<lparr>panicked := x_panicked\<rparr>) = calm s"
  "calm (s\<lparr>cons_dev := x_cons_dev\<rparr>) = calm s"
  "calm (s\<lparr>crt := x_crt\<rparr>) = calm s"
  "calm (s\<lparr>crt_pos := x_crt_pos\<rparr>) = calm s"
  "calm (s\<lparr>uart := x_uart\<rparr>) = calm s"
  "calm (s\<lparr>uart_out := x_uart_out\<rparr>) = calm s"
  "calm (s\<lparr>input_buf := x_input_buf\<rparr>) = calm s"
  "calm (s\<lparr>input_r := x_input_r\<rparr>) = calm s"
  "calm (s\<lparr>input_w := x_input_w\<rparr>) = calm s"
  "calm (s\<lparr>input_e := x_input_e\<rparr>) = calm s"
  "calm (s\<lparr>kbd_shift := x_kbd_shift\<rparr>) = calm s"
  by (rule calm_same, simp add: mach_same_def)+

lemma cur_cons [simp]:
  "cur (s\<lparr>cons_locking := x_cons_locking\<rparr>) = cur s"
  "cur (s\<lparr>panicked := x_panicked\<rparr>) = cur s"
  "cur (s\<lparr>cons_dev := x_cons_dev\<rparr>) = cur s"
  "cur (s\<lparr>crt := x_crt\<rparr>) = cur s"
  "cur (s\<lparr>crt_pos := x_crt_pos\<rparr>) = cur s"
  "cur (s\<lparr>uart := x_uart\<rparr>) = cur s"
  "cur (s\<lparr>uart_out := x_uart_out\<rparr>) = cur s"
  "cur (s\<lparr>input_buf := x_input_buf\<rparr>) = cur s"
  "cur (s\<lparr>input_r := x_input_r\<rparr>) = cur s"
  "cur (s\<lparr>input_w := x_input_w\<rparr>) = cur s"
  "cur (s\<lparr>input_e := x_input_e\<rparr>) = cur s"
  "cur (s\<lparr>kbd_shift := x_kbd_shift\<rparr>) = cur s"
  by (rule cur_same, simp add: mach_same_def)+

lemma lock_free_cons [simp]:
  "lock_free lk (s\<lparr>cons_locking := x_cons_locking\<rparr>) = lock_free lk s"
  "lock_free lk (s\<lparr>panicked := x_panicked\<rparr>) = lock_free lk s"
  "lock_free lk (s\<lparr>cons_dev := x_cons_dev\<rparr>) = lock_free lk s"
  "lock_free lk (s\<lparr>crt := x_crt\<rparr>) = lock_free lk s"
  "lock_free lk (s\<lparr>crt_pos := x_crt_pos\<rparr>) = lock_free lk s"
  "lock_free lk (s\<lparr>uart := x_uart\<rparr>) = lock_free lk s"
  "lock_free lk (s\<lparr>uart_out := x_uart_out\<rparr>) = lock_free lk s"
  "lock_free lk (s\<lparr>input_buf := x_input_buf\<rparr>) = lock_free lk s"
  "lock_free lk (s\<lparr>input_r := x_input_r\<rparr>) = lock_free lk s"
  "lock_free lk (s\<lparr>input_w := x_input_w\<rparr>) = lock_free lk s"
  "lock_free lk (s\<lparr>input_e := x_input_e\<rparr>) = lock_free lk s"
  "lock_free lk (s\<lparr>kbd_shift := x_kbd_shift\<rparr>) = lock_free lk s"
  by (simp_all add: lock_free_def)

end
