(* ===== verification/Fs.thy ===== *)
theory Fs
  imports Console
begin

unbundle bit_operations_syntax

text \<open>
  The upper half of \<open>fs.c\<close>: reading and writing the contents of inodes, directories, and path
  names. The only device is the console. A buffer that \<open>readi\<close> fills is modelled by the bytes
  stored in it; \<open>writei\<close> takes the bytes to write. Path names and names in directories are
  C strings, given without their terminating NUL.
\<close>

section \<open>Definitions\<close>

abbreviation (input) MAXFILE :: nat where "MAXFILE \<equiv> 140"
abbreviation (input) DIRSIZ :: nat where "DIRSIZ \<equiv> 14"
abbreviation (input) CONSOLE :: u16 where "CONSOLE \<equiv> 1"
abbreviation (input) NDEV :: int where "NDEV \<equiv> 10"

record stat =
  st_type :: u16
  st_dev :: u32
  st_ino :: u32
  st_nlink :: u16
  st_size :: u32

definition stati :: "nat \<Rightarrow> 'z icache_scheme \<Rightarrow> stat" where
  "stati ip s = \<lparr>st_type = i_type (inode_at s ip), st_dev = i_dev (inode_at s ip), st_ino = i_inum (inode_at s ip),
     st_nlink = i_nlink (inode_at s ip), st_size = i_size (inode_at s ip)\<rparr>"

text \<open>A device number that has a driver: in range and in the table.\<close>

definition has_driver :: "nat \<Rightarrow> 'z cons_scheme \<Rightarrow> bool" where
  "has_driver ip s \<longleftrightarrow> \<not> (sint (i_major (inode_at s ip)) < 0 \<or> sint (i_major (inode_at s ip)) \<ge> NDEV) \<and>
     i_major (inode_at s ip) = CONSOLE \<and> cons_dev s"

text \<open>The loop of \<open>readi\<close>: \<open>n\<close> bytes are left, from offset \<open>off\<close> on.\<close>

function readi_loop :: "nat \<Rightarrow> nat \<Rightarrow> nat \<Rightarrow> u8 list \<Rightarrow> 'z icache_scheme \<Rightarrow> ('z icache_scheme, u8 list \<times> 'z icache_scheme) kres" where
  "readi_loop ip off n acc s =
     (if n = 0 then Inr (acc, s)
      else
        bindR (bmap ip (off div BSIZE) s) (\<lambda>(addr, s).
        bindR (bread (i_dev (inode_at s ip)) addr s) (\<lambda>(bp, s).
        let m = min n (BSIZE - off mod BSIZE);
            chunk = take m (drop (off mod BSIZE) (b_data (buf_at s bp)))
        in bindR (brelse bp s) (\<lambda>s.
           readi_loop ip (off + m) (n - m) (acc @ chunk) s))))"
  by pat_completeness auto
termination
  by (relation "measure (\<lambda>(ip, off, n, acc, s). n)") auto

declare readi_loop.simps [simp del]

definition readi :: "nat \<Rightarrow> u32 \<Rightarrow> u32 \<Rightarrow> ('z cons_scheme \<Rightarrow> 'z cons_scheme) list \<Rightarrow> 'z cons_scheme \<Rightarrow>
    ('z cons_scheme, (int \<times> u8 list) \<times> 'z cons_scheme) kres" where
  "readi ip off n envs s =
     (if i_type (inode_at s ip) = T_DEV then
        if \<not> has_driver ip s then Inr ((-1, []), s)
        else consoleread ip (sint n) envs s
      else if off > i_size (inode_at s ip) \<or> off + n < off then Inr ((-1, []), s)
      else
        let n = (if off + n > i_size (inode_at s ip) then i_size (inode_at s ip) - off else n)
        in bindR (readi_loop ip (unat off) (unat n) [] s) (\<lambda>(bytes, s). Inr ((sint n, bytes), s)))"

function writei_loop :: "nat \<Rightarrow> nat \<Rightarrow> u8 list \<Rightarrow> 'z icache_scheme \<Rightarrow> ('z icache_scheme, 'z icache_scheme) kres" where
  "writei_loop ip off src s =
     (if src = [] then Inr s
      else
        bindR (bmap ip (off div BSIZE) s) (\<lambda>(addr, s).
        bindR (bread (i_dev (inode_at s ip)) addr s) (\<lambda>(bp, s).
        let m = min (length src) (BSIZE - off mod BSIZE);
            s = upd_buf bp (\<lambda>x. x\<lparr>b_data := put_bytes (off mod BSIZE) (take m src) (b_data x)\<rparr>) s
        in bindR (log_write bp s) (\<lambda>s.
           bindR (brelse bp s) (\<lambda>s.
           writei_loop ip (off + m) (drop m src) s)))))"
  by pat_completeness auto
termination
  by (relation "measure (\<lambda>(ip, off, src, s). length src)") auto

declare writei_loop.simps [simp del]

definition writei :: "nat \<Rightarrow> u8 list \<Rightarrow> u32 \<Rightarrow> 'z cons_scheme \<Rightarrow> ('z cons_scheme, int \<times> 'z cons_scheme) kres" where
  "writei ip src off s =
     (let n = of_nat (length src) :: u32
      in if i_type (inode_at s ip) = T_DEV then
           if \<not> has_driver ip s then Inr (-1, s) else consolewrite ip src s
         else if off > i_size (inode_at s ip) \<or> off + n < off then Inr (-1, s)
         else if off + n > of_nat (MAXFILE * BSIZE) then Inr (-1, s)
         else
           bindR (writei_loop ip (unat off) src s) (\<lambda>s.
           bindR (if n > 0 \<and> off + n > i_size (inode_at s ip)
                  then iupdate ip (upd_inode ip (\<lambda>x. x\<lparr>i_size := off + n\<rparr>) s)
                  else Inr s) (\<lambda>s.
           Inr (sint n, s))))"

subsection \<open>Directories\<close>

text \<open>\<open>strncmp\<close> on strings given as lists: past the end a string reads as NUL.\<close>

fun strncmp_l :: "nat \<Rightarrow> u8 list \<Rightarrow> u8 list \<Rightarrow> int" where
  "strncmp_l 0 p q = 0"
| "strncmp_l (Suc n) p q =
     (let x = (case p of [] \<Rightarrow> 0 | c # _ \<Rightarrow> c); y = (case q of [] \<Rightarrow> 0 | c # _ \<Rightarrow> c)
      in if x \<noteq> 0 \<and> x = y then strncmp_l n (tl p) (tl q) else uint x - uint y)"

definition namecmp :: "u8 list \<Rightarrow> u8 list \<Rightarrow> int" where
  "namecmp p q = strncmp_l DIRSIZ p q"

text \<open>The offsets of the entries of a directory of \<open>n\<close> bytes.\<close>

definition dirent_offs :: "u32 \<Rightarrow> nat list" where
  "dirent_offs n = map ((*) 16) [0..<(unat n + 15) div 16]"

fun dirlookup_loop :: "nat list \<Rightarrow> nat \<Rightarrow> u8 list \<Rightarrow> 'z cons_scheme \<Rightarrow>
    ('z cons_scheme, (nat \<times> u32) option \<times> 'z cons_scheme) kres" where
  "dirlookup_loop [] dp name s = Inr (None, s)"
| "dirlookup_loop (off # offs) dp name s =
     bindR (readi dp (of_nat off) 16 [] s) (\<lambda>((r, de), s).
     if r \<noteq> 16 then Inl (Panic ''dirlookup read'')
     else if get16 de 0 = 0 then dirlookup_loop offs dp name s
     else if namecmp name (drop 2 de) = 0 then
       bindR (iget (i_dev (inode_at s dp)) (ucast (get16 de 0)) s) (\<lambda>(ip, s).
       Inr (Some (ip, of_nat off), s))
     else dirlookup_loop offs dp name s)"

definition dirlookup :: "nat \<Rightarrow> u8 list \<Rightarrow> 'z cons_scheme \<Rightarrow>
    ('z cons_scheme, (nat \<times> u32) option \<times> 'z cons_scheme) kres" where
  "dirlookup dp name s =
     (if i_type (inode_at s dp) \<noteq> T_DIR then Inl (Panic ''dirlookup not DIR'')
      else dirlookup_loop (dirent_offs (i_size (inode_at s dp))) dp name s)"

text \<open>The offset of the first empty entry, or the end of the directory.\<close>

fun dirlink_slot :: "nat list \<Rightarrow> nat \<Rightarrow> nat \<Rightarrow> 'z cons_scheme \<Rightarrow> ('z cons_scheme, nat \<times> 'z cons_scheme) kres" where
  "dirlink_slot [] end' dp s = Inr (end', s)"
| "dirlink_slot (off # offs) end' dp s =
     bindR (readi dp (of_nat off) 16 [] s) (\<lambda>((r, de), s).
     if r \<noteq> 16 then Inl (Panic ''dirlink read'')
     else if get16 de 0 = 0 then Inr (off, s)
     else dirlink_slot offs end' dp s)"

text \<open>A directory entry: number and name, the name cut or filled up with NUL to DIRSIZ bytes.\<close>

definition dirent_bytes :: "u8 list \<Rightarrow> u32 \<Rightarrow> u8 list" where
  "dirent_bytes name inum = [ucast inum, ucast (drop_bit 8 inum)] @ take DIRSIZ (name @ replicate DIRSIZ 0)"

definition dirlink :: "nat \<Rightarrow> u8 list \<Rightarrow> u32 \<Rightarrow> 'z cons_scheme \<Rightarrow> ('z cons_scheme, int \<times> 'z cons_scheme) kres" where
  "dirlink dp name inum s =
     bindR (dirlookup dp name s) (\<lambda>(r, s).
     case r of
       Some (ip, _) \<Rightarrow> bindR (iput ip s) (\<lambda>s. Inr (-1, s))
     | None \<Rightarrow>
         let offs = dirent_offs (i_size (inode_at s dp))
         in bindR (dirlink_slot offs (16 * length offs) dp s) (\<lambda>(off, s).
            bindR (writei dp (dirent_bytes name inum) (of_nat off) s) (\<lambda>(r, s).
            if r \<noteq> 16 then Inl (Panic ''dirlink'') else Inr (0, s))))"

subsection \<open>Paths\<close>

text \<open>The next element of a path and the rest after its slashes; None if there is no element.\<close>

definition skipelem :: "u8 list \<Rightarrow> (u8 list \<times> u8 list) option" where
  "skipelem path =
     (let path = dropWhile (\<lambda>c. c = 47) path
      in if path = [] then None
         else
           let name = takeWhile (\<lambda>c. c \<noteq> 47) path;
               path = dropWhile (\<lambda>c. c \<noteq> 47) path
           in Some (take DIRSIZ name, dropWhile (\<lambda>c. c = 47) path))"

lemma skipelem_shorter: "skipelem path = Some (name, rest) \<Longrightarrow> length rest < length path"
proof -
  assume a: "skipelem path = Some (name, rest)"
  let ?p = "dropWhile (\<lambda>c. c = 47) path"
  have p: "?p \<noteq> []" and r: "rest = dropWhile (\<lambda>c. c = 47) (dropWhile (\<lambda>c. c \<noteq> 47) ?p)"
    using a by (auto simp: skipelem_def Let_def split: if_splits)
  have "hd ?p \<noteq> 47" using p hd_dropWhile by blast
  then have "length (dropWhile (\<lambda>c. c \<noteq> 47) ?p) < length ?p"
    using p by (cases ?p) (auto intro: le_imp_less_Suc length_dropWhile_le)
  then show ?thesis
    unfolding r using length_dropWhile_le [of "\<lambda>c. c = 47" path]
      length_dropWhile_le [of "\<lambda>c. c = 47" "dropWhile (\<lambda>c. c \<noteq> 47) ?p"] by linarith
qed

text \<open>
  The loop of \<open>namex\<close> from inode \<open>ip\<close> on. The result is the inode found, or None; with
  \<open>parent\<close> also the last element of the path.
\<close>

function namex_loop :: "nat \<Rightarrow> u8 list \<Rightarrow> bool \<Rightarrow> u8 list \<Rightarrow> 'z cons_scheme \<Rightarrow>
    ('z cons_scheme, (nat \<times> u8 list) option \<times> 'z cons_scheme) kres" where
  "namex_loop ip path nameip name0 s =
     (case skipelem path of
        None \<Rightarrow> if nameip then bindR (iput ip s) (\<lambda>s. Inr (None, s)) else Inr (Some (ip, name0), s)
      | Some (name, path) \<Rightarrow>
          bindR (ilock ip s) (\<lambda>s.
          if i_type (inode_at s ip) \<noteq> T_DIR then bindR (iunlockput ip s) (\<lambda>s. Inr (None, s))
          else if nameip \<and> path = [] then bindR (iunlock ip s) (\<lambda>s. Inr (Some (ip, name), s))
          else bindR (dirlookup ip name s) (\<lambda>(r, s).
            case r of
              None \<Rightarrow> bindR (iunlockput ip s) (\<lambda>s. Inr (None, s))
            | Some (next, _) \<Rightarrow> bindR (iunlockput ip s) (\<lambda>s. namex_loop next path nameip name s))))"
  by pat_completeness auto
termination
  by (relation "measure (\<lambda>(ip, path, nameip, name, s). length path)") (auto dest: skipelem_shorter)

declare namex_loop.simps [simp del]

definition namex :: "u8 list \<Rightarrow> bool \<Rightarrow> 'z cons_scheme \<Rightarrow> ('z cons_scheme, (nat \<times> u8 list) option \<times> 'z cons_scheme) kres" where
  "namex path nameip s =
     bindR (if path \<noteq> [] \<and> hd path = 47 then iget ROOTDEV ROOTINO s
            else bindR (curproc s) (\<lambda>(p, s).
              case cwd (proc_at s p) of None \<Rightarrow> Inl (Panic ''trap'') | Some i \<Rightarrow> idup i s)) (\<lambda>(ip, s).
     namex_loop ip path nameip [] s)"

definition namei :: "u8 list \<Rightarrow> 'z cons_scheme \<Rightarrow> ('z cons_scheme, nat option \<times> 'z cons_scheme) kres" where
  "namei path s = bindR (namex path False s) (\<lambda>(r, s). Inr (map_option fst r, s))"

definition nameiparent :: "u8 list \<Rightarrow> 'z cons_scheme \<Rightarrow> ('z cons_scheme, (nat \<times> u8 list) option \<times> 'z cons_scheme) kres" where
  "nameiparent path s = namex path True s"

end
