(* ===== verification/Pipe.thy ===== *)
theory Pipe
  imports Fs
begin

text \<open>
  Pipes, \<open>pipe.c\<close>. A pipe lives at the start of a page; it is named by the address of that
  page, and \<open>pipes\<close> gives its fields. \<open>nread\<close> and \<open>nwrite\<close> count bytes and wrap around;
  a byte is kept at its count modulo PIPESIZE. \<open>pipealloc\<close>, which also takes two entries of
  the file table, is in theory \<open>File\<close>.
\<close>

section \<open>Definitions\<close>

record pipe =
  p_data :: "u8 list"
  nread :: u32
  nwrite :: u32
  readopen :: bool
  writeopen :: bool

record pipest = cons +
  pipes :: "u32 \<Rightarrow> pipe"

abbreviation (input) PIPESIZE :: u32 where "PIPESIZE \<equiv> 512"

definition upd_pipe :: "u32 \<Rightarrow> (pipe \<Rightarrow> pipe) \<Rightarrow> 'z pipest_scheme \<Rightarrow> 'z pipest_scheme" where
  "upd_pipe p f s = s\<lparr>pipes := (pipes s)(p := f (pipes s p))\<rparr>"

definition pipeclose :: "u32 \<Rightarrow> bool \<Rightarrow> 'z pipest_scheme \<Rightarrow> ('z pipest_scheme, 'z pipest_scheme) kres" where
  "pipeclose p writable s =
     bindR (acquire (L_pipe p) s) (\<lambda>s.
     bindR (if writable then wakeup (Ch_nread p) (upd_pipe p (\<lambda>x. x\<lparr>writeopen := False\<rparr>) s)
            else wakeup (Ch_nwrite p) (upd_pipe p (\<lambda>x. x\<lparr>readopen := False\<rparr>) s)) (\<lambda>s.
     if \<not> readopen (pipes s p) \<and> \<not> writeopen (pipes s p)
     then bindR (release (L_pipe p) s) (\<lambda>s. kfree p s)
     else release (L_pipe p) s))"

definition pipe_put :: "u8 \<Rightarrow> pipe \<Rightarrow> pipe" where
  "pipe_put c x = x\<lparr>p_data := (p_data x)[unat (nwrite x mod PIPESIZE) := c], nwrite := nwrite x + 1\<rparr>"

definition pipe_get :: "pipe \<Rightarrow> u8 \<times> pipe" where
  "pipe_get x = (p_data x ! unat (nread x mod PIPESIZE), x\<lparr>nread := nread x + 1\<rparr>)"

text \<open>
  The loop of \<open>pipewrite\<close> on the bytes still to be written; the flag tells whether it was left
  by the early return.
\<close>

function pipewrite_loop :: "u32 \<Rightarrow> u8 list \<Rightarrow> ('z pipest_scheme \<Rightarrow> 'z pipest_scheme) list \<Rightarrow> 'z pipest_scheme \<Rightarrow>
    ('z pipest_scheme, bool \<times> 'z pipest_scheme) kres" where
  "pipewrite_loop p bytes envs s =
     (case bytes of
        [] \<Rightarrow> Inr (True, s)
      | c # cs \<Rightarrow>
          if nwrite (pipes s p) = nread (pipes s p) + PIPESIZE then
            bindR (if \<not> readopen (pipes s p) then Inr (True, s)
                   else bindR (curproc s) (\<lambda>(cp, s). Inr (killed (proc_at s cp), s))) (\<lambda>(stop, s).
            if stop then Inr (False, s)
            else
              bindR (wakeup (Ch_nread p) s) (\<lambda>s.
              bindR (sleep_enter (Ch_nwrite p) (L_pipe p) s) (\<lambda>((q, fl), s).
              case envs of [] \<Rightarrow> Inl (Sleeping (Ch_nwrite p) s)
              | env # envs \<Rightarrow> bindR (sleep_leave q fl (L_pipe p) (env s)) (\<lambda>s. pipewrite_loop p bytes envs s))))
          else pipewrite_loop p cs envs (upd_pipe p (pipe_put c) s))"
  by pat_completeness auto
termination
  by (relation "measures [\<lambda>(p, bytes, envs, s). length bytes, \<lambda>(p, bytes, envs, s). length envs]") auto

declare pipewrite_loop.simps [simp del]

definition pipewrite :: "u32 \<Rightarrow> u8 list \<Rightarrow> ('z pipest_scheme \<Rightarrow> 'z pipest_scheme) list \<Rightarrow> 'z pipest_scheme \<Rightarrow>
    ('z pipest_scheme, int \<times> 'z pipest_scheme) kres" where
  "pipewrite p bytes envs s =
     bindR (acquire (L_pipe p) s) (\<lambda>s.
     bindR (pipewrite_loop p bytes envs s) (\<lambda>(ok, s).
     if \<not> ok then bindR (release (L_pipe p) s) (\<lambda>s. Inr (-1, s))
     else
       bindR (wakeup (Ch_nread p) s) (\<lambda>s.
       bindR (release (L_pipe p) s) (\<lambda>s.
       Inr (int (length bytes), s)))))"

text \<open>The wait of \<open>piperead\<close> for the first byte; False when the process was killed.\<close>

fun piperead_wait :: "u32 \<Rightarrow> ('z pipest_scheme \<Rightarrow> 'z pipest_scheme) list \<Rightarrow> 'z pipest_scheme \<Rightarrow>
    ('z pipest_scheme, bool \<times> 'z pipest_scheme) kres" where
  "piperead_wait p envs s =
     (if nread (pipes s p) = nwrite (pipes s p) \<and> writeopen (pipes s p) then
        bindR (curproc s) (\<lambda>(cp, s).
        if killed (proc_at s cp) then Inr (False, s)
        else bindR (sleep_enter (Ch_nread p) (L_pipe p) s) (\<lambda>((q, fl), s).
          case envs of [] \<Rightarrow> Inl (Sleeping (Ch_nread p) s)
          | env # envs \<Rightarrow> bindR (sleep_leave q fl (L_pipe p) (env s)) (\<lambda>s. piperead_wait p envs s)))
      else Inr (True, s))"

declare piperead_wait.simps [simp del]

fun piperead_copy :: "nat \<Rightarrow> pipe \<Rightarrow> u8 list \<times> pipe" where
  "piperead_copy 0 x = ([], x)"
| "piperead_copy (Suc n) x =
     (if nread x = nwrite x then ([], x)
      else let (c, x) = pipe_get x; (cs, x) = piperead_copy n x in (c # cs, x))"

definition piperead :: "u32 \<Rightarrow> int \<Rightarrow> ('z pipest_scheme \<Rightarrow> 'z pipest_scheme) list \<Rightarrow> 'z pipest_scheme \<Rightarrow>
    ('z pipest_scheme, (int \<times> u8 list) \<times> 'z pipest_scheme) kres" where
  "piperead p n envs s =
     bindR (acquire (L_pipe p) s) (\<lambda>s.
     bindR (piperead_wait p envs s) (\<lambda>(ok, s).
     if \<not> ok then bindR (release (L_pipe p) s) (\<lambda>s. Inr ((-1, []), s))
     else
       let (bytes, x) = piperead_copy (nat n) (pipes s p);
           s = upd_pipe p (\<lambda>_. x) s
       in bindR (wakeup (Ch_nwrite p) s) (\<lambda>s.
          bindR (release (L_pipe p) s) (\<lambda>s.
          Inr ((int (length bytes), bytes), s)))))"

section \<open>Critical sections and the fields of \<open>pipest\<close>\<close>

lemma acquired_pipest [simp]:
  "pipes (acquired lk s) = pipes s"
  by (simp_all add: acquired_def pushed_def)

lemma acquired_upd_pipest [simp]:
  "(acquired lk s)\<lparr>pipes := x_pipes\<rparr> = acquired lk (s\<lparr>pipes := x_pipes\<rparr>)"
  by (cases s, simp add: acquired_def pushed_def this_cpu_def cong: option.case_cong)+

lemma calm_pipest [simp]:
  "calm (s\<lparr>pipes := x_pipes\<rparr>) = calm s"
  by (rule calm_same, simp add: mach_same_def)+

lemma cur_pipest [simp]:
  "cur (s\<lparr>pipes := x_pipes\<rparr>) = cur s"
  by (rule cur_same, simp add: mach_same_def)+

lemma lock_free_pipest [simp]:
  "lock_free lk (s\<lparr>pipes := x_pipes\<rparr>) = lock_free lk s"
  by (simp_all add: lock_free_def)

end
