(* ===== verification/File.thy ===== *)
theory File
  imports Pipe
begin

text \<open>
  Open files, \<open>file.c\<close>, and \<open>pipealloc\<close> of \<open>pipe.c\<close>. A file is named by its slot in
  \<open>ftable\<close>. A buffer that a read fills is modelled by the bytes stored in it.
\<close>

section \<open>Definitions\<close>

datatype fdtype = FD_NONE | FD_PIPE | FD_INODE

record kfile =
  f_type :: fdtype
  f_ref :: int
  f_readable :: bool
  f_writable :: bool
  f_pipe :: u32
  f_ip :: nat
  f_off :: u32

record files = pipest +
  ftable :: "kfile list"

abbreviation (input) NFILE :: nat where "NFILE \<equiv> 100"

abbreviation file_at :: "'z files_scheme \<Rightarrow> nat \<Rightarrow> kfile" where
  "file_at s f \<equiv> ftable s ! f"

definition upd_file :: "nat \<Rightarrow> (kfile \<Rightarrow> kfile) \<Rightarrow> 'z files_scheme \<Rightarrow> 'z files_scheme" where
  "upd_file f g s = s\<lparr>ftable := upd_nth f g (ftable s)\<rparr>"

definition fileinit :: "'z files_scheme \<Rightarrow> 'z files_scheme" where
  "fileinit s = initlock L_ftable s"

definition filealloc :: "'z files_scheme \<Rightarrow> ('z files_scheme, nat option \<times> 'z files_scheme) kres" where
  "filealloc s =
     bindR (acquire L_ftable s) (\<lambda>s.
     case find (\<lambda>f. f_ref (file_at s f) = 0) [0..<NFILE] of
       Some f \<Rightarrow> bindR (release L_ftable (upd_file f (\<lambda>x. x\<lparr>f_ref := 1\<rparr>) s)) (\<lambda>s. Inr (Some f, s))
     | None \<Rightarrow> bindR (release L_ftable s) (\<lambda>s. Inr (None, s)))"

definition filedup :: "nat \<Rightarrow> 'z files_scheme \<Rightarrow> ('z files_scheme, nat \<times> 'z files_scheme) kres" where
  "filedup f s =
     bindR (acquire L_ftable s) (\<lambda>s.
     if f_ref (file_at s f) < 1 then Inl (Panic ''filedup'')
     else bindR (release L_ftable (upd_file f (\<lambda>x. x\<lparr>f_ref := f_ref x + 1\<rparr>) s)) (\<lambda>s. Inr (f, s)))"

definition fileclose :: "nat \<Rightarrow> 'z files_scheme \<Rightarrow> ('z files_scheme, 'z files_scheme) kres" where
  "fileclose f s =
     bindR (acquire L_ftable s) (\<lambda>s.
     if f_ref (file_at s f) < 1 then Inl (Panic ''fileclose'')
     else
       let s = upd_file f (\<lambda>x. x\<lparr>f_ref := f_ref x - 1\<rparr>) s
       in if f_ref (file_at s f) > 0 then release L_ftable s
          else
            let ff = file_at s f;
                s = upd_file f (\<lambda>x. x\<lparr>f_ref := 0, f_type := FD_NONE\<rparr>) s
            in bindR (release L_ftable s) (\<lambda>s.
               case f_type ff of
                 FD_PIPE \<Rightarrow> pipeclose (f_pipe ff) (f_writable ff) s
               | FD_INODE \<Rightarrow> bindR (begin_op [] s) (\<lambda>s. bindR (iput (f_ip ff) s) (\<lambda>s. end_op s))
               | FD_NONE \<Rightarrow> Inr s))"

definition filestat :: "nat \<Rightarrow> 'z files_scheme \<Rightarrow> ('z files_scheme, stat option \<times> 'z files_scheme) kres" where
  "filestat f s =
     (if f_type (file_at s f) = FD_INODE then
        bindR (ilock (f_ip (file_at s f)) s) (\<lambda>s.
        let st = stati (f_ip (file_at s f)) s
        in bindR (iunlock (f_ip (file_at s f)) s) (\<lambda>s. Inr (Some st, s)))
      else Inr (None, s))"

definition fileread :: "nat \<Rightarrow> int \<Rightarrow> ('z files_scheme \<Rightarrow> 'z files_scheme) list \<Rightarrow> 'z files_scheme \<Rightarrow>
    ('z files_scheme, (int \<times> u8 list) \<times> 'z files_scheme) kres" where
  "fileread f n envs s =
     (if \<not> f_readable (file_at s f) then Inr ((-1, []), s)
      else case f_type (file_at s f) of
        FD_PIPE \<Rightarrow> piperead (f_pipe (file_at s f)) n envs s
      | FD_INODE \<Rightarrow>
          bindR (ilock (f_ip (file_at s f)) s) (\<lambda>s.
          bindR (readi (f_ip (file_at s f)) (f_off (file_at s f)) (word_of_int n) envs s) (\<lambda>((r, bytes), s).
          let s = (if r > 0 then upd_file f (\<lambda>x. x\<lparr>f_off := f_off x + word_of_int r\<rparr>) s else s)
          in bindR (iunlock (f_ip (file_at s f)) s) (\<lambda>s. Inr ((r, bytes), s))))
      | FD_NONE \<Rightarrow> Inl (Panic ''fileread''))"

text \<open>
  The loop of \<open>filewrite\<close> on the bytes left: pieces of at most 1536 bytes, each in its own
  transaction. The flag tells whether all were written.
\<close>

function filewrite_loop :: "nat \<Rightarrow> u8 list \<Rightarrow> 'z files_scheme \<Rightarrow> ('z files_scheme, bool \<times> 'z files_scheme) kres" where
  "filewrite_loop f bytes s =
     (if bytes = [] then Inr (True, s)
      else
        let n1 = min (length bytes) (((10 - 1 - 1 - 2) div 2) * 512)
        in bindR (begin_op [] s) (\<lambda>s.
           bindR (ilock (f_ip (file_at s f)) s) (\<lambda>s.
           bindR (writei (f_ip (file_at s f)) (take n1 bytes) (f_off (file_at s f)) s) (\<lambda>(r, s).
           let s = (if r > 0 then upd_file f (\<lambda>x. x\<lparr>f_off := f_off x + word_of_int r\<rparr>) s else s)
           in bindR (iunlock (f_ip (file_at s f)) s) (\<lambda>s.
              bindR (end_op s) (\<lambda>s.
              if r < 0 then Inr (False, s)
              else if r \<noteq> int n1 then Inl (Panic ''short filewrite'')
              else filewrite_loop f (drop n1 bytes) s))))))"
  by pat_completeness auto
termination
  by (relation "measure (\<lambda>(f, bytes, s). length bytes)") auto

declare filewrite_loop.simps [simp del]

definition filewrite :: "nat \<Rightarrow> u8 list \<Rightarrow> ('z files_scheme \<Rightarrow> 'z files_scheme) list \<Rightarrow> 'z files_scheme \<Rightarrow>
    ('z files_scheme, int \<times> 'z files_scheme) kres" where
  "filewrite f bytes envs s =
     (if \<not> f_writable (file_at s f) then Inr (-1, s)
      else case f_type (file_at s f) of
        FD_PIPE \<Rightarrow> pipewrite (f_pipe (file_at s f)) bytes envs s
      | FD_INODE \<Rightarrow>
          bindR (filewrite_loop f bytes s) (\<lambda>(ok, s). Inr (if ok then int (length bytes) else -1, s))
      | FD_NONE \<Rightarrow> Inl (Panic ''filewrite''))"

definition pipealloc :: "'z files_scheme \<Rightarrow> ('z files_scheme, (nat \<times> nat) option \<times> 'z files_scheme) kres" where
  "pipealloc s =
     bindR (filealloc s) (\<lambda>(f0, s).
     case f0 of
       None \<Rightarrow> Inr (None, s)
     | Some f0 \<Rightarrow>
         bindR (filealloc s) (\<lambda>(f1, s).
         case f1 of
           None \<Rightarrow> bindR (fileclose f0 s) (\<lambda>s. Inr (None, s))
         | Some f1 \<Rightarrow>
             bindR (kalloc s) (\<lambda>(p, s).
             if p = 0 then
               bindR (fileclose f0 s) (\<lambda>s. bindR (fileclose f1 s) (\<lambda>s. Inr (None, s)))
             else
               let s = upd_pipe p (\<lambda>x. x\<lparr>readopen := True, writeopen := True, nwrite := 0, nread := 0\<rparr>) s;
                   s = initlock (L_pipe p) s;
                   s = upd_file f0 (\<lambda>x. x\<lparr>f_type := FD_PIPE, f_readable := True, f_writable := False, f_pipe := p\<rparr>) s;
                   s = upd_file f1 (\<lambda>x. x\<lparr>f_type := FD_PIPE, f_readable := False, f_writable := True, f_pipe := p\<rparr>) s
               in Inr (Some (f0, f1), s))))"

section \<open>Critical sections and the fields of \<open>files\<close>\<close>

lemma acquired_files [simp]:
  "ftable (acquired lk s) = ftable s"
  by (simp_all add: acquired_def pushed_def)

lemma acquired_upd_files [simp]:
  "(acquired lk s)\<lparr>ftable := x_ftable\<rparr> = acquired lk (s\<lparr>ftable := x_ftable\<rparr>)"
  by (cases s, simp add: acquired_def pushed_def this_cpu_def cong: option.case_cong)+

lemma calm_files [simp]:
  "calm (s\<lparr>ftable := x_ftable\<rparr>) = calm s"
  by (rule calm_same, simp add: mach_same_def)+

lemma cur_files [simp]:
  "cur (s\<lparr>ftable := x_ftable\<rparr>) = cur s"
  by (rule cur_same, simp add: mach_same_def)+

lemma lock_free_files [simp]:
  "lock_free lk (s\<lparr>ftable := x_ftable\<rparr>) = lock_free lk s"
  by (simp_all add: lock_free_def)

end
