(* ===== verification/Proc_Life.thy ===== *)
theory Proc_Life
  imports File
begin

unbundle bit_operations_syntax

text \<open>
  The operations of \<open>proc.c\<close> that need the file system: the birth of a process
  (\<open>fork\<close>, \<open>set_prio\<close>, \<open>userinit\<close>), its first run (\<open>forkret\<close>) and its end
  (\<open>exit\<close>). A trap frame is 76 bytes on the kernel stack; its fields are accessed by their
  offsets (eax 28, es 40, ds 44, trapno 48, err 52, eip 56, cs 60, eflags 64, esp 68, ss 72).
  The files the operations close and the inodes they put find their locks free.
\<close>

section \<open>Definitions\<close>

text \<open>\<open>safestrcpy\<close> of a string into the 16 bytes of a process name.\<close>

definition set_name :: "u8 list \<Rightarrow> u8 list \<Rightarrow> u8 list" where
  "set_name str name = (let t = take 15 str in t @ [0] @ drop (length t + 1) name)"

definition c_string :: "u8 list \<Rightarrow> u8 list" where
  "c_string bs = takeWhile (\<lambda>c. c \<noteq> 0) bs"

fun dup_files :: "nat list \<Rightarrow> nat \<Rightarrow> nat \<Rightarrow> 'z files_scheme \<Rightarrow> ('z files_scheme, 'z files_scheme) kres" where
  "dup_files [] cp np s = Inr s"
| "dup_files (i # is') cp np s =
     (case ofile (proc_at s cp) ! i of
        None \<Rightarrow> dup_files is' cp np s
      | Some f \<Rightarrow>
          bindR (filedup f s) (\<lambda>(f, s).
          dup_files is' cp np (upd_proc np (\<lambda>q. q\<lparr>ofile := (ofile q)[i := Some f]\<rparr>) s)))"

text \<open>\<open>fork\<close> and \<open>set_prio\<close> differ only in the priority, a function of the new pid.\<close>

definition fork_with :: "(u32 \<Rightarrow> u32) \<Rightarrow> 'z files_scheme \<Rightarrow> ('z files_scheme, u32 \<times> 'z files_scheme) kres" where
  "fork_with prio s =
     bindR (curproc s) (\<lambda>(cp, s).
     bindR (allocproc s) (\<lambda>(np, s).
     case np of
       None \<Rightarrow> Inr (-1, s)
     | Some np \<Rightarrow>
         bindR (copyuvm (pgdir (proc_at s cp)) (sz (proc_at s cp)) s) (\<lambda>(pd, s).
         let s = upd_proc np (\<lambda>q. q\<lparr>pgdir := pd\<rparr>) s
         in if pd = 0 then
              bindR (kfree (kstack (proc_at s np)) s) (\<lambda>s.
              Inr (-1, upd_proc np (\<lambda>q. q\<lparr>kstack := 0, state := UNUSED\<rparr>) s))
            else
              let s = upd_proc np (\<lambda>q. q\<lparr>sz := sz (proc_at s cp), parent := Some cp\<rparr>) s;
                  s = s\<lparr>mem := memmove (mem s) (tf (proc_at s np)) (tf (proc_at s cp)) 76\<rparr>;
                  s = s\<lparr>mem := store32 (mem s) (tf (proc_at s np) + 28) 0\<rparr>
              in bindR (dup_files [0..<16] cp np s) (\<lambda>s.
                 bindR (case cwd (proc_at s cp) of None \<Rightarrow> Inl (Panic ''trap'') | Some ip \<Rightarrow> idup ip s) (\<lambda>(ip, s).
                 let s = upd_proc np (\<lambda>q. q\<lparr>cwd := Some ip\<rparr>) s;
                     s = upd_proc np (\<lambda>q. q\<lparr>p_name := set_name (c_string (p_name (proc_at s cp))) (p_name q)\<rparr>) s;
                     n = pid (proc_at s np)
                 in bindR (acquire L_ptable s) (\<lambda>s.
                    let s = upd_proc np (\<lambda>q. q\<lparr>state := RUNNABLE, priority := prio n\<rparr>) s
                    in bindR (release L_ptable s) (\<lambda>s. Inr (n, s))))))))"

definition fork :: "'z files_scheme \<Rightarrow> ('z files_scheme, u32 \<times> 'z files_scheme) kres" where
  "fork s = fork_with (\<lambda>_. 2) s"

text \<open>\<open>pid % 3\<close> on a positive \<open>int\<close>.\<close>

definition set_prio :: "'z files_scheme \<Rightarrow> ('z files_scheme, u32 \<times> 'z files_scheme) kres" where
  "set_prio s = fork_with (\<lambda>n. word_of_int (sint n - 3 * (sgn (sint n) * (\<bar>sint n\<bar> div 3))) + 1) s"

fun close_files :: "nat list \<Rightarrow> nat \<Rightarrow> 'z files_scheme \<Rightarrow> ('z files_scheme, 'z files_scheme) kres" where
  "close_files [] cp s = Inr s"
| "close_files (fd # fds) cp s =
     (case ofile (proc_at s cp) ! fd of
        None \<Rightarrow> close_files fds cp s
      | Some f \<Rightarrow>
          bindR (fileclose f s) (\<lambda>s.
          close_files fds cp (upd_proc cp (\<lambda>q. q\<lparr>ofile := (ofile q)[fd := None]\<rparr>) s)))"

text \<open>The children of slot \<open>cp\<close> go to \<open>initproc\<close>, which is woken for each zombie.\<close>

definition reparent :: "nat \<Rightarrow> 'z ptab_scheme \<Rightarrow> 'z ptab_scheme" where
  "reparent cp s = foldl (\<lambda>s i.
     if parent (proc_at s i) = Some cp then
       let s = upd_proc i (\<lambda>q. q\<lparr>parent := initproc s\<rparr>) s
       in if state (proc_at s i) = ZOMBIE then wakeup1 (map_option Ch_proc (initproc s)) s else s
     else s) s [0..<NPROC]"

definition exit :: "'z files_scheme \<Rightarrow> ('z files_scheme, unit) kres" where
  "exit s =
     bindR (curproc s) (\<lambda>(cp, s).
     if initproc s = Some cp then Inl (Panic ''init exiting'')
     else
       bindR (close_files [0..<16] cp s) (\<lambda>s.
       bindR (begin_op [] s) (\<lambda>s.
       bindR (case cwd (proc_at s cp) of None \<Rightarrow> Inl (Panic ''trap'') | Some ip \<Rightarrow> iput ip s) (\<lambda>s.
       bindR (end_op s) (\<lambda>s.
       let s = upd_proc cp (\<lambda>q. q\<lparr>cwd := None\<rparr>) s
       in bindR (acquire L_ptable s) (\<lambda>s.
          let s = wakeup1 (map_option Ch_proc (parent (proc_at s cp))) s;
              s = reparent cp s;
              s = upd_proc cp (\<lambda>q. q\<lparr>state := ZOMBIE\<rparr>) s
          in bindR (sched_enter s) (\<lambda>(_, s). Inl (Exited s))))))))"

text \<open>\<open>start\<close> and \<open>size\<close> of the program linked into the kernel as \<open>initcode\<close>.\<close>

definition userinit :: "u32 \<Rightarrow> u32 \<Rightarrow> 'z files_scheme \<Rightarrow> ('z files_scheme, 'z files_scheme) kres" where
  "userinit initcode_start initcode_size s =
     bindR (allocproc s) (\<lambda>(p, s).
     let s = s\<lparr>initproc := p\<rparr>
     in case p of
          None \<Rightarrow> Inl (Panic ''trap'')
        | Some p \<Rightarrow>
            bindR (setupkvm s) (\<lambda>(pd, s).
            let s = upd_proc p (\<lambda>q. q\<lparr>pgdir := pd\<rparr>) s
            in if pd = 0 then Inl (Panic ''userinit: out of memory?'')
               else
                 bindR (inituvm pd initcode_start initcode_size s) (\<lambda>s.
                 let s = upd_proc p (\<lambda>q. q\<lparr>sz := PGSIZE\<rparr>) s;
                     t = tf (proc_at s p);
                     s = s\<lparr>mem := memset (mem s) t 0 76\<rparr>;
                     s = s\<lparr>mem := store16 (mem s) (t + 60) 0x1b\<rparr>;
                     s = s\<lparr>mem := store16 (mem s) (t + 44) 0x23\<rparr>;
                     s = s\<lparr>mem := store16 (mem s) (t + 40) 0x23\<rparr>;
                     s = s\<lparr>mem := store16 (mem s) (t + 72) 0x23\<rparr>;
                     s = s\<lparr>mem := store32 (mem s) (t + 64) 0x200\<rparr>;
                     s = s\<lparr>mem := store32 (mem s) (t + 68) PGSIZE\<rparr>;
                     s = s\<lparr>mem := store32 (mem s) (t + 56) 0\<rparr>;
                     s = upd_proc p (\<lambda>q. q\<lparr>p_name := set_name [105, 110, 105, 116, 99, 111, 100, 101] (p_name q)\<rparr>) s
                 in bindR (namei [47] s) (\<lambda>(r, s).
                    let s = upd_proc p (\<lambda>q. q\<lparr>cwd := r\<rparr>) s
                    in bindR (acquire L_ptable s) (\<lambda>s.
                       release L_ptable (upd_proc p (\<lambda>q. q\<lparr>state := RUNNABLE\<rparr>) s))))))"

definition forkret :: "'z files_scheme \<Rightarrow> ('z files_scheme, 'z files_scheme) kres" where
  "forkret s =
     bindR (release L_ptable s) (\<lambda>s.
     if forkret_first s then
       bindR (iinit ROOTDEV (s\<lparr>forkret_first := False\<rparr>)) (\<lambda>s. initlog ROOTDEV s)
     else Inr s)"

end
