(* ===== verification/Exec.thy ===== *)
theory Exec
  imports Proc_Life
begin

unbundle bit_operations_syntax

text \<open>
  Loading a program: \<open>exec.c\<close>, with \<open>loaduvm\<close> of \<open>vm.c\<close> and the file formats of
  \<open>elf.h\<close>. The arguments are strings; the addresses they have in the old image do not matter,
  since \<open>copyout\<close> copies their bytes.
\<close>

section \<open>Definitions\<close>

abbreviation (input) ELF_MAGIC :: u32 where "ELF_MAGIC \<equiv> 0x464C457F"
abbreviation (input) MAXARG :: nat where "MAXARG \<equiv> 32"

record elfhdr =
  e_magic :: u32
  e_entry :: u32
  e_phoff :: u32
  e_phnum :: u16

record proghdr =
  ph_type :: u32
  ph_off :: u32
  ph_vaddr :: u32
  ph_filesz :: u32
  ph_memsz :: u32

definition elfhdr_of :: "u8 list \<Rightarrow> elfhdr" where
  "elfhdr_of d = \<lparr>e_magic = get32 d 0, e_entry = get32 d 24, e_phoff = get32 d 28, e_phnum = get16 d 44\<rparr>"

definition proghdr_of :: "u8 list \<Rightarrow> proghdr" where
  "proghdr_of d = \<lparr>ph_type = get32 d 0, ph_off = get32 d 4, ph_vaddr = get32 d 8, ph_filesz = get32 d 16,
     ph_memsz = get32 d 20\<rparr>"

text \<open>The loop of \<open>loaduvm\<close>: \<open>i\<close> bytes of \<open>n\<close> are loaded, a page at a time.\<close>

function loaduvm_loop :: "u32 \<Rightarrow> u32 \<Rightarrow> nat \<Rightarrow> u32 \<Rightarrow> u32 \<Rightarrow> u32 \<Rightarrow> 'z cons_scheme \<Rightarrow> ('z cons_scheme, int \<times> 'z cons_scheme) kres" where
  "loaduvm_loop pd addr ip offset n i s =
     (if i < n then
        bindR (walkpgdir pd (addr + i) False s) (\<lambda>(pte, s).
        if pte = 0 then Inl (Panic ''loaduvm: address should exist'')
        else
          let pa = PTE_ADDR (load32 (mem s) pte);
              m = (if n - i < PGSIZE then n - i else PGSIZE)
          in bindR (readi ip (offset + i) m [] s) (\<lambda>((r, bytes), s).
             let s = s\<lparr>mem := store_bytes (mem s) (P2V pa) bytes\<rparr>
             in if r \<noteq> sint m then Inr (-1, s)
                else if i + PGSIZE \<le> i then Inl Wrapped
                else loaduvm_loop pd addr ip offset n (i + PGSIZE) s))
      else Inr (0, s))"
  by pat_completeness auto
termination
  by (relation "measure (\<lambda>(pd, addr, ip, offset, n, i, s). 4294967296 - unat i)")
    (auto simp: word_le_nat_alt not_le intro!: diff_less_mono2 unat_u32_less)

declare loaduvm_loop.simps [simp del]

definition loaduvm :: "u32 \<Rightarrow> u32 \<Rightarrow> nat \<Rightarrow> u32 \<Rightarrow> u32 \<Rightarrow> 'z cons_scheme \<Rightarrow> ('z cons_scheme, int \<times> 'z cons_scheme) kres" where
  "loaduvm pd addr ip offset n s =
     (if addr mod PGSIZE \<noteq> 0 then Inl (Panic ''loaduvm: addr must be page aligned'')
      else loaduvm_loop pd addr ip offset n 0 s)"

text \<open>The error exit of \<open>exec\<close>; a null page directory is 0.\<close>

definition exec_bad :: "u32 \<Rightarrow> nat option \<Rightarrow> 'z files_scheme \<Rightarrow> ('z files_scheme, int \<times> 'z files_scheme) kres" where
  "exec_bad pd ip s =
     bindR (if pd \<noteq> 0 then freevm pd s else Inr s) (\<lambda>s.
     bindR (case ip of None \<Rightarrow> Inr s | Some ip \<Rightarrow> bindR (iunlockput ip s) (\<lambda>s. end_op s)) (\<lambda>s.
     Inr (-1, s)))"

text \<open>The loop over the program headers; None sends \<open>exec\<close> to its error exit.\<close>

fun exec_load :: "nat \<Rightarrow> nat \<Rightarrow> u32 \<Rightarrow> u32 \<Rightarrow> u32 \<Rightarrow> 'z cons_scheme \<Rightarrow> ('z cons_scheme, u32 option \<times> 'z cons_scheme) kres" where
  "exec_load 0 ip pd off sz1 s = Inr (Some sz1, s)"
| "exec_load (Suc k) ip pd off sz1 s =
     bindR (readi ip off 32 [] s) (\<lambda>((r, d), s).
     if r \<noteq> 32 then Inr (None, s)
     else
       let ph = proghdr_of d
       in if ph_type ph \<noteq> 1 then exec_load k ip pd (off + 32) sz1 s
          else if ph_memsz ph < ph_filesz ph then Inr (None, s)
          else if ph_vaddr ph + ph_memsz ph < ph_vaddr ph then Inr (None, s)
          else
            bindR (allocuvm pd sz1 (ph_vaddr ph + ph_memsz ph) s) (\<lambda>(sz1, s).
            if sz1 = 0 then Inr (None, s)
            else if ph_vaddr ph mod PGSIZE \<noteq> 0 then Inr (None, s)
            else
              bindR (loaduvm pd (ph_vaddr ph) ip (ph_off ph) (ph_filesz ph) s) (\<lambda>(r, s).
              if r < 0 then Inr (None, s) else exec_load k ip pd (off + 32) sz1 s)))"

text \<open>The loop that pushes the argument strings; \<open>ustack\<close> are their addresses so far.\<close>

fun exec_args :: "u32 \<Rightarrow> u8 list list \<Rightarrow> u32 \<Rightarrow> u32 list \<Rightarrow> 'z vm_scheme \<Rightarrow>
    ('z vm_scheme, (u32 \<times> u32 list) option \<times> 'z vm_scheme) kres" where
  "exec_args pd [] sp ustack s = Inr (Some (sp, ustack), s)"
| "exec_args pd (arg # args) sp ustack s =
     (if length ustack \<ge> MAXARG then Inr (None, s)
      else
        let sp = (sp - (of_nat (length arg) + 1)) AND NOT 3
        in bindR (copyout pd sp (arg @ [0]) s) (\<lambda>(r, s).
           if r < 0 then Inr (None, s) else exec_args pd args sp (ustack @ [sp]) s))"

definition le_bytes :: "u32 \<Rightarrow> u8 list" where
  "le_bytes w = [ucast w, ucast (drop_bit 8 w), ucast (drop_bit 16 w), ucast (drop_bit 24 w)]"

text \<open>What follows the last slash of a path.\<close>

definition path_last :: "u8 list \<Rightarrow> u8 list" where
  "path_last path = rev (takeWhile (\<lambda>c. c \<noteq> 47) (rev path))"

text \<open>From the point where the program's segments are loaded: stack, arguments, and the switch.\<close>

definition exec_stack :: "nat \<Rightarrow> u8 list \<Rightarrow> u8 list list \<Rightarrow> elfhdr \<Rightarrow> u32 \<Rightarrow> u32 \<Rightarrow> 'z files_scheme \<Rightarrow>
    ('z files_scheme, int \<times> 'z files_scheme) kres" where
  "exec_stack cp path argv elf pd sz1 s =
     (let sz1 = PGROUNDUP sz1
      in bindR (allocuvm pd sz1 (sz1 + 2 * PGSIZE) s) (\<lambda>(sz1, s).
         if sz1 = 0 then exec_bad pd None s
         else
           bindR (clearpteu pd (sz1 - 2 * PGSIZE) s) (\<lambda>s.
           bindR (exec_args pd argv sz1 [] s) (\<lambda>(r, s).
           case r of
             None \<Rightarrow> exec_bad pd None s
           | Some (sp, args) \<Rightarrow>
               let argc = of_nat (length args);
                   ustack = [0xffffffff, argc, sp - (argc + 1) * 4] @ args @ [0];
                   sp = sp - (3 + argc + 1) * 4
               in bindR (copyout pd sp (concat (map le_bytes ustack)) s) (\<lambda>(r, s).
                  if r < 0 then exec_bad pd None s
                  else
                    let s = upd_proc cp (\<lambda>q. q\<lparr>p_name := set_name (path_last path) (p_name q)\<rparr>) s;
                        oldpgdir = pgdir (proc_at s cp);
                        s = upd_proc cp (\<lambda>q. q\<lparr>pgdir := pd, sz := sz1\<rparr>) s;
                        s = s\<lparr>mem := store32 (mem s) (tf (proc_at s cp) + 56) (e_entry elf)\<rparr>;
                        s = s\<lparr>mem := store32 (mem s) (tf (proc_at s cp) + 68) sp\<rparr>
                    in bindR (switchuvm (Some (kstack (proc_at s cp), pgdir (proc_at s cp))) s) (\<lambda>s.
                       bindR (freevm oldpgdir s) (\<lambda>s. Inr (0, s))))))))"

definition exec :: "u8 list \<Rightarrow> u8 list list \<Rightarrow> 'z files_scheme \<Rightarrow> ('z files_scheme, int \<times> 'z files_scheme) kres" where
  "exec path argv s =
     bindR (curproc s) (\<lambda>(cp, s).
     bindR (begin_op [] s) (\<lambda>s.
     bindR (namei path s) (\<lambda>(r, s).
     case r of
       None \<Rightarrow> bindR (end_op s) (\<lambda>s. Inr (-1, s))
     | Some ip \<Rightarrow>
         bindR (ilock ip s) (\<lambda>s.
         bindR (readi ip 0 52 [] s) (\<lambda>((r, d), s).
         if r \<noteq> 52 then exec_bad 0 (Some ip) s
         else if e_magic (elfhdr_of d) \<noteq> ELF_MAGIC then exec_bad 0 (Some ip) s
         else
           bindR (setupkvm s) (\<lambda>(pd, s).
           if pd = 0 then exec_bad 0 (Some ip) s
           else
             bindR (exec_load (unat (e_phnum (elfhdr_of d))) ip pd (e_phoff (elfhdr_of d)) 0 s) (\<lambda>(r, s).
             case r of
               None \<Rightarrow> exec_bad pd (Some ip) s
             | Some sz1 \<Rightarrow>
                 bindR (iunlockput ip s) (\<lambda>s.
                 bindR (end_op s) (\<lambda>s.
                 exec_stack cp path argv (elfhdr_of d) pd sz1 s)))))))))"

end
