(* ===== verification/Syscall_Args.thy ===== *)
theory Syscall_Args
  imports Exec
begin

unbundle bit_operations_syntax

text \<open>
  Fetching the arguments of a system call from the user stack and memory, the first half of
  \<open>syscall.c\<close>. The C functions return -1 when the argument lies outside the memory of the
  process, and store it otherwise; here the result is an option. A string argument is the string
  itself: the process that owns it is in the kernel, so it cannot change.
\<close>

section \<open>Definitions\<close>

record trapst = files +
  ticks :: u32

fun uload_bytes :: "u32 \<Rightarrow> nat \<Rightarrow> 'z vm_scheme \<Rightarrow> ('z vm_scheme, u8 list) kres" where
  "uload_bytes a 0 s = Inr []"
| "uload_bytes a (Suc n) s =
     bindR (uload8 a s) (\<lambda>b. bindR (uload_bytes (a + 1) n s) (\<lambda>bs. Inr (b # bs)))"

fun ustore_bytes :: "u32 \<Rightarrow> u8 list \<Rightarrow> 'z vm_scheme \<Rightarrow> ('z vm_scheme, 'z vm_scheme) kres" where
  "ustore_bytes a [] s = Inr s"
| "ustore_bytes a (b # bs) s = bindR (ustore8 a b s) (\<lambda>s. ustore_bytes (a + 1) bs s)"

definition fetchint :: "u32 \<Rightarrow> 'z ptab_scheme \<Rightarrow> ('z ptab_scheme, u32 option \<times> 'z ptab_scheme) kres" where
  "fetchint addr s =
     bindR (curproc s) (\<lambda>(cp, s).
     if addr \<ge> sz (proc_at s cp) \<or> addr + 4 > sz (proc_at s cp) then Inr (None, s)
     else bindR (uload32 addr s) (\<lambda>w. Inr (Some w, s)))"

text \<open>The scan for the NUL from address \<open>a\<close> on, up to the end \<open>ep\<close> of the memory.\<close>

function fetchstr_loop :: "u32 \<Rightarrow> u32 \<Rightarrow> u8 list \<Rightarrow> 'z vm_scheme \<Rightarrow> ('z vm_scheme, u8 list option) kres" where
  "fetchstr_loop a ep acc s =
     (if a < ep then
        bindR (uload8 a s) (\<lambda>b.
        if b = 0 then Inr (Some acc) else fetchstr_loop (a + 1) ep (acc @ [b]) s)
      else Inr None)"
  by pat_completeness auto
termination
proof (relation "measure (\<lambda>(a, ep, acc, s). unat ep - unat a)")
  fix a ep :: u32 and acc acc' :: "u8 list" and s :: "'z vm_scheme"
  assume "a < ep"
  then have "unat a < unat ep" by (simp add: word_less_nat_alt)
  moreover have "unat (a + 1) = unat a + 1" using calculation unat_u32_less [of ep] by (simp add: unat_u32_add)
  ultimately show "((a + 1, ep, acc @ [b], s), a, ep, acc, s) \<in> measure (\<lambda>(a, ep, acc, s). unat ep - unat a)" for b
    by simp
qed simp

declare fetchstr_loop.simps [simp del]

definition fetchstr :: "u32 \<Rightarrow> 'z ptab_scheme \<Rightarrow> ('z ptab_scheme, u8 list option \<times> 'z ptab_scheme) kres" where
  "fetchstr addr s =
     bindR (curproc s) (\<lambda>(cp, s).
     if addr \<ge> sz (proc_at s cp) then Inr (None, s)
     else bindR (fetchstr_loop addr (sz (proc_at s cp)) [] s) (\<lambda>r. Inr (r, s)))"

definition argint :: "nat \<Rightarrow> 'z ptab_scheme \<Rightarrow> ('z ptab_scheme, u32 option \<times> 'z ptab_scheme) kres" where
  "argint n s =
     bindR (curproc s) (\<lambda>(cp, s).
     fetchint (load32 (mem s) (tf (proc_at s cp) + 68) + 4 + 4 * of_nat n) s)"

definition argptr :: "nat \<Rightarrow> u32 \<Rightarrow> 'z ptab_scheme \<Rightarrow> ('z ptab_scheme, u32 option \<times> 'z ptab_scheme) kres" where
  "argptr n size' s =
     bindR (curproc s) (\<lambda>(cp, s).
     bindR (argint n s) (\<lambda>(r, s).
     case r of
       None \<Rightarrow> Inr (None, s)
     | Some i \<Rightarrow>
         if sint size' < 0 \<or> i \<ge> sz (proc_at s cp) \<or> i + size' > sz (proc_at s cp) then Inr (None, s)
         else Inr (Some i, s)))"

definition argstr :: "nat \<Rightarrow> 'z ptab_scheme \<Rightarrow> ('z ptab_scheme, u8 list option \<times> 'z ptab_scheme) kres" where
  "argstr n s =
     bindR (argint n s) (\<lambda>(r, s).
     case r of None \<Rightarrow> Inr (None, s) | Some addr \<Rightarrow> fetchstr addr s)"

section \<open>Critical sections and the fields of \<open>trapst\<close>\<close>

lemma acquired_trapst [simp]:
  "ticks (acquired lk s) = ticks s"
  by (simp_all add: acquired_def pushed_def)

lemma acquired_upd_trapst [simp]:
  "(acquired lk s)\<lparr>ticks := x_ticks\<rparr> = acquired lk (s\<lparr>ticks := x_ticks\<rparr>)"
  by (cases s, simp add: acquired_def pushed_def this_cpu_def cong: option.case_cong)+

lemma calm_trapst [simp]:
  "calm (s\<lparr>ticks := x_ticks\<rparr>) = calm s"
  by (rule calm_same, simp add: mach_same_def)+

lemma cur_trapst [simp]:
  "cur (s\<lparr>ticks := x_ticks\<rparr>) = cur s"
  by (rule cur_same, simp add: mach_same_def)+

lemma lock_free_trapst [simp]:
  "lock_free lk (s\<lparr>ticks := x_ticks\<rparr>) = lock_free lk s"
  by (simp_all add: lock_free_def)

end
