(* ===== verification/Sysfile.thy ===== *)
theory Sysfile
  imports Syscall_Args
begin

unbundle bit_operations_syntax

text \<open>
  The system calls on files, \<open>sysfile.c\<close>. Each returns the C \<open>int\<close> that goes to the user
  in eax; -1 is the error. The calls find the sleep locks they need free, and room in the log;
  \<open>envs\<close> is for the calls that wait for a pipe or the console.
\<close>

section \<open>Definitions\<close>

abbreviation (input) NOFILE :: nat where "NOFILE \<equiv> 16"
abbreviation (input) O_WRONLY :: u32 where "O_WRONLY \<equiv> 0x001"
abbreviation (input) O_RDWR :: u32 where "O_RDWR \<equiv> 0x002"
abbreviation (input) O_CREATE :: u32 where "O_CREATE \<equiv> 0x200"

text \<open>The descriptor and the file it stands for.\<close>

definition argfd :: "nat \<Rightarrow> 'z trapst_scheme \<Rightarrow> ('z trapst_scheme, (nat \<times> nat) option \<times> 'z trapst_scheme) kres" where
  "argfd n s =
     bindR (argint n s) (\<lambda>(r, s).
     case r of
       None \<Rightarrow> Inr (None, s)
     | Some fd \<Rightarrow>
         if sint fd < 0 \<or> sint fd \<ge> int NOFILE then Inr (None, s)
         else
           bindR (curproc s) (\<lambda>(cp, s).
           case ofile (proc_at s cp) ! unat fd of
             None \<Rightarrow> Inr (None, s)
           | Some f \<Rightarrow> Inr (Some (unat fd, f), s)))"

definition fdalloc :: "nat \<Rightarrow> 'z trapst_scheme \<Rightarrow> ('z trapst_scheme, nat option \<times> 'z trapst_scheme) kres" where
  "fdalloc f s =
     bindR (curproc s) (\<lambda>(cp, s).
     case find (\<lambda>fd. ofile (proc_at s cp) ! fd = None) [0..<NOFILE] of
       None \<Rightarrow> Inr (None, s)
     | Some fd \<Rightarrow> Inr (Some fd, upd_proc cp (\<lambda>q. q\<lparr>ofile := (ofile q)[fd := Some f]\<rparr>) s))"

definition sys_dup :: "'z trapst_scheme \<Rightarrow> ('z trapst_scheme, int \<times> 'z trapst_scheme) kres" where
  "sys_dup s =
     bindR (argfd 0 s) (\<lambda>(r, s).
     case r of
       None \<Rightarrow> Inr (-1, s)
     | Some (_, f) \<Rightarrow>
         bindR (fdalloc f s) (\<lambda>(fd, s).
         case fd of
           None \<Rightarrow> Inr (-1, s)
         | Some fd \<Rightarrow> bindR (filedup f s) (\<lambda>(_, s). Inr (int fd, s))))"

text \<open>The arguments \<open>fd, p, n\<close> of read and write.\<close>

definition rw_args :: "'z trapst_scheme \<Rightarrow> ('z trapst_scheme, (nat \<times> u32 \<times> int) option \<times> 'z trapst_scheme) kres" where
  "rw_args s =
     bindR (argfd 0 s) (\<lambda>(r, s).
     case r of
       None \<Rightarrow> Inr (None, s)
     | Some (_, f) \<Rightarrow>
         bindR (argint 2 s) (\<lambda>(n, s).
         case n of
           None \<Rightarrow> Inr (None, s)
         | Some n \<Rightarrow>
             bindR (argptr 1 n s) (\<lambda>(p, s).
             case p of None \<Rightarrow> Inr (None, s) | Some p \<Rightarrow> Inr (Some (f, p, sint n), s))))"

definition sys_read :: "('z trapst_scheme \<Rightarrow> 'z trapst_scheme) list \<Rightarrow> 'z trapst_scheme \<Rightarrow> ('z trapst_scheme, int \<times> 'z trapst_scheme) kres" where
  "sys_read envs s =
     bindR (rw_args s) (\<lambda>(r, s).
     case r of
       None \<Rightarrow> Inr (-1, s)
     | Some (f, p, n) \<Rightarrow>
         bindR (fileread f n envs s) (\<lambda>((r, bytes), s).
         bindR (ustore_bytes p bytes s) (\<lambda>s. Inr (r, s))))"

definition sys_write :: "('z trapst_scheme \<Rightarrow> 'z trapst_scheme) list \<Rightarrow> 'z trapst_scheme \<Rightarrow> ('z trapst_scheme, int \<times> 'z trapst_scheme) kres" where
  "sys_write envs s =
     bindR (rw_args s) (\<lambda>(r, s).
     case r of
       None \<Rightarrow> Inr (-1, s)
     | Some (f, p, n) \<Rightarrow>
         bindR (uload_bytes p (nat n) s) (\<lambda>bytes.
         filewrite f bytes envs s))"

definition sys_close :: "'z trapst_scheme \<Rightarrow> ('z trapst_scheme, int \<times> 'z trapst_scheme) kres" where
  "sys_close s =
     bindR (argfd 0 s) (\<lambda>(r, s).
     case r of
       None \<Rightarrow> Inr (-1, s)
     | Some (fd, f) \<Rightarrow>
         bindR (curproc s) (\<lambda>(cp, s).
         bindR (fileclose f (upd_proc cp (\<lambda>q. q\<lparr>ofile := (ofile q)[fd := None]\<rparr>) s)) (\<lambda>s.
         Inr (0, s))))"

text \<open>The fields of \<open>struct stat\<close> in user memory.\<close>

definition store_stat :: "u32 \<Rightarrow> stat \<Rightarrow> 'z vm_scheme \<Rightarrow> ('z vm_scheme, 'z vm_scheme) kres" where
  "store_stat p st s =
     bindR (ustore32 (p + 4) (st_dev st) s) (\<lambda>s.
     bindR (ustore32 (p + 8) (st_ino st) s) (\<lambda>s.
     bindR (ustore_bytes p [ucast (st_type st), ucast (drop_bit 8 (st_type st))] s) (\<lambda>s.
     bindR (ustore_bytes (p + 12) [ucast (st_nlink st), ucast (drop_bit 8 (st_nlink st))] s) (\<lambda>s.
     ustore32 (p + 16) (st_size st) s))))"

definition sys_fstat :: "'z trapst_scheme \<Rightarrow> ('z trapst_scheme, int \<times> 'z trapst_scheme) kres" where
  "sys_fstat s =
     bindR (argfd 0 s) (\<lambda>(r, s).
     case r of
       None \<Rightarrow> Inr (-1, s)
     | Some (_, f) \<Rightarrow>
         bindR (argptr 1 20 s) (\<lambda>(p, s).
         case p of
           None \<Rightarrow> Inr (-1, s)
         | Some p \<Rightarrow>
             bindR (filestat f s) (\<lambda>(r, s).
             case r of
               None \<Rightarrow> Inr (-1, s)
             | Some st \<Rightarrow> bindR (store_stat p st s) (\<lambda>s. Inr (0, s)))))"

text \<open>End of a failed call: commit and return -1.\<close>

definition fail_op :: "'z trapst_scheme \<Rightarrow> ('z trapst_scheme, int \<times> 'z trapst_scheme) kres" where
  "fail_op s = bindR (end_op s) (\<lambda>s. Inr (-1, s))"

definition add_nlink :: "nat \<Rightarrow> u16 \<Rightarrow> 'z icache_scheme \<Rightarrow> ('z icache_scheme, 'z icache_scheme) kres" where
  "add_nlink ip d s = iupdate ip (upd_inode ip (\<lambda>x. x\<lparr>i_nlink := i_nlink x + d\<rparr>) s)"

definition link_bad :: "nat \<Rightarrow> 'z trapst_scheme \<Rightarrow> ('z trapst_scheme, int \<times> 'z trapst_scheme) kres" where
  "link_bad ip s =
     bindR (ilock ip s) (\<lambda>s.
     bindR (add_nlink ip (-1) s) (\<lambda>s.
     bindR (iunlockput ip s) (\<lambda>s.
     fail_op s)))"

definition do_link :: "u8 list \<Rightarrow> u8 list \<Rightarrow> 'z trapst_scheme \<Rightarrow> ('z trapst_scheme, int \<times> 'z trapst_scheme) kres" where
  "do_link old new s =
     bindR (begin_op [] s) (\<lambda>s.
     bindR (namei old s) (\<lambda>(ip, s).
     case ip of
       None \<Rightarrow> fail_op s
     | Some ip \<Rightarrow>
         bindR (ilock ip s) (\<lambda>s.
         if i_type (inode_at s ip) = T_DIR then bindR (iunlockput ip s) (\<lambda>s. fail_op s)
         else
           bindR (add_nlink ip 1 s) (\<lambda>s.
           bindR (iunlock ip s) (\<lambda>s.
           bindR (nameiparent new s) (\<lambda>(r, s).
           case r of
             None \<Rightarrow> link_bad ip s
           | Some (dp, name) \<Rightarrow>
               bindR (ilock dp s) (\<lambda>s.
               bindR (if i_dev (inode_at s dp) \<noteq> i_dev (inode_at s ip) then Inr (-1, s)
                      else dirlink dp name (i_inum (inode_at s ip)) s) (\<lambda>(r, s).
               if r < 0 then bindR (iunlockput dp s) (\<lambda>s. link_bad ip s)
               else
                 bindR (iunlockput dp s) (\<lambda>s.
                 bindR (iput ip s) (\<lambda>s.
                 bindR (end_op s) (\<lambda>s. Inr (0, s))))))))))))"

definition sys_link :: "'z trapst_scheme \<Rightarrow> ('z trapst_scheme, int \<times> 'z trapst_scheme) kres" where
  "sys_link s =
     bindR (argstr 0 s) (\<lambda>(old, s).
     case old of
       None \<Rightarrow> Inr (-1, s)
     | Some old \<Rightarrow>
         bindR (argstr 1 s) (\<lambda>(new, s).
         case new of None \<Rightarrow> Inr (-1, s) | Some new \<Rightarrow> do_link old new s))"

fun isdirempty_loop :: "nat list \<Rightarrow> nat \<Rightarrow> 'z cons_scheme \<Rightarrow> ('z cons_scheme, bool \<times> 'z cons_scheme) kres" where
  "isdirempty_loop [] dp s = Inr (True, s)"
| "isdirempty_loop (off # offs) dp s =
     bindR (readi dp (of_nat off) 16 [] s) (\<lambda>((r, de), s).
     if r \<noteq> 16 then Inl (Panic ''isdirempty: readi'')
     else if get16 de 0 \<noteq> 0 then Inr (False, s)
     else isdirempty_loop offs dp s)"

definition isdirempty :: "nat \<Rightarrow> 'z cons_scheme \<Rightarrow> ('z cons_scheme, bool \<times> 'z cons_scheme) kres" where
  "isdirempty dp s = isdirempty_loop (drop 2 (dirent_offs (i_size (inode_at s dp)))) dp s"

definition unlink_bad :: "nat \<Rightarrow> 'z trapst_scheme \<Rightarrow> ('z trapst_scheme, int \<times> 'z trapst_scheme) kres" where
  "unlink_bad dp s = bindR (iunlockput dp s) (\<lambda>s. fail_op s)"

definition do_unlink :: "u8 list \<Rightarrow> 'z trapst_scheme \<Rightarrow> ('z trapst_scheme, int \<times> 'z trapst_scheme) kres" where
  "do_unlink path s =
     bindR (begin_op [] s) (\<lambda>s.
     bindR (nameiparent path s) (\<lambda>(r, s).
     case r of
       None \<Rightarrow> fail_op s
     | Some (dp, name) \<Rightarrow>
         bindR (ilock dp s) (\<lambda>s.
         if namecmp name [46] = 0 \<or> namecmp name [46, 46] = 0 then unlink_bad dp s
         else
           bindR (dirlookup dp name s) (\<lambda>(r, s).
           case r of
             None \<Rightarrow> unlink_bad dp s
           | Some (ip, off) \<Rightarrow>
               bindR (ilock ip s) (\<lambda>s.
               if sint (i_nlink (inode_at s ip)) < 1 then Inl (Panic ''unlink: nlink < 1'')
               else
                 bindR (if i_type (inode_at s ip) = T_DIR then isdirempty ip s else Inr (True, s)) (\<lambda>(empty, s).
                 if \<not> empty then bindR (iunlockput ip s) (\<lambda>s. unlink_bad dp s)
                 else
                   bindR (writei dp (replicate 16 0) off s) (\<lambda>(r, s).
                   if r \<noteq> 16 then Inl (Panic ''unlink: writei'')
                   else
                     bindR (if i_type (inode_at s ip) = T_DIR then add_nlink dp (-1) s else Inr s) (\<lambda>s.
                     bindR (iunlockput dp s) (\<lambda>s.
                     bindR (add_nlink ip (-1) s) (\<lambda>s.
                     bindR (iunlockput ip s) (\<lambda>s.
                     bindR (end_op s) (\<lambda>s. Inr (0, s)))))))))))))"

definition sys_unlink :: "'z trapst_scheme \<Rightarrow> ('z trapst_scheme, int \<times> 'z trapst_scheme) kres" where
  "sys_unlink s =
     bindR (argstr 0 s) (\<lambda>(path, s).
     case path of None \<Rightarrow> Inr (-1, s) | Some path \<Rightarrow> do_unlink path s)"

text \<open>The second half of \<open>create\<close>: the name is free, \<open>dp\<close> is the locked directory.\<close>

definition create_new :: "nat \<Rightarrow> u8 list \<Rightarrow> u16 \<Rightarrow> u16 \<Rightarrow> u16 \<Rightarrow> 'z cons_scheme \<Rightarrow> ('z cons_scheme, nat option \<times> 'z cons_scheme) kres" where
  "create_new dp name ty major minor s =
     bindR (ialloc (i_dev (inode_at s dp)) ty s) (\<lambda>(ip, s).
     bindR (ilock ip s) (\<lambda>s.
     bindR (iupdate ip (upd_inode ip (\<lambda>x. x\<lparr>i_major := major, i_minor := minor, i_nlink := 1\<rparr>) s)) (\<lambda>s.
     bindR (if ty = T_DIR then
              bindR (add_nlink dp 1 s) (\<lambda>s.
              bindR (dirlink ip [46] (i_inum (inode_at s ip)) s) (\<lambda>(r, s).
              if r < 0 then Inl (Panic ''create dots'')
              else
                bindR (dirlink ip [46, 46] (i_inum (inode_at s dp)) s) (\<lambda>(r, s).
                if r < 0 then Inl (Panic ''create dots'') else Inr s)))
            else Inr s) (\<lambda>s.
     bindR (dirlink dp name (i_inum (inode_at s ip)) s) (\<lambda>(r, s).
     if r < 0 then Inl (Panic ''create: dirlink'')
     else bindR (iunlockput dp s) (\<lambda>s. Inr (Some ip, s)))))))"

definition create :: "u8 list \<Rightarrow> u16 \<Rightarrow> u16 \<Rightarrow> u16 \<Rightarrow> 'z cons_scheme \<Rightarrow> ('z cons_scheme, nat option \<times> 'z cons_scheme) kres" where
  "create path ty major minor s =
     bindR (nameiparent path s) (\<lambda>(r, s).
     case r of
       None \<Rightarrow> Inr (None, s)
     | Some (dp, name) \<Rightarrow>
         bindR (ilock dp s) (\<lambda>s.
         bindR (dirlookup dp name s) (\<lambda>(r, s).
         case r of
           Some (ip, _) \<Rightarrow>
             bindR (iunlockput dp s) (\<lambda>s.
             bindR (ilock ip s) (\<lambda>s.
             if ty = T_FILE \<and> i_type (inode_at s ip) = T_FILE then Inr (Some ip, s)
             else bindR (iunlockput ip s) (\<lambda>s. Inr (None, s))))
         | None \<Rightarrow> create_new dp name ty major minor s)))"

text \<open>The last part of \<open>sys_open\<close>, with the inode locked.\<close>

definition open_file :: "nat \<Rightarrow> u32 \<Rightarrow> 'z trapst_scheme \<Rightarrow> ('z trapst_scheme, int \<times> 'z trapst_scheme) kres" where
  "open_file ip omode s =
     bindR (filealloc s) (\<lambda>(f, s).
     case f of
       None \<Rightarrow> bindR (iunlockput ip s) (\<lambda>s. fail_op s)
     | Some f \<Rightarrow>
         bindR (fdalloc f s) (\<lambda>(fd, s).
         case fd of
           None \<Rightarrow> bindR (fileclose f s) (\<lambda>s. bindR (iunlockput ip s) (\<lambda>s. fail_op s))
         | Some fd \<Rightarrow>
             bindR (iunlock ip s) (\<lambda>s.
             bindR (end_op s) (\<lambda>s.
             Inr (int fd, upd_file f (\<lambda>x. x\<lparr>f_type := FD_INODE, f_ip := ip, f_off := 0,
               f_readable := (omode AND O_WRONLY = 0),
               f_writable := (omode AND O_WRONLY \<noteq> 0 \<or> omode AND O_RDWR \<noteq> 0)\<rparr>) s)))))"

definition do_open :: "u8 list \<Rightarrow> u32 \<Rightarrow> 'z trapst_scheme \<Rightarrow> ('z trapst_scheme, int \<times> 'z trapst_scheme) kres" where
  "do_open path omode s =
     bindR (begin_op [] s) (\<lambda>s.
     if omode AND O_CREATE \<noteq> 0 then
       bindR (create path T_FILE 0 0 s) (\<lambda>(ip, s).
       case ip of None \<Rightarrow> fail_op s | Some ip \<Rightarrow> open_file ip omode s)
     else
       bindR (namei path s) (\<lambda>(ip, s).
       case ip of
         None \<Rightarrow> fail_op s
       | Some ip \<Rightarrow>
           bindR (ilock ip s) (\<lambda>s.
           if i_type (inode_at s ip) = T_DIR \<and> omode \<noteq> 0
           then bindR (iunlockput ip s) (\<lambda>s. fail_op s)
           else open_file ip omode s)))"

definition sys_open :: "'z trapst_scheme \<Rightarrow> ('z trapst_scheme, int \<times> 'z trapst_scheme) kres" where
  "sys_open s =
     bindR (argstr 0 s) (\<lambda>(path, s).
     case path of
       None \<Rightarrow> Inr (-1, s)
     | Some path \<Rightarrow>
         bindR (argint 1 s) (\<lambda>(omode, s).
         case omode of None \<Rightarrow> Inr (-1, s) | Some omode \<Rightarrow> do_open path omode s))"

definition finish_create :: "nat option \<Rightarrow> 'z trapst_scheme \<Rightarrow> ('z trapst_scheme, int \<times> 'z trapst_scheme) kres" where
  "finish_create r s = (case r of
     None \<Rightarrow> fail_op s
   | Some ip \<Rightarrow> bindR (iunlockput ip s) (\<lambda>s. bindR (end_op s) (\<lambda>s. Inr (0, s))))"

definition sys_mkdir :: "'z trapst_scheme \<Rightarrow> ('z trapst_scheme, int \<times> 'z trapst_scheme) kres" where
  "sys_mkdir s =
     bindR (begin_op [] s) (\<lambda>s.
     bindR (argstr 0 s) (\<lambda>(path, s).
     bindR (case path of None \<Rightarrow> Inr (None, s) | Some path \<Rightarrow> create path T_DIR 0 0 s) (\<lambda>(r, s).
     finish_create r s)))"

definition sys_mknod :: "'z trapst_scheme \<Rightarrow> ('z trapst_scheme, int \<times> 'z trapst_scheme) kres" where
  "sys_mknod s =
     bindR (begin_op [] s) (\<lambda>s.
     bindR (argstr 0 s) (\<lambda>(path, s).
     bindR (case path of
              None \<Rightarrow> Inr (None, s)
            | Some path \<Rightarrow>
                bindR (argint 1 s) (\<lambda>(major, s).
                case major of
                  None \<Rightarrow> Inr (None, s)
                | Some major \<Rightarrow>
                    bindR (argint 2 s) (\<lambda>(minor, s).
                    case minor of
                      None \<Rightarrow> Inr (None, s)
                    | Some minor \<Rightarrow> create path T_DEV (ucast major) (ucast minor) s))) (\<lambda>(r, s).
     finish_create r s)))"

definition sys_chdir :: "'z trapst_scheme \<Rightarrow> ('z trapst_scheme, int \<times> 'z trapst_scheme) kres" where
  "sys_chdir s =
     bindR (curproc s) (\<lambda>(cp, s).
     bindR (begin_op [] s) (\<lambda>s.
     bindR (argstr 0 s) (\<lambda>(path, s).
     bindR (case path of None \<Rightarrow> Inr (None, s) | Some path \<Rightarrow> namei path s) (\<lambda>(ip, s).
     case ip of
       None \<Rightarrow> fail_op s
     | Some ip \<Rightarrow>
         bindR (ilock ip s) (\<lambda>s.
         if i_type (inode_at s ip) \<noteq> T_DIR then bindR (iunlockput ip s) (\<lambda>s. fail_op s)
         else
           bindR (iunlock ip s) (\<lambda>s.
           bindR (case cwd (proc_at s cp) of None \<Rightarrow> Inl (Panic ''trap'') | Some old \<Rightarrow> iput old s) (\<lambda>s.
           bindR (end_op s) (\<lambda>s.
           Inr (0, upd_proc cp (\<lambda>q. q\<lparr>cwd := Some ip\<rparr>) s)))))))))"

text \<open>The loop that collects the argument strings; None is the error return.\<close>

fun exec_fetch :: "nat \<Rightarrow> u32 \<Rightarrow> u8 list list \<Rightarrow> 'z ptab_scheme \<Rightarrow> ('z ptab_scheme, u8 list list option \<times> 'z ptab_scheme) kres" where
  "exec_fetch 0 a acc s = Inr (None, s)"
| "exec_fetch (Suc k) a acc s =
     bindR (fetchint a s) (\<lambda>(r, s).
     case r of
       None \<Rightarrow> Inr (None, s)
     | Some uarg \<Rightarrow>
         if uarg = 0 then Inr (Some acc, s)
         else
           bindR (fetchstr uarg s) (\<lambda>(r, s).
           case r of None \<Rightarrow> Inr (None, s) | Some str \<Rightarrow> exec_fetch k (a + 4) (acc @ [str]) s))"

definition sys_exec :: "'z trapst_scheme \<Rightarrow> ('z trapst_scheme, int \<times> 'z trapst_scheme) kres" where
  "sys_exec s =
     bindR (argstr 0 s) (\<lambda>(path, s).
     case path of
       None \<Rightarrow> Inr (-1, s)
     | Some path \<Rightarrow>
         bindR (argint 1 s) (\<lambda>(uargv, s).
         case uargv of
           None \<Rightarrow> Inr (-1, s)
         | Some uargv \<Rightarrow>
             bindR (exec_fetch MAXARG uargv [] s) (\<lambda>(argv, s).
             case argv of None \<Rightarrow> Inr (-1, s) | Some argv \<Rightarrow> exec path argv s)))"

definition sys_pipe :: "'z trapst_scheme \<Rightarrow> ('z trapst_scheme, int \<times> 'z trapst_scheme) kres" where
  "sys_pipe s =
     bindR (argptr 0 8 s) (\<lambda>(p, s).
     case p of
       None \<Rightarrow> Inr (-1, s)
     | Some p \<Rightarrow>
         bindR (pipealloc s) (\<lambda>(r, s).
         case r of
           None \<Rightarrow> Inr (-1, s)
         | Some (rfile, wfile) \<Rightarrow>
             bindR (fdalloc rfile s) (\<lambda>(fd0, s).
             bindR (case fd0 of None \<Rightarrow> Inr (None, s) | Some _ \<Rightarrow> fdalloc wfile s) (\<lambda>(fd1, s).
             case (fd0, fd1) of
               (Some fd0, Some fd1) \<Rightarrow>
                 bindR (ustore32 p (of_nat fd0) s) (\<lambda>s.
                 bindR (ustore32 (p + 4) (of_nat fd1) s) (\<lambda>s. Inr (0, s)))
             | _ \<Rightarrow>
                 bindR (case fd0 of
                          None \<Rightarrow> Inr s
                        | Some fd0 \<Rightarrow> bindR (curproc s) (\<lambda>(cp, s).
                            Inr (upd_proc cp (\<lambda>q. q\<lparr>ofile := (ofile q)[fd0 := None]\<rparr>) s))) (\<lambda>s.
                 bindR (fileclose rfile s) (\<lambda>s.
                 bindR (fileclose wfile s) (\<lambda>s. Inr (-1, s))))))))"

end
