(* ===== verification/Trap.thy ===== *)
theory Trap
  imports Sysfile
begin

unbundle bit_operations_syntax

text \<open>
  The system calls on processes (\<open>sysproc.c\<close>), the dispatch of system calls
  (\<open>syscall.c\<close>) and the trap handler (\<open>trap.c\<close>). The disk is the one of
  \<open>memide.c\<close>, whose interrupt handler does nothing. The messages \<open>trap\<close> and
  \<open>syscall\<close> print, and the acknowledgement of an interrupt to the local APIC, leave no
  trace in the state.
\<close>

section \<open>Definitions\<close>

subsection \<open>System calls on processes\<close>

definition sys_fork :: "'z trapst_scheme \<Rightarrow> ('z trapst_scheme, int \<times> 'z trapst_scheme) kres" where
  "sys_fork s = bindR (fork s) (\<lambda>(n, s). Inr (sint n, s))"

definition sys_exit :: "'z trapst_scheme \<Rightarrow> ('z trapst_scheme, int \<times> 'z trapst_scheme) kres" where
  "sys_exit s = bindR (exit s) (\<lambda>_. Inr (0, s))"

definition sys_wait :: "('z trapst_scheme \<Rightarrow> 'z trapst_scheme) list \<Rightarrow> 'z trapst_scheme \<Rightarrow> ('z trapst_scheme, int \<times> 'z trapst_scheme) kres" where
  "sys_wait envs s = bindR (wait envs s) (\<lambda>(n, s). Inr (sint n, s))"

definition sys_kill :: "'z trapst_scheme \<Rightarrow> ('z trapst_scheme, int \<times> 'z trapst_scheme) kres" where
  "sys_kill s =
     bindR (argint 0 s) (\<lambda>(r, s).
     case r of None \<Rightarrow> Inr (-1, s) | Some n \<Rightarrow> kill n s)"

definition sys_getpid :: "'z trapst_scheme \<Rightarrow> ('z trapst_scheme, int \<times> 'z trapst_scheme) kres" where
  "sys_getpid s = bindR (curproc s) (\<lambda>(cp, s). Inr (sint (pid (proc_at s cp)), s))"

definition sys_sbrk :: "'z trapst_scheme \<Rightarrow> ('z trapst_scheme, int \<times> 'z trapst_scheme) kres" where
  "sys_sbrk s =
     bindR (argint 0 s) (\<lambda>(r, s).
     case r of
       None \<Rightarrow> Inr (-1, s)
     | Some n \<Rightarrow>
         bindR (curproc s) (\<lambda>(cp, s).
         let addr = sz (proc_at s cp)
         in bindR (growproc n s) (\<lambda>(r, s).
            if r < 0 then Inr (-1, s) else Inr (sint addr, s))))"

text \<open>The comparison of \<open>ticks - ticks0\<close> with \<open>n\<close> is on unsigned numbers.\<close>

fun sys_sleep_loop :: "u32 \<Rightarrow> u32 \<Rightarrow> ('z trapst_scheme \<Rightarrow> 'z trapst_scheme) list \<Rightarrow> 'z trapst_scheme \<Rightarrow>
    ('z trapst_scheme, int \<times> 'z trapst_scheme) kres" where
  "sys_sleep_loop ticks0 n envs s =
     (if ticks s - ticks0 < n then
        bindR (curproc s) (\<lambda>(cp, s).
        if killed (proc_at s cp) then bindR (release L_ticks s) (\<lambda>s. Inr (-1, s))
        else bindR (sleep_enter Ch_ticks L_ticks s) (\<lambda>((p, fl), s).
          case envs of [] \<Rightarrow> Inl (Sleeping Ch_ticks s)
          | env # envs \<Rightarrow> bindR (sleep_leave p fl L_ticks (env s)) (\<lambda>s. sys_sleep_loop ticks0 n envs s)))
      else bindR (release L_ticks s) (\<lambda>s. Inr (0, s)))"

declare sys_sleep_loop.simps [simp del]

definition sys_sleep :: "('z trapst_scheme \<Rightarrow> 'z trapst_scheme) list \<Rightarrow> 'z trapst_scheme \<Rightarrow> ('z trapst_scheme, int \<times> 'z trapst_scheme) kres" where
  "sys_sleep envs s =
     bindR (argint 0 s) (\<lambda>(r, s).
     case r of
       None \<Rightarrow> Inr (-1, s)
     | Some n \<Rightarrow> bindR (acquire L_ticks s) (\<lambda>s. sys_sleep_loop (ticks s) n envs s))"

definition sys_uptime :: "'z trapst_scheme \<Rightarrow> ('z trapst_scheme, int \<times> 'z trapst_scheme) kres" where
  "sys_uptime s =
     bindR (acquire L_ticks s) (\<lambda>s.
     let xticks = ticks s
     in bindR (release L_ticks s) (\<lambda>s. Inr (sint xticks, s)))"

definition sys_change_prio :: "'z trapst_scheme \<Rightarrow> ('z trapst_scheme, int \<times> 'z trapst_scheme) kres" where
  "sys_change_prio s =
     bindR (argint 0 s) (\<lambda>(r, s).
     case r of
       None \<Rightarrow> Inr (-1, s)
     | Some prio \<Rightarrow>
         if prio \<noteq> 1 \<and> prio \<noteq> 2 \<and> prio \<noteq> 3 then Inr (-1, s) else change_prio prio s)"

definition sys_wait2 :: "('z trapst_scheme \<Rightarrow> 'z trapst_scheme) list \<Rightarrow> 'z trapst_scheme \<Rightarrow> ('z trapst_scheme, int \<times> 'z trapst_scheme) kres" where
  "sys_wait2 envs s =
     bindR (argptr 0 4 s) (\<lambda>(a, s).
     case a of
       None \<Rightarrow> Inr (-1, s)
     | Some a \<Rightarrow>
         bindR (argptr 1 4 s) (\<lambda>(b, s).
         case b of
           None \<Rightarrow> Inr (-1, s)
         | Some b \<Rightarrow>
             bindR (argptr 2 4 s) (\<lambda>(c, s).
             case c of
               None \<Rightarrow> Inr (-1, s)
             | Some c \<Rightarrow> bindR (wait2 a b c envs s) (\<lambda>(n, s). Inr (sint n, s)))))"

definition sys_yield2 :: "('z trapst_scheme \<Rightarrow> 'z trapst_scheme) list \<Rightarrow> 'z trapst_scheme \<Rightarrow> ('z trapst_scheme, int \<times> 'z trapst_scheme) kres" where
  "sys_yield2 envs s = bindR (yield envs s) (\<lambda>s. Inr (1, s))"

definition sys_set_prio :: "'z trapst_scheme \<Rightarrow> ('z trapst_scheme, int \<times> 'z trapst_scheme) kres" where
  "sys_set_prio s = bindR (set_prio s) (\<lambda>(n, s). Inr (sint n, s))"

definition sys_wait3 :: "('z trapst_scheme \<Rightarrow> 'z trapst_scheme) list \<Rightarrow> 'z trapst_scheme \<Rightarrow> ('z trapst_scheme, int \<times> 'z trapst_scheme) kres" where
  "sys_wait3 envs s =
     bindR (argptr 0 4 s) (\<lambda>(a, s).
     case a of
       None \<Rightarrow> Inr (-1, s)
     | Some a \<Rightarrow> bindR (wait3 a envs s) (\<lambda>(n, s). Inr (sint n, s)))"

subsection \<open>Dispatch\<close>

text \<open>The table \<open>syscalls\<close>; None stands for a number without an entry.\<close>

definition syscalls :: "int \<Rightarrow> ('z trapst_scheme \<Rightarrow> 'z trapst_scheme) list \<Rightarrow>
    ('z trapst_scheme \<Rightarrow> ('z trapst_scheme, int \<times> 'z trapst_scheme) kres) option" where
  "syscalls num envs =
     (if num = 1 then Some sys_fork else if num = 2 then Some sys_exit else if num = 3 then Some (sys_wait envs)
      else if num = 4 then Some sys_pipe else if num = 5 then Some (sys_read envs) else if num = 6 then Some sys_kill
      else if num = 7 then Some sys_exec else if num = 8 then Some sys_fstat else if num = 9 then Some sys_chdir
      else if num = 10 then Some sys_dup else if num = 11 then Some sys_getpid else if num = 12 then Some sys_sbrk
      else if num = 13 then Some (sys_sleep envs) else if num = 14 then Some sys_uptime
      else if num = 15 then Some sys_open else if num = 16 then Some (sys_write envs)
      else if num = 17 then Some sys_mknod else if num = 18 then Some sys_unlink else if num = 19 then Some sys_link
      else if num = 20 then Some sys_mkdir else if num = 21 then Some sys_close
      else if num = 22 then Some sys_change_prio else if num = 23 then Some (sys_wait2 envs)
      else if num = 24 then Some (sys_yield2 envs) else if num = 25 then Some sys_set_prio
      else if num = 26 then Some (sys_wait3 envs) else None)"

definition syscall :: "('z trapst_scheme \<Rightarrow> 'z trapst_scheme) list \<Rightarrow> 'z trapst_scheme \<Rightarrow> ('z trapst_scheme, 'z trapst_scheme) kres" where
  "syscall envs s =
     bindR (curproc s) (\<lambda>(cp, s).
     let num = sint (load32 (mem s) (tf (proc_at s cp) + 28))
     in bindR (case syscalls num envs of None \<Rightarrow> Inr (-1, s) | Some f \<Rightarrow> f s) (\<lambda>(r, s).
        Inr (s\<lparr>mem := store32 (mem s) (tf (proc_at s cp) + 28) (word_of_int r)\<rparr>)))"

subsection \<open>Traps\<close>

abbreviation (input) T_SYSCALL :: u32 where "T_SYSCALL \<equiv> 64"
abbreviation (input) T_IRQ0 :: u32 where "T_IRQ0 \<equiv> 32"

text \<open>\<open>exit\<close> does not return, so what follows it does not matter.\<close>

definition exit_if :: "bool \<Rightarrow> 'z trapst_scheme \<Rightarrow> ('z trapst_scheme, 'z trapst_scheme) kres" where
  "exit_if b s = (if b then bindR (exit s) (\<lambda>_. Inr s) else Inr s)"

text \<open>The tests on the current process: it was killed, and the trap came from user mode.\<close>

definition killed_in_user :: "u32 \<Rightarrow> 'z trapst_scheme \<Rightarrow> ('z trapst_scheme, bool \<times> 'z trapst_scheme) kres" where
  "killed_in_user tfa s =
     bindR (myproc s) (\<lambda>(p, s).
     Inr (case p of None \<Rightarrow> False | Some p \<Rightarrow> killed (proc_at s p) \<and> mem s (tfa + 60) AND 3 = 3, s))"

definition timer_tick :: "'z trapst_scheme \<Rightarrow> ('z trapst_scheme, 'z trapst_scheme) kres" where
  "timer_tick s =
     bindR (cpuid s) (\<lambda>c.
     if c = 0 then
       bindR (acquire L_ticks s) (\<lambda>s.
       bindR (wakeup Ch_ticks (s\<lparr>ticks := ticks s + 1\<rparr>)) (\<lambda>s.
       release L_ticks s))
     else Inr s)"

text \<open>The switch on the trap number; \<open>kbd\<close> and \<open>com\<close> are the bytes those devices have ready.\<close>

definition trap_switch :: "u32 \<Rightarrow> u8 list \<Rightarrow> u8 list \<Rightarrow> 'z trapst_scheme \<Rightarrow> ('z trapst_scheme, 'z trapst_scheme) kres" where
  "trap_switch tfa kbd com s =
     (let trapno = load32 (mem s) (tfa + 48)
      in if trapno = T_IRQ0 then timer_tick s
         else if trapno = T_IRQ0 + 14 then Inr s
         else if trapno = T_IRQ0 + 15 then Inr s
         else if trapno = T_IRQ0 + 1 then kbdintr kbd s
         else if trapno = T_IRQ0 + 4 then uartintr com s
         else if trapno = T_IRQ0 + 7 \<or> trapno = T_IRQ0 + 31 then Inr s
         else
           bindR (myproc s) (\<lambda>(p, s).
           case p of
             None \<Rightarrow> Inl (Panic ''trap'')
           | Some p \<Rightarrow>
               if mem s (tfa + 60) AND 3 = 0 then Inl (Panic ''trap'')
               else Inr (upd_proc p (\<lambda>q. q\<lparr>killed := True\<rparr>) s)))"

text \<open>A clock tick takes one unit off the time slice of the running process, or preempts it.\<close>

definition trap_preempt :: "u32 \<Rightarrow> ('z trapst_scheme \<Rightarrow> 'z trapst_scheme) list \<Rightarrow> 'z trapst_scheme \<Rightarrow> ('z trapst_scheme, 'z trapst_scheme) kres" where
  "trap_preempt tfa envs s =
     bindR (myproc s) (\<lambda>(p, s).
     case p of
       None \<Rightarrow> Inr s
     | Some p \<Rightarrow>
         if state (proc_at s p) = RUNNING \<and> load32 (mem s) (tfa + 48) = T_IRQ0 then
           if time_slice (proc_at s p) \<noteq> 0
           then Inr (upd_proc p (\<lambda>q. q\<lparr>time_slice := time_slice q - 1\<rparr>) s)
           else yield envs s
         else Inr s)"

definition trap :: "u32 \<Rightarrow> u8 list \<Rightarrow> u8 list \<Rightarrow> ('z trapst_scheme \<Rightarrow> 'z trapst_scheme) list \<Rightarrow> 'z trapst_scheme \<Rightarrow>
    ('z trapst_scheme, 'z trapst_scheme) kres" where
  "trap tfa kbd com envs s =
     (if load32 (mem s) (tfa + 48) = T_SYSCALL then
        bindR (curproc s) (\<lambda>(p, s).
        bindR (exit_if (killed (proc_at s p)) s) (\<lambda>s.
        bindR (syscall envs (upd_proc p (\<lambda>q. q\<lparr>tf := tfa\<rparr>) s)) (\<lambda>s.
        exit_if (killed (proc_at s p)) s)))
      else
        bindR (trap_switch tfa kbd com s) (\<lambda>s.
        bindR (killed_in_user tfa s) (\<lambda>(b, s).
        bindR (exit_if b s) (\<lambda>s.
        bindR (trap_preempt tfa envs s) (\<lambda>s.
        bindR (killed_in_user tfa s) (\<lambda>(b, s).
        exit_if b s))))))"

text \<open>Interrupt gates, as \<open>SETGATE\<close> builds them.\<close>

record gatedesc =
  gd_off_15_0 :: u16
  gd_cs :: u16
  gd_args :: "5 word"
  gd_rsv1 :: "3 word"
  gd_type :: "4 word"
  gd_s :: "1 word"
  gd_dpl :: "2 word"
  gd_p :: "1 word"
  gd_off_31_16 :: u16

definition SETGATE :: "bool \<Rightarrow> u16 \<Rightarrow> u32 \<Rightarrow> 2 word \<Rightarrow> gatedesc" where
  "SETGATE istrap sel off d =
     \<lparr>gd_off_15_0 = ucast (off AND 0xffff), gd_cs = sel, gd_args = 0, gd_rsv1 = 0,
      gd_type = (if istrap then 0xF else 0xE), gd_s = 0, gd_dpl = d, gd_p = 1,
      gd_off_31_16 = ucast (drop_bit 16 off)\<rparr>"

text \<open>The table \<open>idt\<close> that \<open>tvinit\<close> fills, for given entry points.\<close>

definition tvinit_idt :: "(nat \<Rightarrow> u32) \<Rightarrow> gatedesc list" where
  "tvinit_idt vectors =
     (map (\<lambda>i. SETGATE False 8 (vectors i) 0) [0..<256])[64 := SETGATE True 8 (vectors 64) 3]"

end
