(* ===== verification/Proc_Sync.thy ===== *)
theory Proc_Sync
  imports Proc
begin

unbundle bit_operations_syntax

text \<open>
  The process table as its users see it: sleeping and waking up without losing a wakeup,
  \<open>kill\<close>, \<open>change_prio\<close> and the creation of processes by \<open>allocproc\<close>. The lemmas are
  about states in which the executing processor works undisturbed (\<open>calm\<close>), where a
  critical section that is closed again leaves no trace.
\<close>

section \<open>Definitions\<close>

text \<open>The state of a process that went to sleep, with the table locked.\<close>

definition asleep :: "nat \<Rightarrow> chan \<Rightarrow> 'z ptab_scheme \<Rightarrow> 'z ptab_scheme" where
  "asleep p ch s = upd_proc p (\<lambda>q. q\<lparr>p_chan := Some ch, state := SLEEPING\<rparr>) s"

text \<open>The slot \<open>allocproc\<close> takes: the first that is unused.\<close>

definition free_slot :: "'z ptab_scheme \<Rightarrow> nat \<Rightarrow> bool" where
  "free_slot s p \<longleftrightarrow> p < NPROC \<and> state (proc_at s p) = UNUSED \<and> (\<forall>i<p. state (proc_at s i) \<noteq> UNUSED)"

text \<open>The words \<open>allocproc\<close> leaves on a new kernel stack.\<close>

definition new_stack :: "memory \<Rightarrow> u32 \<Rightarrow> u32 \<Rightarrow> u32 \<Rightarrow> memory" where
  "new_stack m k tr fr = store32 (memset (store32 m (k + 4016) tr) (k + 3996) 0 20) (k + 4012) fr"

text \<open>A new process in slot \<open>q\<close> with the kernel stack at \<open>k\<close>.\<close>

definition newborn :: "u32 \<Rightarrow> u32 \<Rightarrow> proc \<Rightarrow> proc" where
  "newborn n k q = q\<lparr>state := EMBRYO, pid := n, priority := 2, retime := 0, rutime := 0, stime := 0, ctime := 0,
     queue_time := 0, kstack := k, tf := k + 4020, p_context := k + 3996\<rparr>"

text \<open>Process \<open>p\<close> runs kernel code on this processor, outside every critical section.\<close>

definition runs :: "nat \<Rightarrow> 'z ptab_scheme \<Rightarrow> bool" where
  "runs p s \<longleftrightarrow> calm s \<and> depth s = 0 \<and> cur s = Some p \<and> length (procs s) = NPROC \<and> p < NPROC"

text \<open>The first slot with a given pid, whatever its state.\<close>

definition pid_slot :: "'z ptab_scheme \<Rightarrow> u32 \<Rightarrow> nat \<Rightarrow> bool" where
  "pid_slot s n i \<longleftrightarrow> i < NPROC \<and> pid (proc_at s i) = n \<and> (\<forall>j<i. pid (proc_at s j) \<noteq> n)"

definition kill_mark :: "proc \<Rightarrow> proc" where
  "kill_mark p = p\<lparr>killed := True, state := (if state p = SLEEPING then RUNNABLE else state p)\<rparr>"

text \<open>Live processes have different pids, all below the next one to give out.\<close>

definition pids_ok :: "'z ptab_scheme \<Rightarrow> bool" where
  "pids_ok s \<longleftrightarrow> length (procs s) = NPROC \<and> pids_distinct s \<and>
     (\<forall>i<NPROC. state (proc_at s i) \<noteq> UNUSED \<longrightarrow> 0 < pid (proc_at s i) \<and> pid (proc_at s i) < nextpid s)"

text \<open>The demonstration table with process 2 (slot 1) running on this processor, and a free page.\<close>

definition demo_run :: ptab where
  "demo_run = demo_ptab\<lparr>cpus := upd_nth 1 (\<lambda>c. c\<lparr>cpu_proc := Some 1\<rparr>) (cpus demo_ptab),
     procs := upd_nth 1 (\<lambda>p. p\<lparr>state := RUNNING\<rparr>) (procs demo_ptab), freelist := 0x80480000\<rparr>"

section \<open>Two sections at once\<close>

lemma acquired_commute:
  assumes "cpu_ok s" and "lk \<noteq> lk'"
  shows "acquired lk (acquired lk' s) = acquired lk' (acquired lk s)"
proof -
  have c: "this_cpu s < length (cpus s)" "0 \<le> ncli (cpus s ! this_cpu s)"
    using assms(1) by (simp_all add: cpu_ok_def depth_def)
  show ?thesis
    using assms(2) c
    by (intro mach.equality)
      (simp_all add: acquired_def [of lk "acquired lk' s"] acquired_def [of lk' "acquired lk s"] pushed_def,
       simp_all add: acquired_def pushed_def fun_upd_twist)
qed

lemma release_outer:
  assumes "calm s" and "lock_free lk s" and "lock_free lk' s" and "lk \<noteq> lk'"
  shows "release lk (acquired lk' (acquired lk s)) = Inr (acquired lk' s)"
  using assms by (simp add: acquired_commute [OF calm_cpu_ok, of s lk' lk])

lemma myproc_calm [simp]: "calm s \<Longrightarrow> myproc s = Inr (cur s, s)"
proof -
  assume c: "calm s"
  have ok: "cpu_ok s" and n: "noted s = s" using c by (simp_all add: calm_def)
  have "mycpu (pushed s) = Inr (this_cpu s)" using ok by (simp add: mycpu_this)
  moreover have "cpu_proc (cpus (pushed s) ! this_cpu s) = cur s"
    by (simp add: cur_def pushed_def cpu_proc_upd_nth enter_cli_def)
  moreover have "popcli (pushed s) = Inr s"
    using ok n by (simp add: popcli_ok cpu_ok_depth popped_pushed)
  ultimately show ?thesis by (simp add: myproc_def pushcli_ok [OF ok])
qed

lemma curproc_calm [simp]: "calm s \<Longrightarrow> cur s = Some p \<Longrightarrow> curproc s = Inr (p, s)"
  by (simp add: curproc_def)

lemma upd_proc_acquired [simp]: "upd_proc i f (acquired lk s) = acquired lk (upd_proc i f s)"
  by (simp add: upd_proc_def)

lemma upd_proc_calm [simp]:
  "calm (upd_proc i f s) = calm s" "cur (upd_proc i f s) = cur s" "lock_free lk (upd_proc i f s) = lock_free lk s"
  by (simp_all add: upd_proc_def)

lemma wakeup1_acquired [simp]: "wakeup1 ch (acquired lk s) = acquired lk (wakeup1 ch s)"
  by (simp add: wakeup1_def)

lemma wakeup1_calm [simp]:
  "calm (wakeup1 ch s) = calm s" "cur (wakeup1 ch s) = cur s" "lock_free lk (wakeup1 ch s) = lock_free lk s"
  by (simp_all add: wakeup1_def)

lemma wakeup_calm [simp]:
  "calm s \<Longrightarrow> lock_free L_ptable s \<Longrightarrow> wakeup ch s = Inr (wakeup1 (Some ch) s)"
  by (simp add: wakeup_def)

section \<open>Giving up the processor\<close>

lemma depth_same: "depth (upd_proc i f s) = depth s" "depth (wakeup1 ch s) = depth s"
  by (rule mach_same_facts, simp add: wakeup1_def upd_proc_def mach_same_def)+

lemma eflags_wakeup1 [simp]: "eflags_if (wakeup1 ch s) = eflags_if s"
  by (simp add: wakeup1_def)

lemma sched_enter_acquired:
  assumes "calm s" and "depth s = 0" and "cur s = Some p" and "state (proc_at s p) \<noteq> RUNNING"
  shows "sched_enter (acquired L_ptable s) = Inr (eflags_if s, acquired L_ptable s)"
proof -
  have ok: "cpu_ok s" using assms(1) by (simp add: calm_def)
  have c: "this_cpu s < length (cpus s)" using ok by (simp add: cpu_ok_def)
  have "ncli (cpus s ! this_cpu s) = 0" using assms(2) by (simp add: depth_def)
  then have "ncli (cpus (acquired L_ptable s) ! this_cpu s) = 1"
    "intena (cpus (acquired L_ptable s) ! this_cpu s) = eflags_if s"
    using c by (simp_all add: acquired_def pushed_def enter_cli_def)
  moreover have "mycpu (acquired L_ptable s) = Inr (this_cpu s)" using ok by (simp add: mycpu_this)
  ultimately show ?thesis
    using assms ok by (simp add: sched_enter_def)
qed

lemma sleep_enter_acquired:
  assumes "calm s" and "depth s = 0" and "cur s = Some p" and "p < length (procs s)"
    and "lock_free lk s" and "lock_free L_ptable s"
  shows "sleep_enter ch lk (acquired lk s) = Inr ((p, eflags_if s), acquired L_ptable (asleep p ch s))"
proof -
  have "sched_enter (acquired L_ptable (asleep p ch s)) = Inr (eflags_if s, acquired L_ptable (asleep p ch s))"
    using assms(1-4) sched_enter_acquired [of "asleep p ch s" p] by (simp add: asleep_def depth_same)
  moreover have "acquire L_ptable (acquired lk s) = Inr (acquired L_ptable (acquired lk s))"
    "release lk (acquired L_ptable (acquired lk s)) = Inr (acquired L_ptable s)" if "lk \<noteq> L_ptable"
    using assms(1,5,6) that by (simp_all add: release_outer)
  ultimately show ?thesis
    using assms(1,3) by (cases "lk = L_ptable") (simp_all add: sleep_enter_def asleep_def)
qed

lemma sched_leave_acquired:
  assumes "calm s" and "depth s = 0"
  shows "sched_leave (eflags_if s) (acquired L_ptable s) = Inr (acquired L_ptable s)"
proof -
  have ok: "cpu_ok s" using assms(1) by (simp add: calm_def)
  have "this_cpu s < length (cpus s)" "ncli (cpus s ! this_cpu s) = 0"
    using ok assms(2) by (simp_all add: cpu_ok_def depth_def)
  then have "upd_cpu (this_cpu s) (\<lambda>x. x\<lparr>intena := eflags_if s\<rparr>) (acquired L_ptable s) = acquired L_ptable s"
    by (simp add: upd_cpu_def cpus_upd_id) (simp add: acquired_def pushed_def upd_nth_id enter_cli_def)
  then show ?thesis using ok by (simp add: sched_leave_def mycpu_this)
qed

lemma sleep_leave_acquired:
  assumes "calm s" and "depth s = 0" and "lock_free lk s" and "lock_free L_ptable s"
  shows "sleep_leave p (eflags_if s) lk (acquired L_ptable s) =
    Inr (acquired lk (upd_proc p (\<lambda>q. q\<lparr>p_chan := None\<rparr>) s))"
  using assms by (simp add: sleep_leave_def sched_leave_acquired Let_def)

section \<open>New processes\<close>

lemma free_slot_find:
  "free_slot s p \<Longrightarrow> find (\<lambda>i. state (proc_at s i) = UNUSED) [0..<NPROC] = Some p"
  by (simp add: free_slot_def find_upt_Some)

lemma upd_proc_proc_at:
  "p < length (procs s) \<Longrightarrow> proc_at (upd_proc p f s) i = (if i = p then f (proc_at s p) else proc_at s i)"
  by (auto simp: upd_proc_def upd_nth_def)

lemma new_stack_above: "load32 (new_stack m k tr fr) (k + 4016) = tr"
proof -
  have "new_stack m k tr fr (k + 4016 + i) = store32 m (k + 4016) tr (k + 4016 + i)" if "unat i < 4" for i
  proof -
    have a: "k + 4016 + i - (k + 4012) = i + 4" "k + 4016 + i - (k + 3996) = i + 20" by simp_all
    have "4 \<le> i + 4" "\<not> i + 20 < 20" using that by (auto simp: u32_nat)
    then show ?thesis by (simp only: new_stack_def memset_apply a store32_other if_False)
  qed
  from this [of 0] this [of 1] this [of 2] this [of 3]
  have "load32 (new_stack m k tr fr) (k + 4016) = load32 (store32 m (k + 4016) tr) (k + 4016)"
    by (simp add: load32_def)
  then show ?thesis by simp
qed

lemma new_stack_zero:
  assumes "j < 4"
  shows "load32 (new_stack m k tr fr) (k + 3996 + of_nat (4 * j)) = 0"
proof -
  have z: "new_stack m k tr fr (k + 3996 + of_nat i) = 0" if "i < 16" for i
  proof -
    have a: "k + 3996 + of_nat i - (k + 4012) = of_nat i - 16" "k + 3996 + of_nat i - (k + 3996) = (of_nat i :: u32)"
      by simp_all
    have "4 \<le> (of_nat i :: u32) - 16" "(of_nat i :: u32) < 20"
      using that by (auto simp: u32_nat unat_of_nat_u32)
    then show ?thesis by (simp only: new_stack_def memset_apply a store32_other if_True) simp
  qed
  show ?thesis
    using z [of "4 * j"] z [of "4 * j + 1"] z [of "4 * j + 2"] z [of "4 * j + 3"] assms
    by (simp add: load32_def add.assoc)
qed

lemma new_stack_outside:
  assumes "4096 \<le> a - k"
  shows "new_stack m k tr fr a = m a"
proof -
  have "4 \<le> a - k - 4012" "4 \<le> a - k - 4016" "\<not> a - k - 3996 < 20"
    using assms by (auto simp: u32_nat)
  then show ?thesis by (simp add: new_stack_def memset_apply store32_other diff_diff_eq)
qed

lemma upd_proc_compose: "upd_proc i f (upd_proc i g s) = upd_proc i (f \<circ> g) s"
  by (simp add: upd_proc_def upd_nth_compose)

lemma upd_proc_mem [simp]:
  "(upd_proc i f s)\<lparr>mem := m\<rparr> = upd_proc i f (s\<lparr>mem := m\<rparr>)"
  "(upd_proc i f s)\<lparr>freelist := l\<rparr> = upd_proc i f (s\<lparr>freelist := l\<rparr>)"
  "(upd_proc i f s)\<lparr>nextpid := n\<rparr> = upd_proc i f (s\<lparr>nextpid := n\<rparr>)"
  "ld_trapret (upd_proc i f s) = ld_trapret s" "ld_forkret (upd_proc i f s) = ld_forkret s"
  "ld_end (upd_proc i f s) = ld_end s"
  by (simp_all add: upd_proc_def)

lemma allocproc_calm:
  assumes "calm s" and "lock_free L_ptable s" and "lock_free L_kmem s" and "free_slot s p" and "freelist s \<noteq> 0"
  shows "allocproc s = Inr (Some p, (upd_proc p (newborn (nextpid s) (freelist s)) s)\<lparr>nextpid := nextpid s + 1,
    freelist := load32 (mem s) (freelist s), mem := new_stack (mem s) (freelist s) (ld_trapret s) (ld_forkret s)\<rparr>)"
  using assms
  by (simp add: allocproc_def kalloc_calm mem_calm_def free_slot_find Let_def upd_proc_compose comp_def new_stack_def
    newborn_def [abs_def] add.commute)

lemma allocproc_no_page:
  assumes "calm s" and "lock_free L_ptable s" and "lock_free L_kmem s" and "free_slot s p" and "freelist s = 0"
  shows "allocproc s = Inr (None, (upd_proc p (\<lambda>q. q\<lparr>pid := nextpid s, priority := 2, retime := 0, rutime := 0,
    stime := 0, ctime := 0, queue_time := 0, kstack := 0, state := UNUSED\<rparr>) s)\<lparr>nextpid := nextpid s + 1\<rparr>)"
proof -
  have id: "s\<lparr>nextpid := n, freelist := 0\<rparr> = s\<lparr>nextpid := n\<rparr>" for n
    using assms(5) by (intro ptab.equality) simp_all
  show ?thesis
    using assms by (simp add: allocproc_def kalloc_calm mem_calm_def free_slot_find Let_def upd_proc_compose comp_def id)
qed

lemma allocproc_full:
  assumes "calm s" and "lock_free L_ptable s" and "\<forall>i<NPROC. state (proc_at s i) \<noteq> UNUSED"
  shows "allocproc s = Inr (None, s)"
proof -
  have "find (\<lambda>i. state (proc_at s i) = UNUSED) [0..<NPROC] = None"
    using assms(3) by (simp add: find_upt_None)
  then show ?thesis using assms(1,2) by (simp add: allocproc_def)
qed

lemma kmem_inv_new_stack:
  assumes "kmem_inv (k # ks) s" and "ld_end t = ld_end s" and "freelist t = load32 (mem s) (freelist s)"
    and "mem t = new_stack (mem s) (freelist s) tr fr"
  shows "kmem_inv ks t"
proof -
  have k: "freelist s = k" using assms(1) by (simp add: kmem_inv_def)
  have "load32 (mem t) p = load32 (mem s) p" if "p \<in> set ks" for p
  proof (rule load32_other_page [of k p])
    show "k mod 4096 = 0" "p mod 4096 = 0" "k \<noteq> p"
      using assms(1) that by (auto simp only: kmem_inv_def phys_page_def list.set distinct.simps)
    show "mem t a = mem s a" if "4096 \<le> a - k" for a
      using that by (simp add: assms(4) k new_stack_outside)
  qed
  then show ?thesis
    using assms(1-3) k by (auto simp: kmem_inv_def intro: run_list_frame [of "mem s"])
qed

section \<open>The running process\<close>

lemma runsD: "runs p s \<Longrightarrow> calm s" "runs p s \<Longrightarrow> depth s = 0" "runs p s \<Longrightarrow> cur s = Some p"
  "runs p s \<Longrightarrow> length (procs s) = NPROC" "runs p s \<Longrightarrow> p < NPROC"
  by (simp_all add: runs_def)

lemma runs_upd_proc [simp]: "runs p (upd_proc i f s) = runs p s"
  by (simp add: runs_def depth_same)

lemma wakeup1_proc_at:
  "i < length (procs s) \<Longrightarrow> proc_at (wakeup1 ch s) i =
   (if state (proc_at s i) = SLEEPING \<and> p_chan (proc_at s i) = ch then (proc_at s i)\<lparr>state := RUNNABLE\<rparr>
    else proc_at s i)"
  by (simp add: wakeup1_def)

lemma sleep_calm:
  assumes "runs p s" and "lock_free lk s" and "lock_free L_ptable s"
    and "env (acquired L_ptable (asleep p ch s)) = acquired L_ptable t"
    and "calm t" and "depth t = 0" and "eflags_if t = eflags_if s"
    and "lock_free lk t" and "lock_free L_ptable t"
  shows "sleep ch lk (env # envs) (acquired lk s) =
    Inr (envs, acquired lk (upd_proc p (\<lambda>q. q\<lparr>p_chan := None\<rparr>) t))"
  using sleep_leave_acquired [OF assms(5,6,8,9), of p] assms(2-4,7) runsD [OF assms(1)]
  by (simp add: sleep_def sleep_enter_acquired)

lemma yield_calm:
  assumes "runs p s" and "lock_free L_ptable s"
  shows "yield [] s = Inl (Switched (acquired L_ptable (upd_proc p (\<lambda>q. q\<lparr>state := RUNNABLE\<rparr>) s)))"
    and "env (acquired L_ptable (upd_proc p (\<lambda>q. q\<lparr>state := RUNNABLE\<rparr>) s)) = acquired L_ptable t \<Longrightarrow> calm t \<Longrightarrow>
      depth t = 0 \<Longrightarrow> eflags_if t = eflags_if s \<Longrightarrow> lock_free L_ptable t \<Longrightarrow> yield (env # envs) s = Inr t"
proof -
  let ?u = "upd_proc p (\<lambda>q. q\<lparr>state := RUNNABLE\<rparr>) s"
  have e: "sched_enter (acquired L_ptable ?u) = Inr (eflags_if s, acquired L_ptable ?u)"
    using sched_enter_acquired [of ?u p] runsD [OF assms(1)] by (simp add: depth_same upd_nth_nth)
  show "yield [] s = Inl (Switched (acquired L_ptable ?u))"
    using assms(2) e runsD [OF assms(1)] by (simp add: yield_def sched_def)
  show "yield (env # envs) s = Inr t"
    if "env (acquired L_ptable ?u) = acquired L_ptable t" "calm t" "depth t = 0" "eflags_if t = eflags_if s"
      "lock_free L_ptable t"
    using that assms(2) e runsD [OF assms(1)] sched_leave_acquired [of t] by (simp add: yield_def sched_def)
qed

section \<open>Kill and priorities\<close>

lemma pid_slot_find: "find (\<lambda>i. pid (proc_at s i) = n) [0..<NPROC] = Some i \<longleftrightarrow> pid_slot s n i"
  by (simp add: find_upt_Some pid_slot_def)

lemma kill_calm:
  assumes "calm s" and "lock_free L_ptable s" and "length (procs s) = NPROC" and "pid_slot s n i"
  shows "kill n s = Inr (0, upd_proc i kill_mark s)"
proof -
  have f: "find (\<lambda>i. pid (proc_at s i) = n) [0..<NPROC] = Some i"
    using assms(4) by (simp add: pid_slot_find)
  have i: "i < length (procs s)" using assms(3,4) by (simp add: pid_slot_def)
  have "upd_proc i kill_mark s = upd_proc i (\<lambda>p. p\<lparr>killed := True\<rparr>) s" if "state (proc_at s i) \<noteq> SLEEPING"
    using that by (simp add: upd_proc_def kill_mark_def upd_nth_def)
  moreover have "upd_proc i kill_mark s =
      upd_proc i (\<lambda>p. p\<lparr>state := RUNNABLE\<rparr>) (upd_proc i (\<lambda>p. p\<lparr>killed := True\<rparr>) s)" if "state (proc_at s i) = SLEEPING"
    using that i by (simp add: upd_proc_def kill_mark_def upd_nth_def)
  ultimately show ?thesis
    using assms(1,2) f i by (auto simp: kill_def Let_def upd_nth_nth)
qed

lemma kill_none:
  assumes "calm s" and "lock_free L_ptable s" and "\<forall>i<NPROC. pid (proc_at s i) \<noteq> n"
  shows "kill n s = Inr (-1, s)"
proof -
  have "find (\<lambda>i. pid (proc_at s i) = n) [0..<NPROC] = None" using assms(3) by (simp add: find_upt_None)
  then show ?thesis using assms(1,2) by (simp add: kill_def)
qed

lemma change_prio_calm:
  assumes "runs p s" and "lock_free L_ptable s" and "pid_slot s (pid (proc_at s p)) p"
  shows "change_prio prio s = Inr (0, upd_proc p (\<lambda>q. q\<lparr>priority := prio\<rparr>) s)"
proof -
  have "find (\<lambda>i. pid (proc_at s i) = pid (proc_at s p)) [0..<NPROC] = Some p"
    using assms(3) by (simp only: pid_slot_find)
  then show ?thesis using assms(2) runsD [OF assms(1)] by (simp add: change_prio_def Let_def)
qed

section \<open>Process identifiers\<close>

lemma pids_ok_new:
  assumes "pids_ok s" and "p < NPROC" and "0 < nextpid s" and "nextpid s < 0xFFFFFFFF"
    and "length (procs t) = NPROC" and "nextpid t = nextpid s + 1"
    and "\<And>i. i < NPROC \<Longrightarrow> i \<noteq> p \<Longrightarrow> proc_at t i = proc_at s i"
    and "state (proc_at t p) \<noteq> UNUSED \<Longrightarrow> pid (proc_at t p) = nextpid s"
  shows "pids_ok t"
proof -
  have lt: "nextpid s < nextpid s + 1"
    using assms(4) by (simp add: word_less_nat_alt unat_u32_add)
  have old: "pid (proc_at t i) < nextpid s" "0 < pid (proc_at t i)"
    if "i < NPROC" "i \<noteq> p" "state (proc_at t i) \<noteq> UNUSED" for i
    using assms(1,7) that by (auto simp: pids_ok_def)
  have new: "pid (proc_at t p) < nextpid t" "0 < pid (proc_at t p)" if "state (proc_at t p) \<noteq> UNUSED"
    using assms(3,6,8) that lt by simp_all
  have "pids_distinct t"
    using assms(1,7,8) old by (auto simp: pids_ok_def pids_distinct_def) (metis order_less_irrefl)+
  moreover have "0 < pid (proc_at t i) \<and> pid (proc_at t i) < nextpid t" if "i < NPROC" "state (proc_at t i) \<noteq> UNUSED" for i
    using that old [of i] new lt assms(6) by (cases "i = p") (auto intro: less_trans)
  ultimately show ?thesis using assms(5) by (simp add: pids_ok_def)
qed

section \<open>A running system\<close>

lemma demo_run_calm: "calm demo_run" "this_cpu demo_run = 1" "cur demo_run = Some 1" "depth demo_run = 0"
  "lock_free lk demo_run" "eflags_if demo_run = False" "length (procs demo_run) = NPROC"
proof -
  show t: "this_cpu demo_run = 1" by code_simp
  show "cur demo_run = Some 1" "depth demo_run = 0"
    by (simp_all add: cur_def depth_def t) (simp_all add: demo_run_def demo_ptab_def boot_mach_def upd_nth_def)
  show "lock_free lk demo_run" "eflags_if demo_run = False" "length (procs demo_run) = NPROC"
    by (simp_all add: lock_free_def demo_run_def demo_ptab_def boot_mach_def)
  show "calm demo_run"
    by (simp add: calm_def cpu_ok_def noted_def depth_def t cpus_upd_id)
      (simp add: demo_run_def demo_ptab_def boot_mach_def upd_nth_def)
qed

section \<open>Properties\<close>



text \<open>
  C23: \<open>sleep\<close> returns with the lock it was given. Whatever the rest of the system did
  meanwhile (\<open>env\<close>), provided it switches back with the table locked by this processor and
  both locks otherwise free, the sleeper has forgotten its channel and holds \<open>lk\<close> again,
  and nothing else changed since.
\<close>

theorem sleep_returns_locked:
  assumes "runs p s" and "lock_free lk s" and "lock_free L_ptable s"
    and "env (acquired L_ptable (asleep p ch s)) = acquired L_ptable t"
    and "calm t" and "depth t = 0" and "eflags_if t = eflags_if s"
    and "lock_free lk t" and "lock_free L_ptable t"
  shows "sleep ch lk (env # envs) (acquired lk s) =
    Inr (envs, acquired lk (t\<lparr>procs := upd_nth p (\<lambda>q. q\<lparr>p_chan := None\<rparr>) (procs t)\<rparr>))"
  using sleep_calm [of p s lk env ch t envs, OF assms] by (simp add: upd_proc_def)

theorem sleep_returns_locked_witness:
  "sleep Ch_ticks L_ticks [wakeup1 (Some Ch_ticks)] (acquired L_ticks demo_run) =
    Inr ([], acquired L_ticks ((wakeup1 (Some Ch_ticks) (asleep 1 Ch_ticks demo_run))\<lparr>procs :=
      upd_nth 1 (\<lambda>q. q\<lparr>p_chan := None\<rparr>) (procs (wakeup1 (Some Ch_ticks) (asleep 1 Ch_ticks demo_run)))\<rparr>))"
  by (rule sleep_returns_locked)
    (simp_all add: runs_def demo_run_calm asleep_def depth_same eflags_wakeup1)

text \<open>
  \<open>kill\<close> marks the first slot with the given pid as killed and makes it ready when it
  was sleeping, so the process will notice; no other slot changes. With no such slot it returns
  -1 and changes nothing.
\<close>

theorem kill_marks_one:
  assumes "calm s" and "lock_free L_ptable s" and "length (procs s) = NPROC"
  shows "if \<exists>i<NPROC. pid (proc_at s i) = n
    then \<exists>i t. pid_slot s n i \<and> kill n s = Inr (0, t) \<and> killed (proc_at t i) \<and>
      state (proc_at t i) = (if state (proc_at s i) = SLEEPING then RUNNABLE else state (proc_at s i)) \<and>
      (\<forall>j. j \<noteq> i \<longrightarrow> proc_at t j = proc_at s j)
    else kill n s = Inr (-1, s)"
proof (cases "find (\<lambda>i. pid (proc_at s i) = n) [0..<NPROC]")
  case None
  then show ?thesis using kill_none [OF assms(1,2)] by (auto simp: find_upt_None)
next
  case (Some i)
  then have i: "pid_slot s n i" by (simp only: pid_slot_find)
  then have lt: "i < length (procs s)" "\<exists>i<NPROC. pid (proc_at s i) = n" using assms(3) by (auto simp: pid_slot_def)
  have "pid_slot s n i \<and> kill n s = Inr (0, upd_proc i kill_mark s) \<and> killed (proc_at (upd_proc i kill_mark s) i) \<and>
      state (proc_at (upd_proc i kill_mark s) i) =
        (if state (proc_at s i) = SLEEPING then RUNNABLE else state (proc_at s i)) \<and>
      (\<forall>j. j \<noteq> i \<longrightarrow> proc_at (upd_proc i kill_mark s) j = proc_at s j)"
    using i lt kill_calm [OF assms i] by (auto simp: upd_nth_def kill_mark_def)
  then show ?thesis using lt(2) by auto
qed

theorem kill_marks_one_witness:
  "if \<exists>i<NPROC. pid (proc_at demo_run i) = 3
    then \<exists>i t. pid_slot demo_run 3 i \<and> kill 3 demo_run = Inr (0, t) \<and> killed (proc_at t i) \<and>
      state (proc_at t i) = (if state (proc_at demo_run i) = SLEEPING then RUNNABLE else state (proc_at demo_run i)) \<and>
      (\<forall>j. j \<noteq> i \<longrightarrow> proc_at t j = proc_at demo_run j)
    else kill 3 demo_run = Inr (-1, demo_run)"
  by (rule kill_marks_one) (simp_all add: demo_run_calm)

text \<open>
  C24: a new process. \<open>allocproc\<close> takes the first unused slot and the first free page. The
  process gets the next pid, priority 2 and cleared accounts, and its stack is laid out so that
  the first switch to it runs \<open>forkret\<close>, which returns to \<open>trapret\<close>, which pops the trap
  frame: the saved context sits below the return address, which sits below the trap frame, and
  its registers other than the instruction pointer are zero. Nothing outside the page and the
  slot changes, and the rest of the free pages stays free.
\<close>

theorem allocproc_new_process:
  assumes "calm s" and "lock_free L_ptable s" and "lock_free L_kmem s" and "length (procs s) = NPROC"
    and "free_slot s p" and "kmem_inv (k # ks) s"
  shows "returnsR (allocproc s) (\<lambda>(r, t). r = Some p \<and>
    (let q = proc_at t p in state q = EMBRYO \<and> pid q = nextpid s \<and> priority q = 2 \<and>
      ctime q = 0 \<and> stime q = 0 \<and> retime q = 0 \<and> rutime q = 0 \<and> kstack q = k \<and>
      tf q + 76 = k + KSTACKSIZE \<and> p_context q + 24 = tf q \<and>
      load32 (mem t) (tf q - 4) = ld_trapret s \<and> load32 (mem t) (p_context q + 16) = ld_forkret s \<and>
      (\<forall>j<4. load32 (mem t) (p_context q + of_nat (4 * j)) = 0)) \<and>
    nextpid t = nextpid s + 1 \<and> (\<forall>i. i \<noteq> p \<longrightarrow> proc_at t i = proc_at s i) \<and>
    (\<forall>a. PGSIZE \<le> a - k \<longrightarrow> mem t a = mem s a) \<and> kmem_inv ks t)"
proof -
  have k: "freelist s = k" "freelist s \<noteq> 0"
    using assms(6) kmem_inv_page_nonzero [OF assms(6), of k] by (simp_all add: kmem_inv_def)
  have p: "p < length (procs s)" using assms(4,5) by (simp add: free_slot_def)
  let ?t = "(upd_proc p (newborn (nextpid s) (freelist s)) s)\<lparr>nextpid := nextpid s + 1,
    freelist := load32 (mem s) (freelist s), mem := new_stack (mem s) (freelist s) (ld_trapret s) (ld_forkret s)\<rparr>"
  have "kmem_inv ks ?t" by (rule kmem_inv_new_stack [OF assms(6)]) simp_all
  moreover have "load32 (new_stack (mem s) k (ld_trapret s) (ld_forkret s)) (k + 4012) = ld_forkret s"
    "load32 (new_stack (mem s) k (ld_trapret s) (ld_forkret s)) (k + 4016) = ld_trapret s"
    "\<forall>j<4. load32 (new_stack (mem s) k (ld_trapret s) (ld_forkret s)) (k + 3996 + of_nat (4 * j)) = 0"
    by (simp add: new_stack_def) (rule new_stack_above, use new_stack_zero in blast)
  ultimately show ?thesis
    using p k by (simp add: allocproc_calm [OF assms(1-3,5) k(2)] upd_nth_nth newborn_def Let_def
        new_stack_outside ac_simps upd_nth_def)
qed

theorem allocproc_new_process_witness:
  "returnsR (allocproc demo_run) (\<lambda>(r, t). r = Some 2 \<and>
    (let q = proc_at t 2 in state q = EMBRYO \<and> pid q = nextpid demo_run \<and> priority q = 2 \<and>
      ctime q = 0 \<and> stime q = 0 \<and> retime q = 0 \<and> rutime q = 0 \<and> kstack q = 0x80480000 \<and>
      tf q + 76 = 0x80480000 + KSTACKSIZE \<and> p_context q + 24 = tf q \<and>
      load32 (mem t) (tf q - 4) = ld_trapret demo_run \<and> load32 (mem t) (p_context q + 16) = ld_forkret demo_run \<and>
      (\<forall>j<4. load32 (mem t) (p_context q + of_nat (4 * j)) = 0)) \<and>
    nextpid t = nextpid demo_run + 1 \<and> (\<forall>i. i \<noteq> 2 \<longrightarrow> proc_at t i = proc_at demo_run i) \<and>
    (\<forall>a. PGSIZE \<le> a - 0x80480000 \<longrightarrow> mem t a = mem demo_run a) \<and> kmem_inv [] t)"
proof (rule allocproc_new_process)
  show "free_slot demo_run 2"
    by (simp add: free_slot_def demo_run_def demo_ptab_def numeral_2_eq_2 less_Suc_eq ready_proc_def unused_proc_def)
  show "kmem_inv [0x80480000] demo_run"
    by (simp add: kmem_inv_def phys_page_def V2P_def load32_def demo_run_def demo_ptab_def)
qed (simp_all add: demo_run_calm)

text \<open>
  C25: pids stay unique. In a table where live processes have different pids below
  \<open>nextpid\<close>, \<open>allocproc\<close> keeps it so, whether it succeeds, finds no slot or finds no page,
  until the counter reaches its last value.
\<close>

theorem allocproc_pids_unique:
  assumes "calm s" and "lock_free L_ptable s" and "lock_free L_kmem s"
    and "pids_ok s" and "0 < nextpid s" and "nextpid s < 0xFFFFFFFF"
  shows "returnsR (allocproc s) (\<lambda>(r, t). pids_ok t \<and> nextpid s \<le> nextpid t)"
proof (cases "\<exists>p. free_slot s p")
  case True
  then obtain p where p: "free_slot s p" ..
  have len: "length (procs s) = NPROC" "p < NPROC" using assms(4) p by (simp_all add: pids_ok_def free_slot_def)
  have "nextpid s \<le> nextpid s + 1" using assms(6) by (simp add: u32_nat)
  note new = pids_ok_new [OF assms(4) len(2) assms(5,6)]
  show ?thesis
  proof (cases "freelist s = 0")
    case True
    show ?thesis
      using \<open>nextpid s \<le> nextpid s + 1\<close> len
      by (simp add: allocproc_no_page [OF assms(1-3) p True]) (rule new, simp_all add: upd_nth_nth)
  next
    case False
    show ?thesis
      using \<open>nextpid s \<le> nextpid s + 1\<close> len
      by (simp add: allocproc_calm [OF assms(1-3) p False]) (rule new, simp_all add: upd_nth_nth newborn_def)
  qed
next
  case False
  have "find (\<lambda>i. state (proc_at s i) = UNUSED) [0..<NPROC] = None"
  proof (cases "find (\<lambda>i. state (proc_at s i) = UNUSED) [0..<NPROC]")
    case (Some i)
    then have "free_slot s i" by (simp add: find_upt_Some free_slot_def)
    then show ?thesis using False by blast
  qed
  then have "\<forall>i<NPROC. state (proc_at s i) \<noteq> UNUSED" by (simp add: find_upt_None)
  then show ?thesis using assms(4) by (simp add: allocproc_full [OF assms(1,2)])
qed

lemma demo_run_pids: "pids_ok demo_run" "nextpid demo_run = 4"
  by (simp_all add: pids_ok_def pids_distinct_def demo_run_def demo_ptab_def nth_list_update upd_nth_def
      ready_proc_def unused_proc_def)

theorem allocproc_pids_unique_witness:
  "returnsR (allocproc demo_run) (\<lambda>(r, t). pids_ok t \<and> nextpid demo_run \<le> nextpid t)"
  by (rule allocproc_pids_unique) (simp_all add: demo_run_calm demo_run_pids)

text \<open>
  C26: \<open>kill\<close> does not look at the state of a slot. When the first slot with pid 0 is an
  unused one, \<open>kill(0)\<close> reports success and marks it, and since \<open>allocproc\<close> does not clear
  the mark, the next process created in that slot is born killed.
\<close>

theorem kill_zero_kills_next_process:
  assumes "calm s" and "lock_free L_ptable s" and "lock_free L_kmem s" and "length (procs s) = NPROC"
    and "free_slot s i" and "pid_slot s 0 i" and "freelist s \<noteq> 0"
  shows "\<exists>t. kill 0 s = Inr (0, t) \<and>
    returnsR (allocproc t) (\<lambda>(r, u). r = Some i \<and> state (proc_at u i) = EMBRYO \<and> killed (proc_at u i))"
proof (intro exI conjI)
  show "kill 0 s = Inr (0, upd_proc i kill_mark s)" by (rule kill_calm [OF assms(1,2,4,6)])
  have i: "i < length (procs s)" using assms(4,5) by (simp add: free_slot_def)
  have "free_slot (upd_proc i kill_mark s) i"
    using assms(4,5) i by (auto simp: free_slot_def upd_nth_def kill_mark_def)
  then show "returnsR (allocproc (upd_proc i kill_mark s))
      (\<lambda>(r, u). r = Some i \<and> state (proc_at u i) = EMBRYO \<and> killed (proc_at u i))"
    using assms(1-3,7) i by (simp add: allocproc_calm upd_nth_def newborn_def kill_mark_def)
qed

theorem kill_zero_kills_next_process_witness:
  "\<exists>t. kill 0 demo_run = Inr (0, t) \<and>
    returnsR (allocproc t) (\<lambda>(r, u). r = Some 2 \<and> state (proc_at u 2) = EMBRYO \<and> killed (proc_at u 2))"
proof (rule kill_zero_kills_next_process)
  show "freelist demo_run \<noteq> 0" by (simp add: demo_run_def)
  show "free_slot demo_run 2" "pid_slot demo_run 0 2"
    by (simp_all add: free_slot_def pid_slot_def demo_run_def demo_ptab_def numeral_2_eq_2 less_Suc_eq upd_nth_def
        ready_proc_def unused_proc_def)
qed (simp_all add: demo_run_calm)

end
