(* ===== verification/Vm_Maps.thy ===== *)
theory Vm_Maps
  imports Vm
begin

unbundle bit_operations_syntax

text \<open>
  Page tables seen as functions from virtual page numbers to entries. The lemmas show what
  \<open>walkpgdir\<close> and \<open>mappages\<close> do to this view: a new table changes no entry, an entry that is
  filled in changes no other, and only the directory, its tables and pages taken off the free list
  are written to.
\<close>

section \<open>Definitions\<close>

text \<open>
  Page tables in memory, by index. The address space of \<open>pd\<close> has 1024 directory entries;
  virtual page \<open>v\<close> has the entry \<open>v mod 1024\<close> of table \<open>v div 1024\<close>. A missing table
  counts as a table of empty entries.
\<close>

definition pde :: "memory \<Rightarrow> u32 \<Rightarrow> nat \<Rightarrow> u32" where
  "pde m pd d = load32 m (pd + 4 * of_nat d)"

definition has_table :: "memory \<Rightarrow> u32 \<Rightarrow> nat \<Rightarrow> bool" where
  "has_table m pd d \<longleftrightarrow> pde m pd d AND PTE_P \<noteq> 0"

definition ptab_at :: "memory \<Rightarrow> u32 \<Rightarrow> nat \<Rightarrow> u32" where
  "ptab_at m pd d = P2V (PTE_ADDR (pde m pd d))"

definition pte :: "memory \<Rightarrow> u32 \<Rightarrow> nat \<Rightarrow> u32" where
  "pte m pd v = (if has_table m pd (v div 1024) then load32 m (ptab_at m pd (v div 1024) + 4 * of_nat (v mod 1024)) else 0)"

definition present :: "memory \<Rightarrow> u32 \<Rightarrow> nat \<Rightarrow> bool" where
  "present m pd v \<longleftrightarrow> pte m pd v AND PTE_P \<noteq> 0"

definition vpn :: "u32 \<Rightarrow> nat" where
  "vpn va = unat va div 4096"

text \<open>Two memories agree on the pages of \<open>P\<close>.\<close>

definition same_on :: "u32 set \<Rightarrow> memory \<Rightarrow> memory \<Rightarrow> bool" where
  "same_on P m m' \<longleftrightarrow> (\<forall>p\<in>P. \<forall>x. x - p < PGSIZE \<longrightarrow> m' x = m x)"

text \<open>
  The directory and the tables are different physical pages above the kernel image, which ends at
  \<open>b\<close>, and none of them is a page of \<open>F\<close>: the free pages, data pages, the pages of other
  address spaces.
\<close>

definition tables_ok :: "u32 \<Rightarrow> memory \<Rightarrow> u32 \<Rightarrow> u32 set \<Rightarrow> bool" where
  "tables_ok b m pd F \<longleftrightarrow> 0 < b \<and> phys_page b pd \<and> pd \<notin> F \<and> (\<forall>p\<in>F. p mod PGSIZE = 0) \<and>
     (\<forall>d<1024. has_table m pd d \<longrightarrow> phys_page b (ptab_at m pd d) \<and> ptab_at m pd d \<noteq> pd \<and> ptab_at m pd d \<notin> F \<and>
       (\<forall>e<1024. e \<noteq> d \<longrightarrow> has_table m pd e \<longrightarrow> ptab_at m pd e \<noteq> ptab_at m pd d))"

text \<open>The pages of the address space itself.\<close>

definition table_pages :: "memory \<Rightarrow> u32 \<Rightarrow> u32 set" where
  "table_pages m pd = insert pd (ptab_at m pd ` {d. d < 1024 \<and> has_table m pd d})"

text \<open>Filling in one entry of an existing table.\<close>

definition set_pte :: "memory \<Rightarrow> u32 \<Rightarrow> nat \<Rightarrow> u32 \<Rightarrow> memory" where
  "set_pte m pd v w = store32 m (ptab_at m pd (v div 1024) + 4 * of_nat (v mod 1024)) w"

definition new_table :: "memory \<Rightarrow> u32 \<Rightarrow> nat \<Rightarrow> u32 \<Rightarrow> memory" where
  "new_table m pd d k = store32 (memset m k 0 4096) (pd + 4 * of_nat d) (V2P k OR 7)"

text \<open>
  The invariant of an address space under construction: \<open>ps\<close> are the free pages. A step to
  another such state may take pages off the free list and leaves all other pages of \<open>F\<close> alone.
\<close>

definition vm_inv :: "u32 \<Rightarrow> u32 set \<Rightarrow> u32 list \<Rightarrow> 'z kmem_scheme \<Rightarrow> bool" where
  "vm_inv pd F ps s \<longleftrightarrow> mem_calm s \<and> kmem_inv ps s \<and> set ps \<subseteq> F \<and> tables_ok (ld_end s) (mem s) pd F"

definition vm_step :: "u32 \<Rightarrow> u32 set \<Rightarrow> u32 list \<Rightarrow> 'z kmem_scheme \<Rightarrow> u32 list \<Rightarrow> u32 list \<Rightarrow> 'z kmem_scheme \<Rightarrow> bool" where
  "vm_step pd F ps s used ps' t \<longleftrightarrow> ps = used @ ps' \<and> mem_frame s t \<and> vm_inv pd (F - set used) ps' t \<and>
     same_on (F - set used) (mem s) (mem t)"

definition mapped_range :: "nat \<Rightarrow> nat \<Rightarrow> u32 \<Rightarrow> u32 \<Rightarrow> (nat \<Rightarrow> u32) \<Rightarrow> nat \<Rightarrow> u32" where
  "mapped_range v0 n pa perm f v =
     (if v0 \<le> v \<and> v \<le> v0 + n then (pa + of_nat (v - v0) * 4096) OR perm OR PTE_P else f v)"

text \<open>A quiet machine with one free page and an empty page directory in another.\<close>

definition demo_vm :: kmem where
  "demo_vm = boot_kmem\<lparr>eflags_if := False, freelist := 0x80401000\<rparr>"

section \<open>Indices\<close>

lemma unat_and_mask10: "unat ((x :: u32) AND 0x3FF) = unat x mod 1024"
proof -
  have "x AND 0x3FF = take_bit 10 x" by (simp add: take_bit_eq_mask mask_eq_exp_minus_1)
  then show ?thesis by (simp add: take_bit_eq_mod unat_mod)
qed

lemma unat_and_mask12: "unat ((x :: u32) AND 0xFFF) = unat x mod 4096"
proof -
  have "x AND 0xFFF = take_bit 12 x" by (simp add: take_bit_eq_mask mask_eq_exp_minus_1)
  then show ?thesis by (simp add: take_bit_eq_mod unat_mod)
qed

lemma unat_drop_bit: "unat (drop_bit 22 (x :: u32)) = unat x div 4194304" "unat (drop_bit 12 x) = unat x div 4096"
  by (simp_all add: drop_bit_eq_div unat_div)

lemma vpn_less: "vpn va < 1048576"
  using unat_u32_less [of va] by (simp add: vpn_def)

lemma unat_of_nat_small: "n < 1048576 \<Longrightarrow> unat (of_nat n :: u32) = n"
  by (simp add: unat_of_nat_u32)

lemma PDX_vpn: "PDX va = of_nat (vpn va div 1024)"
proof -
  have "unat va div 4194304 < 1024" using unat_u32_less [of va] by simp
  moreover have "vpn va div 1024 = unat va div 4194304" by (simp add: vpn_def div_mult2_eq [symmetric])
  ultimately show ?thesis
    by (simp add: PDX_def u32_eq_iff unat_and_mask10 unat_drop_bit unat_of_nat_u32)
qed

lemma PTX_vpn: "PTX va = of_nat (vpn va mod 1024)"
  by (simp add: PTX_def u32_eq_iff unat_and_mask10 unat_drop_bit unat_of_nat_u32 vpn_def)

lemma PTE_ADDR_aligned: "PTE_ADDR w mod 4096 = 0"
proof -
  have "PTE_ADDR w = PGROUNDDOWN w" by (simp add: PTE_ADDR_def PGROUNDDOWN_def)
  then have "unat (PTE_ADDR w) = unat w - unat w mod 4096" by (simp add: unat_PGROUNDDOWN)
  then have "unat (PTE_ADDR w) mod 4096 = 0" by (simp add: minus_mod_eq_mult_div)
  then show ?thesis by (simp only: u32_eq_iff unat_mod) simp
qed

lemma P2V_aligned: "p mod 4096 = 0 \<Longrightarrow> P2V p mod 4096 = 0"
proof -
  assume "p mod 4096 = 0"
  then have "unat p mod 4096 = 0" using unat_mod [of p 4096] by simp
  then show ?thesis by (auto simp: P2V_def u32_nat mod_diff_eq elim!: dvdE) 
qed

lemma ptab_at_aligned: "ptab_at m pd d mod 4096 = 0"
  unfolding ptab_at_def by (rule P2V_aligned [OF PTE_ADDR_aligned])

section \<open>Words of a page\<close>

lemma slot_offset: "i < 1024 \<Longrightarrow> unat (4 * of_nat i :: u32) = 4 * i"
  by (simp add: unat_word_ariths unat_of_nat)

lemma slot_aligned:
  assumes "p mod 4096 = (0 :: u32)" and "i < 1024"
  shows "(p + 4 * of_nat i) mod 4 = 0" "unat (p + 4 * of_nat i) = unat p + 4 * i"
proof -
  have "unat p mod 4096 = 0" using assms(1) unat_mod [of p 4096] by simp
  then obtain k where k: "unat p = 4096 * k" by (auto elim!: dvdE)
  have "k < 1048576" using unat_u32_less [of p] k by simp
  then have u: "unat (p + 4 * of_nat i) = 4096 * k + 4 * i"
    using assms(2) k slot_offset [OF assms(2)] by (simp add: unat_u32_add)
  then show "unat (p + 4 * of_nat i) = unat p + 4 * i" by (simp add: k)
  show "(p + 4 * of_nat i) mod 4 = 0" by (simp add: u32_eq_iff unat_mod u)
qed

lemma slot_inj:
  assumes "p mod 4096 = (0 :: u32)" and "q mod 4096 = 0" and "i < 1024" and "j < 1024"
  shows "p + 4 * of_nat i = q + 4 * of_nat j \<longleftrightarrow> p = q \<and> i = j"
proof -
  have "unat p mod 4096 = 0" "unat q mod 4096 = 0"
    using assms(1,2) unat_mod [of p 4096] unat_mod [of q 4096] by simp_all
  then obtain k l where kl: "unat p = 4096 * k" "unat q = 4096 * l" by (auto elim!: dvdE)
  have "(4096 * k + 4 * i) div 4096 = k" "(4096 * l + 4 * j) div 4096 = l" using assms(3,4) by simp_all
  then have "4096 * k + 4 * i = 4096 * l + 4 * j \<Longrightarrow> k = l" by metis
  then have "4096 * k + 4 * i = 4096 * l + 4 * j \<longleftrightarrow> k = l \<and> i = j" by fastforce
  then show ?thesis
    by (simp add: u32_eq_iff slot_aligned(2) [OF assms(1,3)] slot_aligned(2) [OF assms(2,4)] kl)
qed

lemma load_store_slot:
  assumes "p mod 4096 = 0" and "q mod 4096 = 0" and "i < 1024" and "j < 1024"
  shows "load32 (store32 m (p + 4 * of_nat i) w) (q + 4 * of_nat j) =
    (if p = q \<and> i = j then w else load32 m (q + 4 * of_nat j))"
  using slot_inj [OF assms] load32_store32_other [OF slot_aligned(1) [OF assms(1,3)] slot_aligned(1) [OF assms(2,4)]]
  by auto

lemma slot_in_page:
  assumes "i < 1024" and "unat b < 4"
  shows "p + 4 * of_nat i + b - p < (4096 :: u32)"
proof -
  have "p + 4 * of_nat i + b - p = 4 * of_nat i + b" by simp
  then show ?thesis using assms slot_offset [OF assms(1)] by (simp add: word_less_nat_alt unat_u32_add)
qed

lemma load_slot_same:
  assumes "i < 1024" and "\<And>x. x - p < 4096 \<Longrightarrow> m' x = m x"
  shows "load32 m' (p + 4 * of_nat i) = load32 m (p + 4 * of_nat i)"
  using assms(2) [OF slot_in_page [OF assms(1), of 0]] assms(2) [OF slot_in_page [OF assms(1), of 1]]
    assms(2) [OF slot_in_page [OF assms(1), of 2]] assms(2) [OF slot_in_page [OF assms(1), of 3]]
  by (simp add: load32_def)

lemma store_slot_outside:
  assumes "p mod 4096 = 0" and "q mod 4096 = 0" and "p \<noteq> q" and "i < 1024" and "x - q < 4096"
  shows "store32 m (p + 4 * of_nat i) w x = m x"
proof (rule store32_other)
  have "4096 \<le> x - p" using page_apart [OF assms(2,1) _ assms(5)] assms(3) by simp
  moreover obtain y where y: "y = x - p" by simp
  moreover have "x - (p + 4 * of_nat i) = y - 4 * of_nat i" by (simp add: y)
  ultimately show "4 \<le> x - (p + 4 * of_nat i)"
    using slot_offset [OF assms(4)] assms(4) by (simp only: word_le_nat_alt unat_u32_sub) simp
qed

lemma memset_other_page: "p mod 4096 = 0 \<Longrightarrow> q mod 4096 = 0 \<Longrightarrow> p \<noteq> q \<Longrightarrow> x - q < 4096 \<Longrightarrow> memset m p c 4096 x = m x"
  using page_apart [of q p x] by (simp add: memset_apply linorder_not_less [symmetric])

lemma load_zero_page: "i < 1024 \<Longrightarrow> load32 (memset m p 0 4096) (p + 4 * of_nat i) = 0"
  using load_slot_same [of i p "memset m p 0 4096" "\<lambda>_. 0"] by (simp add: memset_apply load32_def)

section \<open>Entries under changes of memory\<close>

lemma tables_okD:
  assumes "tables_ok b m pd F"
  shows "pd mod 4096 = 0" "pd \<notin> F" "p \<in> F \<Longrightarrow> p mod 4096 = 0"
    "d < 1024 \<Longrightarrow> has_table m pd d \<Longrightarrow> ptab_at m pd d \<noteq> pd"
    "d < 1024 \<Longrightarrow> has_table m pd d \<Longrightarrow> ptab_at m pd d \<notin> F"
    "d < 1024 \<Longrightarrow> has_table m pd d \<Longrightarrow> phys_page b (ptab_at m pd d)"
    "d < 1024 \<Longrightarrow> e < 1024 \<Longrightarrow> has_table m pd d \<Longrightarrow> has_table m pd e \<Longrightarrow>
      ptab_at m pd d = ptab_at m pd e \<longleftrightarrow> d = e"
  using assms by (auto simp only: tables_ok_def phys_page_def)

lemma same_onD: "same_on P m m' \<Longrightarrow> p \<in> P \<Longrightarrow> x - p < 4096 \<Longrightarrow> m' x = m x"
  by (auto simp: same_on_def)

lemma same_on_trans: "same_on P m m' \<Longrightarrow> same_on P m' m'' \<Longrightarrow> same_on P m m''"
  by (simp add: same_on_def)

lemma same_on_subset: "same_on P m m' \<Longrightarrow> Q \<subseteq> P \<Longrightarrow> same_on Q m m'"
  by (auto simp: same_on_def)

lemma same_on_refl [simp]: "same_on P m m"
  by (simp add: same_on_def)

lemma same_on_tables:
  assumes "same_on (table_pages m pd) m m'"
  shows "d < 1024 \<Longrightarrow> pde m' pd d = pde m pd d" "d < 1024 \<Longrightarrow> has_table m' pd d = has_table m pd d"
    "d < 1024 \<Longrightarrow> ptab_at m' pd d = ptab_at m pd d" "v < 1048576 \<Longrightarrow> pte m' pd v = pte m pd v"
proof -
  have p: "pde m' pd d = pde m pd d" if "d < 1024" for d
    unfolding pde_def using that by (rule load_slot_same) (rule same_onD [OF assms], simp_all add: table_pages_def)
  then show "d < 1024 \<Longrightarrow> pde m' pd d = pde m pd d" .
  show h: "d < 1024 \<Longrightarrow> has_table m' pd d = has_table m pd d" "d < 1024 \<Longrightarrow> ptab_at m' pd d = ptab_at m pd d" for d
    by (simp_all add: has_table_def ptab_at_def p)
  show "pte m' pd v = pte m pd v" if "v < 1048576"
  proof -
    have v: "v div 1024 < 1024" "v mod 1024 < 1024" using that by simp_all
    show ?thesis
      using h [OF v(1)] v
      by (auto simp: pte_def table_pages_def
          intro!: load_slot_same same_onD [OF assms, of "ptab_at m pd (v div 1024)"])
  qed
qed

lemma tables_ok_same: "tables_ok b m pd F \<Longrightarrow> same_on (table_pages m pd) m m' \<Longrightarrow> tables_ok b m' pd F"
  using same_on_tables [of m pd m'] by (simp add: tables_ok_def)

lemma tables_ok_subset: "tables_ok b m pd F \<Longrightarrow> G \<subseteq> F \<Longrightarrow> tables_ok b m pd G"
  by (auto simp: tables_ok_def)

lemma set_pte:
  assumes "tables_ok b m pd F" and "v < 1048576" and "has_table m pd (v div 1024)"
  shows "tables_ok b (set_pte m pd v w) pd F"
    and "u < 1048576 \<Longrightarrow> pte (set_pte m pd v w) pd u = (if u = v then w else pte m pd u)"
    and "d < 1024 \<Longrightarrow> has_table (set_pte m pd v w) pd d = has_table m pd d"
    and "d < 1024 \<Longrightarrow> ptab_at (set_pte m pd v w) pd d = ptab_at m pd d"
    and "p mod 4096 = 0 \<Longrightarrow> p \<noteq> ptab_at m pd (v div 1024) \<Longrightarrow> same_on {p} m (set_pte m pd v w)"
proof -
  let ?m = "set_pte m pd v w" and ?t = "ptab_at m pd (v div 1024)"
  note t = tables_okD [OF assms(1)]
  have v: "v div 1024 < 1024" "v mod 1024 < 1024" using assms(2) by simp_all
  have pd: "pde ?m pd d = pde m pd d" if "d < 1024" for d
    using that v t(1) t(4) [OF v(1) assms(3)]
    by (simp add: pde_def set_pte_def load_store_slot ptab_at_aligned)
  show h: "d < 1024 \<Longrightarrow> has_table ?m pd d = has_table m pd d" "d < 1024 \<Longrightarrow> ptab_at ?m pd d = ptab_at m pd d" for d
    by (simp_all add: has_table_def ptab_at_def pd)
  show "tables_ok b ?m pd F" using assms(1) h by (simp add: tables_ok_def)
  show "same_on {p} m ?m" if p: "p mod 4096 = 0" "p \<noteq> ?t"
  proof -
    have "?m x = m x" if "x - p < 4096" for x
      unfolding set_pte_def by (rule store_slot_outside [OF ptab_at_aligned p(1) p(2) [symmetric] v(2) that])
    then show ?thesis by (simp add: same_on_def)
  qed
  show "pte ?m pd u = (if u = v then w else pte m pd u)" if u: "u < 1048576"
  proof -
    have u': "u div 1024 < 1024" "u mod 1024 < 1024" using u by simp_all
    have "u = v \<longleftrightarrow> u div 1024 = v div 1024 \<and> u mod 1024 = v mod 1024" by (metis div_mult_mod_eq)
    then show ?thesis
      using h [OF u'(1)] u' v assms(3) t(7) [OF v(1) u'(1) assms(3)]
      by (auto simp: pte_def set_pte_def load_store_slot ptab_at_aligned)
  qed
qed

text \<open>A page-aligned address with flags, taken apart.\<close>

lemma aligned_bits:
  assumes "(x :: u32) mod 4096 = 0" and "n < 12"
  shows "\<not> bit x n"
proof -
  have "take_bit 12 x = 0" using assms(1) by (simp only: take_bit_eq_mod) simp
  then have "\<not> bit (take_bit 12 x) n" by simp
  then show ?thesis using assms(2) by (simp add: bit_take_bit_iff)
qed

lemma small_bits:
  assumes "(f :: u32) < 4096" and "12 \<le> n"
  shows "\<not> bit f n"
proof -
  have "take_bit 12 f = f" using assms(1) by (simp add: take_bit_eq_mod u32_nat)
  then have "bit f n = bit (take_bit 12 f) n" by simp
  then show ?thesis using assms(2) by (simp add: bit_take_bit_iff)
qed

lemma bit_mask12: "bit (0xFFF :: u32) n \<longleftrightarrow> n < 12"
proof -
  have "(0xFFF :: u32) = mask 12" by (simp add: mask_eq_exp_minus_1)
  then show ?thesis by (simp only: bit_mask_iff) auto
qed

lemma pte_parts:
  assumes "x mod 4096 = 0" and "f < 4096"
  shows "PTE_ADDR (x OR f) = x" "PTE_FLAGS (x OR f) = f" "(x OR f) AND 1 = f AND 1"
proof -
  note b = aligned_bits [OF assms(1)] small_bits [OF assms(2)]
  have n: "bit (NOT (0xFFF :: u32)) n \<longleftrightarrow> n < 32 \<and> 12 \<le> n" for n
    by (simp only: bit_not_iff bit_mask12 possible_bit_word) auto
  show "PTE_ADDR (x OR f) = x" unfolding PTE_ADDR_def
    by (rule bit_word_eqI) (use b in \<open>simp only: bit_and_iff bit_or_iff n, fastforce simp: not_less\<close>)
  show "PTE_FLAGS (x OR f) = f" unfolding PTE_FLAGS_def
    by (rule bit_word_eqI) (use b in \<open>simp only: bit_and_iff bit_or_iff bit_mask12, meson not_less\<close>)
  show "(x OR f) AND 1 = f AND 1"
    by (rule bit_word_eqI) (use b in \<open>auto simp: bit_simps\<close>)
qed

lemma V2P_P2V [simp]: "V2P (P2V p) = p" "P2V (V2P p) = p"
  by (simp_all add: V2P_def P2V_def)

lemma V2P_aligned: "p mod 4096 = 0 \<Longrightarrow> V2P p mod 4096 = 0"
proof -
  have "V2P p = P2V p" by (simp add: V2P_def P2V_def)
  then show "p mod 4096 = 0 \<Longrightarrow> V2P p mod 4096 = 0" by (simp only: P2V_aligned)
qed

lemma new_table:
  assumes "tables_ok b m pd F" and "d < 1024" and "\<not> has_table m pd d" and "k \<in> F" and "phys_page b k"
  shows "e < 1024 \<Longrightarrow> has_table (new_table m pd d k) pd e = (e = d \<or> has_table m pd e)"
    and "e < 1024 \<Longrightarrow> ptab_at (new_table m pd d k) pd e = (if e = d then k else ptab_at m pd e)"
    and "v < 1048576 \<Longrightarrow> pte (new_table m pd d k) pd v = pte m pd v"
    and "tables_ok b (new_table m pd d k) pd (F - {k})"
    and "p mod 4096 = 0 \<Longrightarrow> p \<noteq> k \<Longrightarrow> p \<noteq> pd \<Longrightarrow> same_on {p} m (new_table m pd d k)"
proof -
  let ?m = "new_table m pd d k"
  note t = tables_okD [OF assms(1)]
  have k: "k mod 4096 = 0" "k \<noteq> pd" using t(2,3) assms(4) by auto
  have other: "?m x = m x" if "p mod 4096 = 0" "p \<noteq> k" "p \<noteq> pd" "x - p < 4096" for p x
    unfolding new_table_def
    using store_slot_outside [OF t(1) that(1) that(3) [symmetric] assms(2) that(4)]
      memset_other_page [OF k(1) that(1) that(2) [symmetric] that(4)] by simp
  then show "p mod 4096 = 0 \<Longrightarrow> p \<noteq> k \<Longrightarrow> p \<noteq> pd \<Longrightarrow> same_on {p} m ?m" for p
    by (simp add: same_on_def)
  have pd: "pde ?m pd e = (if e = d then V2P k OR 7 else pde m pd e)" if "e < 1024" for e
  proof -
    have "load32 (memset m k 0 4096) (pd + 4 * of_nat e) = load32 m (pd + 4 * of_nat e)"
      using that by (rule load_slot_same) (rule memset_other_page [OF k(1) t(1) k(2)])
    then show ?thesis using that assms(2) t(1) by (simp add: pde_def new_table_def load_store_slot)
  qed
  have V: "PTE_ADDR (V2P k OR 7) = V2P k" "(V2P k OR 7) AND 1 = 1"
    using pte_parts [OF V2P_aligned [OF k(1)], of 7] by simp_all
  show h: "e < 1024 \<Longrightarrow> has_table ?m pd e = (e = d \<or> has_table m pd e)"
    "e < 1024 \<Longrightarrow> ptab_at ?m pd e = (if e = d then k else ptab_at m pd e)" for e
    by (simp_all add: has_table_def ptab_at_def pd V)
  show "tables_ok b ?m pd (F - {k})"
    using assms(1,3-5) k(2) h by (auto simp: tables_ok_def)
  show "pte ?m pd v = pte m pd v" if v: "v < 1048576"
  proof -
    have v': "v div 1024 < 1024" "v mod 1024 < 1024" using v by simp_all
    have kz: "load32 ?m (k + 4 * of_nat i) = 0" if "i < 1024" for i
      using that k t(1) assms(2) by (simp add: new_table_def load_store_slot load_zero_page)
    have "load32 ?m (ptab_at m pd (v div 1024) + 4 * of_nat (v mod 1024)) =
        load32 m (ptab_at m pd (v div 1024) + 4 * of_nat (v mod 1024))" if "has_table m pd (v div 1024)"
      using v'(2)
    proof (rule load_slot_same)
      show "?m x = m x" if "x - ptab_at m pd (v div 1024) < 4096" for x
        using other [OF ptab_at_aligned _ _ that] t(4,5) [OF v'(1) \<open>has_table m pd (v div 1024)\<close>] assms(4) by blast
    qed
    then show ?thesis using h [OF v'(1)] v' assms(3) kz by (auto simp: pte_def)
  qed
qed

section \<open>Walking the directory\<close>

lemma vm_step_refl: "vm_inv pd F ps s \<Longrightarrow> vm_step pd F ps s [] ps s"
  by (simp add: vm_step_def)

lemma vm_step_trans:
  "vm_step pd F ps s used ps' t \<Longrightarrow> vm_step pd (F - set used) ps' t used' ps'' u \<Longrightarrow>
   vm_step pd F ps s (used @ used') ps'' u"
proof -
  assume a: "vm_step pd F ps s used ps' t" and b: "vm_step pd (F - set used) ps' t used' ps'' u"
  have e: "F - set used - set used' = F - set (used @ used')" by auto
  have "same_on (F - set used) (mem s) (mem t)" "same_on (F - set (used @ used')) (mem t) (mem u)"
    using a b by (simp_all only: vm_step_def e)
  moreover have "F - set (used @ used') \<subseteq> F - set used" by auto
  ultimately have "same_on (F - set (used @ used')) (mem s) (mem u)"
    by (meson same_on_subset same_on_trans)
  moreover have "mem_frame s u" using a b unfolding vm_step_def by (meson mem_frame_trans)
  ultimately show ?thesis using a b by (simp add: vm_step_def e)
qed

lemma mem_frame_ld_end: "mem_frame s t \<Longrightarrow> ld_end t = ld_end s"
  by (auto dest!: mem_frameD)

lemma walk_present:
  "has_table (mem s) pd (vpn va div 1024) \<Longrightarrow>
   walkpgdir pd va alloc s = Inr (ptab_at (mem s) pd (vpn va div 1024) + 4 * of_nat (vpn va mod 1024), s)"
  by (simp add: walkpgdir_def has_table_def ptab_at_def pde_def PDX_vpn PTX_vpn Let_def)

lemma walk_absent:
  "\<not> has_table (mem s) pd (vpn va div 1024) \<Longrightarrow> walkpgdir pd va False s = Inr (0, s)"
  by (simp add: walkpgdir_def has_table_def pde_def PDX_vpn)

lemma kmem_inv_same:
  assumes "kmem_inv ps s" and "same_on (set ps) (mem s) (mem t)" and "freelist t = freelist s" and "ld_end t = ld_end s"
  shows "kmem_inv ps t"
proof -
  have "load32 (mem t) p = load32 (mem s) p" if "p \<in> set ps" for p
    using load_slot_same [of 0 p "mem t" "mem s"] same_onD [OF assms(2) that] by simp
  then show ?thesis using assms(1,3,4) by (auto simp: kmem_inv_def intro: run_list_frame [of "mem s"])
qed

lemma table_page_nonzero: "tables_ok b m pd F \<Longrightarrow> d < 1024 \<Longrightarrow> has_table m pd d \<Longrightarrow> i < 1024 \<Longrightarrow>
  ptab_at m pd d + 4 * of_nat i \<noteq> 0"
proof -
  assume a: "tables_ok b m pd F" "d < 1024" "has_table m pd d" "i < 1024"
  have "phys_page b (ptab_at m pd d)" "0 < b" using a by (auto simp: tables_ok_def)
  then have "0 < unat (ptab_at m pd d)" by (auto simp: phys_page_def word_le_nat_alt word_less_nat_alt)
  then show ?thesis using slot_aligned(2) [OF ptab_at_aligned a(4), of m pd d] by (auto simp: u32_eq_iff)
qed

lemma walk_alloc:
  assumes "vm_inv pd F (k # ks) s" and "\<not> has_table (mem s) pd (vpn va div 1024)"
  shows "\<exists>t. walkpgdir pd va True s = Inr (ptab_at (mem t) pd (vpn va div 1024) + 4 * of_nat (vpn va mod 1024), t) \<and>
    vm_step pd F (k # ks) s [k] ks t \<and> has_table (mem t) pd (vpn va div 1024) \<and>
    (\<forall>v<1048576. pte (mem t) pd v = pte (mem s) pd v)"
proof -
  let ?d = "vpn va div 1024"
  let ?m = "new_table (mem s) pd ?d k"
  let ?t = "s\<lparr>freelist := load32 (mem s) k, mem := ?m\<rparr>"
  have d: "?d < 1024" using vpn_less [of va] by simp
  have c: "mem_calm s" "kmem_inv (k # ks) s" "k \<in> F" "set ks \<subseteq> F" "tables_ok (ld_end s) (mem s) pd F"
    using assms(1) by (auto simp: vm_inv_def)
  have k: "freelist s = k" "k \<noteq> 0" "phys_page (ld_end s) k" "k \<notin> set ks"
    using c(2) by (auto simp: kmem_inv_def)
  note n = new_table [OF c(5) d assms(2) c(3) k(3)]
  have so: "same_on (F - {k}) (mem s) ?m"
    using n(5) tables_okD(2,3) [OF c(5)] by (auto simp: same_on_def)
  have "kmem_inv ks (s\<lparr>freelist := load32 (mem s) k\<rparr>)" using c(2) k(1) by (auto simp: kmem_inv_def)
  then have "kmem_inv ks ?t"
  proof (rule kmem_inv_same)
    show "same_on (set ks) (mem (s\<lparr>freelist := load32 (mem s) k\<rparr>)) (mem ?t)"
      using same_on_subset [OF so, of "set ks"] c(4) k(4) by auto
  qed simp_all
  then have "vm_inv pd (F - {k}) ks ?t"
    using c(1,4) k(4) n(4) by (auto simp: vm_inv_def)
  then have "vm_step pd F (k # ks) s [k] ks ?t" using so by (simp add: vm_step_def)
  moreover have "walkpgdir pd va True s = Inr (k + 4 * of_nat (vpn va mod 1024), ?t)"
    using assms(2) k(2)
    by (simp add: walkpgdir_def kalloc_calm [OF c(1)] k(1) has_table_def pde_def PDX_vpn PTX_vpn Let_def new_table_def)
  ultimately show ?thesis using n(1,2) [OF d] n(3) by (intro exI [of _ ?t]) simp
qed

lemma walk_no_memory:
  assumes "vm_inv pd F [] s" and "\<not> has_table (mem s) pd (vpn va div 1024)"
  shows "walkpgdir pd va True s = Inr (0, s)"
proof -
  have "freelist s = 0" "mem_calm s" using assms(1) by (simp_all add: vm_inv_def kmem_inv_def)
  moreover have "s\<lparr>freelist := 0\<rparr> = s" using \<open>freelist s = 0\<close> by (intro kmem.equality) simp_all
  ultimately show ?thesis
    using assms(2) by (simp add: walkpgdir_def kalloc_calm has_table_def pde_def PDX_vpn)
qed

lemma vm_step_set_pte:
  assumes "vm_inv pd F ps s" and "v < 1048576" and "has_table (mem s) pd (v div 1024)"
  shows "vm_step pd F ps s [] ps (s\<lparr>mem := set_pte (mem s) pd v w\<rparr>)"
proof -
  have c: "mem_calm s" "kmem_inv ps s" "set ps \<subseteq> F" "tables_ok (ld_end s) (mem s) pd F"
    using assms(1) by (auto simp: vm_inv_def)
  note p = set_pte [OF c(4) assms(2,3), where w = w]
  have "v div 1024 < 1024" using assms(2) by simp
  then have t: "ptab_at (mem s) pd (v div 1024) \<notin> F" using tables_okD(5) [OF c(4)] assms(3) by blast
  have "same_on {q} (mem s) (set_pte (mem s) pd v w)" if "q \<in> F" for q
    using tables_okD(3) [OF c(4) that] t that by (intro p(5)) (simp_all only: , blast)
  then have so: "same_on F (mem s) (set_pte (mem s) pd v w)" by (simp add: same_on_def)
  have "kmem_inv ps (s\<lparr>mem := set_pte (mem s) pd v w\<rparr>)"
    by (rule kmem_inv_same [OF c(2)]) (use same_on_subset [OF so c(3)] in simp_all)
  then show ?thesis using c p(1) so by (simp add: vm_step_def vm_inv_def)
qed

lemma walk_True:
  assumes "vm_inv pd F ps s"
  shows "\<exists>r used ps' t. walkpgdir pd va True s = Inr (r, t) \<and> vm_step pd F ps s used ps' t \<and>
    (\<forall>v<1048576. pte (mem t) pd v = pte (mem s) pd v) \<and>
    (if r = 0 then ps' = [] \<and> t = s
     else has_table (mem t) pd (vpn va div 1024) \<and>
       r = ptab_at (mem t) pd (vpn va div 1024) + 4 * of_nat (vpn va mod 1024))"
proof (cases "has_table (mem s) pd (vpn va div 1024)")
  case True
  have "vpn va div 1024 < 1024" using vpn_less [of va] by simp
  then have "ptab_at (mem s) pd (vpn va div 1024) + 4 * of_nat (vpn va mod 1024) \<noteq> 0"
    using table_page_nonzero [OF _ _ True, of "ld_end s" F "vpn va mod 1024"] assms by (simp add: vm_inv_def)
  then show ?thesis
    using True vm_step_refl [OF assms]
    by (intro exI [of _ "ptab_at (mem s) pd (vpn va div 1024) + 4 * of_nat (vpn va mod 1024)"] exI [of _ "[]"]
        exI [of _ ps] exI [of _ s]) (simp add: walk_present)
next
  case False
  show ?thesis
  proof (cases ps)
    case Nil
    then show ?thesis
      using False assms walk_no_memory [of pd F s va] vm_step_refl [of pd F "[]" s]
      by (intro exI [of _ 0] exI [of _ "[]"] exI [of _ s]) simp
  next
    case (Cons k ks)
    have va: "vpn va div 1024 < 1024" "vpn va mod 1024 < 1024" using vpn_less [of va] by simp_all
    obtain t where t: "walkpgdir pd va True s = Inr (ptab_at (mem t) pd (vpn va div 1024) + 4 * of_nat (vpn va mod 1024), t)"
      "vm_step pd F (k # ks) s [k] ks t" "has_table (mem t) pd (vpn va div 1024)"
      "\<forall>v<1048576. pte (mem t) pd v = pte (mem s) pd v"
      using walk_alloc [of pd F k ks s va] False assms Cons by blast
    have "tables_ok (ld_end t) (mem t) pd (F - {k})" using t(2) by (simp add: vm_step_def vm_inv_def)
    then have "ptab_at (mem t) pd (vpn va div 1024) + 4 * of_nat (vpn va mod 1024) \<noteq> 0"
      using table_page_nonzero va t(3) by blast
    then show ?thesis
      unfolding Cons using t
      by (intro exI [of _ "ptab_at (mem t) pd (vpn va div 1024) + 4 * of_nat (vpn va mod 1024)"] exI [of _ "[k]"]
          exI [of _ ks] exI [of _ t]) simp
  qed
qed

section \<open>Mapping a range\<close>

lemma next_page:
  assumes "(a :: u32) mod 4096 = 0" and "unat a + 4096 * Suc n < 4294967296"
  shows "(a + 4096) mod 4096 = 0" "unat (a + 4096) = unat a + 4096" "vpn (a + 4096) = Suc (vpn a)"
    "unat (a + 4096) + 4096 * n < 4294967296"
proof -
  show u: "unat (a + 4096) = unat a + 4096" using assms(2) by (simp add: unat_u32_add)
  have "unat a mod 4096 = 0" using assms(1) unat_mod [of a 4096] by simp
  then show "(a + 4096) mod 4096 = 0" by (simp add: u32_eq_iff unat_mod u)
  show "vpn (a + 4096) = Suc (vpn a)" "unat (a + 4096) + 4096 * n < 4294967296"
    using assms(2) by (simp_all add: vpn_def u)
qed

lemma range_end:
  assumes "unat (a :: u32) + 4096 * n < 4294967296"
  shows "a = a + of_nat n * 4096 \<longleftrightarrow> n = 0" "0 < n \<Longrightarrow> \<not> (a + of_nat n * 4096) - a < 4096"
proof -
  have "unat (of_nat n * 4096 :: u32) = 4096 * n" using assms by (simp add: unat_word_ariths unat_of_nat)
  then show "a = a + of_nat n * 4096 \<longleftrightarrow> n = 0" "0 < n \<Longrightarrow> \<not> (a + of_nat n * 4096) - a < 4096"
    by (auto simp: word_less_nat_alt)
qed

lemma mappages_step:
  assumes "vm_inv pd F ps s" and "\<not> present (mem s) pd (vpn a)"
  shows "\<exists>used ps' t. vm_step pd F ps s used ps' t \<and>
    (ps' = [] \<and> t = s \<and> mappages_loop pd a l pa perm s = Inr (-1, t) \<or>
     (\<forall>v<1048576. pte (mem t) pd v = (if v = vpn a then pa OR perm OR PTE_P else pte (mem s) pd v)) \<and>
     mappages_loop pd a l pa perm s =
       (if a = l then Inr (0, t) else if l - a < 4096 then Inl Wrapped
        else mappages_loop pd (a + 4096) l (pa + 4096) perm t))"
proof -
  obtain r used ps' u where w: "walkpgdir pd a True s = Inr (r, u)" "vm_step pd F ps s used ps' u"
      "\<forall>v<1048576. pte (mem u) pd v = pte (mem s) pd v"
      "if r = 0 then ps' = [] \<and> u = s else has_table (mem u) pd (vpn a div 1024) \<and>
        r = ptab_at (mem u) pd (vpn a div 1024) + 4 * of_nat (vpn a mod 1024)"
    using walk_True [OF assms(1), of a] by blast
  show ?thesis
  proof (cases "r = 0")
    case True
    then have "mappages_loop pd a l pa perm s = Inr (-1, u)"
      by (subst mappages_loop.simps) (simp add: w(1))
    then show ?thesis using True w(2,4) by (intro exI [of _ used] exI [of _ ps'] exI [of _ u]) simp
  next
    case False
    have h: "has_table (mem u) pd (vpn a div 1024)" "r = ptab_at (mem u) pd (vpn a div 1024) + 4 * of_nat (vpn a mod 1024)"
      using False w(4) by simp_all
    let ?w = "pa OR perm OR PTE_P"
    let ?t = "u\<lparr>mem := set_pte (mem u) pd (vpn a) ?w\<rparr>"
    have inv: "vm_inv pd (F - set used) ps' u" using w(2) by (simp add: vm_step_def)
    have "vm_step pd (F - set used) ps' u [] ps' ?t" by (rule vm_step_set_pte [OF inv vpn_less h(1)])
    then have st: "vm_step pd F ps s (used @ []) ps' ?t" by (rule vm_step_trans [OF w(2)])
    have "load32 (mem u) r = pte (mem s) pd (vpn a)"
      using w(3) vpn_less [of a] h by (metis pte_def)
    then have np: "load32 (mem u) r AND PTE_P = 0" using assms(2) by (simp add: present_def)
    have tb: "tables_ok (ld_end u) (mem u) pd (F - set used)" using inv by (simp add: vm_inv_def)
    have "mappages_loop pd a l pa perm s = (if a = l then Inr (0, ?t) else if l - a < 4096 then Inl Wrapped
        else mappages_loop pd (a + 4096) l (pa + 4096) perm ?t)"
      using False np by (subst mappages_loop.simps) (simp add: w(1) set_pte_def h(2) Let_def)
    moreover have "\<forall>v<1048576. pte (mem ?t) pd v = (if v = vpn a then ?w else pte (mem s) pd v)"
      using set_pte(2) [OF tb vpn_less h(1), of _ ?w] w(3) by simp
    ultimately show ?thesis using st by (intro exI [of _ used] exI [of _ ps'] exI [of _ ?t]) simp
  qed
qed

lemma mappages_loop_maps:
  assumes "vm_inv pd F ps s" and "a mod 4096 = 0" and "unat a + 4096 * n < 4294967296"
    and "\<forall>i\<le>n. \<not> present (mem s) pd (vpn a + i)"
  shows "\<exists>r used ps' t. mappages_loop pd a (a + of_nat n * 4096) pa perm s = Inr (r, t) \<and>
    vm_step pd F ps s used ps' t \<and>
    (if r = 0 then \<forall>v<1048576. pte (mem t) pd v = mapped_range (vpn a) n pa perm (pte (mem s) pd) v
     else r = -1 \<and> ps' = [] \<and> (\<forall>v<1048576. v < vpn a \<or> vpn a + n < v \<longrightarrow> pte (mem t) pd v = pte (mem s) pd v))"
  using assms
proof (induction n arbitrary: F ps s a pa)
  case 0
  obtain used ps' t where t: "vm_step pd F ps s used ps' t"
      "ps' = [] \<and> t = s \<and> mappages_loop pd a a pa perm s = Inr (-1, t) \<or>
       (\<forall>v<1048576. pte (mem t) pd v = (if v = vpn a then pa OR perm OR PTE_P else pte (mem s) pd v)) \<and>
       mappages_loop pd a a pa perm s = Inr (0, t)"
    using mappages_step [OF 0(1), of a a pa perm] 0(4) by auto
  have one: "mapped_range (vpn a) 0 pa perm f v = (if v = vpn a then pa OR perm OR PTE_P else f v)" for f v
    by (auto simp: mapped_range_def)
  from t(2) show ?case
  proof (elim disjE conjE)
    assume "ps' = []" "t = s" "mappages_loop pd a a pa perm s = Inr (-1, t)"
    then show ?case using t(1) by (intro exI [of _ "-1"] exI [of _ used] exI [of _ ps'] exI [of _ t]) simp
  next
    assume "\<forall>v<1048576. pte (mem t) pd v = (if v = vpn a then pa OR perm OR PTE_P else pte (mem s) pd v)"
      "mappages_loop pd a a pa perm s = Inr (0, t)"
    then show ?case using t(1) by (intro exI [of _ 0] exI [of _ used] exI [of _ ps'] exI [of _ t]) (simp add: one)
  qed
next
  case (Suc n)
  let ?l = "a + of_nat (Suc n) * 4096"
  note a = next_page [OF Suc.prems(2,3)]
  have l: "a \<noteq> ?l" "\<not> ?l - a < 4096" using range_end [OF Suc.prems(3)] by (simp_all only: nat.distinct zero_less_Suc simp_thms)
  have np0: "\<not> present (mem s) pd (vpn a)" using Suc.prems(4) by (metis add_0_right le0)
  obtain used ps' t where t: "vm_step pd F ps s used ps' t"
      "ps' = [] \<and> t = s \<and> mappages_loop pd a ?l pa perm s = Inr (-1, t) \<or>
       (\<forall>v<1048576. pte (mem t) pd v = (if v = vpn a then pa OR perm OR PTE_P else pte (mem s) pd v)) \<and>
       mappages_loop pd a ?l pa perm s = mappages_loop pd (a + 4096) ?l (pa + 4096) perm t"
    using mappages_step [OF Suc.prems(1) np0, of ?l pa perm] unfolding if_not_P [OF l(1)] if_not_P [OF l(2)] by blast
  have le: "?l = a + 4096 + of_nat n * 4096" by (simp add: algebra_simps)
  from t(2) show ?case
  proof (elim disjE conjE)
    assume "ps' = []" "t = s" "mappages_loop pd a ?l pa perm s = Inr (-1, t)"
    then show ?case using t(1) by (intro exI [of _ "-1"] exI [of _ used] exI [of _ ps'] exI [of _ t]) simp
  next
    assume e: "\<forall>v<1048576. pte (mem t) pd v = (if v = vpn a then pa OR perm OR PTE_P else pte (mem s) pd v)"
      and r: "mappages_loop pd a ?l pa perm s = mappages_loop pd (a + 4096) ?l (pa + 4096) perm t"
    have np: "\<forall>i\<le>n. \<not> present (mem t) pd (vpn (a + 4096) + i)"
      using e a(3,4) Suc.prems(4) by (auto simp: present_def vpn_def)
    have inv: "vm_inv pd (F - set used) ps' t" using t(1) by (simp add: vm_step_def)
    obtain r' used' ps'' u where u: "mappages_loop pd (a + 4096) (a + 4096 + of_nat n * 4096) (pa + 4096) perm t = Inr (r', u)"
        "vm_step pd (F - set used) ps' t used' ps'' u"
        "if r' = 0 then \<forall>v<1048576. pte (mem u) pd v = mapped_range (vpn (a + 4096)) n (pa + 4096) perm (pte (mem t) pd) v
         else r' = -1 \<and> ps'' = [] \<and>
           (\<forall>v<1048576. v < vpn (a + 4096) \<or> vpn (a + 4096) + n < v \<longrightarrow> pte (mem u) pd v = pte (mem t) pd v)"
      using Suc.IH [OF inv a(1,4) np, of "pa + 4096"] by blast
    have "mapped_range (Suc (vpn a)) n (pa + 4096) perm (pte (mem t) pd) v = mapped_range (vpn a) (Suc n) pa perm (pte (mem s) pd) v"
      if "v < 1048576" for v
    proof -
      have "pa + 4096 + of_nat (v - Suc (vpn a)) * 4096 = pa + of_nat (v - vpn a) * 4096" if "Suc (vpn a) \<le> v"
      proof -
        have "v - vpn a = Suc (v - Suc (vpn a))" using that by simp
        then show ?thesis by (simp add: algebra_simps)
      qed
      then show ?thesis using e that by (auto simp: mapped_range_def)
    qed
    then show ?case
      using u vm_step_trans [OF t(1) u(2)] e a(3) r [unfolded le]
      unfolding le by (intro exI [of _ r'] exI [of _ "used @ used'"] exI [of _ ps''] exI [of _ u]) (auto split: if_splits)
  qed
qed

lemma PGROUNDDOWN_vpn: "PGROUNDDOWN va = of_nat (vpn va) * 4096" "unat (PGROUNDDOWN va) = 4096 * vpn va"
proof -
  show u: "unat (PGROUNDDOWN va) = 4096 * vpn va" by (simp add: unat_PGROUNDDOWN vpn_def minus_mod_eq_mult_div)
  have "unat (of_nat (vpn va) * 4096 :: u32) = 4096 * vpn va"
    using vpn_less [of va] by (simp add: unat_word_ariths unat_of_nat)
  then show "PGROUNDDOWN va = of_nat (vpn va) * 4096" using u by (simp only: u32_eq_iff)
qed

lemma va_split: "va = of_nat (vpn va) * 4096 + (va AND 0xFFF)"
proof -
  have "unat (of_nat (vpn va) * 4096 :: u32) = 4096 * vpn va"
    using PGROUNDDOWN_vpn [of va] by simp
  moreover have "unat va = 4096 * vpn va + unat va mod 4096" by (simp add: vpn_def)
  ultimately have "unat (of_nat (vpn va) * 4096 + (va AND 0xFFF)) = unat va"
    using unat_u32_less [of va] by (simp add: unat_u32_add unat_and_mask12)
  then show ?thesis by (simp only: u32_eq_iff)
qed

lemma aligned_mult: "(of_nat n * 4096 :: u32) mod 4096 = 0"
  by (simp only: u32_eq_iff unat_mod unat_word_ariths) (simp add: mod_mod_cancel)

lemma range_vpn:
  assumes "0 < sz" and "unat va + unat sz \<le> 4294967296"
  shows "vpn va \<le> vpn (va + sz - 1)"
proof -
  have "0 < unat sz" using assms(1) by (simp add: word_less_nat_alt)
  then have "unat (va + sz - 1) = unat va + unat sz - 1"
    using assms(2) unat_u32_less [of va] unat_u32_less [of sz] by (auto simp: u32_nat)
  then show ?thesis using \<open>0 < unat sz\<close> by (simp add: vpn_def div_le_mono)
qed

lemma mappages_maps:
  assumes "vm_inv pd F ps s" and "0 < sz" and "unat va + unat sz \<le> 4294967296"
    and "\<forall>v. vpn va \<le> v \<and> v \<le> vpn (va + sz - 1) \<longrightarrow> \<not> present (mem s) pd v"
  shows "\<exists>r used ps' t. mappages pd va sz pa perm s = Inr (r, t) \<and> vm_step pd F ps s used ps' t \<and>
    (if r = 0 then \<forall>v<1048576. pte (mem t) pd v =
       mapped_range (vpn va) (vpn (va + sz - 1) - vpn va) pa perm (pte (mem s) pd) v
     else r = -1 \<and> ps' = [] \<and>
       (\<forall>v<1048576. v < vpn va \<or> vpn (va + sz - 1) < v \<longrightarrow> pte (mem t) pd v = pte (mem s) pd v))"
proof -
  have le: "vpn va \<le> vpn (va + sz - 1)" by (rule range_vpn [OF assms(2,3)])
  define n where "n = vpn (va + sz - 1) - vpn va"
  let ?a = "PGROUNDDOWN va"
  have v: "vpn ?a = vpn va" by (simp add: vpn_def [of ?a] PGROUNDDOWN_vpn(2))
  have n: "vpn (va + sz - 1) = vpn va + n" using le by (simp add: n_def)
  have l: "PGROUNDDOWN (va + sz - 1) = ?a + of_nat n * 4096"
    by (simp only: PGROUNDDOWN_vpn(1) n of_nat_add distrib_right)
  have a: "?a mod 4096 = 0" by (simp add: PGROUNDDOWN_vpn(1) aligned_mult)
  have "4096 * vpn (va + sz - 1) \<le> unat (va + sz - 1)" by (simp add: vpn_def)
  then have b: "unat ?a + 4096 * n < 4294967296"
    using unat_u32_less [of "va + sz - 1"] by (simp add: PGROUNDDOWN_vpn(2) n)
  have np: "\<forall>i\<le>n. \<not> present (mem s) pd (vpn ?a + i)" using assms(4) n by (simp add: v)
  show ?thesis
    using mappages_loop_maps [OF assms(1) a b np, of pa perm]
    unfolding mappages_def Let_def l v n diff_add_inverse .
qed

lemma xlate_pte:
  "xlate m pd va = (if present m pd (vpn va) then Some (P2V (PTE_ADDR (pte m pd (vpn va))) + (va AND 0xFFF)) else None)"
  by (simp add: xlate_def present_def pte_def has_table_def pde_def ptab_at_def PDX_vpn PTX_vpn Let_def)

lemma aligned_add: "(a :: u32) mod 4096 = 0 \<Longrightarrow> b mod 4096 = 0 \<Longrightarrow> (a + b) mod 4096 = 0"
proof -
  assume "a mod 4096 = 0" "b mod 4096 = 0"
  then have "unat a mod 4096 = 0" "unat b mod 4096 = 0" using unat_mod [of a 4096] unat_mod [of b 4096] by simp_all
  then obtain k l where "unat a = 4096 * k" "unat b = 4096 * l" by (auto elim!: dvdE)
  then have "(unat a + unat b) mod 4294967296 mod 4096 = 0" by (simp add: mod_mod_cancel)
  then show ?thesis by (simp only: u32_eq_iff unat_mod unat_word_ariths) simp
qed

lemma flags_or: "(f :: u32) < 4096 \<Longrightarrow> g < 4096 \<Longrightarrow> f OR g < 4096"
proof -
  assume "f < 4096" "g < 4096"
  then have "take_bit 12 f = f" "take_bit 12 g = g" by (simp_all add: take_bit_eq_mod u32_nat)
  then have "f OR g = take_bit 12 (f OR g)" by (simp add: take_bit_or)
  then have "f OR g = (f OR g) mod 4096" by (simp add: take_bit_eq_mod)
  then have "unat (f OR g) = unat (f OR g) mod 4096" using unat_mod [of "f OR g" 4096] by simp
  then have "unat (f OR g) < 4096" using mod_less_divisor [of 4096 "unat (f OR g)"] by linarith
  then show ?thesis by (simp add: word_less_nat_alt)
qed

lemma mapped_entry:
  assumes "va mod 4096 = 0" and "pa mod 4096 = 0" and "perm < 4096" and "vpn va \<le> vpn x"
  shows "((pa + of_nat (vpn x - vpn va) * 4096) OR perm OR 1) AND 1 = 1"
    and "P2V (PTE_ADDR ((pa + of_nat (vpn x - vpn va) * 4096) OR perm OR 1)) + (x AND 0xFFF) = P2V (pa + (x - va))"
proof -
  let ?p = "pa + of_nat (vpn x - vpn va) * 4096"
  have p: "?p mod 4096 = 0" by (rule aligned_add [OF assms(2) aligned_mult])
  have f: "perm OR 1 < 4096" by (rule flags_or [OF assms(3)]) simp
  note w = pte_parts [OF p f]
  have "(perm OR 1) AND 1 = (1 :: u32)" by (rule bit_word_eqI) (auto simp: bit_simps)
  then show "(?p OR perm OR 1) AND 1 = 1" using w(3) by simp
  have "unat va mod 4096 = 0" using assms(1) unat_mod [of va 4096] by simp
  then have "va AND 0xFFF = 0" by (simp add: u32_eq_iff unat_and_mask12)
  then have "va = of_nat (vpn va) * 4096" using va_split [of va] by simp
  then have "x - va = of_nat (vpn x - vpn va) * 4096 + (x AND 0xFFF)"
    using va_split [of x] assms(4) by (simp add: of_nat_diff algebra_simps)
  then show "P2V (PTE_ADDR (?p OR perm OR 1)) + (x AND 0xFFF) = P2V (pa + (x - va))"
    using w(1) by (simp add: P2V_def)
qed

lemma demo_vm_calm: "mem_calm demo_vm"
proof -
  have t: "this_cpu demo_vm = 1" by code_simp
  show ?thesis
    by (simp add: mem_calm_def calm_def cpu_ok_def noted_def depth_def lock_free_def t cpus_upd_id)
      (simp add: demo_vm_def boot_kmem_def boot_mach_def upd_nth_def)
qed

lemma demo_vm_inv: "vm_inv 0x80400000 {0x80401000} [0x80401000] demo_vm"
proof -
  have z: "load32 (mem demo_vm) a = 0" for a by (simp add: demo_vm_def boot_kmem_def load32_def)
  have "ld_end demo_vm = 0x80110000" "freelist demo_vm = 0x80401000"
    by (simp_all add: demo_vm_def boot_kmem_def)
  then show ?thesis
    by (simp add: vm_inv_def demo_vm_calm kmem_inv_def tables_ok_def has_table_def pde_def z phys_page_def V2P_def)
qed

section \<open>Properties\<close>

text \<open>
  C21: \<open>mappages\<close> installs exactly the translation asked for. On a range of \<open>sz\<close> bytes
  from a page boundary in which nothing is mapped it returns 0, and then every address of the pages
  the range touches translates to the byte at the same distance from \<open>pa\<close>, while all other
  addresses translate as before; or it returns -1, and then no free page was left for a page
  table. It never panics, and writes to no page outside the directory, its tables and the free
  pages it took.
\<close>

theorem mappages_translates:
  assumes "vm_inv pd F ps s" and "va mod PGSIZE = 0" and "pa mod PGSIZE = 0" and "perm < PGSIZE"
    and "0 < sz" and "unat va + unat sz \<le> 4294967296"
    and "\<forall>v. vpn va \<le> v \<and> v \<le> vpn (va + sz - 1) \<longrightarrow> \<not> present (mem s) pd v"
  shows "\<exists>r used ps' t. mappages pd va sz pa perm s = Inr (r, t) \<and> (r = 0 \<or> r = -1 \<and> ps' = []) \<and>
    ps = used @ ps' \<and> kmem_inv ps' t \<and> same_on (F - set used) (mem s) (mem t) \<and>
    (r = 0 \<longrightarrow> (\<forall>x. xlate (mem t) pd x =
      (if vpn va \<le> vpn x \<and> vpn x \<le> vpn (va + sz - 1) then Some (P2V (pa + (x - va))) else xlate (mem s) pd x)))"
proof -
  obtain r used ps' t where t: "mappages pd va sz pa perm s = Inr (r, t)" "vm_step pd F ps s used ps' t"
    "if r = 0 then \<forall>v<1048576. pte (mem t) pd v =
       mapped_range (vpn va) (vpn (va + sz - 1) - vpn va) pa perm (pte (mem s) pd) v
     else r = -1 \<and> ps' = [] \<and>
       (\<forall>v<1048576. v < vpn va \<or> vpn (va + sz - 1) < v \<longrightarrow> pte (mem t) pd v = pte (mem s) pd v)"
    using mappages_maps [OF assms(1,5-7), of pa perm] by blast
  have "xlate (mem t) pd x = (if vpn va \<le> vpn x \<and> vpn x \<le> vpn (va + sz - 1) then Some (P2V (pa + (x - va)))
      else xlate (mem s) pd x)" if "r = 0" for x
  proof -
    have "vpn va + (vpn (va + sz - 1) - vpn va) = vpn (va + sz - 1)" using range_vpn [OF assms(5,6)] by simp
    then have e: "pte (mem t) pd (vpn x) = (if vpn va \<le> vpn x \<and> vpn x \<le> vpn (va + sz - 1)
        then (pa + of_nat (vpn x - vpn va) * 4096) OR perm OR 1 else pte (mem s) pd (vpn x))"
      using t(3) that vpn_less [of x] by (simp only: mapped_range_def if_True simp_thms)
    show ?thesis
      using mapped_entry [OF assms(2-4), of x] by (simp only: xlate_pte present_def e) simp
  qed
  then show ?thesis
    using t by (intro exI [of _ r] exI [of _ used] exI [of _ ps'] exI [of _ t]) (auto simp: vm_step_def vm_inv_def split: if_splits)
qed

theorem mappages_translates_witness:
  "\<exists>r used ps' t. mappages 0x80400000 0x1000 0x2000 0x500000 PTE_W demo_vm = Inr (r, t) \<and> (r = 0 \<or> r = -1 \<and> ps' = []) \<and>
    [0x80401000] = used @ ps' \<and> kmem_inv ps' t \<and> same_on ({0x80401000} - set used) (mem demo_vm) (mem t) \<and>
    (r = 0 \<longrightarrow> (\<forall>x. xlate (mem t) 0x80400000 x = (if vpn 0x1000 \<le> vpn x \<and> vpn x \<le> vpn (0x1000 + 0x2000 - 1)
      then Some (P2V (0x500000 + (x - 0x1000))) else xlate (mem demo_vm) 0x80400000 x)))"
proof (rule mappages_translates [OF demo_vm_inv])
  show "\<forall>v. vpn 0x1000 \<le> v \<and> v \<le> vpn (0x1000 + 0x2000 - 1) \<longrightarrow> \<not> present (mem demo_vm) 0x80400000 v"
    by (simp add: present_def pte_def has_table_def pde_def demo_vm_def boot_kmem_def load32_def)
qed simp_all

end
