(* ===== verification/Vm_Free.thy ===== *)
theory Vm_Free
  imports Vm_Maps
begin

unbundle bit_operations_syntax

text \<open>
  Taking address spaces down: \<open>deallocuvm\<close> and \<open>freevm\<close> on address spaces whose directory,
  page tables and user pages are different physical pages. The loops return, the pages come back to
  the free list, and no page of another owner is written to.
\<close>

section \<open>Definitions\<close>

text \<open>The pages of user memory: those of present entries below \<open>KERNBASE\<close>.\<close>

definition upage :: "memory \<Rightarrow> u32 \<Rightarrow> nat \<Rightarrow> u32" where
  "upage m pd v = P2V (PTE_ADDR (pte m pd v))"

definition uset :: "memory \<Rightarrow> u32 \<Rightarrow> nat set" where
  "uset m pd = {v. v < 524288 \<and> present m pd v}"

text \<open>
  A complete address space: its directory, its tables and its user pages are different physical
  pages, none is free (\<open>ps\<close>) and none belongs to somebody else (\<open>G\<close>).
\<close>

definition aspace :: "u32 \<Rightarrow> u32 set \<Rightarrow> u32 list \<Rightarrow> 'z kmem_scheme \<Rightarrow> bool" where
  "aspace pd G ps s \<longleftrightarrow> mem_calm s \<and> kmem_inv ps s \<and> KERNBASE < ld_end s \<and>
     tables_ok (ld_end s) (mem s) pd (set ps \<union> upage (mem s) pd ` uset (mem s) pd \<union> G) \<and>
     inj_on (upage (mem s) pd) (uset (mem s) pd) \<and> set ps \<inter> G = {} \<and>
     (\<forall>v\<in>uset (mem s) pd. phys_page (ld_end s) (upage (mem s) pd v) \<and> upage (mem s) pd v \<notin> set ps \<union> G)"

text \<open>
  The entries of \<open>R\<close> that were present are cleared and their pages are on the free list; the
  other user pages keep their contents.
\<close>

definition freed :: "u32 \<Rightarrow> u32 set \<Rightarrow> nat set \<Rightarrow> u32 list \<Rightarrow> 'z kmem_scheme \<Rightarrow> u32 list \<Rightarrow> 'z kmem_scheme \<Rightarrow> bool" where
  "freed pd G R ps s ps' t \<longleftrightarrow> mem_frame s t \<and> aspace pd G ps' t \<and>
     same_on (G \<union> upage (mem s) pd ` (uset (mem s) pd - R)) (mem s) (mem t) \<and>
     set ps' = set ps \<union> upage (mem s) pd ` (R \<inter> uset (mem s) pd) \<and>
     (\<forall>w<1048576. pte (mem t) pd w = (if w \<in> R \<inter> uset (mem s) pd then 0 else pte (mem s) pd w)) \<and>
     (\<forall>d<1024. has_table (mem t) pd d = has_table (mem s) pd d \<and> ptab_at (mem t) pd d = ptab_at (mem s) pd d)"

text \<open>One round of the loop goes on at \<open>b\<close>, having dealt with the pages from \<open>a\<close> to there.\<close>

definition dealloc_round :: "u32 \<Rightarrow> u32 set \<Rightarrow> u32 list \<Rightarrow> u32 \<Rightarrow> u32 \<Rightarrow> 'z kmem_scheme \<Rightarrow> u32 \<Rightarrow> 'z kmem_scheme \<Rightarrow> u32 list \<Rightarrow> bool" where
  "dealloc_round pd G ps a oldsz s b u ps' \<longleftrightarrow> deallocuvm_loop pd a oldsz s = deallocuvm_loop pd b oldsz u \<and>
     vpn a < vpn b \<and> b mod 4096 = 0 \<and> freed pd G {v. vpn a \<le> v \<and> v < vpn b} ps s ps' u \<and>
     (\<forall>v\<in>uset (mem s) pd. v < vpn b \<longrightarrow> vpn a \<le> v \<longrightarrow> 4096 * v < unat oldsz)"

text \<open>What the second loop of \<open>freevm\<close> needs of the tables it has still to free.\<close>

definition tables_left :: "u32 \<Rightarrow> u32 set \<Rightarrow> u32 list \<Rightarrow> nat set \<Rightarrow> 'z kmem_scheme \<Rightarrow> bool" where
  "tables_left pd G ps D s \<longleftrightarrow> mem_calm s \<and> kmem_inv ps s \<and> pd mod PGSIZE = 0 \<and> (\<forall>q\<in>G. q mod PGSIZE = 0) \<and> D \<subseteq> {..<1024} \<and>
     inj_on (ptab_at (mem s) pd) {d\<in>D. has_table (mem s) pd d} \<and>
     (\<forall>d\<in>D. has_table (mem s) pd d \<longrightarrow> phys_page (ld_end s) (ptab_at (mem s) pd d) \<and>
       ptab_at (mem s) pd d \<notin> insert pd (set ps \<union> G))"

text \<open>An address space with one table and one user page, on a quiet machine with one free page.\<close>

definition demo_as :: kmem where
  "demo_as = demo_vm\<lparr>freelist := 0x80403000,
     mem := set_pte (new_table (mem demo_vm) 0x80400000 0 0x80401000) 0x80400000 0 (0x402000 OR 7)\<rparr>"

section \<open>One page\<close>

lemma kfree_page:
  assumes "mem_calm s" and "kmem_inv ps s" and "phys_page (ld_end s) p" and "p \<notin> set ps"
  shows "\<exists>t. kfree p s = Inr t \<and> mem_frame s t \<and> kmem_inv (p # ps) t \<and>
    (\<forall>q. q mod 4096 = 0 \<longrightarrow> q \<noteq> p \<longrightarrow> same_on {q} (mem s) (mem t))"
proof -
  have "kmem_ready s" using assms(1) by (simp add: kmem_ready_def mem_calm_def calm_cpu_ok)
  then obtain t where t: "kfree p s = Inr t" "kmem_inv (p # ps) t" "\<forall>a. 4096 \<le> a - p \<longrightarrow> mem t a = mem s a"
    using returnsR_obtain [OF kfree_inv [OF assms(2) _ assms(3,4)]] by auto
  have p: "p mod 4096 = 0" using assms(3) unfolding phys_page_def by (rule conjunct1)
  have "same_on {q} (mem s) (mem t)" if "q mod 4096 = 0" "q \<noteq> p" for q
    using t(3) page_apart [OF that(1) p that(2)] by (simp add: same_on_def)
  then show ?thesis using t kfree_frame [OF assms(1) t(1)] by auto
qed

lemma same_on_insert: "same_on (insert p P) m m' \<longleftrightarrow> same_on {p} m m' \<and> same_on P m m'"
  by (auto simp: same_on_def)

lemma same_on_all: "(\<And>p. p \<in> P \<Longrightarrow> same_on {p} m m') \<Longrightarrow> same_on P m m'"
  by (auto simp: same_on_def)

lemma table_pages_aligned: "tables_ok b m pd F \<Longrightarrow> p \<in> table_pages m pd \<Longrightarrow> p mod 4096 = 0"
  using ptab_at_aligned tables_okD(1) unfolding table_pages_def by blast

lemma table_pages_apart: "tables_ok b m pd F \<Longrightarrow> p \<in> table_pages m pd \<Longrightarrow> p \<notin> F"
  using tables_okD(2,5) unfolding table_pages_def by blast

lemma phys_nonzero: "KERNBASE < b \<Longrightarrow> phys_page b (P2V x) \<Longrightarrow> x \<noteq> 0"
  by (auto simp: phys_page_def P2V_def word_le_nat_alt word_less_nat_alt)

text \<open>Freeing the page of entry \<open>v\<close> and clearing the entry.\<close>

lemma free_upage:
  assumes "aspace pd G ps s" and "v \<in> uset (mem s) pd"
  defines "p \<equiv> upage (mem s) pd v"
  shows "\<exists>u. kfree p s = Inr u \<and> (let t = u\<lparr>mem := store32 (mem u) (ptab_at (mem s) pd (v div 1024) + 4 * of_nat (v mod 1024)) 0\<rparr>
    in mem_frame s t \<and> aspace pd G (p # ps) t \<and>
      same_on (G \<union> upage (mem s) pd ` (uset (mem s) pd - {v})) (mem s) (mem t) \<and>
      (\<forall>w<1048576. pte (mem t) pd w = (if w = v then 0 else pte (mem s) pd w)) \<and>
      (\<forall>d<1024. has_table (mem t) pd d = has_table (mem s) pd d \<and> ptab_at (mem t) pd d = ptab_at (mem s) pd d))"
proof -
  let ?F = "set ps \<union> upage (mem s) pd ` uset (mem s) pd \<union> G"
  have c: "mem_calm s" "kmem_inv ps s" "KERNBASE < ld_end s" "tables_ok (ld_end s) (mem s) pd ?F"
      "inj_on (upage (mem s) pd) (uset (mem s) pd)" "set ps \<inter> G = {}"
      "\<forall>v\<in>uset (mem s) pd. phys_page (ld_end s) (upage (mem s) pd v) \<and> upage (mem s) pd v \<notin> set ps \<union> G"
    using assms(1) by (simp_all add: aspace_def)
  have pp: "phys_page (ld_end s) p" "p \<notin> set ps" "p \<notin> G" "p \<in> ?F" using c(7) assms(2) by (auto simp: p_def)
  obtain u where u: "kfree p s = Inr u" "mem_frame s u" "kmem_inv (p # ps) u"
      "\<And>q. q mod 4096 = 0 \<Longrightarrow> q \<noteq> p \<Longrightarrow> same_on {q} (mem s) (mem u)"
    using kfree_page [OF c(1,2) pp(1,2)] by blast
  have tp: "same_on (table_pages (mem s) pd) (mem s) (mem u)"
  proof (rule same_on_all)
    fix q assume "q \<in> table_pages (mem s) pd"
    then have "q mod 4096 = 0" "q \<noteq> p" using table_pages_aligned [OF c(4)] table_pages_apart [OF c(4)] pp(4) by blast+
    then show "same_on {q} (mem s) (mem u)" by (rule u(4))
  qed
  note e = same_on_tables [OF tp]
  have v: "v < 1048576" "v div 1024 < 1024" "has_table (mem s) pd (v div 1024)" "v < 524288"
    using assms(2) by (auto simp: uset_def present_def pte_def split: if_splits)
  have tu: "tables_ok (ld_end s) (mem u) pd ?F" by (rule tables_ok_same [OF c(4) tp])
  have vt: "has_table (mem u) pd (v div 1024)" using e(2) v(2,3) by simp
  let ?m = "set_pte (mem u) pd v 0"
  note sp = set_pte [OF tu v(1) vt, where w = 0]
  let ?t = "u\<lparr>mem := ?m\<rparr>"
  have pt: "pte ?m pd w = (if w = v then 0 else pte (mem s) pd w)" if "w < 1048576" for w
    using sp(2) e(4) that by simp
  have ht: "has_table ?m pd d = has_table (mem s) pd d" "ptab_at ?m pd d = ptab_at (mem s) pd d" if "d < 1024" for d
    using sp(3,4) e(2,3) that by simp_all
  have us: "uset ?m pd = uset (mem s) pd - {v}" using pt by (auto simp: uset_def present_def split: if_splits)
  have up: "upage ?m pd w = upage (mem s) pd w" if "w \<in> uset (mem s) pd - {v}" for w
    using that pt by (auto simp: upage_def uset_def)
  have uv: "upage (mem s) pd ` uset (mem s) pd = insert p (upage ?m pd ` uset ?m pd)"
    using assms(2) up us by (auto simp: p_def image_iff)
  have F: "set (p # ps) \<union> upage ?m pd ` uset ?m pd \<union> G = ?F" using uv by auto
  have tab: "ptab_at (mem u) pd (v div 1024) \<notin> ?F" by (rule tables_okD(5) [OF tu v(2) vt])
  have sF: "same_on {q} (mem u) ?m" if "q \<in> ?F" for q
    using tables_okD(3) [OF tu that] by (rule sp(5)) (use that tab in blast)
  have ld: "ld_end u = ld_end s" by (rule mem_frame_ld_end [OF u(2)])
  have "kmem_inv (p # ps) ?t"
  proof (rule kmem_inv_same [OF u(3)])
    show "same_on (set (p # ps)) (mem u) (mem ?t)"
      using sF pp(4) same_on_all [of "set (p # ps)" "mem u" ?m] by auto
  qed simp_all
  moreover have "inj_on (upage ?m pd) (uset ?m pd)"
    using c(5) up unfolding us inj_on_def by simp
  moreover have "phys_page (ld_end s) (upage ?m pd w) \<and> upage ?m pd w \<notin> set (p # ps) \<union> G" if "w \<in> uset ?m pd" for w
    using that c(5,7) up assms(2) unfolding us by (auto simp: p_def inj_on_def)
  ultimately have "aspace pd G (p # ps) ?t"
    using c(1,3,6) pp(3) sp(1) [folded F] mem_frame_mem_calm [OF u(2)] by (simp add: aspace_def ld)
  moreover have "same_on (G \<union> upage (mem s) pd ` (uset (mem s) pd - {v})) (mem s) ?m"
  proof (rule same_on_all)
    fix q assume q: "q \<in> G \<union> upage (mem s) pd ` (uset (mem s) pd - {v})"
    then have "q \<in> ?F" "q \<noteq> p" using pp(3) c(5) assms(2) by (auto simp: p_def inj_on_def)
    then have "same_on {q} (mem s) (mem u)" by (intro u(4) tables_okD(3) [OF c(4)])
    moreover have "same_on {q} (mem u) ?m" by (rule sF) fact
    ultimately show "same_on {q} (mem s) ?m" by (rule same_on_trans)
  qed
  moreover have "mem_frame s ?t" by (rule mem_frame_trans [OF u(2)]) simp
  moreover have "?m = store32 (mem u) (ptab_at (mem s) pd (v div 1024) + 4 * of_nat (v mod 1024)) 0"
    using e(3) v(2) by (simp add: set_pte_def)
  ultimately show ?thesis using u(1) pt ht by (intro exI [of _ u]) (simp add: Let_def)
qed

section \<open>A range of pages\<close>

lemma freed_none: "aspace pd G ps s \<Longrightarrow> R \<inter> uset (mem s) pd = {} \<Longrightarrow> freed pd G R ps s ps s"
  by (simp add: freed_def)

lemma freed_cong:
  assumes "freed pd G R ps s ps' t" and "R \<inter> uset (mem s) pd = R' \<inter> uset (mem s) pd"
  shows "freed pd G R' ps s ps' t"
proof -
  have "uset (mem s) pd - R = uset (mem s) pd - R'" using assms(2) by blast
  then show ?thesis using assms by (simp add: freed_def)
qed

lemma freed_uset:
  assumes "freed pd G R ps s ps' t"
  shows "uset (mem t) pd = uset (mem s) pd - R" "w \<in> uset (mem t) pd \<Longrightarrow> upage (mem t) pd w = upage (mem s) pd w"
proof -
  have p: "pte (mem t) pd w = (if w \<in> R \<and> present (mem s) pd w then 0 else pte (mem s) pd w)" if "w < 524288" for w
    using assms that by (simp add: freed_def uset_def)
  then have q: "present (mem t) pd w \<longleftrightarrow> present (mem s) pd w \<and> w \<notin> R" if "w < 524288" for w
    using that by (auto simp: present_def split: if_splits)
  then show "uset (mem t) pd = uset (mem s) pd - R" by (auto simp: uset_def)
  show "w \<in> uset (mem t) pd \<Longrightarrow> upage (mem t) pd w = upage (mem s) pd w"
    using p [of w] q [of w] by (auto simp: uset_def upage_def)
qed

lemma freed_trans:
  assumes "freed pd G R ps s ps' t" and "freed pd G R' ps' t ps'' u"
  shows "freed pd G (R \<union> R') ps s ps'' u"
proof -
  have a: "mem_frame s t" "same_on (G \<union> upage (mem s) pd ` (uset (mem s) pd - R)) (mem s) (mem t)" "set ps' = set ps \<union> upage (mem s) pd ` (R \<inter> uset (mem s) pd)"
    "\<forall>w<1048576. pte (mem t) pd w = (if w \<in> R \<inter> uset (mem s) pd then 0 else pte (mem s) pd w)"
    "\<forall>d<1024. has_table (mem t) pd d = has_table (mem s) pd d \<and> ptab_at (mem t) pd d = ptab_at (mem s) pd d"
    using assms(1) unfolding freed_def by simp_all
  have b: "mem_frame t u" "aspace pd G ps'' u" "same_on (G \<union> upage (mem t) pd ` (uset (mem t) pd - R')) (mem t) (mem u)"
    "set ps'' = set ps' \<union> upage (mem t) pd ` (R' \<inter> uset (mem t) pd)"
    "\<forall>w<1048576. pte (mem u) pd w = (if w \<in> R' \<inter> uset (mem t) pd then 0 else pte (mem t) pd w)"
    "\<forall>d<1024. has_table (mem u) pd d = has_table (mem t) pd d \<and> ptab_at (mem u) pd d = ptab_at (mem t) pd d"
    using assms(2) unfolding freed_def by simp_all
  note us = freed_uset [OF assms(1)]
  have im: "upage (mem t) pd ` (R' \<inter> uset (mem t) pd) = upage (mem s) pd ` (R' \<inter> (uset (mem s) pd - R))"
    using us by (intro image_cong) auto
  have im': "upage (mem t) pd ` (uset (mem t) pd - R') = upage (mem s) pd ` (uset (mem s) pd - (R \<union> R'))"
    using us by (intro image_cong) auto
  have "same_on (G \<union> upage (mem s) pd ` (uset (mem s) pd - (R \<union> R'))) (mem s) (mem u)"
    using b(3) unfolding im' by (rule same_on_trans [OF same_on_subset [OF a(2)], rotated]) auto
  moreover have "set ps'' = set ps \<union> upage (mem s) pd ` ((R \<union> R') \<inter> uset (mem s) pd)"
    unfolding b(4) a(3) im by blast
  moreover have "\<forall>w<1048576. pte (mem u) pd w = (if w \<in> (R \<union> R') \<inter> uset (mem s) pd then 0 else pte (mem s) pd w)"
    using a(4) b(5) us(1) by auto
  ultimately show ?thesis
    using a(5) b(2,6) mem_frame_trans [OF a(1) b(1)] unfolding freed_def by simp
qed

lemma free_upage_freed:
  assumes "aspace pd G ps s" and "v \<in> uset (mem s) pd"
  shows "\<exists>u. kfree (upage (mem s) pd v) s = Inr u \<and>
    freed pd G {v} ps s (upage (mem s) pd v # ps)
      (u\<lparr>mem := store32 (mem u) (ptab_at (mem s) pd (v div 1024) + 4 * of_nat (v mod 1024)) 0\<rparr>)"
  using free_upage [OF assms] assms(2) by (auto simp: Let_def freed_def)

lemma next_table:
  assumes "vpn a < 524288"
  shows "unat (PGADDR (PDX a + 1) 0 0) = 4194304 * Suc (vpn a div 1024)"
    "vpn (PGADDR (PDX a + 1) 0 0) = 1024 * Suc (vpn a div 1024)" "PGADDR (PDX a + 1) 0 0 mod 4096 = 0"
proof -
  have d: "vpn a div 1024 < 512" using assms by simp
  have "PGADDR (PDX a + 1) 0 0 = of_nat (Suc (vpn a div 1024)) * 4194304"
    by (simp add: PGADDR_def PDX_vpn push_bit_eq_mult)
  then show u: "unat (PGADDR (PDX a + 1) 0 0) = 4194304 * Suc (vpn a div 1024)"
    using d by (simp add: unat_word_ariths unat_of_nat)
  show "vpn (PGADDR (PDX a + 1) 0 0) = 1024 * Suc (vpn a div 1024)" by (simp add: vpn_def u)
  show "PGADDR (PDX a + 1) 0 0 mod 4096 = 0" by (simp only: u32_eq_iff unat_mod u) simp
qed

lemma aligned_vpn: "a mod 4096 = 0 \<Longrightarrow> unat a = 4096 * vpn a"
proof -
  assume "a mod 4096 = 0"
  then have "unat a mod 4096 = 0" using unat_mod [of a 4096] by simp
  then show ?thesis using mult_div_mod_eq [of 4096 "unat a"] by (simp add: vpn_def)
qed

lemma dealloc_skip:
  assumes "aspace pd G ps s" and "a mod 4096 = 0" and "a < oldsz" and "vpn a < 524288"
    and "\<not> has_table (mem s) pd (vpn a div 1024)"
  shows "dealloc_round pd G ps a oldsz s (PGADDR (PDX a + 1) 0 0) s ps"
proof -
  let ?b = "PGADDR (PDX a + 1) 0 0"
  note b = next_table [OF assms(4)]
  have ab: "vpn a < 1024 * Suc (vpn a div 1024)" using dividend_less_times_div [of 1024 "vpn a"] by simp
  have nw: "\<not> ?b \<le> a" using ab by (simp add: word_le_nat_alt b(1) aligned_vpn [OF assms(2)])
  have "deallocuvm_loop pd a oldsz s = deallocuvm_loop pd ?b oldsz s"
    using assms(3) nw by (subst deallocuvm_loop.simps) (simp add: walk_absent [OF assms(5)])
  moreover have no: "v \<notin> uset (mem s) pd" if "vpn a \<le> v" "v < vpn ?b" for v
  proof -
    have "v div 1024 < Suc (vpn a div 1024)" using that(2) by (simp add: b(2) less_mult_imp_div_less mult.commute)
    moreover have "vpn a div 1024 \<le> v div 1024" by (rule div_le_mono [OF that(1)])
    ultimately have "v div 1024 = vpn a div 1024" by simp
    then show ?thesis using assms(5) by (simp add: uset_def present_def pte_def)
  qed
  moreover have "freed pd G {v. vpn a \<le> v \<and> v < vpn ?b} ps s ps s"
    by (rule freed_none [OF assms(1)]) (use no in blast)
  ultimately show ?thesis using ab b(3) unfolding dealloc_round_def b(2) by blast
qed

lemma dealloc_page:
  assumes "aspace pd G ps s" and "a mod 4096 = 0" and "a < oldsz" and "vpn a < 524288"
    and ht: "has_table (mem s) pd (vpn a div 1024)"
  shows "\<exists>u ps'. dealloc_round pd G ps a oldsz s (a + 4096) u ps'"
proof -
  have al: "unat a = 4096 * vpn a" by (rule aligned_vpn [OF assms(2)])
  have lt: "4096 * vpn a < unat oldsz" using assms(3) al by (simp add: word_less_nat_alt)
  have fits: "unat a + 4096 * Suc 0 < 4294967296" using al assms(4) by simp
  note n = next_page [OF assms(2) fits]
  have nw: "\<not> a + 4096 \<le> a" using n(2) by (simp add: word_le_nat_alt)
  let ?p = "ptab_at (mem s) pd (vpn a div 1024) + 4 * of_nat (vpn a mod 1024)"
  have p0: "?p \<noteq> 0" and pe: "load32 (mem s) ?p = pte (mem s) pd (vpn a)"
    using table_page_nonzero [OF _ _ ht] assms(1,4) ht by (auto simp: aspace_def pte_def)
  have one: "{v. vpn a \<le> v \<and> v < vpn (a + 4096)} = {vpn a}" using n(3) by auto
  show ?thesis
  proof (cases "present (mem s) pd (vpn a)")
    case True
    then have v: "vpn a \<in> uset (mem s) pd" using assms(4) by (simp add: uset_def)
    have pa: "PTE_ADDR (pte (mem s) pd (vpn a)) \<noteq> 0"
      using assms(1) v phys_nonzero by (auto simp: aspace_def upage_def)
    obtain u where u: "kfree (upage (mem s) pd (vpn a)) s = Inr u"
        "freed pd G {vpn a} ps s (upage (mem s) pd (vpn a) # ps) (u\<lparr>mem := store32 (mem u) ?p 0\<rparr>)"
      using free_upage_freed [OF assms(1) v] by blast
    have "deallocuvm_loop pd a oldsz s = deallocuvm_loop pd (a + 4096) oldsz (u\<lparr>mem := store32 (mem u) ?p 0\<rparr>)"
      using assms(3) True p0 pe pa nw u(1)
      by (subst deallocuvm_loop.simps) (simp add: walk_present [OF ht] present_def upage_def Let_def)
    then show ?thesis using u(2) n(1,3) lt one
      by (intro exI [of _ "u\<lparr>mem := store32 (mem u) ?p 0\<rparr>"] exI [of _ "upage (mem s) pd (vpn a) # ps"])
        (auto simp: dealloc_round_def one [symmetric] less_Suc_eq dest: order_antisym)
  next
    case False
    have "deallocuvm_loop pd a oldsz s = deallocuvm_loop pd (a + 4096) oldsz s"
      using assms(3) False p0 pe nw
      by (subst deallocuvm_loop.simps) (simp add: walk_present [OF ht] present_def Let_def)
    moreover have "freed pd G {vpn a} ps s ps s"
      by (rule freed_none [OF assms(1)]) (use False in \<open>simp add: uset_def\<close>)
    ultimately show ?thesis using n(1,3) lt one
      by (intro exI [of _ s] exI [of _ ps]) (auto simp: dealloc_round_def one [symmetric] less_Suc_eq dest: order_antisym)
  qed
qed

lemma deallocuvm_loop_frees:
  assumes "aspace pd G ps s" and "a mod 4096 = 0" and "unat oldsz \<le> 2147483648"
  shows "\<exists>ps' t. deallocuvm_loop pd a oldsz s = Inr t \<and> freed pd G {v. vpn a \<le> v \<and> 4096 * v < unat oldsz} ps s ps' t"
  using assms(1,2)
proof (induction "524288 - vpn a" arbitrary: a s ps rule: less_induct)
  case less
  have al: "unat a = 4096 * vpn a" by (rule aligned_vpn [OF less.prems(2)])
  show ?case
  proof (cases "a < oldsz")
    case False
    then have "{v. vpn a \<le> v \<and> 4096 * v < unat oldsz} = {}" using al by (auto simp: word_less_nat_alt)
    then have "freed pd G {v. vpn a \<le> v \<and> 4096 * v < unat oldsz} ps s ps s"
      by (simp only: freed_none [OF less.prems(1)] Int_empty_left)
    then show ?thesis using False by (subst deallocuvm_loop.simps) auto
  next
    case True
    then have lt: "vpn a < 524288" using al assms(3) by (auto simp: word_less_nat_alt)
    obtain b u qs where r: "dealloc_round pd G ps a oldsz s b u qs"
      using dealloc_skip [OF less.prems True lt] dealloc_page [OF less.prems True lt]
      by (cases "has_table (mem s) pd (vpn a div 1024)") blast+
    then have b: "deallocuvm_loop pd a oldsz s = deallocuvm_loop pd b oldsz u" "vpn a < vpn b" "b mod 4096 = 0"
        "freed pd G {v. vpn a \<le> v \<and> v < vpn b} ps s qs u"
        "\<forall>v\<in>uset (mem s) pd. v < vpn b \<longrightarrow> vpn a \<le> v \<longrightarrow> 4096 * v < unat oldsz"
      unfolding dealloc_round_def by blast+
    have as: "aspace pd G qs u" and sm: "524288 - vpn b < 524288 - vpn a"
      using b(2,4) lt by (simp_all add: freed_def)
    from less.hyps [OF sm as b(3)] obtain ps' t where t: "deallocuvm_loop pd b oldsz u = Inr t"
        "freed pd G {v. vpn b \<le> v \<and> 4096 * v < unat oldsz} qs u ps' t"
      by blast
    have "freed pd G {v. vpn a \<le> v \<and> 4096 * v < unat oldsz} ps s ps' t"
      by (rule freed_cong [OF freed_trans [OF b(4) t(2)]]) (use b(2,5) in auto)
    then show ?thesis using b(1) t(1) by auto
  qed
qed

lemma deallocuvm_frees:
  assumes "aspace pd G ps s" and "unat oldsz \<le> 2147483648" and "newsz < oldsz"
  shows "\<exists>ps' t. deallocuvm pd oldsz newsz s = Inr (newsz, t) \<and>
    freed pd G {v. unat newsz \<le> 4096 * v \<and> 4096 * v < unat oldsz} ps s ps' t"
proof -
  have u: "unat newsz < unat oldsz" using assms(3) by (simp add: word_less_nat_alt)
  then have r: "unat (PGROUNDUP newsz) = (unat newsz + 4095) div 4096 * 4096"
    using assms(2) by (subst unat_PGROUNDUP) simp_all
  have v: "vpn (PGROUNDUP newsz) \<le> v \<longleftrightarrow> unat newsz \<le> 4096 * v" for v
    using round_up_le [of "unat newsz" v] by (simp add: vpn_def r)
  have "PGROUNDUP newsz mod 4096 = 0" by (simp only: u32_eq_iff unat_mod r) simp
  then show ?thesis
    using deallocuvm_loop_frees [OF assms(1) _ assms(2), of "PGROUNDUP newsz"] assms(3) u
    by (auto simp: deallocuvm_def v)
qed

section \<open>The whole address space\<close>

lemma pd_tables_same:
  assumes "same_on {pd} m m'" and "d < 1024"
  shows "has_table m' pd d = has_table m pd d" "ptab_at m' pd d = ptab_at m pd d"
proof -
  have "load32 m' (pd + 4 * of_nat d) = load32 m (pd + 4 * of_nat d)"
    using assms(2) by (rule load_slot_same) (rule same_onD [OF assms(1)], simp_all)
  then show "has_table m' pd d = has_table m pd d" "ptab_at m' pd d = ptab_at m pd d"
    by (simp_all add: has_table_def ptab_at_def pde_def)
qed

lemma tables_left_step:
  assumes "tables_left pd G ps (insert d D) s" and "d \<notin> D" and "has_table (mem s) pd d"
  shows "\<exists>t. kfree (ptab_at (mem s) pd d) s = Inr t \<and> mem_frame s t \<and>
    tables_left pd G (ptab_at (mem s) pd d # ps) D t \<and> same_on (insert pd G) (mem s) (mem t)"
proof -
  let ?p = "ptab_at (mem s) pd d"
  have c: "mem_calm s" "kmem_inv ps s" "pd mod 4096 = 0" "\<forall>q\<in>G. q mod 4096 = 0" "insert d D \<subseteq> {..<1024}"
    "inj_on (ptab_at (mem s) pd) {e\<in>insert d D. has_table (mem s) pd e}"
    "\<forall>e\<in>insert d D. has_table (mem s) pd e \<longrightarrow> phys_page (ld_end s) (ptab_at (mem s) pd e) \<and>
       ptab_at (mem s) pd e \<notin> insert pd (set ps \<union> G)"
    using assms(1) unfolding tables_left_def by - (elim conjE, assumption)+
  have p: "phys_page (ld_end s) ?p" "?p \<notin> set ps" "?p \<noteq> pd" "?p \<notin> G" using c(7) assms(3) by auto
  obtain t where t: "kfree ?p s = Inr t" "mem_frame s t" "kmem_inv (?p # ps) t"
      "\<And>q. q mod 4096 = 0 \<Longrightarrow> q \<noteq> ?p \<Longrightarrow> same_on {q} (mem s) (mem t)"
    using kfree_page [OF c(1,2) p(1,2)] by blast
  have pd: "same_on {pd} (mem s) (mem t)" by (rule t(4) [OF c(3)]) (use p(3) in simp)
  have G: "same_on G (mem s) (mem t)"
  proof (rule same_on_all)
    fix q assume "q \<in> G"
    then show "same_on {q} (mem s) (mem t)" using c(4) p(4) by (intro t(4)) auto
  qed
  have same: "has_table (mem t) pd e = has_table (mem s) pd e" "ptab_at (mem t) pd e = ptab_at (mem s) pd e"
    if "e \<in> D" for e using pd_tables_same [OF pd, of e] that c(5) by auto
  have ne: "ptab_at (mem s) pd e \<noteq> ?p" if "e \<in> D" "has_table (mem s) pd e" for e
    using c(6) that assms(2,3) by (auto simp: inj_on_def)
  have "inj_on (ptab_at (mem t) pd) {e\<in>D. has_table (mem t) pd e}"
    using c(6) same by (auto simp: inj_on_def)
  then have "tables_left pd G (?p # ps) D t"
    using c(1,3-5,7) t(3) same ne mem_frame_mem_calm [OF t(2)] mem_frame_ld_end [OF t(2)]
    by (auto simp only: tables_left_def list.set Un_insert_left insert_iff Un_iff insert_subset)
  then show ?thesis using t(1,2) pd G same_on_insert [of pd G "mem s" "mem t"] by blast
qed

lemma freevm_loop_frees:
  assumes "tables_left pd G ps (set js) s" and "distinct js"
  shows "\<exists>ps' t. freevm_loop pd js s = Inr t \<and> mem_frame s t \<and> mem_calm t \<and> kmem_inv ps' t \<and>
    set ps' = set ps \<union> ptab_at (mem s) pd ` {d\<in>set js. has_table (mem s) pd d} \<and>
    same_on (insert pd G) (mem s) (mem t)"
  using assms
proof (induction js arbitrary: s ps)
  case Nil
  then show ?case by (intro exI [of _ ps] exI [of _ s]) (simp add: tables_left_def)
next
  case (Cons d js)
  have lt: "e < 1024" if "e \<in> insert d (set js)" for e using Cons.prems(1) that by (auto simp: tables_left_def)
  show ?case
  proof (cases "has_table (mem s) pd d")
    case True
    let ?p = "ptab_at (mem s) pd d"
    obtain u where u: "kfree ?p s = Inr u" "mem_frame s u" "tables_left pd G (?p # ps) (set js) u"
        "same_on (insert pd G) (mem s) (mem u)"
      using tables_left_step [OF _ _ True, of G ps "set js"] Cons.prems by auto
    obtain ps' t where t: "freevm_loop pd js u = Inr t" "mem_frame u t" "mem_calm t" "kmem_inv ps' t"
        "set ps' = set (?p # ps) \<union> ptab_at (mem u) pd ` {e\<in>set js. has_table (mem u) pd e}"
        "same_on (insert pd G) (mem u) (mem t)"
      using Cons.IH [OF u(3)] Cons.prems(2) by auto
    have pd: "same_on {pd} (mem s) (mem u)" by (rule same_on_subset [OF u(4)]) simp
    have "ptab_at (mem u) pd ` {e\<in>set js. has_table (mem u) pd e} = ptab_at (mem s) pd ` {e\<in>set js. has_table (mem s) pd e}"
      using pd_tables_same [OF pd] lt by (intro image_cong) auto
    then have "set ps' = set ps \<union> ptab_at (mem s) pd ` {e\<in>set (d # js). has_table (mem s) pd e}"
      using t(5) True by auto
    moreover have "freevm_loop pd (d # js) s = Inr t"
      using True u(1) t(1) by (simp add: has_table_def ptab_at_def pde_def Let_def)
    ultimately show ?thesis
      using t(3,4) mem_frame_trans [OF u(2) t(2)] same_on_trans [OF u(4) t(6)] by blast
  next
    case False
    have "tables_left pd G ps (set js) s"
      using Cons.prems(1) by (auto simp: tables_left_def intro: inj_on_subset)
    then obtain ps' t where t: "freevm_loop pd js s = Inr t" "mem_frame s t" "mem_calm t" "kmem_inv ps' t"
        "set ps' = set ps \<union> ptab_at (mem s) pd ` {e\<in>set js. has_table (mem s) pd e}"
        "same_on (insert pd G) (mem s) (mem t)"
      using Cons.IH Cons.prems(2) by fastforce
    moreover have "freevm_loop pd (d # js) s = Inr t"
      using False t(1) by (simp add: has_table_def pde_def Let_def)
    moreover have "{e\<in>set (d # js). has_table (mem s) pd e} = {e\<in>set js. has_table (mem s) pd e}" using False by auto
    ultimately show ?thesis by metis
  qed
qed

lemma aspace_tables_left:
  assumes "aspace pd G ps s"
  shows "tables_left pd G ps (set [0..<1024]) s"
proof -
  have t: "tables_ok (ld_end s) (mem s) pd (set ps \<union> upage (mem s) pd ` uset (mem s) pd \<union> G)" "mem_calm s" "kmem_inv ps s"
    using assms by (simp_all add: aspace_def)
  note d = tables_okD [OF t(1)]
  have "inj_on (ptab_at (mem s) pd) {d\<in>set [0..<1024]. has_table (mem s) pd d}"
    using d(7) by (auto simp: inj_on_def)
  moreover have "\<forall>q\<in>G. q mod 4096 = 0" using d(3) by blast
  moreover have "\<forall>e\<in>set [0..<1024]. has_table (mem s) pd e \<longrightarrow> phys_page (ld_end s) (ptab_at (mem s) pd e) \<and>
      ptab_at (mem s) pd e \<notin> insert pd (set ps \<union> G)"
    using d(4,5,6) by auto
  ultimately show ?thesis using t(2,3) d(1) unfolding tables_left_def by auto
qed

lemma freevm_frees:
  assumes "aspace pd G ps s"
  shows "\<exists>ps' t. freevm pd s = Inr t \<and> mem_frame s t \<and> kmem_inv ps' t \<and>
    set ps' = set ps \<union> upage (mem s) pd ` uset (mem s) pd \<union> table_pages (mem s) pd \<and>
    same_on G (mem s) (mem t)"
proof -
  obtain qs u where u: "deallocuvm pd KERNBASE 0 s = Inr (0, u)"
      "freed pd G {v. unat (0 :: u32) \<le> 4096 * v \<and> 4096 * v < unat (KERNBASE :: u32)} ps s qs u"
    using deallocuvm_frees [OF assms, of KERNBASE 0] by auto
  have R: "{v. unat (0 :: u32) \<le> 4096 * v \<and> 4096 * v < unat (KERNBASE :: u32)} \<inter> uset (mem s) pd = uset (mem s) pd"
    by (auto simp: uset_def)
  have fu: "mem_frame s u" "aspace pd G qs u"
    "same_on (G \<union> upage (mem s) pd ` (uset (mem s) pd - {v. unat (0 :: u32) \<le> 4096 * v \<and> 4096 * v < unat (KERNBASE :: u32)})) (mem s) (mem u)"
    "set qs = set ps \<union> upage (mem s) pd ` uset (mem s) pd"
    "\<And>d. d < 1024 \<Longrightarrow> has_table (mem u) pd d = has_table (mem s) pd d \<and> ptab_at (mem u) pd d = ptab_at (mem s) pd d"
    using u(2) unfolding freed_def R by (elim conjE, simp)+
  have tu: "tables_ok (ld_end u) (mem u) pd (set qs \<union> upage (mem u) pd ` uset (mem u) pd \<union> G)"
    using fu(2) by (simp add: aspace_def)
  have pd: "phys_page (ld_end u) pd" "pd \<notin> set qs" "pd \<notin> G" "pd \<noteq> 0"
    using tu unfolding tables_ok_def by (auto simp: phys_page_def)
  obtain rs w where w: "freevm_loop pd [0..<1024] u = Inr w" "mem_frame u w" "mem_calm w" "kmem_inv rs w"
      "set rs = set qs \<union> ptab_at (mem u) pd ` {d\<in>set [0..<1024]. has_table (mem u) pd d}"
      "same_on (insert pd G) (mem u) (mem w)"
    using freevm_loop_frees [OF aspace_tables_left [OF fu(2)]] by auto
  have "pd \<notin> set rs" using w(5) pd(2) tables_okD(4) [OF tu, THEN not_sym] by auto
  then obtain t where t: "kfree pd w = Inr t" "mem_frame w t" "kmem_inv (pd # rs) t"
      "\<And>q. q mod 4096 = 0 \<Longrightarrow> q \<noteq> pd \<Longrightarrow> same_on {q} (mem w) (mem t)"
    using kfree_page [OF w(3,4), of pd] pd(1) mem_frame_ld_end [OF w(2)] by auto
  have "same_on G (mem w) (mem t)"
  proof (rule same_on_all)
    fix q assume "q \<in> G"
    then show "same_on {q} (mem w) (mem t)" using tables_okD(3) [OF tu] pd(3) by (intro t(4)) auto
  qed
  moreover have "same_on G (mem u) (mem w)" by (rule same_on_subset [OF w(6)]) auto
  moreover have "same_on G (mem s) (mem u)" by (rule same_on_subset [OF fu(3)]) auto
  ultimately have "same_on G (mem s) (mem t)" by (meson same_on_trans)
  moreover have "ptab_at (mem u) pd ` {d\<in>set [0..<1024]. has_table (mem u) pd d} =
      ptab_at (mem s) pd ` {d. d < 1024 \<and> has_table (mem s) pd d}"
    using fu(5) by (intro image_cong) auto
  then have "set (pd # rs) = set ps \<union> upage (mem s) pd ` uset (mem s) pd \<union> table_pages (mem s) pd"
    using w(5) fu(4) by (auto simp: table_pages_def)
  moreover have "freevm pd s = Inr t" using u(1) w(1) t(1) pd(4) by (simp add: freevm_def)
  moreover have "mem_frame s t" using fu(1) w(2) t(2) by (meson mem_frame_trans)
  ultimately show ?thesis using t(3) by blast
qed

section \<open>Properties\<close>

text \<open>
  C20: \<open>freevm\<close> leaks nothing. For an address space whose directory, tables and user pages are
  different physical pages and not free, it returns without panic, and the free list then holds
  exactly the pages that were free before, the user pages, the page tables and the directory, each
  once. Pages of others (\<open>G\<close>) are not written to.
\<close>

theorem freevm_returns_all_pages:
  assumes "aspace pd G ps s"
  shows "returnsR (freevm pd s) (\<lambda>t. \<exists>ps'. kmem_inv ps' t \<and> distinct ps' \<and>
    set ps' = set ps \<union> upage (mem s) pd ` uset (mem s) pd \<union> table_pages (mem s) pd \<and> same_on G (mem s) (mem t))"
proof -
  obtain ps' t where t: "freevm pd s = Inr t" "kmem_inv ps' t"
      "set ps' = set ps \<union> upage (mem s) pd ` uset (mem s) pd \<union> table_pages (mem s) pd" "same_on G (mem s) (mem t)"
    using freevm_frees [OF assms] by blast
  moreover have "distinct ps'" using t(2) by (simp add: kmem_inv_def)
  ultimately show ?thesis by auto
qed

text \<open>
  Shrinking a process. \<open>deallocuvm\<close> from \<open>oldsz\<close> to a smaller \<open>newsz\<close> returns
  \<open>newsz\<close>; exactly the pages that lie wholly above \<open>newsz\<close> and start below \<open>oldsz\<close> are
  unmapped and given back, every other entry of the address space and the contents of every other
  user page are as before, and it is still well formed.
\<close>

theorem deallocuvm_shrinks:
  assumes "aspace pd G ps s" and "oldsz \<le> KERNBASE" and "newsz < oldsz"
  shows "returnsR (deallocuvm pd oldsz newsz s) (\<lambda>(r, t). r = newsz \<and> (\<exists>ps'. aspace pd G ps' t \<and>
    (let R = {v\<in>uset (mem s) pd. unat newsz \<le> 4096 * v \<and> 4096 * v < unat oldsz}
     in set ps' = set ps \<union> upage (mem s) pd ` R \<and> same_on (upage (mem s) pd ` (uset (mem s) pd - R)) (mem s) (mem t) \<and>
       (\<forall>v<1048576. pte (mem t) pd v = (if v \<in> R then 0 else pte (mem s) pd v)))))"
proof -
  have "unat oldsz \<le> 2147483648" using assms(2) by (simp add: word_le_nat_alt)
  then obtain ps' t where t: "deallocuvm pd oldsz newsz s = Inr (newsz, t)"
      "freed pd G {v. unat newsz \<le> 4096 * v \<and> 4096 * v < unat oldsz} ps s ps' t"
    using deallocuvm_frees [OF assms(1) _ assms(3)] by blast
  have R: "{v. unat newsz \<le> 4096 * v \<and> 4096 * v < unat oldsz} \<inter> uset (mem s) pd =
      {v\<in>uset (mem s) pd. unat newsz \<le> 4096 * v \<and> 4096 * v < unat oldsz}" by auto
  have "same_on (upage (mem s) pd ` (uset (mem s) pd - {v\<in>uset (mem s) pd. unat newsz \<le> 4096 * v \<and> 4096 * v < unat oldsz})) (mem s) (mem t)"
    using t(2) unfolding freed_def by (elim conjE, elim same_on_subset) auto
  then show ?thesis using t(2) unfolding freed_def R by (auto simp: t(1) Let_def)
qed

lemma demo_as_aspace: "aspace 0x80400000 {} [0x80403000] demo_as"
  and demo_as_uset: "uset (mem demo_as) 0x80400000 = {0}"
  and demo_as_upage: "upage (mem demo_as) 0x80400000 0 = 0x80402000"
proof -
  let ?pd = "0x80400000 :: u32" and ?k = "0x80401000 :: u32" and ?u = "0x80402000 :: u32" and ?f = "0x80403000 :: u32"
  let ?m = "new_table (mem demo_vm) ?pd 0 ?k"
  have z: "load32 (mem demo_vm) a = 0" for a by (simp add: demo_vm_def boot_kmem_def load32_def)
  have ld: "ld_end demo_vm = 0x80110000" by (simp add: demo_vm_def boot_kmem_def)
  have n0: "\<not> has_table (mem demo_vm) ?pd d" for d by (simp add: has_table_def pde_def z)
  have t0: "tables_ok 0x80110000 (mem demo_vm) ?pd {?k, ?u, ?f}"
    by (simp add: tables_ok_def n0 phys_page_def V2P_def)
  have k: "phys_page 0x80110000 ?k" by (simp add: phys_page_def V2P_def)
  note n = new_table [OF t0 _ n0 _ k, of 0, simplified]
  have h: "has_table ?m ?pd 0" using n(1) [of 0] by simp
  note p = set_pte [OF n(4), where v = 0 and w = "0x402000 OR 7", simplified div_0]
  have pte: "pte (mem demo_as) ?pd v = (if v = 0 then 0x402000 OR 7 else 0)" if "v < 1048576" for v
    using p(2) [OF _ h that] n(3) [OF that] n0 by (simp add: demo_as_def pte_def)
  have a: "PTE_ADDR (0x402000 OR 7) = 0x402000" by (rule pte_parts) simp_all
  show us: "uset (mem demo_as) ?pd = {0}" using pte by (auto simp: uset_def present_def split: if_splits)
  show up: "upage (mem demo_as) ?pd 0 = ?u" using pte [of 0] a by (simp add: upage_def P2V_def)
  have "tables_ok 0x80110000 (mem demo_as) ?pd {?u, ?f}" using p(1) [OF _ h] by (simp add: demo_as_def)
  moreover have f0: "load32 (mem demo_as) ?f = 0"
    using load_slot_same [of 0 ?f "mem demo_as" "mem demo_vm"] n(5) [of ?f] p(5) [OF _ h, of ?f] n(2) [of 0] z
    by (simp add: demo_as_def same_on_def)
  moreover have "mem_calm demo_as" using demo_vm_calm by (simp add: demo_as_def)
  ultimately show "aspace ?pd {} [?f] demo_as"
    using us up ld f0 by (simp add: aspace_def kmem_inv_def phys_page_def V2P_def demo_as_def insert_commute)
qed

theorem freevm_returns_all_pages_witness:
  "returnsR (freevm 0x80400000 demo_as) (\<lambda>t. \<exists>ps'. kmem_inv ps' t \<and> distinct ps' \<and>
    set ps' = {0x80403000} \<union> {0x80402000} \<union> table_pages (mem demo_as) 0x80400000 \<and> same_on {} (mem demo_as) (mem t))"
  using freevm_returns_all_pages [OF demo_as_aspace] by (simp add: demo_as_uset demo_as_upage)

theorem deallocuvm_shrinks_witness:
  "returnsR (deallocuvm 0x80400000 0x1000 0 demo_as) (\<lambda>(r, t). r = 0 \<and> (\<exists>ps'. aspace 0x80400000 {} ps' t \<and>
    (let R = {v\<in>uset (mem demo_as) 0x80400000. unat (0 :: u32) \<le> 4096 * v \<and> 4096 * v < unat (0x1000 :: u32)}
     in set ps' = set [0x80403000] \<union> upage (mem demo_as) 0x80400000 ` R \<and>
       same_on (upage (mem demo_as) 0x80400000 ` (uset (mem demo_as) 0x80400000 - R)) (mem demo_as) (mem t) \<and>
       (\<forall>v<1048576. pte (mem t) 0x80400000 v = (if v \<in> R then 0 else pte (mem demo_as) 0x80400000 v)))))"
  by (rule deallocuvm_shrinks [OF demo_as_aspace]) simp_all

end
