(* ===== verification/Vm_Grow.thy ===== *)
theory Vm_Grow
  imports Vm_Free
begin

unbundle bit_operations_syntax

text \<open>
  Building address spaces up: a fresh page mapped by \<open>mappages\<close>, and \<open>allocuvm\<close>, which
  either gives the process new pages of zeros or, when memory runs out, takes back what it gave.
\<close>

section \<open>Definitions\<close>

text \<open>The state after \<open>kalloc\<close> returned \<open>k\<close> and the page was filled.\<close>

definition took :: "u32 \<Rightarrow> memory \<Rightarrow> 'z kmem_scheme \<Rightarrow> 'z kmem_scheme" where
  "took k m s = s\<lparr>freelist := load32 (mem s) k, mem := m\<rparr>"

definition filled :: "u32 \<Rightarrow> memory \<Rightarrow> memory \<Rightarrow> bool" where
  "filled k m m' \<longleftrightarrow> (\<forall>q. q mod PGSIZE = 0 \<longrightarrow> q \<noteq> k \<longrightarrow> same_on {q} m m')"

text \<open>
  The virtual pages of \<open>N\<close> are new: each is mapped with permissions \<open>perm v\<close> to a page
  that was free and now holds the bytes \<open>f v\<close>. The other entries, the contents of the user pages
  there were and the pages of others are as before.
\<close>

definition grown :: "u32 \<Rightarrow> u32 set \<Rightarrow> (nat \<Rightarrow> u32) \<Rightarrow> (nat \<Rightarrow> u32 \<Rightarrow> u8) \<Rightarrow> nat set \<Rightarrow> u32 list \<Rightarrow> 'z kmem_scheme \<Rightarrow> u32 list \<Rightarrow> 'z kmem_scheme \<Rightarrow> bool" where
  "grown pd G perm f N ps s ps' t \<longleftrightarrow> mem_frame s t \<and> aspace pd G ps' t \<and> set ps' \<subseteq> set ps \<and>
     same_on (G \<union> upage (mem s) pd ` uset (mem s) pd) (mem s) (mem t) \<and>
     (\<forall>w<1048576. w \<notin> N \<longrightarrow> pte (mem t) pd w = pte (mem s) pd w) \<and>
     (\<forall>w\<in>N. w \<in> uset (mem t) pd \<and> w \<notin> uset (mem s) pd \<and> upage (mem t) pd w \<in> set ps \<and>
       pte (mem t) pd w = V2P (upage (mem t) pd w) OR perm w OR PTE_P \<and>
       (\<forall>x<PGSIZE. mem t (upage (mem t) pd w + x) = f w x))"

text \<open>
  What is left after memory ran out: of the virtual pages from \<open>oldsz\<close> to \<open>newsz\<close> none is
  mapped any more, and nothing else changed.
\<close>

definition undone :: "u32 \<Rightarrow> u32 set \<Rightarrow> nat set \<Rightarrow> 'z kmem_scheme \<Rightarrow> u32 list \<Rightarrow> 'z kmem_scheme \<Rightarrow> bool" where
  "undone pd G D s ps' t \<longleftrightarrow> mem_frame s t \<and> aspace pd G ps' t \<and>
     same_on (G \<union> upage (mem s) pd ` (uset (mem s) pd - D)) (mem s) (mem t) \<and>
     (\<forall>w<1048576. w \<notin> D \<longrightarrow> pte (mem t) pd w = pte (mem s) pd w) \<and> uset (mem t) pd \<inter> D = {}"

definition urange :: "u32 \<Rightarrow> u32 \<Rightarrow> nat set" where
  "urange lo hi = {v. unat lo \<le> 4096 * v \<and> 4096 * v < unat hi}"

section \<open>Mapping a fresh page\<close>

text \<open>
  A page \<open>k\<close> just taken off the free list and filled somehow is mapped at virtual page
  \<open>v\<close>.
\<close>

lemma mappages_one:
  assumes "va mod 4096 = 0"
  shows "mappages pd va 4096 pa perm s = mappages_loop pd va va pa perm s"
proof -
  have u: "unat va = 4096 * vpn va" by (rule aligned_vpn [OF assms])
  have "vpn va < 1048576" by (rule vpn_less)
  then have "unat (va + 4096 - 1) = 4096 * vpn va + 4095" by (simp add: unat_u32_add u add.commute [of _ 4095])
  then have "PGROUNDDOWN va = va" "PGROUNDDOWN (va + 4096 - 1) = va"
    by (simp_all only: u32_eq_iff unat_PGROUNDDOWN u) simp_all
  then show ?thesis by (simp add: mappages_def)
qed

lemma aspaceD:
  assumes "aspace pd G ps s"
  shows "mem_calm s" "kmem_inv ps s" "KERNBASE < ld_end s"
    "tables_ok (ld_end s) (mem s) pd (set ps \<union> upage (mem s) pd ` uset (mem s) pd \<union> G)"
    "inj_on (upage (mem s) pd) (uset (mem s) pd)" "set ps \<inter> G = {}"
    "v \<in> uset (mem s) pd \<Longrightarrow> phys_page (ld_end s) (upage (mem s) pd v)"
    "v \<in> uset (mem s) pd \<Longrightarrow> upage (mem s) pd v \<notin> set ps"
    "v \<in> uset (mem s) pd \<Longrightarrow> upage (mem s) pd v \<notin> G"
  using assms by (auto simp: aspace_def)

lemma took_aspace:
  assumes "aspace pd G (k # ks) s" and "filled k (mem s) m"
  shows "aspace pd (insert k G) ks (took k m s)" "uset m pd = uset (mem s) pd"
    "v \<in> uset (mem s) pd \<Longrightarrow> upage m pd v = upage (mem s) pd v" "w < 1048576 \<Longrightarrow> pte m pd w = pte (mem s) pd w"
proof -
  let ?F = "set (k # ks) \<union> upage (mem s) pd ` uset (mem s) pd \<union> G"
  note a = aspaceD [OF assms(1)]
  have k: "freelist s = k" "k \<notin> set ks" "k mod 4096 = 0" using a(2) by (simp_all only: kmem_inv_def phys_page_def list.set run_list.simps distinct.simps insert_iff) auto
  have tp: "same_on (table_pages (mem s) pd) (mem s) m"
  proof (rule same_on_all)
    fix q assume q: "q \<in> table_pages (mem s) pd"
    have "q mod 4096 = 0" "q \<noteq> k" using table_pages_aligned [OF a(4) q] table_pages_apart [OF a(4) q] by auto
    then show "same_on {q} (mem s) m" using assms(2) by (simp only: filled_def simp_thms)
  qed
  show p: "w < 1048576 \<Longrightarrow> pte m pd w = pte (mem s) pd w" for w by (rule same_on_tables(4) [OF tp])
  then show us: "uset m pd = uset (mem s) pd" by (auto simp: uset_def present_def)
  show up: "v \<in> uset (mem s) pd \<Longrightarrow> upage m pd v = upage (mem s) pd v" for v
    using p by (simp add: upage_def uset_def)
  have im: "upage m pd ` uset (mem s) pd = upage (mem s) pd ` uset (mem s) pd" using up by (intro image_cong) auto
  have F: "set ks \<union> upage (mem s) pd ` uset (mem s) pd \<union> insert k G = ?F" by auto
  have t: "tables_ok (ld_end s) m pd ?F" by (rule tables_ok_same [OF a(4) tp])
  have "kmem_inv ks (s\<lparr>freelist := load32 (mem s) k\<rparr>)" using a(2) k(1) by (simp add: kmem_inv_def)
  then have "kmem_inv ks (took k m s)"
  proof (rule kmem_inv_same)
    show "same_on (set ks) (mem (s\<lparr>freelist := load32 (mem s) k\<rparr>)) (mem (took k m s))"
    proof (rule same_on_all)
      fix q assume "q \<in> set ks"
      then have "q mod 4096 = 0" "q \<noteq> k" using tables_okD(3) [OF a(4)] k(2) by auto
      then show "same_on {q} (mem (s\<lparr>freelist := load32 (mem s) k\<rparr>)) (mem (took k m s))"
        using assms(2) by (simp add: took_def filled_def)
    qed
  qed (simp_all add: took_def)
  then show "aspace pd (insert k G) ks (took k m s)"
    using a t [folded F] us up im k(2) by (auto simp: aspace_def took_def inj_on_def)
qed

lemma vpn_page: "v < 1048576 \<Longrightarrow> vpn (of_nat v * 4096) = v" "v < 1048576 \<Longrightarrow> unat (of_nat v * 4096 :: u32) = 4096 * v"
  by (simp_all add: vpn_def unat_word_ariths unat_of_nat)

lemma fresh_entry:
  assumes "phys_page b k" and "perm < 4096"
  shows "PTE_ADDR (V2P k OR perm OR 1) = V2P k" "PTE_FLAGS (V2P k OR perm OR 1) = perm OR 1"
    "(V2P k OR perm OR 1) AND 1 = 1"
proof -
  have k: "V2P k mod 4096 = 0" using assms(1) by (intro V2P_aligned) (simp only: phys_page_def)
  have f: "perm OR 1 < 4096" by (rule flags_or [OF assms(2)]) simp
  have "(perm OR 1) AND 1 = (1 :: u32)" by (rule bit_word_eqI) (auto simp: bit_simps)
  then show "PTE_ADDR (V2P k OR perm OR 1) = V2P k" "PTE_FLAGS (V2P k OR perm OR 1) = perm OR 1"
    "(V2P k OR perm OR 1) AND 1 = 1"
    using pte_parts [OF k f] by simp_all
qed

lemma map_fresh:
  assumes "aspace pd (insert k G) ks s" and "k \<notin> G" and "phys_page (ld_end s) k" and "perm < 4096"
    and "v < 524288" and "\<not> present (mem s) pd v"
  shows "\<exists>r ks' t. mappages pd (of_nat v * 4096) 4096 (V2P k) perm s = Inr (r, t) \<and> mem_frame s t \<and>
    (r = 0 \<and> aspace pd G ks' t \<and> set ks' \<subseteq> set ks \<and>
       same_on (insert k (G \<union> upage (mem s) pd ` uset (mem s) pd)) (mem s) (mem t) \<and>
       (\<forall>w<1048576. pte (mem t) pd w = (if w = v then V2P k OR perm OR 1 else pte (mem s) pd w)) \<or>
     r = -1 \<and> t = s \<and> ks = [])"
proof -
  let ?va = "of_nat v * 4096 :: u32" and ?U = "upage (mem s) pd ` uset (mem s) pd"
  let ?F = "set ks \<union> ?U \<union> insert k G"
  note a = aspaceD [OF assms(1)]
  have va: "vpn ?va = v" "?va mod 4096 = 0" using assms(5) by (simp_all add: vpn_page aligned_mult)
  have inv: "vm_inv pd ?F ks s" using a(1,2,4) unfolding vm_inv_def by blast
  obtain used ks' t where t: "vm_step pd ?F ks s used ks' t"
      "ks' = [] \<and> t = s \<and> mappages_loop pd ?va ?va (V2P k) perm s = Inr (-1, t) \<or>
       (\<forall>w<1048576. pte (mem t) pd w = (if w = v then V2P k OR perm OR 1 else pte (mem s) pd w)) \<and>
       mappages_loop pd ?va ?va (V2P k) perm s = Inr (0, t)"
    using mappages_step [OF inv, of ?va ?va "V2P k" perm] assms(6) va(1) by auto
  have st: "ks = used @ ks'" "mem_frame s t" "vm_inv pd (?F - set used) ks' t" "same_on (?F - set used) (mem s) (mem t)"
    using t(1) by (auto simp: vm_step_def)
  from t(2) show ?thesis
  proof (elim disjE conjE)
    assume "ks' = []" "t = s" "mappages_loop pd ?va ?va (V2P k) perm s = Inr (-1, t)"
    moreover have "ks = []"
      using a(2) st(3) \<open>t = s\<close> \<open>ks' = []\<close> run_list_unique [of "mem s" "freelist s" ks "[]"] by (simp add: vm_inv_def kmem_inv_def)
    ultimately show ?thesis using st(1) by (auto simp: mappages_one [OF va(2)])
  next
    assume p: "\<forall>w<1048576. pte (mem t) pd w = (if w = v then V2P k OR perm OR 1 else pte (mem s) pd w)"
      and r: "mappages_loop pd ?va ?va (V2P k) perm s = Inr (0, t)"
    have w: "PTE_ADDR (V2P k OR perm OR 1) = V2P k" "(V2P k OR perm OR 1) AND 1 = 1"
      using fresh_entry [OF assms(3,4)] by simp_all
    have pr: "present (mem t) pd x \<longleftrightarrow> x = v \<or> present (mem s) pd x" if "x < 524288" for x
      using p [rule_format, of x] that w(2) by (simp add: present_def)
    have us: "uset (mem t) pd = insert v (uset (mem s) pd)" using pr assms(5) by (auto simp: uset_def)
    have vn: "v \<notin> uset (mem s) pd" using assms(6) by (simp add: uset_def)
    have uv: "upage (mem t) pd v = k" using p assms(5) w(1) by (simp add: upage_def)
    have up: "upage (mem t) pd w = upage (mem s) pd w" if "w \<in> uset (mem s) pd" for w
      using p [rule_format, of w] that vn by (auto simp: upage_def uset_def)
    have im: "upage (mem t) pd ` uset (mem t) pd = insert k ?U" using us uv up by (auto simp: image_iff)
    have used: "set used \<inter> (?U \<union> insert k G) = {}" using a(6,8) st(1) by auto
    have ks: "set ks' \<inter> set used = {}" using a(2) st(1) by (auto simp: kmem_inv_def)
    have F: "set ks' \<union> upage (mem t) pd ` uset (mem t) pd \<union> G = ?F - set used" using used ks st(1) im by auto
    have so: "same_on (insert k (G \<union> ?U)) (mem s) (mem t)"
      by (rule same_on_subset [OF st(4)]) (use used in auto)
    have ld: "ld_end t = ld_end s" by (rule mem_frame_ld_end [OF st(2)])
    have kn: "upage (mem s) pd w \<noteq> k" if "w \<in> uset (mem s) pd" for w using a(9) [OF that] by blast
    have "inj_on (upage (mem t) pd) (uset (mem s) pd)" using a(5) up by (simp add: inj_on_def)
    moreover have "k \<notin> upage (mem t) pd ` uset (mem s) pd" using up kn by (metis imageE)
    ultimately have "inj_on (upage (mem t) pd) (uset (mem t) pd)"
      unfolding us inj_on_insert using uv by blast
    moreover have "phys_page (ld_end s) (upage (mem t) pd w) \<and> upage (mem t) pd w \<notin> set ks' \<union> G" if "w \<in> uset (mem t) pd" for w
      using that a(6-9) up uv assms(2,3) st(1) unfolding us by auto
    ultimately have "aspace pd G ks' t"
      using st(3) a(3,6) st(1) F unfolding aspace_def vm_inv_def ld by auto
    then show ?thesis using r p so st(1,2) by (auto simp: mappages_one [OF va(2)])
  qed
qed

section \<open>Growing\<close>

lemma grown_none: "aspace pd G ps s \<Longrightarrow> grown pd G perm f {} ps s ps s"
  by (simp add: grown_def)

lemma grown_uset:
  assumes "grown pd G perm f N ps s ps' t"
  shows "uset (mem t) pd = uset (mem s) pd \<union> N" "w \<in> uset (mem s) pd \<Longrightarrow> upage (mem t) pd w = upage (mem s) pd w"
proof -
  have p: "pte (mem t) pd w = pte (mem s) pd w" if "w < 524288" "w \<notin> N" for w
    using assms that by (simp add: grown_def)
  have n: "w \<in> uset (mem t) pd" "w \<notin> uset (mem s) pd" if "w \<in> N" for w using assms that by (simp_all add: grown_def)
  show "uset (mem t) pd = uset (mem s) pd \<union> N"
  proof (rule set_eqI)
    fix w
    show "w \<in> uset (mem t) pd \<longleftrightarrow> w \<in> uset (mem s) pd \<union> N"
      using p [of w] n [of w] by (cases "w \<in> N") (auto simp: uset_def present_def)
  qed
  show "w \<in> uset (mem s) pd \<Longrightarrow> upage (mem t) pd w = upage (mem s) pd w"
    using p [of w] n(2) [of w] by (cases "w \<in> N") (auto simp: upage_def uset_def)
qed

lemma same_on_at: "same_on P m m' \<Longrightarrow> p \<in> P \<Longrightarrow> x < 4096 \<Longrightarrow> m' (p + x) = m (p + x)"
  using same_onD [of P m m' p "p + x"] by simp

lemma grown_trans:
  assumes "grown pd G perm f N ps s ps' t" and "grown pd G perm f N' ps' t ps'' u"
  shows "grown pd G perm f (N \<union> N') ps s ps'' u"
proof -
  let ?U = "upage (mem s) pd ` uset (mem s) pd" and ?V = "upage (mem t) pd ` uset (mem t) pd"
  note us = grown_uset [OF assms(1)] and vs = grown_uset [OF assms(2)]
  have a: "mem_frame s t" "set ps' \<subseteq> set ps" "same_on (G \<union> ?U) (mem s) (mem t)"
    "\<forall>w<1048576. w \<notin> N \<longrightarrow> pte (mem t) pd w = pte (mem s) pd w"
    "\<And>w. w \<in> N \<Longrightarrow> w \<in> uset (mem t) pd \<and> w \<notin> uset (mem s) pd \<and> upage (mem t) pd w \<in> set ps \<and>
       pte (mem t) pd w = V2P (upage (mem t) pd w) OR perm w OR 1 \<and> (\<forall>x<4096. mem t (upage (mem t) pd w + x) = f w x)"
    using assms(1) unfolding grown_def by simp_all
  have b: "mem_frame t u" "aspace pd G ps'' u" "set ps'' \<subseteq> set ps'" "same_on (G \<union> ?V) (mem t) (mem u)"
    "\<forall>w<1048576. w \<notin> N' \<longrightarrow> pte (mem u) pd w = pte (mem t) pd w"
    "\<And>w. w \<in> N' \<Longrightarrow> w \<in> uset (mem u) pd \<and> w \<notin> uset (mem t) pd \<and> upage (mem u) pd w \<in> set ps' \<and>
       pte (mem u) pd w = V2P (upage (mem u) pd w) OR perm w OR 1 \<and> (\<forall>x<4096. mem u (upage (mem u) pd w + x) = f w x)"
    using assms(2) unfolding grown_def by simp_all
  have "?U \<subseteq> ?V" using us by force
  then have so: "same_on (G \<union> ?U) (mem s) (mem u)"
    using same_on_trans [OF a(3) same_on_subset [OF b(4)]] by blast
  have old: "w \<in> uset (mem u) pd \<and> w \<notin> uset (mem s) pd \<and> upage (mem u) pd w \<in> set ps \<and>
      pte (mem u) pd w = V2P (upage (mem u) pd w) OR perm w OR 1 \<and> (\<forall>x<4096. mem u (upage (mem u) pd w + x) = f w x)"
    if w: "w \<in> N" for w
  proof -
    have wt: "w \<in> uset (mem t) pd" using a(5) w by blast
    then have "w \<notin> N'" "w < 1048576" using b(6) by (auto simp: uset_def)
    then have "pte (mem u) pd w = pte (mem t) pd w" using b(5) by blast
    moreover have up: "upage (mem u) pd w = upage (mem t) pd w" by (rule vs(2) [OF wt])
    moreover have "mem u (upage (mem t) pd w + x) = mem t (upage (mem t) pd w + x)" if "x < 4096" for x
      by (rule same_on_at [OF b(4) _ that]) (use wt in blast)
    ultimately show ?thesis using a(5) [OF w] vs(1) wt by simp
  qed
  have "\<forall>w<1048576. w \<notin> N \<union> N' \<longrightarrow> pte (mem u) pd w = pte (mem s) pd w" using a(4) b(5) by simp
  moreover have "set ps'' \<subseteq> set ps" using a(2) b(3) by blast
  moreover have "mem_frame s u" by (rule mem_frame_trans [OF a(1) b(1)])
  moreover have "w \<in> uset (mem u) pd \<and> w \<notin> uset (mem s) pd \<and> upage (mem u) pd w \<in> set ps \<and>
      pte (mem u) pd w = V2P (upage (mem u) pd w) OR perm w OR 1 \<and> (\<forall>x<4096. mem u (upage (mem u) pd w + x) = f w x)"
    if "w \<in> N \<union> N'" for w
    using that old [of w] b(6) [of w] a(2) us(1) by blast
  ultimately show ?thesis using b(2) so unfolding grown_def by blast
qed

lemma grow_one:
  assumes "aspace pd G (k # ks) s" and "filled k (mem s) m" and "v < 524288" and "v \<notin> uset (mem s) pd" and "perm v < 4096"
    and "\<And>x. x < 4096 \<Longrightarrow> m (k + x) = f v x"
  shows "\<exists>r ks' t. mappages pd (of_nat v * 4096) 4096 (V2P k) (perm v) (took k m s) = Inr (r, t) \<and>
    (r = 0 \<and> grown pd G perm f {v} (k # ks) s ks' t \<or> r = -1 \<and> ks = [] \<and> t = took k m s)"
proof -
  note tk = took_aspace [OF assms(1,2)] and a = aspaceD [OF assms(1)]
  have m: "mem (took k m s) = m" "ld_end (took k m s) = ld_end s" by (simp_all add: took_def)
  have k: "k \<notin> G" "phys_page (ld_end s) k" using a(2,6) by (auto simp: kmem_inv_def)
  have np: "\<not> present m pd v" using assms(3,4) tk(2) by (auto simp: uset_def)
  have sf: "mem_frame s (took k m s)" by (simp add: took_def)
  obtain r ks' t where t: "mappages pd (of_nat v * 4096) 4096 (V2P k) (perm v) (took k m s) = Inr (r, t)" "mem_frame (took k m s) t"
    "r = 0 \<and> aspace pd G ks' t \<and> set ks' \<subseteq> set ks \<and> same_on (insert k (G \<union> upage m pd ` uset m pd)) m (mem t) \<and>
       (\<forall>w<1048576. pte (mem t) pd w = (if w = v then V2P k OR perm v OR 1 else pte m pd w)) \<or>
     r = -1 \<and> t = took k m s \<and> ks = []"
    using map_fresh [OF tk(1) k(1) _ assms(5,3)] k(2) np unfolding m by blast
  from t(3) show ?thesis
  proof (elim disjE conjE)
    assume "r = -1" "t = took k m s" "ks = []"
    then show ?thesis using t(1) by blast
  next
    assume r: "r = 0" "aspace pd G ks' t" "set ks' \<subseteq> set ks" "same_on (insert k (G \<union> upage m pd ` uset m pd)) m (mem t)"
      and p: "\<forall>w<1048576. pte (mem t) pd w = (if w = v then V2P k OR perm v OR 1 else pte m pd w)"
    have e: "pte (mem t) pd v = V2P k OR perm v OR 1" using p assms(3) by simp
    have up: "upage (mem t) pd v = k" "v \<in> uset (mem t) pd"
      using fresh_entry [OF k(2) assms(5)] assms(3) e by (simp_all add: upage_def uset_def present_def)
    have "mem t (k + x) = f v x" if "x < 4096" for x
      using same_on_at [OF r(4) _ that, of k] assms(6) [OF that] by simp
    moreover have "same_on (G \<union> upage (mem s) pd ` uset (mem s) pd) (mem s) (mem t)"
    proof (rule same_on_all)
      fix q assume q: "q \<in> G \<union> upage (mem s) pd ` uset (mem s) pd"
      have "q mod 4096 = 0" by (rule tables_okD(3) [OF a(4)]) (use q in blast)
      moreover have "q \<noteq> k" using q k(1) a(8) by auto
      ultimately have "same_on {q} (mem s) m" using assms(2) by (simp only: filled_def simp_thms)
      moreover have "q \<in> insert k (G \<union> upage m pd ` uset m pd)" using q tk(2,3) by force
      then have "same_on {q} m (mem t)" by (intro same_on_subset [OF r(4)]) blast
      ultimately show "same_on {q} (mem s) (mem t)" by (rule same_on_trans)
    qed
    ultimately have "grown pd G perm f {v} (k # ks) s ks' t"
      using r(2,3) up e assms(4) p tk(4) mem_frame_trans [OF sf t(2)] unfolding grown_def by (auto simp: less_imp_le)
    then show ?thesis using t(1) r(1) by blast
  qed
qed

lemma give_page:
  assumes "aspace pd (insert k G) qs s" and "phys_page (ld_end s) k" and "k \<notin> G"
  shows "\<exists>t. kfree k s = Inr t \<and> mem_frame s t \<and> aspace pd G (k # qs) t \<and>
    same_on (G \<union> upage (mem s) pd ` uset (mem s) pd) (mem s) (mem t) \<and>
    (\<forall>w<1048576. pte (mem t) pd w = pte (mem s) pd w)"
proof -
  let ?U = "upage (mem s) pd ` uset (mem s) pd"
  note a = aspaceD [OF assms(1)]
  obtain t where t: "kfree k s = Inr t" "mem_frame s t" "kmem_inv (k # qs) t"
      "\<And>q. q mod 4096 = 0 \<Longrightarrow> q \<noteq> k \<Longrightarrow> same_on {q} (mem s) (mem t)"
    using kfree_page [OF a(1,2) assms(2)] a(6) by blast
  have tp: "same_on (table_pages (mem s) pd) (mem s) (mem t)"
  proof (rule same_on_all)
    fix q assume q: "q \<in> table_pages (mem s) pd"
    have "q \<noteq> k" using table_pages_apart [OF a(4) q] by blast
    then show "same_on {q} (mem s) (mem t)" using table_pages_aligned [OF a(4) q] by (intro t(4))
  qed
  have p: "pte (mem t) pd w = pte (mem s) pd w" if "w < 1048576" for w by (rule same_on_tables(4) [OF tp that])
  have us: "uset (mem t) pd = uset (mem s) pd" using p by (auto simp: uset_def present_def)
  have up: "upage (mem t) pd w = upage (mem s) pd w" if "w \<in> uset (mem s) pd" for w
    using p that by (simp add: upage_def uset_def)
  have im: "upage (mem t) pd ` uset (mem s) pd = ?U" using up by (intro image_cong) auto
  have "same_on (G \<union> ?U) (mem s) (mem t)"
  proof (rule same_on_all)
    fix q assume q: "q \<in> G \<union> ?U"
    have "q mod 4096 = 0" by (rule tables_okD(3) [OF a(4)]) (use q in blast)
    then show "same_on {q} (mem s) (mem t)" by (rule t(4)) (use q assms(3) a(9) in blast)
  qed
  moreover have F: "set (k # qs) \<union> ?U \<union> G = set qs \<union> ?U \<union> insert k G" by auto
  have "tables_ok (ld_end s) (mem t) pd (set (k # qs) \<union> ?U \<union> G)"
    using tables_ok_same [OF a(4) tp] F by (simp only:)
  then have "aspace pd G (k # qs) t"
    unfolding aspace_def us im mem_frame_ld_end [OF t(2)] mem_frame_mem_calm [OF t(2)]
    using a(1,3,5-9) t(3) up assms(3) by (auto simp: inj_on_def)
  ultimately show ?thesis using t(1,2) p by blast
qed

lemma freed_undone: "freed pd G D ps s ps' t \<Longrightarrow> undone pd G D s ps' t"
  using freed_uset(1) [of pd G D ps s ps' t] by (auto simp: freed_def undone_def)

lemma grown_undone:
  assumes "grown pd G perm f N ps s ps' t" and "undone pd G D t qs u" and "N \<subseteq> D"
  shows "undone pd G D s qs u"
proof -
  note us = grown_uset [OF assms(1)]
  have a: "mem_frame s t" "same_on (G \<union> upage (mem s) pd ` uset (mem s) pd) (mem s) (mem t)"
    "\<forall>w<1048576. w \<notin> N \<longrightarrow> pte (mem t) pd w = pte (mem s) pd w"
    using assms(1) by (simp_all add: grown_def)
  have b: "mem_frame t u" "aspace pd G qs u" "same_on (G \<union> upage (mem t) pd ` (uset (mem t) pd - D)) (mem t) (mem u)"
    "\<forall>w<1048576. w \<notin> D \<longrightarrow> pte (mem u) pd w = pte (mem t) pd w" "uset (mem u) pd \<inter> D = {}"
    using assms(2) by (simp_all add: undone_def)
  have "upage (mem t) pd ` (uset (mem t) pd - D) = upage (mem s) pd ` (uset (mem s) pd - D)"
    using us assms(3) by (intro image_cong) auto
  then have "same_on (G \<union> upage (mem s) pd ` (uset (mem s) pd - D)) (mem t) (mem u)" using b(3) by simp
  moreover have "same_on (G \<union> upage (mem s) pd ` (uset (mem s) pd - D)) (mem s) (mem t)"
    by (rule same_on_subset [OF a(2)]) auto
  ultimately have "same_on (G \<union> upage (mem s) pd ` (uset (mem s) pd - D)) (mem s) (mem u)"
    by (rule same_on_trans [rotated])
  moreover have "pte (mem u) pd w = pte (mem s) pd w" if "w < 1048576" "w \<notin> D" for w
    using a(3) b(4) assms(3) that by auto
  ultimately show ?thesis
    using mem_frame_trans [OF a(1) b(1)] b(2,5) by (simp add: undone_def)
qed

lemma zero_filled:
  assumes "k mod 4096 = 0"
  shows "filled k m (memset m k 0 4096)" "x < 4096 \<Longrightarrow> memset m k 0 4096 (k + x) = 0"
proof -
  have "same_on {q} m (memset m k 0 4096)" if "q mod 4096 = 0" "q \<noteq> k" for q
    using memset_other_page [OF assms that(1) that(2) [symmetric]] by (simp add: same_on_def)
  then show "filled k m (memset m k 0 4096)" unfolding filled_def by blast
  show "x < 4096 \<Longrightarrow> memset m k 0 4096 (k + x) = 0" by (simp add: memset_apply)
qed

lemma kalloc_took: "mem_calm s \<Longrightarrow> kmem_inv (k # ks) s \<Longrightarrow> kalloc s = Inr (k, s\<lparr>freelist := load32 (mem s) k\<rparr>) \<and> k \<noteq> 0"
  using kmem_inv_page_nonzero [of "k # ks" s k] by (simp add: kalloc_calm kmem_inv_def)

lemma kalloc_none: "mem_calm s \<Longrightarrow> kmem_inv [] s \<Longrightarrow> kalloc s = Inr (0, s)"
proof -
  assume c: "mem_calm s" and k: "kmem_inv [] s"
  then have "freelist s = 0" by (simp add: kmem_inv_def)
  then have "s\<lparr>freelist := 0\<rparr> = s" by (intro kmem.equality) simp_all
  then show ?thesis using c \<open>freelist s = 0\<close> by (simp add: kalloc_calm)
qed

lemma filled_same:
  assumes "aspace pd G (k # ks) s" and "filled k (mem s) m"
  shows "same_on (G \<union> upage (mem s) pd ` uset (mem s) pd) (mem s) m"
proof (rule same_on_all)
  note a = aspaceD [OF assms(1)]
  fix q assume q: "q \<in> G \<union> upage (mem s) pd ` uset (mem s) pd"
  have "q mod 4096 = 0" by (rule tables_okD(3) [OF a(4)]) (use q in blast)
  moreover have "q \<noteq> k" using q a(6,8) by auto
  ultimately show "same_on {q} (mem s) m" using assms(2) by (simp only: filled_def simp_thms)
qed

lemma alloc_undo:
  assumes "aspace pd G [k] s" and "filled k (mem s) m" and "unat newsz \<le> 2147483648" and "oldsz < newsz"
  shows "\<exists>qs t u. deallocuvm pd newsz oldsz (took k m s) = Inr (oldsz, u) \<and> kfree k u = Inr t \<and>
    undone pd G (urange oldsz newsz) s qs t"
proof -
  let ?D = "urange oldsz newsz"
  note tk = took_aspace [OF assms(1,2)] and a = aspaceD [OF assms(1)]
  have m: "mem (took k m s) = m" by (simp add: took_def)
  have k: "phys_page (ld_end s) k" "k \<notin> G" using a(2,6) by (auto simp: kmem_inv_def)
  obtain qs u where u: "deallocuvm pd newsz oldsz (took k m s) = Inr (oldsz, u)" "freed pd (insert k G) ?D [] (took k m s) qs u"
    using deallocuvm_frees [OF tk(1) assms(3,4)] unfolding urange_def by blast
  have fu: "mem_frame (took k m s) u" "aspace pd (insert k G) qs u"
    "same_on (insert k G \<union> upage m pd ` (uset m pd - ?D)) m (mem u)"
    "\<forall>w<1048576. pte (mem u) pd w = (if w \<in> ?D \<inter> uset m pd then 0 else pte m pd w)"
    using u(2) by (simp_all add: freed_def m)
  note us = freed_uset [OF u(2), unfolded m tk(2)]
  have ld: "ld_end u = ld_end s" using mem_frame_ld_end [OF fu(1)] by (simp add: took_def)
  obtain t where t: "kfree k u = Inr t" "mem_frame u t" "aspace pd G (k # qs) t"
      "same_on (G \<union> upage (mem u) pd ` uset (mem u) pd) (mem u) (mem t)"
      "\<forall>w<1048576. pte (mem t) pd w = pte (mem u) pd w"
    using give_page [OF fu(2) _ k(2)] k(1) ld by auto
  let ?P = "G \<union> upage (mem s) pd ` (uset (mem s) pd - ?D)"
  have e1: "upage (mem u) pd ` uset (mem u) pd = upage m pd ` (uset (mem s) pd - ?D)"
    using us by (intro image_cong) auto
  have e2: "upage m pd ` (uset (mem s) pd - ?D) = upage (mem s) pd ` (uset (mem s) pd - ?D)"
    using tk(3) by (intro image_cong) auto
  have "same_on ?P (mem s) m" by (rule same_on_subset [OF filled_same [OF assms(1,2)]]) auto
  moreover have "same_on ?P m (mem u)" by (rule same_on_subset [OF fu(3)]) (use e2 tk(2) in auto)
  moreover have "same_on ?P (mem u) (mem t)" using t(4) by (simp add: e1 e2)
  ultimately have "same_on ?P (mem s) (mem t)" by (meson same_on_trans)
  moreover have "mem_frame s (took k m s)" by (simp add: took_def)
  then have "mem_frame s t" using fu(1) t(2) by (meson mem_frame_trans)
  moreover have "pte (mem t) pd w = pte (mem s) pd w" if "w < 1048576" "w \<notin> ?D" for w
    using t(5) fu(4) tk(4) that by simp
  moreover have "uset (mem t) pd = uset (mem u) pd" using t(5) by (auto simp: uset_def present_def)
  ultimately have "undone pd G ?D s (k # qs) t" using t(3) us(1) by (auto simp: undone_def)
  then show ?thesis using u(1) t(1) by blast
qed

lemma allocuvm_step:
  assumes "aspace pd G ps s" and "unat oldsz \<le> 4096 * v" and "4096 * v < unat newsz" and "unat newsz < 2147483648"
    and "v \<notin> uset (mem s) pd"
  shows "(\<exists>qs t. allocuvm_loop pd (of_nat v * 4096) oldsz newsz s = Inr (0, t) \<and> undone pd G (urange oldsz newsz) s qs t) \<or>
    (\<exists>qs t. grown pd G (\<lambda>_. 6) (\<lambda>_ _. 0) {v} ps s qs t \<and>
      allocuvm_loop pd (of_nat v * 4096) oldsz newsz s = allocuvm_loop pd (of_nat (Suc v) * 4096) oldsz newsz t)"
proof -
  let ?a = "of_nat v * 4096 :: u32" and ?D = "urange oldsz newsz"
  note a = aspaceD [OF assms(1)]
  have v: "v < 524288" "unat ?a = 4096 * v" using assms(3,4) by (simp_all add: vpn_page)
  have lt: "?a < newsz" "oldsz < newsz" "unat newsz \<le> 2147483648" using assms(2-4) v(2) by (auto simp: word_less_nat_alt)
  have nx: "?a + 4096 = of_nat (Suc v) * 4096" by (simp add: algebra_simps)
  have nw: "\<not> ?a + 4096 \<le> ?a" using v by (simp add: word_le_nat_alt unat_u32_add)
  show ?thesis
  proof (cases ps)
    case Nil
    obtain qs t where t: "deallocuvm pd newsz oldsz s = Inr (oldsz, t)" "freed pd G ?D ps s qs t"
      using deallocuvm_frees [OF assms(1) lt(3,2)] unfolding urange_def by blast
    have "allocuvm_loop pd ?a oldsz newsz s = Inr (0, t)"
      using lt(1) t(1) kalloc_none [OF a(1)] a(2) Nil by (subst allocuvm_loop.simps) simp
    then show ?thesis using freed_undone [OF t(2)] by blast
  next
    case (Cons k ks)
    let ?m = "memset (mem s) k 0 4096"
    have k: "kalloc s = Inr (k, s\<lparr>freelist := load32 (mem s) k\<rparr>)" "k \<noteq> 0" "phys_page (ld_end s) k" "k mod 4096 = 0" "k \<notin> G"
      using kalloc_took [OF a(1), of k ks] a(2,6) Cons by (auto simp: kmem_inv_def phys_page_def)
    have as: "aspace pd G (k # ks) s" using assms(1) Cons by simp
    have st: "s\<lparr>freelist := load32 (mem s) k, mem := ?m\<rparr> = took k ?m s" by (simp add: took_def)
    obtain r qs t where t: "mappages pd ?a 4096 (V2P k) 6 (took k ?m s) = Inr (r, t)"
        "r = 0 \<and> grown pd G (\<lambda>_. 6) (\<lambda>_ _. 0) {v} (k # ks) s qs t \<or> r = -1 \<and> ks = [] \<and> t = took k ?m s"
      using grow_one [OF as zero_filled(1) [OF k(4)] v(1) assms(5), of "\<lambda>_. 6" "\<lambda>_ _. 0"] zero_filled(2) [OF k(4)] by auto
    have loop: "allocuvm_loop pd ?a oldsz newsz s = (if r < 0 then bindR (deallocuvm pd newsz oldsz t) (\<lambda>(_, s).
        bindR (kfree k s) (\<lambda>s. Inr (0, s))) else allocuvm_loop pd (?a + 4096) oldsz newsz t)"
      using lt(1) k(1,2) t(1) nw by (subst allocuvm_loop.simps) (simp add: st Let_def)
    from t(2) show ?thesis
    proof (elim disjE conjE)
      assume "r = 0" "grown pd G (\<lambda>_. 6) (\<lambda>_ _. 0) {v} (k # ks) s qs t"
      then show ?thesis using loop nx Cons by auto
    next
      assume r: "r = -1" "ks = []" "t = took k ?m s"
      obtain qs t' u where u: "deallocuvm pd newsz oldsz (took k ?m s) = Inr (oldsz, u)" "kfree k u = Inr t'"
          "undone pd G ?D s qs t'"
        using alloc_undo [OF as [unfolded r(2)] zero_filled(1) [OF k(4)] lt(3,2)] by blast
      then have "allocuvm_loop pd ?a oldsz newsz s = Inr (0, t')" using loop r(1,3) by simp
      then show ?thesis using u(3) by blast
    qed
  qed
qed

lemma allocuvm_loop_grows:
  assumes "aspace pd G ps s" and "unat oldsz \<le> 4096 * v" and "unat newsz < 2147483648"
    and "\<forall>w\<in>uset (mem s) pd. v \<le> w \<longrightarrow> unat newsz \<le> 4096 * w" and "v \<le> 524288"
  shows "\<exists>r ps' t. allocuvm_loop pd (of_nat v * 4096) oldsz newsz s = Inr (r, t) \<and>
    (r = newsz \<and> grown pd G (\<lambda>_. 6) (\<lambda>_ _. 0) {w. v \<le> w \<and> 4096 * w < unat newsz} ps s ps' t \<or>
     r = 0 \<and> undone pd G (urange oldsz newsz) s ps' t)"
  using assms(1,2,4,5)
proof (induction "524288 - v" arbitrary: v s ps rule: less_induct)
  case less
  show ?case
  proof (cases "4096 * v < unat newsz")
    case False
    have "unat (of_nat v * 4096 :: u32) = 4096 * v" using less.prems(4) by (simp add: vpn_page)
    then have "\<not> of_nat v * 4096 < newsz" using False by (simp add: word_less_nat_alt)
    then have "allocuvm_loop pd (of_nat v * 4096) oldsz newsz s = Inr (newsz, s)" by (subst allocuvm_loop.simps) simp
    moreover have "{w. v \<le> w \<and> 4096 * w < unat newsz} = {}" using False by auto
    ultimately show ?thesis
      by (intro exI [of _ newsz] exI [of _ ps] exI [of _ s]) (simp only: grown_none [OF less.prems(1)] simp_thms)
  next
    case True
    have vn: "v \<notin> uset (mem s) pd" using less.prems(3) True by auto
    from allocuvm_step [OF less.prems(1,2) True assms(3) vn] show ?thesis
    proof (elim disjE exE conjE)
      fix qs t assume "allocuvm_loop pd (of_nat v * 4096) oldsz newsz s = Inr (0, t)"
        "undone pd G (urange oldsz newsz) s qs t"
      then show ?thesis by blast
    next
      fix qs t assume t: "grown pd G (\<lambda>_. 6) (\<lambda>_ _. 0) {v} ps s qs t"
        "allocuvm_loop pd (of_nat v * 4096) oldsz newsz s = allocuvm_loop pd (of_nat (Suc v) * 4096) oldsz newsz t"
      have sm: "524288 - Suc v < 524288 - v" "Suc v \<le> 524288" using True assms(3) by simp_all
      have as: "aspace pd G qs t" using t(1) by (simp add: grown_def)
      have os: "unat oldsz \<le> 4096 * Suc v" using less.prems(2) by simp
      have un: "\<forall>w\<in>uset (mem t) pd. Suc v \<le> w \<longrightarrow> unat newsz \<le> 4096 * w"
        using less.prems(3) grown_uset(1) [OF t(1)] by auto
      from less.hyps [OF sm(1) as os un sm(2)] obtain r ps' u where u:
        "allocuvm_loop pd (of_nat (Suc v) * 4096) oldsz newsz t = Inr (r, u)"
        "r = newsz \<and> grown pd G (\<lambda>_. 6) (\<lambda>_ _. 0) {w. Suc v \<le> w \<and> 4096 * w < unat newsz} qs t ps' u \<or>
         r = 0 \<and> undone pd G (urange oldsz newsz) t ps' u"
        by blast
      have N: "{v} \<union> {w. Suc v \<le> w \<and> 4096 * w < unat newsz} = {w. v \<le> w \<and> 4096 * w < unat newsz}" using True by auto
      have D: "{v} \<subseteq> urange oldsz newsz" using less.prems(2) True by (simp add: urange_def)
      from u(2) show ?thesis
      proof (elim disjE conjE)
        assume r: "r = newsz" and g: "grown pd G (\<lambda>_. 6) (\<lambda>_ _. 0) {w. Suc v \<le> w \<and> 4096 * w < unat newsz} qs t ps' u"
        show ?thesis using u(1) t(2) grown_trans [OF t(1) g, unfolded N] r by auto
      next
        assume "r = 0" "undone pd G (urange oldsz newsz) t ps' u"
        then show ?thesis using u(1) t(2) grown_undone [OF t(1) _ D] by auto
      qed
    qed
  qed
qed

lemma allocuvm_grows_or_undoes:
  assumes "aspace pd G ps s" and "newsz < KERNBASE" and "oldsz \<le> newsz" and "uset (mem s) pd \<inter> urange oldsz newsz = {}"
  shows "\<exists>r ps' t. allocuvm pd oldsz newsz s = Inr (r, t) \<and>
    (r = newsz \<and> grown pd G (\<lambda>_. 6) (\<lambda>_ _. 0) (urange oldsz newsz) ps s ps' t \<or>
     r = 0 \<and> undone pd G (urange oldsz newsz) s ps' t)"
proof -
  define v where "v = (unat oldsz + 4095) div 4096"
  have n: "unat newsz < 2147483648" "unat oldsz \<le> unat newsz"
    using assms(2,3) by (simp_all add: word_less_nat_alt word_le_nat_alt)
  have le: "v \<le> w \<longleftrightarrow> unat oldsz \<le> 4096 * w" for w
    using round_up_le [of "unat oldsz" w] by (simp add: v_def)
  have v: "v \<le> 524288" "unat oldsz \<le> 4096 * v" using n le [of v] by (simp_all add: v_def)
  have "unat (PGROUNDUP oldsz) = 4096 * v" using n by (subst unat_PGROUNDUP) (simp_all add: v_def)
  then have a: "PGROUNDUP oldsz = of_nat v * 4096" using v(1) by (simp add: u32_eq_iff vpn_page(2))
  have N: "{w. v \<le> w \<and> 4096 * w < unat newsz} = urange oldsz newsz" by (auto simp: urange_def le)
  have "\<forall>w\<in>uset (mem s) pd. v \<le> w \<longrightarrow> unat newsz \<le> 4096 * w"
    using assms(4) by (auto simp: urange_def le not_less)
  from allocuvm_loop_grows [OF assms(1) v(2) n(1) this v(1), unfolded N] show ?thesis
    using assms(2,3) by (simp add: allocuvm_def a linorder_not_less [symmetric])
qed

section \<open>Properties\<close>



end
