(* ===== verification/Vm_Copy.thy ===== *)
theory Vm_Copy
  imports Vm_Grow
begin

text \<open>
  Building address spaces: \<open>setupkvm\<close> makes a directory whose only entries are the kernel
  mappings of the table \<open>kmap\<close>, and \<open>copyuvm\<close> (the memory half of \<open>fork\<close>) fills one
  with copies of a parent's pages. The loops are followed round by round over the address-space
  view of \<open>Vm_Free\<close> and \<open>Vm_Grow\<close>, with the parent among the pages that belong to
  somebody else.
\<close>

section \<open>Definitions\<close>

text \<open>
  The entries of \<open>kmap\<close> for an image whose data starts at \<open>data\<close> cover four runs of virtual
  pages above \<open>KERNBASE\<close>, none twice.
\<close>

definition kmap_range :: "u32 \<times> u32 \<times> u32 \<times> u32 \<Rightarrow> nat set" where
  "kmap_range e = (case e of (va, a, b, perm) \<Rightarrow> {v. vpn va \<le> v \<and> v \<le> vpn (va + (b - a) - 1)})"

definition kmap_ok :: "(u32 \<times> u32 \<times> u32 \<times> u32) list \<Rightarrow> bool" where
  "kmap_ok ks \<longleftrightarrow> sorted_wrt (\<lambda>e f. kmap_range e \<inter> kmap_range f = {}) ks \<and>
     (\<forall>(va, a, b, perm)\<in>set ks. 0 < b - a \<and> unat va + unat (b - a) \<le> 4294967296 \<and> 524288 \<le> vpn va)"

text \<open>What the entries of a list do to a page table.\<close>

primrec kmapped :: "(u32 \<times> u32 \<times> u32 \<times> u32) list \<Rightarrow> (nat \<Rightarrow> u32) \<Rightarrow> nat \<Rightarrow> u32" where
  "kmapped [] f = f"
| "kmapped (e # ks) f = (case e of (va, a, b, perm) \<Rightarrow>
     kmapped ks (mapped_range (vpn va) (vpn (va + (b - a) - 1) - vpn va) a perm f))"

text \<open>
  The memory in which address spaces are built: \<open>G\<close> are the pages that belong to somebody, and
  the kernel's data starts where the linker may put it.
\<close>

definition builds :: "u32 set \<Rightarrow> u32 list \<Rightarrow> 'z kmem_scheme \<Rightarrow> bool" where
  "builds G ps s \<longleftrightarrow> mem_calm s \<and> kmem_inv ps s \<and> KERNBASE < ld_end s \<and> set ps \<inter> G = {} \<and>
     (\<forall>q\<in>G. q mod PGSIZE = 0) \<and> ld_data s mod PGSIZE = 0 \<and> KERNLINK < ld_data s \<and> ld_data s < P2V PHYSTOP"

text \<open>
  The address space of \<open>pd\<close> as the source of a copy of \<open>n\<close> bytes: its tables and its first
  pages belong to \<open>G\<close>, so that building another address space leaves them alone.
\<close>

definition source :: "u32 \<Rightarrow> u32 set \<Rightarrow> u32 \<Rightarrow> nat \<Rightarrow> memory \<Rightarrow> bool" where
  "source pd G b n m \<longleftrightarrow> tables_ok b m pd {} \<and> table_pages m pd \<subseteq> G \<and> KERNBASE < b \<and> n \<le> 2147483648 \<and>
     (\<forall>v. 4096 * v < n \<longrightarrow> v \<in> uset m pd \<and> upage m pd v \<in> G \<and> phys_page b (upage m pd v))"

text \<open>The pages of the copy: permissions and contents of the original.\<close>

definition copied :: "u32 \<Rightarrow> memory \<Rightarrow> u32 \<Rightarrow> u32 set \<Rightarrow> nat set \<Rightarrow> u32 list \<Rightarrow> 'z kmem_scheme \<Rightarrow> u32 list \<Rightarrow> 'z kmem_scheme \<Rightarrow> bool" where
  "copied pd m0 d G N ps s ps' t = grown d G (\<lambda>v. PTE_FLAGS (pte m0 pd v)) (\<lambda>v x. m0 (upage m0 pd v + x)) N ps s ps' t"

section \<open>The kernel part\<close>

lemma aspace_vm_step:
  assumes "aspace pd G ps s" and "vm_step pd (set ps \<union> upage (mem s) pd ` uset (mem s) pd \<union> G) ps s used ps' t"
    and "\<forall>w<524288. pte (mem t) pd w = pte (mem s) pd w"
  shows "aspace pd G ps' t" "uset (mem t) pd = uset (mem s) pd" "mem_frame s t" "set ps' \<subseteq> set ps"
    "same_on (G \<union> upage (mem s) pd ` uset (mem s) pd) (mem s) (mem t)"
proof -
  let ?U = "upage (mem s) pd ` uset (mem s) pd"
  let ?F = "set ps \<union> ?U \<union> G"
  note a = aspaceD [OF assms(1)]
  have st: "ps = used @ ps'" "mem_frame s t" "vm_inv pd (?F - set used) ps' t" "same_on (?F - set used) (mem s) (mem t)"
    using assms(2) by (auto simp: vm_step_def)
  show us: "uset (mem t) pd = uset (mem s) pd" using assms(3) by (auto simp: uset_def present_def)
  have up: "upage (mem t) pd w = upage (mem s) pd w" if "w \<in> uset (mem s) pd" for w
    using assms(3) that by (simp add: upage_def uset_def)
  have im: "upage (mem t) pd ` uset (mem s) pd = ?U" using up by (intro image_cong) auto
  have used: "set used \<inter> (?U \<union> G) = {}" using a(6,8) st(1) by auto
  have "set ps' \<inter> set used = {}" using a(2) st(1) by (auto simp: kmem_inv_def)
  then have F: "?F - set used = set ps' \<union> ?U \<union> G" using used st(1) by auto
  show "mem_frame s t" "set ps' \<subseteq> set ps" using st(1,2) by auto
  show "same_on (G \<union> ?U) (mem s) (mem t)" by (rule same_on_subset [OF st(4)]) (use used in auto)
  have "inj_on (upage (mem t) pd) (uset (mem s) pd)" using a(5) up by (simp add: inj_on_def)
  then show "aspace pd G ps' t"
    using a(3,6-9) st(1,3) up unfolding aspace_def vm_inv_def us im F mem_frame_ld_end [OF st(2)] by auto
qed

lemma kmapped_cong: "(\<And>v. v < 1048576 \<Longrightarrow> f v = g v) \<Longrightarrow> v < 1048576 \<Longrightarrow> kmapped ks f v = kmapped ks g v"
proof (induction ks arbitrary: f g)
  case (Cons e ks)
  show ?case
    by (cases e, simp, rule Cons.IH) (use Cons.prems in \<open>simp_all add: mapped_range_def\<close>)
qed simp

lemma setupkvm_loop_maps:
  assumes "aspace pd G ps s" and "kmap_ok ks" and "uset (mem s) pd = {}" and "\<forall>e\<in>set ks. \<forall>v\<in>kmap_range e. \<not> present (mem s) pd v"
  shows "\<exists>r t. setupkvm_loop pd ks s = Inr (r, t) \<and> mem_frame s t \<and> same_on G (mem s) (mem t) \<and>
    (r = 0 \<or> r = pd \<and> (\<forall>v<1048576. pte (mem t) pd v = kmapped ks (pte (mem s) pd) v) \<and>
      (\<exists>ps'. aspace pd G ps' t \<and> set ps' \<subseteq> set ps \<and> uset (mem t) pd = {}))"
  using assms
proof (induction ks arbitrary: s ps)
  case Nil
  then show ?case by auto
next
  case (Cons e ks)
  obtain va a b perm where e: "e = (va, a, b, perm)" by (cases e)
  let ?sz = "b - a" and ?F = "set ps \<union> upage (mem s) pd ` uset (mem s) pd \<union> G"
  note as = aspaceD [OF Cons.prems(1)]
  have ok: "0 < ?sz" "unat va + unat ?sz \<le> 4294967296" "524288 \<le> vpn va" "kmap_ok ks"
      "\<And>f. f \<in> set ks \<Longrightarrow> kmap_range e \<inter> kmap_range f = {}"
    using Cons.prems(2) e by (auto simp: kmap_ok_def)
  have R: "kmap_range e = {v. vpn va \<le> v \<and> v \<le> vpn (va + ?sz - 1)}" by (simp add: kmap_range_def e)
  have np: "\<forall>v. vpn va \<le> v \<and> v \<le> vpn (va + ?sz - 1) \<longrightarrow> \<not> present (mem s) pd v" using Cons.prems(4) R by auto
  have inv: "vm_inv pd ?F ps s" using as(1,2,4) unfolding vm_inv_def by blast
  obtain r used ps' t where t: "mappages pd va ?sz a perm s = Inr (r, t)" "vm_step pd ?F ps s used ps' t"
    "if r = 0 then \<forall>v<1048576. pte (mem t) pd v = mapped_range (vpn va) (vpn (va + ?sz - 1) - vpn va) a perm (pte (mem s) pd) v
     else r = -1 \<and> ps' = [] \<and> (\<forall>v<1048576. v < vpn va \<or> vpn (va + ?sz - 1) < v \<longrightarrow> pte (mem t) pd v = pte (mem s) pd v)"
    using mappages_maps [OF inv ok(1,2) np, of a perm] by blast
  have le: "vpn va \<le> vpn (va + ?sz - 1)" by (rule range_vpn [OF ok(1,2)])
  have out: "pte (mem t) pd v = pte (mem s) pd v" if "v < 1048576" "v \<notin> kmap_range e" for v
    using t(3) that le unfolding R by (auto simp: mapped_range_def split: if_splits)
  have lo: "\<forall>w<524288. pte (mem t) pd w = pte (mem s) pd w" using out ok(3) unfolding R by auto
  note st = aspace_vm_step [OF Cons.prems(1) t(2) lo]
  have sG: "same_on G (mem s) (mem t)" by (rule same_on_subset [OF st(5)]) auto
  show ?case
  proof (cases "r = 0")
    case False
    then have r: "r = -1" using t(3) by simp
    obtain u where u: "freevm pd t = Inr u" "mem_frame t u" "same_on G (mem t) (mem u)"
      using freevm_frees [OF st(1)] by blast
    have "setupkvm_loop pd (e # ks) s = Inr (0, u)" using t(1) u(1) r by (simp add: e)
    then show ?thesis using mem_frame_trans [OF st(3) u(2)] same_on_trans [OF sG u(3)] by blast
  next
    case True
    have un: "uset (mem t) pd = {}" using st(2) Cons.prems(3) by simp
    have "\<not> present (mem t) pd v" if "f \<in> set ks" "v \<in> kmap_range f" for f v
    proof -
      have "v \<notin> kmap_range e" using ok(5) that by blast
      moreover have "v < 1048576" using that(2) vpn_less le_less_trans by (auto simp: kmap_range_def split: prod.splits)
      ultimately show ?thesis using out Cons.prems(4) that by (simp add: present_def)
    qed
    then obtain r' u where u: "setupkvm_loop pd ks t = Inr (r', u)" "mem_frame t u" "same_on G (mem t) (mem u)"
        "r' = 0 \<or> r' = pd \<and> (\<forall>v<1048576. pte (mem u) pd v = kmapped ks (pte (mem t) pd) v) \<and>
          (\<exists>qs. aspace pd G qs u \<and> set qs \<subseteq> set ps' \<and> uset (mem u) pd = {})"
      using Cons.IH [OF st(1) ok(4) un] by blast
    have "setupkvm_loop pd (e # ks) s = Inr (r', u)" using t(1) u(1) True by (simp add: e)
    moreover have "kmapped (e # ks) (pte (mem s) pd) v = kmapped ks (pte (mem t) pd) v" if "v < 1048576" for v
      unfolding e kmapped.simps prod.case by (rule kmapped_cong [OF _ that]) (use t(3) True in simp)
    then have eq: "(\<forall>v<1048576. pte (mem u) pd v = kmapped ks (pte (mem t) pd) v) \<longleftrightarrow>
        (\<forall>v<1048576. pte (mem u) pd v = kmapped (e # ks) (pte (mem s) pd) v)" by (simp del: kmapped.simps)
    ultimately show ?thesis
      using u(4) [unfolded eq] st(4) mem_frame_trans [OF st(3) u(2)] same_on_trans [OF sG u(3)] by blast
  qed
qed

lemma unat_max: "unat (-1 :: u32) = 4294967295"
  using unat_u32_sub [of 0 1] by simp

lemma kmap_ok_kmap:
  assumes "data mod 4096 = 0" and "0x80100000 < data" and "data < 0x8E000000"
  shows "kmap_ok (kmap data)"
proof -
  have u: "0x80100000 < unat data" "unat data < 0x8E000000" "unat data = 4096 * vpn data"
    using assms(2,3) aligned_vpn [OF assms(1)] by (simp_all add: word_less_nat_alt)
  have "unat (data - 1) = unat data - 1" using u(1) by (simp add: u32_nat)
  then have d: "vpn (data - 1) = vpn data - 1" using u(3) by (simp add: vpn_def [of "data - 1"])
  have v: "524544 < vpn data" "vpn data < 581632" using u by simp_all
  have "0x80100000 + (V2P data - V2P 0x80100000) - 1 = data - 1" "data + (0xE000000 - V2P data) - 1 = 0x8DFFFFFF"
    by (simp_all add: V2P_def)
  then have r: "kmap_range (0x80100000, V2P 0x80100000, V2P data, 0) = {v. 524544 \<le> v \<and> v \<le> vpn data - 1}"
    "kmap_range (data, V2P data, 0xE000000, 2) = {v. vpn data \<le> v \<and> v \<le> 581631}"
    "kmap_range (0x80000000, 0, 0x100000, 2) = {v. 524288 \<le> v \<and> v \<le> 524543}"
    "kmap_range (0xFE000000, 0xFE000000, 0, 2) = {v. 1040384 \<le> v \<and> v \<le> 1048575}"
    by (simp_all only: kmap_range_def prod.case d) (simp_all add: vpn_def unat_max)
  have s: "unat (V2P data - V2P 0x80100000) = unat data - 0x80100000" "unat (0xE000000 - V2P data) = 0x8E000000 - unat data"
    using u by (simp_all add: V2P_def u32_nat)
  have w: "vpn 0x80000000 = 524288" "vpn 0x80100000 = 524544" "vpn 0xFE000000 = 1040384" by (simp_all add: vpn_def)
  have p: "0 < V2P data - V2P 0x80100000" "0 < 0xE000000 - V2P data"
    using s u by (simp_all only: word_less_nat_alt) simp_all
  have q: "unat (0 - 0xFE000000 :: u32) = 33554432" by (simp only: unat_u32_sub) simp
  then have q': "(0 :: u32) < 0 - 0xFE000000" by (simp only: word_less_nat_alt) simp
  have "sorted_wrt (\<lambda>e f. kmap_range e \<inter> kmap_range f = {}) (kmap data)"
    using v by (simp only: kmap_def sorted_wrt.simps r list.set ball_simps) auto
  moreover have "\<forall>(va, a, b, perm)\<in>set (kmap data). 0 < b - a \<and> unat va + unat (b - a) \<le> 4294967296 \<and> 524288 \<le> vpn va"
    using v(1) u(1,2) p by (simp only: kmap_def list.set ball_simps prod.case s w q q' simp_thms) simp
  ultimately show ?thesis by (simp add: kmap_ok_def)
qed

lemma filledD: "filled k m m' \<Longrightarrow> q mod 4096 = 0 \<Longrightarrow> q \<noteq> k \<Longrightarrow> same_on {q} m m'"
  by (simp only: filled_def simp_thms)

lemma empty_aspace:
  assumes "builds G (k # ks) s"
  shows "aspace k G ks (took k (memset (mem s) k 0 4096) s)" "uset (memset (mem s) k 0 4096) k = {}"
    "v < 1048576 \<Longrightarrow> pte (memset (mem s) k 0 4096) k v = 0" "same_on G (mem s) (memset (mem s) k 0 4096)"
proof -
  let ?m = "memset (mem s) k 0 4096"
  have b: "mem_calm s" "kmem_inv (k # ks) s" "KERNBASE < ld_end s" "set (k # ks) \<inter> G = {}" "\<And>q. q \<in> G \<Longrightarrow> q mod 4096 = 0"
    using assms by (auto simp only: builds_def)
  have k: "freelist s = k" "k \<notin> set ks" "phys_page (ld_end s) k" "k mod 4096 = 0" "k \<notin> G" "0 < ld_end s"
    using b(2,4) by (auto simp: kmem_inv_def phys_page_def)
  have al: "p mod 4096 = 0" if "p \<in> set ks" for p using b(2) that by (simp only: kmem_inv_def phys_page_def list.set) blast
  have z: "load32 ?m (k + 4 * of_nat d) = 0" if "d < 1024" for d by (rule load_zero_page [OF that])
  then have nt: "\<not> has_table ?m k d" if "d < 1024" for d using that by (simp add: has_table_def pde_def)
  then show p: "pte ?m k v = 0" if "v < 1048576" for v using that by (simp add: pte_def)
  then show us: "uset ?m k = {}" by (auto simp: uset_def present_def)
  have other: "same_on {q} (mem s) ?m" if "q mod 4096 = 0" "q \<noteq> k" for q
    by (rule filledD [OF zero_filled(1) [OF k(4)] that])
  show "same_on G (mem s) ?m"
  proof (rule same_on_all)
    fix q assume "q \<in> G"
    then show "same_on {q} (mem s) ?m" using b(5) k(5) by (intro other) auto
  qed
  have "kmem_inv ks (s\<lparr>freelist := load32 (mem s) k\<rparr>)" using b(2) k(1) by (simp add: kmem_inv_def)
  then have "kmem_inv ks (took k ?m s)"
  proof (rule kmem_inv_same)
    show "same_on (set ks) (mem (s\<lparr>freelist := load32 (mem s) k\<rparr>)) (mem (took k ?m s))"
    proof (rule same_on_all)
      fix q assume "q \<in> set ks"
      then show "same_on {q} (mem (s\<lparr>freelist := load32 (mem s) k\<rparr>)) (mem (took k ?m s))"
        using al k(2) other [of q] by (auto simp: took_def)
    qed
  qed (simp_all add: took_def)
  moreover have "tables_ok (ld_end s) ?m k (set ks \<union> G)"
    using k nt al b(5) unfolding tables_ok_def by blast
  ultimately show "aspace k G ks (took k ?m s)"
    using b(1,3,4) us by (simp add: aspace_def took_def)
qed

lemma setupkvm_builds:
  assumes "builds G ps s"
  shows "\<exists>r t. setupkvm s = Inr (r, t) \<and> mem_frame s t \<and> same_on G (mem s) (mem t) \<and>
    (r = 0 \<or> r \<in> set ps \<and> (\<forall>v<1048576. pte (mem t) r v = kmapped (kmap (ld_data s)) (\<lambda>_. 0) v) \<and>
      (\<exists>ps'. aspace r G ps' t \<and> set ps' \<subseteq> set ps \<and> uset (mem t) r = {}))"
proof -
  have b: "mem_calm s" "kmem_inv ps s" using assms by (simp_all add: builds_def)
  show ?thesis
  proof (cases ps)
    case Nil
    then have "setupkvm s = Inr (0, s)" using kalloc_none [OF b(1)] b(2) by (simp add: setupkvm_def)
    then show ?thesis by auto
  next
    case (Cons k ks)
    let ?m = "memset (mem s) k 0 4096" and ?K = "kmap (ld_data s)"
    note e = empty_aspace [OF assms [unfolded Cons]]
    have k: "kalloc s = Inr (k, s\<lparr>freelist := load32 (mem s) k\<rparr>)" "k \<noteq> 0" using kalloc_took [OF b(1)] b(2) Cons by auto
    have ok: "kmap_ok ?K" using assms by (intro kmap_ok_kmap) (simp_all only: builds_def P2V_def, simp_all)
    have mt: "mem (took k ?m s) = ?m" by (simp add: took_def)
    have np: "\<forall>f\<in>set ?K. \<forall>v\<in>kmap_range f. \<not> present ?m k v"
    proof (intro ballI)
      fix f v assume "v \<in> kmap_range f"
      then have "v < 1048576" using vpn_less le_less_trans by (auto simp: kmap_range_def split: prod.splits)
      then show "\<not> present ?m k v" using e(3) by (simp add: present_def)
    qed
    obtain r t where t: "setupkvm_loop k ?K (took k ?m s) = Inr (r, t)" "mem_frame (took k ?m s) t" "same_on G ?m (mem t)"
        "r = 0 \<or> r = k \<and> (\<forall>v<1048576. pte (mem t) k v = kmapped ?K (pte ?m k) v) \<and>
          (\<exists>ps'. aspace k G ps' t \<and> set ps' \<subseteq> set ks \<and> uset (mem t) k = {})"
      using setupkvm_loop_maps [OF e(1) ok, unfolded mt, OF e(2) np] by blast
    have "kmapped ?K (pte ?m k) v = kmapped ?K (\<lambda>_. 0) v" if "v < 1048576" for v
      by (rule kmapped_cong [OF _ that]) (rule e(3))
    moreover have "setupkvm s = Inr (r, t)"
      using k t(1) by (simp add: setupkvm_def took_def P2V_def)
    moreover have "mem_frame s (took k ?m s)" by (simp add: took_def)
    then have "mem_frame s t" using t(2) by (rule mem_frame_trans)
    ultimately show ?thesis
      using t(4) same_on_trans [OF e(4) t(3)] Cons by (intro exI [of _ r] exI [of _ t]) auto
  qed
qed

section \<open>Copying\<close>

lemma phys_page_high: "KERNBASE < b \<Longrightarrow> phys_page b k \<Longrightarrow> unat k + 4096 < 4294967296"
  by (auto simp: phys_page_def V2P_def u32_nat split: if_splits)

lemma copy_filled:
  assumes "KERNBASE < b" and "phys_page b k" and "phys_page b p" and "k \<noteq> p"
  shows "filled k m (memmove m k p 4096)" "x < 4096 \<Longrightarrow> memmove m k p 4096 (k + x) = m (p + x)"
proof -
  have mv: "memmove m k p 4096 a = (if a - k < 4096 then m (p + (a - k)) else m a)" for a
    using phys_page_high [OF assms(1,2)] phys_page_high [OF assms(1,3)] by (intro memmove_apply) simp_all
  then show "x < 4096 \<Longrightarrow> memmove m k p 4096 (k + x) = m (p + x)" by simp
  have k: "k mod 4096 = 0" using assms(2) unfolding phys_page_def by (rule conjunct1)
  have "same_on {q} m (memmove m k p 4096)" if "q mod 4096 = 0" "q \<noteq> k" for q
    using page_apart [OF that(1) k that(2)] by (simp add: same_on_def mv linorder_not_less [symmetric])
  then show "filled k m (memmove m k p 4096)" unfolding filled_def by blast
qed

lemma copy_walk:
  assumes "source pd G b n m0" and "same_on G m0 (mem s)" and "4096 * v < n"
  shows "\<exists>p. walkpgdir pd (of_nat v * 4096) False s = Inr (p, s) \<and> p \<noteq> 0 \<and> load32 (mem s) p = pte m0 pd v"
proof -
  have v: "v \<in> uset m0 pd" "v < 524288" using assms(1,3) by (auto simp: source_def)
  have d: "v div 1024 < 1024" "v mod 1024 < 1024" "v < 1048576" using v(2) by simp_all
  have t: "tables_ok b m0 pd {}" using assms(1) by (simp add: source_def)
  have so: "same_on (table_pages m0 pd) m0 (mem s)" using assms(1,2) by (auto simp: source_def intro: same_on_subset)
  note e = same_on_tables [OF so]
  have h0: "has_table m0 pd (v div 1024)" using v(1) by (auto simp: uset_def present_def pte_def split: if_splits)
  have h: "has_table (mem s) pd (v div 1024)" using e(2) [OF d(1)] h0 by simp
  let ?p = "ptab_at (mem s) pd (v div 1024) + 4 * of_nat (v mod 1024)"
  have "walkpgdir pd (of_nat v * 4096) False s = Inr (?p, s)"
    using walk_present [of s pd "of_nat v * 4096" False] h d(3) by (simp add: vpn_page)
  moreover have "?p \<noteq> 0" using table_page_nonzero [OF t d(1) h0 d(2)] e(3) [OF d(1)] by simp
  moreover have "load32 (mem s) ?p = pte m0 pd v" using e(4) [OF d(3)] h by (simp add: pte_def)
  ultimately show ?thesis by blast
qed

lemma grown_same: "grown d G perm f N ps s ps' t \<Longrightarrow> mem_frame s t \<and> same_on G (mem s) (mem t) \<and> aspace d G ps' t"
  unfolding grown_def by (elim conjE, intro conjI) (assumption, erule same_on_subset, simp, assumption)

lemma PTE_FLAGS_less: "PTE_FLAGS w < 4096"
  by (simp add: PTE_FLAGS_def word_less_nat_alt unat_and_mask12)

lemma copyuvm_step:
  assumes "aspace d G ps s" and "source pd G (ld_end s) (unat sz) m0" and "same_on G m0 (mem s)"
    and "4096 * v < unat sz" and "v \<notin> uset (mem s) d"
  shows "(\<exists>t. copyuvm_loop pd d (of_nat v * 4096) sz s = Inr (0, t) \<and> mem_frame s t \<and> same_on G (mem s) (mem t)) \<or>
    (\<exists>qs t. copied pd m0 d G {v} ps s qs t \<and>
      copyuvm_loop pd d (of_nat v * 4096) sz s = copyuvm_loop pd d (of_nat (Suc v) * 4096) sz t)"
proof -
  let ?a = "of_nat v * 4096 :: u32" and ?fl = "\<lambda>v. PTE_FLAGS (pte m0 pd v)" and ?cp = "\<lambda>v x. m0 (upage m0 pd v + x)"
  note a = aspaceD [OF assms(1)]
  have sc: "v \<in> uset m0 pd" "upage m0 pd v \<in> G" "phys_page (ld_end s) (upage m0 pd v)" "unat sz \<le> 2147483648"
    using assms(2,4) by (auto simp: source_def)
  have v: "v < 524288" "unat ?a = 4096 * v" using assms(4) sc(4) by (simp_all add: vpn_page)
  have lt: "?a < sz" using assms(4) v(2) by (simp add: word_less_nat_alt)
  have nx: "?a + 4096 = of_nat (Suc v) * 4096" by (simp add: algebra_simps)
  have nw: "\<not> ?a + 4096 \<le> ?a" using v by (simp add: word_le_nat_alt unat_u32_add)
  obtain p where p: "walkpgdir pd ?a False s = Inr (p, s)" "p \<noteq> 0" "load32 (mem s) p = pte m0 pd v"
    using copy_walk [OF assms(2-4)] by blast
  have pr: "pte m0 pd v AND 1 \<noteq> 0" using sc(1) by (simp add: uset_def present_def)
  show ?thesis
  proof (cases ps)
    case Nil
    obtain t where t: "freevm d s = Inr t" "mem_frame s t" "same_on G (mem s) (mem t)" using freevm_frees [OF assms(1)] by blast
    have "copyuvm_loop pd d ?a sz s = Inr (0, t)"
      using lt p pr t(1) kalloc_none [OF a(1)] a(2) Nil by (subst copyuvm_loop.simps) (simp add: Let_def)
    then show ?thesis using t(2,3) by blast
  next
    case (Cons k ks)
    let ?m = "memmove (mem s) k (upage m0 pd v) 4096"
    have k: "kalloc s = Inr (k, s\<lparr>freelist := load32 (mem s) k\<rparr>)" "k \<noteq> 0" "phys_page (ld_end s) k" "k \<notin> G"
      using kalloc_took [OF a(1), of k ks] a(2,6) Cons by (auto simp: kmem_inv_def)
    have as: "aspace d G (k # ks) s" using assms(1) Cons by simp
    have "k \<noteq> upage m0 pd v" using k(4) sc(2) by blast
    note cf = copy_filled [OF a(3) k(3) sc(3) this, where m = "mem s"]
    have src: "mem s (upage m0 pd v + x) = m0 (upage m0 pd v + x)" if "x < 4096" for x
      by (rule same_on_at [OF assms(3) sc(2) that])
    have st: "s\<lparr>freelist := load32 (mem s) k, mem := ?m\<rparr> = took k ?m s" by (simp add: took_def)
    obtain r qs t where t: "mappages d ?a 4096 (V2P k) (?fl v) (took k ?m s) = Inr (r, t)"
        "r = 0 \<and> copied pd m0 d G {v} (k # ks) s qs t \<or> r = -1 \<and> ks = [] \<and> t = took k ?m s"
      using grow_one [OF as cf(1) v(1) assms(5), of ?fl ?cp] cf(2) src PTE_FLAGS_less unfolding copied_def by auto
    have loop: "copyuvm_loop pd d ?a sz s = (if r < 0 then bindR (kfree k t) (\<lambda>s. bindR (freevm d s) (\<lambda>s. Inr (0, s)))
        else copyuvm_loop pd d (?a + 4096) sz t)"
      using lt k(1,2) t(1) nw p pr by (subst copyuvm_loop.simps) (simp add: st [unfolded upage_def] Let_def upage_def)
    from t(2) show ?thesis
    proof (elim disjE conjE)
      assume "r = 0" "copied pd m0 d G {v} (k # ks) s qs t"
      then show ?thesis using loop nx Cons by auto
    next
      assume r: "r = -1" "ks = []" "t = took k ?m s"
      have tk: "aspace d (insert k G) [] (took k ?m s)" using took_aspace(1) [OF as cf(1)] r(2) by simp
      have lk: "ld_end (took k ?m s) = ld_end s" "mem (took k ?m s) = ?m" by (simp_all add: took_def)
      obtain u where u: "kfree k (took k ?m s) = Inr u" "mem_frame (took k ?m s) u" "aspace d G [k] u"
          "same_on (G \<union> upage ?m d ` uset ?m d) ?m (mem u)"
        using give_page [OF tk _ k(4)] k(3) unfolding lk by blast
      obtain w where w: "freevm d u = Inr w" "mem_frame u w" "same_on G (mem u) (mem w)" using freevm_frees [OF u(3)] by blast
      have "copyuvm_loop pd d ?a sz s = Inr (0, w)" using loop r u(1) w(1) by simp
      moreover have "mem_frame s (took k ?m s)" by (simp add: took_def)
      then have "mem_frame s w" using u(2) w(2) by (meson mem_frame_trans)
      moreover have "same_on G (mem s) ?m" by (rule same_on_subset [OF filled_same [OF as cf(1)]]) auto
      moreover have "same_on G ?m (mem u)" by (rule same_on_subset [OF u(4)]) auto
      ultimately show ?thesis using w(3) by (meson same_on_trans)
    qed
  qed
qed

lemma copyuvm_loop_end:
  assumes "aspace d G ps s" and "\<not> i < sz" and "N = {}"
  shows "\<exists>r qs t. copyuvm_loop pd d i sz s = Inr (r, t) \<and> mem_frame s t \<and> same_on G (mem s) (mem t) \<and>
    (r = 0 \<or> r = d \<and> copied pd m0 d G N ps s qs t)"
proof -
  have "copyuvm_loop pd d i sz s = Inr (d, s)" using assms(2) by (subst copyuvm_loop.simps) simp
  then show ?thesis using grown_none [OF assms(1)] assms(3)
    by (intro exI [of _ d] exI [of _ ps] exI [of _ s]) (simp add: copied_def)
qed

lemma copyuvm_loop_copies:
  assumes "aspace d G ps s" and "source pd G (ld_end s) (unat sz) m0" and "same_on G m0 (mem s)"
    and "uset (mem s) d \<inter> {w. v \<le> w \<and> 4096 * w < unat sz} = {}" and "v \<le> 524288"
  shows "\<exists>r qs t. copyuvm_loop pd d (of_nat v * 4096) sz s = Inr (r, t) \<and> mem_frame s t \<and> same_on G (mem s) (mem t) \<and>
    (r = 0 \<or> r = d \<and> copied pd m0 d G {w. v \<le> w \<and> 4096 * w < unat sz} ps s qs t)"
  using assms
proof (induction "524288 - v" arbitrary: v s ps)
  case 0
  then have "4096 * w < unat sz \<Longrightarrow> w < v" for w by (auto simp: source_def)
  then have e: "{w. v \<le> w \<and> 4096 * w < unat sz} = {}" by (auto simp: not_le [symmetric])
  have "\<not> of_nat v * 4096 < sz"
    using 0(1,3,6) by (auto simp: word_less_nat_alt source_def unat_word_ariths)
  then show ?case by (rule copyuvm_loop_end [OF 0(2) _ e])
next
  case (Suc n)
  show ?case
  proof (cases "4096 * v < unat sz")
    case False
    then have e: "{w. v \<le> w \<and> 4096 * w < unat sz} = {}" by auto
    have "\<not> of_nat v * 4096 < sz" using False Suc(2) by (simp add: word_less_nat_alt vpn_page)
    then show ?thesis by (rule copyuvm_loop_end [OF Suc(3) _ e])
  next
    case True
    have nv: "v \<notin> uset (mem s) d" using Suc(6) True by auto
    from copyuvm_step [OF Suc(3,4,5) True nv] show ?thesis
    proof (elim disjE exE conjE)
      fix t assume "copyuvm_loop pd d (of_nat v * 4096) sz s = Inr (0, t)" "mem_frame s t" "same_on G (mem s) (mem t)"
      then show ?thesis by blast
    next
      fix ks t assume g: "copied pd m0 d G {v} ps s ks t"
        and l: "copyuvm_loop pd d (of_nat v * 4096) sz s = copyuvm_loop pd d (of_nat (Suc v) * 4096) sz t"
      note gs = grown_same [OF g [unfolded copied_def]]
      have ld: "ld_end t = ld_end s" using gs by (auto dest: mem_frame_ld_end)
      have so: "same_on G m0 (mem t)" using gs Suc(5) by (meson same_on_trans)
      have us: "uset (mem t) d \<inter> {w. Suc v \<le> w \<and> 4096 * w < unat sz} = {}"
        using Suc(6) grown_uset [OF g [unfolded copied_def]] by auto
      have n2: "n = 524288 - Suc v" "Suc v \<le> 524288" using Suc(2) by simp_all
      obtain r qs u where u: "copyuvm_loop pd d (of_nat (Suc v) * 4096) sz t = Inr (r, u)" "mem_frame t u" "same_on G (mem t) (mem u)"
          "r = 0 \<or> r = d \<and> copied pd m0 d G {w. Suc v \<le> w \<and> 4096 * w < unat sz} ks t qs u"
        using Suc(1) [OF n2(1) _ Suc(4) [folded ld] so us n2(2)] gs by blast
      have n: "{w. v \<le> w \<and> 4096 * w < unat sz} = {v} \<union> {w. Suc v \<le> w \<and> 4096 * w < unat sz}" using True by auto
      have "mem_frame s u" "same_on G (mem s) (mem u)" using gs u(2,3) by (meson mem_frame_trans, meson same_on_trans)
      moreover have "r = 0 \<or> r = d \<and> copied pd m0 d G {w. v \<le> w \<and> 4096 * w < unat sz} ps s qs u"
        using u(4) grown_trans [OF g [unfolded copied_def]] unfolding copied_def n by blast
      ultimately show ?thesis using l u(1) by (intro exI [of _ r] exI [of _ qs] exI [of _ u]) simp
    qed
  qed
qed

lemma aspace_builds:
  assumes "aspace pd G ps s" and "ld_data s mod 4096 = 0" and "KERNLINK < ld_data s" and "ld_data s < P2V PHYSTOP"
  shows "builds (G \<union> table_pages (mem s) pd \<union> upage (mem s) pd ` uset (mem s) pd) ps s"
proof -
  let ?F = "set ps \<union> upage (mem s) pd ` uset (mem s) pd \<union> G"
  note a = aspaceD [OF assms(1)]
  have F: "q mod 4096 = 0" if "q \<in> ?F" for q using a(4) that by (simp only: tables_ok_def)
  have "q mod 4096 = 0" if "q \<in> table_pages (mem s) pd" for q by (rule table_pages_aligned [OF a(4) that])
  then have "\<forall>q\<in>G \<union> table_pages (mem s) pd \<union> upage (mem s) pd ` uset (mem s) pd. q mod 4096 = 0" using F by blast
  moreover have "set ps \<inter> table_pages (mem s) pd = {}" using table_pages_apart [OF a(4)] by blast
  then have "set ps \<inter> (G \<union> table_pages (mem s) pd \<union> upage (mem s) pd ` uset (mem s) pd) = {}" using a(6,8) by blast
  ultimately show ?thesis using a(1-3) assms(2-4) by (simp only: builds_def simp_thms)
qed

lemma aspace_source:
  assumes "aspace pd G ps s" and "n \<le> 2147483648" and "\<And>v. 4096 * v < n \<Longrightarrow> v \<in> uset (mem s) pd"
  shows "source pd (G \<union> table_pages (mem s) pd \<union> upage (mem s) pd ` uset (mem s) pd) (ld_end s) n (mem s)"
proof -
  note a = aspaceD [OF assms(1)]
  have "tables_ok (ld_end s) (mem s) pd {}" using a(4) by (auto simp: tables_ok_def)
  then show ?thesis using a(3,7) assms(2,3) unfolding source_def by blast
qed

lemma demo_as_data: "ld_data demo_as = 0x80108000"
  by (simp add: demo_as_def demo_vm_def boot_kmem_def)

section \<open>Properties\<close>



end
