(* ===== verification/Demo_Kernel.thy ===== *)
theory Demo_Kernel
  imports Pipe Proc_Sync
begin

text \<open>A concrete state of the kernel, at which the properties of its upper layers are evaluated.\<close>

text \<open>
  A state of the whole kernel: the machine of \<open>demo_run\<close> (process 2, in slot 1, runs on this
  processor), an empty disk and cache, and empty pipes whose counters are about to wrap around.
\<close>

definition demo_pipe :: pipe where
  "demo_pipe = \<lparr>p_data = replicate 512 0, nread = 0xFFFFFFFF, nwrite = 0xFFFFFFFF, readopen = True, writeopen = True\<rparr>"

definition demo_buf :: buf where
  "demo_buf = \<lparr>b_flags = 0, b_dev = 0, b_blockno = 0, b_refcnt = 0, b_prev = 0, b_next = 0, b_qnext = None,
     b_data = replicate 512 0\<rparr>"

definition demo_inode :: inode where
  "demo_inode = \<lparr>i_dev = 0, i_inum = 0, i_ref = 0, i_valid = False, i_type = 0, i_major = 0, i_minor = 0, i_nlink = 0,
     i_size = 0, i_addrs = replicate 13 0\<rparr>"

definition demo_sb :: superblock where
  "demo_sb = \<lparr>sb_size = 1000, sb_nblocks = 941, sb_ninodes = 200, sb_nlog = 30, sb_logstart = 2, sb_inodestart = 32,
     sb_bmapstart = 58\<rparr>"

definition demo_kernel :: "'z \<Rightarrow> 'z pipest_scheme" where
  "demo_kernel x = \<lparr>cpus = cpus demo_run, ncpu = ncpu demo_run, lapic_id = lapic_id demo_run,
     eflags_if = eflags_if demo_run, locks = locks demo_run, mem = mem demo_run, freelist = freelist demo_run,
     use_lock = use_lock demo_run, ld_end = ld_end demo_run, ld_data = ld_data demo_run,
     ld_forkret = ld_forkret demo_run, ld_trapret = ld_trapret demo_run, kpgdir = kpgdir demo_run, cr3 = cr3 demo_run,
     task_reg = task_reg demo_run, gdt = gdt demo_run, gdt_loaded = gdt_loaded demo_run, tss = tss demo_run,
     ts_addr = ts_addr demo_run, procs = procs demo_run, nextpid = nextpid demo_run, initproc = initproc demo_run,
     forkret_first = forkret_first demo_run, slocks = (\<lambda>_. \<lparr>sl_locked = False, sl_pid = 0\<rparr>),
     bufs = replicate 31 demo_buf, memdisk = (\<lambda>_. replicate 512 0), disksize = 1000, diskw = [],
     log_start = 2, log_size = 30, outstanding = 0, committing = False, log_dev = 1, lh_n = 0, lh_block = replicate 30 0,
     inodes = replicate 50 demo_inode, sb = demo_sb,
     cons_locking = True, panicked = False, cons_dev = True, crt = (\<lambda>_. 0), crt_pos = 0, uart = True, uart_out = [],
     input_buf = replicate 128 0, input_r = 0, input_w = 0, input_e = 0, kbd_shift = 0,
     pipes = (\<lambda>_. demo_pipe), \<dots> = x\<rparr>"

lemma demo_kernel_mach: "mach_same demo_run (demo_kernel x)" "procs (demo_kernel x) = procs demo_run"
  by (simp_all add: mach_same_def demo_kernel_def)

lemma demo_kernel_runs: "runs 1 (demo_kernel x)" "lock_free lk (demo_kernel x)" "eflags_if (demo_kernel x) = False"
  using demo_run_calm demo_kernel_mach(2) [of x] calm_same [OF demo_kernel_mach(1) [of x]]
    cur_same [OF demo_kernel_mach(1) [of x]] mach_same_facts [OF demo_kernel_mach(1) [of x]] demo_kernel_mach(1) [of x]
  by (simp_all add: runs_def mach_same_def)

lemma demo_kernel_pipes [simp]: "pipes (demo_kernel x) = (\<lambda>_. demo_pipe)" "pipest.more (demo_kernel x) = x"
  by (simp_all add: demo_kernel_def)

end
