(* ===== verification/Fifo.thy ===== *)
theory Fifo
  imports Main
begin

text \<open>
  The contract of a bounded queue. The kernel's ring buffers promise it: the pipe buffer of
  \<open>pipe.c\<close> and the input buffer of \<open>console.c\<close> are its two implementations.
\<close>

text \<open>A first-in first-out queue of at most \<open>cap\<close> elements, as its users see it.\<close>

locale fifo =
  fixes inv :: "'q \<Rightarrow> bool" and contents :: "'q \<Rightarrow> 'a list" and put :: "'a \<Rightarrow> 'q \<Rightarrow> 'q"
    and get :: "'q \<Rightarrow> 'a \<times> 'q" and cap :: nat
  assumes put_inv: "inv q \<Longrightarrow> length (contents q) < cap \<Longrightarrow> inv (put c q)"
    and put_contents: "inv q \<Longrightarrow> length (contents q) < cap \<Longrightarrow> contents (put c q) = contents q @ [c]"
    and get_inv: "inv q \<Longrightarrow> contents q \<noteq> [] \<Longrightarrow> inv (snd (get q))"
    and get_contents: "inv q \<Longrightarrow> contents q \<noteq> [] \<Longrightarrow> contents q = fst (get q) # contents (snd (get q))"
    and bounded: "inv q \<Longrightarrow> length (contents q) \<le> cap"
begin

text \<open>
  A run of the queue: \<open>Some c\<close> puts \<open>c\<close>, \<open>None\<close> gets; an operation for which there is no
  room or no element is skipped. The results are what was accepted, what was delivered and the
  queue.
\<close>

primrec run :: "'a option list \<Rightarrow> 'q \<Rightarrow> 'a list \<times> 'a list \<times> 'q" where
  "run [] q = ([], [], q)"
| "run (x # xs) q =
     (case x of
        Some c \<Rightarrow>
          if length (contents q) < cap then let (ins, outs, q) = run xs (put c q) in (c # ins, outs, q)
          else run xs q
      | None \<Rightarrow>
          if contents q = [] then run xs q
          else let (ins, outs, q') = run xs (snd (get q)) in (ins, fst (get q) # outs, q'))"

lemma run_fifo: "inv q \<Longrightarrow> run xs q = (ins, outs, q') \<Longrightarrow> inv q' \<and> contents q @ ins = outs @ contents q'"
proof (induction xs arbitrary: q ins outs)
  case (Cons x xs)
  show ?case
  proof (cases x)
    case (Some c)
    show ?thesis
    proof (cases "length (contents q) < cap")
      case True
      obtain ins' where r: "run xs (put c q) = (ins', outs, q')" "ins = c # ins'"
        using Cons.prems(2) Some True by (auto split: prod.splits)
      then show ?thesis using Cons.IH [OF put_inv [OF Cons.prems(1) True] r(1)] put_contents [OF Cons.prems(1) True] by simp
    next
      case False
      then show ?thesis using Cons Some by simp
    qed
  next
    case None
    show ?thesis
    proof (cases "contents q = []")
      case True
      then show ?thesis using Cons.IH [OF Cons.prems(1), of ins outs] Cons.prems(2) None by simp
    next
      case False
      obtain outs' where r: "run xs (snd (get q)) = (ins, outs', q')" "outs = fst (get q) # outs'"
        using Cons.prems(2) None False by (auto split: prod.splits)
      show ?thesis using Cons.IH [OF get_inv [OF Cons.prems(1) False] r(1)] r(2)
        by (subst get_contents [OF Cons.prems(1) False]) simp
    qed
  qed
qed auto

end

end
