(* ===== verification/Pipe_Queue.thy ===== *)
theory Pipe_Queue
  imports Demo_Kernel Fifo
begin

text \<open>
  Pipes as byte streams: the ring buffer of \<open>pipe.c\<close> is a bounded queue (\<open>Fifo\<close>), and
  \<open>pipewrite\<close> and \<open>piperead\<close> carry an ordered stream through it, whatever the processes at
  the other end do while they sleep.
\<close>

section \<open>Definitions\<close>

text \<open>The bytes in a pipe, oldest first; the counters may have wrapped around.\<close>

definition pipe_ok :: "pipe \<Rightarrow> bool" where
  "pipe_ok x \<longleftrightarrow> length (p_data x) = 512 \<and> nwrite x - nread x \<le> PIPESIZE"

definition in_pipe :: "pipe \<Rightarrow> u8 list" where
  "in_pipe x = map (\<lambda>i. p_data x ! unat ((nread x + of_nat i) mod PIPESIZE)) [0..<unat (nwrite x - nread x)]"

text \<open>The two ends of a run of the kernel: process \<open>q\<close> works on pipe \<open>p\<close>.\<close>

definition at_pipe :: "u32 \<Rightarrow> nat \<Rightarrow> 'z pipest_scheme \<Rightarrow> bool" where
  "at_pipe p q s \<longleftrightarrow> runs q s \<and> lock_free (L_pipe p) s \<and> lock_free L_ptable s \<and> pipe_ok (pipes s p)"

text \<open>
  The stream through a pipe: the bytes read so far, which \<open>h\<close> finds in the rest of the state,
  followed by the bytes in the pipe.
\<close>

definition stream :: "u32 \<Rightarrow> ('z \<Rightarrow> u8 list) \<Rightarrow> 'z pipest_scheme \<Rightarrow> u8 list" where
  "stream p h s = h (pipest.more s) @ in_pipe (pipes s p)"

text \<open>What the other processes do while the writer sleeps: they may read, and record what they read.\<close>

definition only_reads :: "u32 \<Rightarrow> nat \<Rightarrow> ('z \<Rightarrow> u8 list) \<Rightarrow> ('z pipest_scheme \<Rightarrow> 'z pipest_scheme) \<Rightarrow> bool" where
  "only_reads p q h env \<longleftrightarrow> (\<forall>s. at_pipe p q s \<longrightarrow> (\<exists>t. env (acquired L_ptable s) = acquired L_ptable t \<and>
     at_pipe p q t \<and> eflags_if t = eflags_if s \<and> stream p h t = stream p h s))"

definition hung_up :: "u32 \<Rightarrow> nat \<Rightarrow> 'z pipest_scheme \<Rightarrow> bool" where
  "hung_up p q s \<longleftrightarrow> \<not> readopen (pipes s p) \<or> killed (proc_at s q)"

text \<open>What \<open>pipewrite\<close> waits for, and what becomes of it.\<close>

definition wrote :: "u32 \<Rightarrow> nat \<Rightarrow> ('z \<Rightarrow> u8 list) \<Rightarrow> u8 list \<Rightarrow> 'z pipest_scheme \<Rightarrow> bool \<Rightarrow> 'z pipest_scheme \<Rightarrow> bool" where
  "wrote p q h bytes s ok t \<longleftrightarrow> at_pipe p q t \<and> (\<exists>k\<le>length bytes. stream p h t = stream p h s @ take k bytes \<and>
     (if ok then k = length bytes else length (in_pipe (pipes t p)) = 512 \<and> hung_up p q t))"

definition write_outcome :: "u32 \<Rightarrow> nat \<Rightarrow> ('z \<Rightarrow> u8 list) \<Rightarrow> u8 list \<Rightarrow> 'z pipest_scheme \<Rightarrow>
    ('z pipest_scheme, bool \<times> 'z pipest_scheme) kres \<Rightarrow> bool" where
  "write_outcome p q h bytes s res =
     (case res of
        Inr (ok, u) \<Rightarrow> \<exists>t. u = acquired (L_pipe p) t \<and> wrote p q h bytes s ok t
      | Inl (Sleeping ch u) \<Rightarrow> ch = Ch_nwrite p \<and> (\<exists>t k. u = acquired L_ptable (asleep q ch t) \<and> at_pipe p q t \<and>
          k < length bytes \<and> stream p h t = stream p h s @ take k bytes \<and> length (in_pipe (pipes t p)) = 512 \<and> \<not> hung_up p q t)
      | _ \<Rightarrow> False)"

text \<open>What the other processes do while the reader sleeps: they may write, and record what they write.\<close>

definition written :: "u32 \<Rightarrow> ('z \<Rightarrow> u8 list) \<Rightarrow> u8 list \<Rightarrow> 'z pipest_scheme \<Rightarrow> u8 list \<Rightarrow> 'z pipest_scheme \<Rightarrow> bool" where
  "written p h bytes s new t \<longleftrightarrow> h (pipest.more t) = h (pipest.more s) @ new \<and>
     in_pipe (pipes s p) @ new = bytes @ in_pipe (pipes t p)"

definition only_writes :: "u32 \<Rightarrow> nat \<Rightarrow> ('z \<Rightarrow> u8 list) \<Rightarrow> ('z pipest_scheme \<Rightarrow> 'z pipest_scheme) \<Rightarrow> bool" where
  "only_writes p q h env \<longleftrightarrow> (\<forall>s. at_pipe p q s \<longrightarrow> (\<exists>t. env (acquired L_ptable s) = acquired L_ptable t \<and>
     at_pipe p q t \<and> eflags_if t = eflags_if s \<and> (\<exists>new. written p h [] s new t)))"

definition read_waits :: "u32 \<Rightarrow> 'z pipest_scheme \<Rightarrow> bool" where
  "read_waits p s \<longleftrightarrow> in_pipe (pipes s p) = [] \<and> writeopen (pipes s p)"

definition wait_outcome :: "u32 \<Rightarrow> nat \<Rightarrow> ('z \<Rightarrow> u8 list) \<Rightarrow> 'z pipest_scheme \<Rightarrow>
    ('z pipest_scheme, bool \<times> 'z pipest_scheme) kres \<Rightarrow> bool" where
  "wait_outcome p q h s res =
     (case res of
        Inr (ok, u) \<Rightarrow> \<exists>t new. u = acquired (L_pipe p) t \<and> at_pipe p q t \<and> written p h [] s new t \<and>
          ok = (\<not> read_waits p t) \<and> (\<not> ok \<longrightarrow> killed (proc_at t q))
      | Inl (Sleeping ch u) \<Rightarrow> ch = Ch_nread p \<and> (\<exists>t new. u = acquired L_ptable (asleep q ch t) \<and> at_pipe p q t \<and>
          written p h [] s new t \<and> read_waits p t \<and> \<not> killed (proc_at t q))
      | _ \<Rightarrow> False)"

lemma unat_mod_512: "unat ((r + of_nat i :: u32) mod 512) = (unat r + i) mod 512"
proof -
  have "unat (r + of_nat i :: u32) = (unat r + i) mod 4294967296"
    by (simp add: unat_word_ariths unat_of_nat mod_add_right_eq)
  then show ?thesis by (simp add: unat_mod mod_mod_cancel)
qed

lemma in_pipe_alt: "in_pipe x = map (\<lambda>i. p_data x ! ((unat (nread x) + i) mod 512)) [0..<unat (nwrite x - nread x)]"
  by (simp add: in_pipe_def unat_mod_512)

lemma in_pipe_length [simp]: "length (in_pipe x) = unat (nwrite x - nread x)"
  by (simp add: in_pipe_def)

lemma in_pipe_empty: "in_pipe x = [] \<longleftrightarrow> nread x = nwrite x"
  by (auto simp: in_pipe_def unsigned_eq_0_iff)

lemma pipe_full: "pipe_ok x \<Longrightarrow> nwrite x = nread x + 512 \<longleftrightarrow> length (in_pipe x) = 512"
proof -
  have "nwrite x = nread x + 512 \<longleftrightarrow> nwrite x - nread x = 512" by (auto simp: algebra_simps)
  then show ?thesis by (simp only: in_pipe_length u32_eq_iff [of "nwrite x - nread x"]) simp
qed

lemma pipe_put_ok:
  assumes "pipe_ok x" and "length (in_pipe x) < 512"
  shows "pipe_ok (pipe_put c x)" "in_pipe (pipe_put c x) = in_pipe x @ [c]"
proof -
  let ?n = "unat (nwrite x - nread x)"
  have n: "?n < 512" "length (p_data x) = 512" using assms by (simp_all add: pipe_ok_def)
  have s: "unat (nwrite x + 1 - nread x) = Suc ?n"
    using n(1) unat_u32_add [of "nwrite x - nread x" 1] by (simp add: algebra_simps)
  show "pipe_ok (pipe_put c x)" using assms n s by (simp add: pipe_ok_def pipe_put_def word_le_nat_alt)
  have w: "unat (nwrite x mod 512) = (unat (nread x) + ?n) mod 512" using unat_mod_512 [of "nread x" ?n] by simp
  have o: "(unat (nread x) + ?n) mod 512 \<noteq> (unat (nread x) + i) mod 512" if "i < ?n" for i
  proof
    assume "(unat (nread x) + ?n) mod 512 = (unat (nread x) + i) mod 512"
    then have "512 dvd ?n - i" using mod_eq_dvd_iff_nat [of "unat (nread x) + i" "unat (nread x) + ?n" 512] that by simp
    then show False using that n(1) nat_dvd_not_less [of "?n - i" 512] by simp
  qed
  show "in_pipe (pipe_put c x) = in_pipe x @ [c]"
    using n s o by (simp add: in_pipe_alt pipe_put_def w)
qed

lemma pipe_get_ok:
  assumes "pipe_ok x" and "in_pipe x \<noteq> []"
  shows "pipe_ok (snd (pipe_get x))" "in_pipe x = fst (pipe_get x) # in_pipe (snd (pipe_get x))"
proof -
  let ?n = "unat (nwrite x - nread x)"
  have n: "0 < ?n" "?n \<le> 512" using assms by (auto simp: pipe_ok_def in_pipe_empty word_le_nat_alt unat_gt_0)
  have s: "?n = Suc (unat (nwrite x - (nread x + 1)))"
    using n(1) unat_u32_sub [of "nwrite x - nread x" 1] by (simp add: algebra_simps)
  show "pipe_ok (snd (pipe_get x))" using assms(1) n s by (simp add: pipe_ok_def pipe_get_def word_le_nat_alt)
  have "(unat (nread x + 1) + i) mod 512 = (unat (nread x) + Suc i) mod 512" for i
    using unat_mod_512 [of "nread x + 1" i] unat_mod_512 [of "nread x" "Suc i"] by (simp add: add.assoc)
  then show "in_pipe x = fst (pipe_get x) # in_pipe (snd (pipe_get x))"
    using unat_mod_512 [of "nread x" 0]
    by (simp add: in_pipe_alt pipe_get_def s upt_conv_Cons map_Suc_upt [symmetric] del: upt_Suc)
qed

lemma more_frame [simp]:
  "pipest.more (acquired lk s) = pipest.more s" "pipest.more (upd_proc i f s) = pipest.more s"
  "pipest.more (wakeup1 ch s) = pipest.more s" "pipest.more (upd_pipe p g s) = pipest.more s"
  by (simp_all add: acquired_def pushed_def upd_proc_def wakeup1_def upd_pipe_def)

lemma pipes_frame [simp]:
  "pipes (upd_proc i f s) = pipes s" "pipes (wakeup1 ch s) = pipes s"
  "pipes (upd_pipe p g s) = (pipes s)(p := g (pipes s p))"
  by (simp_all add: upd_proc_def wakeup1_def upd_pipe_def)

lemma upd_pipe_acquired [simp]: "upd_pipe p f (acquired lk s) = acquired lk (upd_pipe p f s)"
  by (simp add: upd_pipe_def)

lemma upd_pipe_calm [simp]:
  "calm (upd_pipe p f s) = calm s" "cur (upd_pipe p f s) = cur s" "lock_free lk (upd_pipe p f s) = lock_free lk s"
  "procs (upd_pipe p f s) = procs s" "eflags_if (upd_pipe p f s) = eflags_if s"
  by (simp_all add: upd_pipe_def)

lemma depth_upd_pipe [simp]: "depth (upd_pipe p f s) = depth s"
  by (rule mach_same_facts, simp add: upd_pipe_def mach_same_def)

lemma runs_frame [simp]: "runs q (wakeup1 ch s) = runs q s" "runs q (upd_pipe p f s) = runs q s"
  by (simp_all add: runs_def depth_same) (simp add: wakeup1_def)

lemma at_pipe_frame [simp]:
  "at_pipe p q (wakeup1 ch s) = at_pipe p q s" "at_pipe p q (upd_proc i f s) = at_pipe p q s"
  "at_pipe p q (asleep i ch' s) = at_pipe p q s"
  by (simp_all add: at_pipe_def asleep_def)

lemma stream_frame [simp]:
  "stream p h (wakeup1 ch s) = stream p h s" "stream p h (upd_proc i f s) = stream p h s"
  "stream p h (asleep i ch' s) = stream p h s"
  by (simp_all add: stream_def asleep_def)

lemma stream_put:
  assumes "at_pipe p q s" and "nwrite (pipes s p) \<noteq> nread (pipes s p) + 512"
  shows "at_pipe p q (upd_pipe p (pipe_put c) s)" "stream p h (upd_pipe p (pipe_put c) s) = stream p h s @ [c]"
proof -
  have ok: "pipe_ok (pipes s p)" using assms(1) by (simp add: at_pipe_def)
  then have "length (in_pipe (pipes s p)) \<noteq> 512" using assms(2) pipe_full by blast
  then have "length (in_pipe (pipes s p)) < 512" using ok by (simp add: pipe_ok_def word_le_nat_alt)
  note pipe_put_ok [OF ok this, of c]
  then show "at_pipe p q (upd_pipe p (pipe_put c) s)" "stream p h (upd_pipe p (pipe_put c) s) = stream p h s @ [c]"
    using assms(1) by (simp_all add: at_pipe_def stream_def)
qed

lemma wrote_step: "stream p h s' = stream p h s @ [c] \<Longrightarrow> wrote p q h cs s' ok t \<Longrightarrow> wrote p q h (c # cs) s ok t"
  unfolding wrote_def by (elim conjE exE, intro conjI, assumption) (rule_tac x = "Suc k" in exI, simp split: if_splits)

lemma write_outcome_step:
  assumes "stream p h s' = stream p h s @ [c]" and "write_outcome p q h cs s' r"
  shows "write_outcome p q h (c # cs) s r"
  using assms(2) wrote_step [OF assms(1)] assms(1) unfolding write_outcome_def
  by (auto split: sum.splits kerr.splits) (metis Suc_less_eq append.assoc append_Cons append_Nil take_Suc_Cons)

lemma write_outcome_same:
  assumes "stream p h s' = stream p h s" and "write_outcome p q h cs s' r"
  shows "write_outcome p q h cs s r"
  using assms(2) unfolding write_outcome_def wrote_def assms(1) .

lemma sleep_at_pipe:
  assumes "at_pipe p q s"
  shows "sleep_enter ch (L_pipe p) (acquired (L_pipe p) s) = Inr ((q, eflags_if s), acquired L_ptable (asleep q ch s))"
    and "only_reads p q h env \<Longrightarrow> \<exists>t. sleep_leave q (eflags_if s) (L_pipe p) (env (acquired L_ptable (asleep q ch s))) =
      Inr (acquired (L_pipe p) t) \<and> at_pipe p q t \<and> stream p h t = stream p h s"
proof -
  have run: "runs q s" "lock_free (L_pipe p) s" "lock_free L_ptable s" using assms by (simp_all add: at_pipe_def)
  note r = runsD [OF run(1)]
  show "sleep_enter ch (L_pipe p) (acquired (L_pipe p) s) = Inr ((q, eflags_if s), acquired L_ptable (asleep q ch s))"
    using sleep_enter_acquired [OF r(1-3)] r(4,5) run(2,3) by simp
  have fl: "eflags_if (asleep q ch s) = eflags_if s" by (simp add: asleep_def upd_proc_def)
  assume "only_reads p q h env"
  then obtain t where t: "env (acquired L_ptable (asleep q ch s)) = acquired L_ptable t" "at_pipe p q t"
    "eflags_if t = eflags_if s" "stream p h t = stream p h s"
    using assms fl unfolding only_reads_def by (metis at_pipe_frame(3) stream_frame(3))
  have "calm t" "depth t = 0" "lock_free (L_pipe p) t" "lock_free L_ptable t" using t(2) by (auto simp: at_pipe_def dest: runsD)
  note sleep_leave_acquired [OF this, of q]
  then show "\<exists>t. sleep_leave q (eflags_if s) (L_pipe p) (env (acquired L_ptable (asleep q ch s))) =
      Inr (acquired (L_pipe p) t) \<and> at_pipe p q t \<and> stream p h t = stream p h s"
    using t by (intro exI [of _ "upd_proc q (\<lambda>q. q\<lparr>p_chan := None\<rparr>) t"]) simp
qed

lemma pipewrite_loop_stream:
  assumes "at_pipe p q s" and "\<forall>env\<in>set envs. only_reads p q h env"
  shows "write_outcome p q h bytes s (pipewrite_loop p bytes envs (acquired (L_pipe p) s))"
  using assms
proof (induction "length bytes + length envs" arbitrary: bytes envs s rule: less_induct)
  case less
  have run: "runs q s" "lock_free (L_pipe p) s" "lock_free L_ptable s" and ok: "pipe_ok (pipes s p)"
    using less.prems(1) by (simp_all add: at_pipe_def)
  note r = runsD [OF run(1)] and un = pipewrite_loop.simps [of p bytes envs "acquired (L_pipe p) s"]
  show ?case
  proof (cases bytes)
    case Nil
    then show ?thesis using less.prems(1) un by (auto simp: write_outcome_def wrote_def)
  next
    case b: (Cons c cs)
    show ?thesis
    proof (cases "nwrite (pipes s p) = nread (pipes s p) + 512")
      case False
      note p = stream_put [OF less.prems(1) False, where c = c]
      have "write_outcome p q h cs (upd_pipe p (pipe_put c) s) (pipewrite_loop p cs envs (acquired (L_pipe p) (upd_pipe p (pipe_put c) s)))"
        using less.hyps [of cs envs "upd_pipe p (pipe_put c) s"] p(1) less.prems(2) b by simp
      then show ?thesis using write_outcome_step [OF p(2)] un b False by simp
    next
      case True
      then have full: "length (in_pipe (pipes s p)) = 512" using pipe_full [OF ok] by simp
      show ?thesis
      proof (cases "hung_up p q s")
        case h: True
        then have "pipewrite_loop p bytes envs (acquired (L_pipe p) s) = Inr (False, acquired (L_pipe p) s)"
          using un b True r(1,3) run by (auto simp: hung_up_def)
        moreover have "wrote p q h bytes s False s" using less.prems(1) full h by (auto simp: wrote_def intro!: exI [of _ 0])
        ultimately show ?thesis by (auto simp: write_outcome_def)
      next
        case h: False
        let ?w = "wakeup1 (Some (Ch_nread p)) s"
        have w: "at_pipe p q ?w" "stream p h ?w = stream p h s" "eflags_if ?w = eflags_if s" "\<not> hung_up p q ?w"
          using less.prems(1) h r(4,5) by (simp_all add: hung_up_def wakeup1_proc_at)
        have l: "pipewrite_loop p bytes envs (acquired (L_pipe p) s) =
            (case envs of [] \<Rightarrow> Inl (Sleeping (Ch_nwrite p) (acquired L_ptable (asleep q (Ch_nwrite p) ?w)))
             | env # envs \<Rightarrow> bindR (sleep_leave q (eflags_if ?w) (L_pipe p) (env (acquired L_ptable (asleep q (Ch_nwrite p) ?w))))
                 (\<lambda>s. pipewrite_loop p bytes envs s))"
          using un b True r(1,3) run h sleep_at_pipe(1) [OF w(1), of "Ch_nwrite p"] by (cases envs) (auto simp: hung_up_def)
        show ?thesis
        proof (cases envs)
          case Nil
          have "0 < length bytes" "stream p h ?w = stream p h s @ take 0 bytes" using b w(2) by simp_all
          then show ?thesis using l Nil w(1,4) full unfolding write_outcome_def by auto
        next
          case (Cons env envs')
          obtain t where t: "sleep_leave q (eflags_if ?w) (L_pipe p) (env (acquired L_ptable (asleep q (Ch_nwrite p) ?w))) =
              Inr (acquired (L_pipe p) t)" "at_pipe p q t" "stream p h t = stream p h ?w"
            using sleep_at_pipe(2) [OF w(1), of h env "Ch_nwrite p"] less.prems(2) Cons by (metis list.set_intros(1))
          have "write_outcome p q h bytes t (pipewrite_loop p bytes envs' (acquired (L_pipe p) t))"
            using less.hyps [of bytes envs' t] t(2) less.prems(2) Cons by simp
          then show ?thesis using l Cons t(1) write_outcome_same [of p h t s] t(3) w(2) by simp
        qed
      qed
    qed
  qed
qed

lemma pipe_get_flags [simp]: "writeopen (snd (pipe_get x)) = writeopen x" "readopen (snd (pipe_get x)) = readopen x"
  by (simp_all add: pipe_get_def)

lemma piperead_copy_take:
  "pipe_ok x \<Longrightarrow> piperead_copy n x = (bs, y) \<Longrightarrow>
   bs = take n (in_pipe x) \<and> pipe_ok y \<and> in_pipe y = drop n (in_pipe x) \<and> writeopen y = writeopen x \<and> readopen y = readopen x"
proof (induction n arbitrary: x bs)
  case (Suc n)
  show ?case
  proof (cases "in_pipe x = []")
    case True
    then have "nread x = nwrite x" by (simp add: in_pipe_empty)
    then show ?thesis using Suc.prems True by auto
  next
    case False
    note g = pipe_get_ok [OF Suc.prems(1) False]
    obtain cs where c: "piperead_copy n (snd (pipe_get x)) = (cs, y)" "bs = fst (pipe_get x) # cs"
      using Suc.prems(2) False by (auto simp: in_pipe_empty [symmetric] Let_def split: prod.splits)
    have "nread x \<noteq> nwrite x" using False by (simp add: in_pipe_empty)
    then show ?thesis using Suc.IH [OF g(1) c(1)] c(2) by (subst (1 2) g(2)) simp
  qed
qed auto

lemma written_refl: "written p h [] s [] s"
  by (simp add: written_def)

lemma written_trans: "written p h [] s new t \<Longrightarrow> written p h bs t new' u \<Longrightarrow> written p h bs s (new @ new') u"
  by (simp add: written_def) (metis append.assoc)

lemma written_frame [simp]:
  "written p h bs (asleep i ch s) new t = written p h bs s new t"
  "written p h bs s new (upd_proc i f t) = written p h bs s new t"
  by (simp_all add: written_def asleep_def)

lemma wait_outcome_trans:
  assumes "written p h [] s new t" and "wait_outcome p q h t r"
  shows "wait_outcome p q h s r"
  using assms(2) written_trans [OF assms(1)] unfolding wait_outcome_def
  by (auto split: sum.splits kerr.splits) blast+

lemma sleep_read:
  assumes "at_pipe p q s" and "only_writes p q h env"
  shows "\<exists>t new. sleep_leave q (eflags_if s) (L_pipe p) (env (acquired L_ptable (asleep q ch s))) =
      Inr (acquired (L_pipe p) t) \<and> at_pipe p q t \<and> written p h [] s new t"
proof -
  have "at_pipe p q (asleep q ch s)" "eflags_if (asleep q ch s) = eflags_if s"
    using assms(1) by (simp_all add: asleep_def upd_proc_def at_pipe_frame(2) [unfolded upd_proc_def])
  then obtain t new where t: "env (acquired L_ptable (asleep q ch s)) = acquired L_ptable t" "at_pipe p q t"
    "eflags_if t = eflags_if s" "written p h [] s new t"
    using assms(2) unfolding only_writes_def by (metis written_frame(1))
  have "calm t" "depth t = 0" "lock_free (L_pipe p) t" "lock_free L_ptable t" using t(2) by (auto simp: at_pipe_def dest: runsD)
  note sleep_leave_acquired [OF this, of q]
  then show ?thesis using t by (intro exI [of _ "upd_proc q (\<lambda>q. q\<lparr>p_chan := None\<rparr>) t"] exI [of _ new]) simp
qed

lemma piperead_wait_outcome:
  assumes "at_pipe p q s" and "\<forall>env\<in>set envs. only_writes p q h env"
  shows "wait_outcome p q h s (piperead_wait p envs (acquired (L_pipe p) s))"
  using assms
proof (induction envs arbitrary: s)
  case (Nil s)
  have run: "runs q s" using Nil(1) by (simp add: at_pipe_def)
  show ?case using Nil(1) runsD [OF run] written_refl [of p h s] sleep_at_pipe(1) [OF Nil(1), of "Ch_nread p"]
    by (subst piperead_wait.simps) (auto simp: wait_outcome_def read_waits_def in_pipe_empty)
next
  case (Cons env envs s)
  have run: "runs q s" using Cons(2) by (simp add: at_pipe_def)
  show ?case
  proof (cases "read_waits p s \<and> \<not> killed (proc_at s q)")
    case False
    then show ?thesis using Cons(2) runsD [OF run] written_refl [of p h s]
      by (subst piperead_wait.simps) (auto simp: wait_outcome_def read_waits_def in_pipe_empty)
  next
    case True
    obtain t new where t: "sleep_leave q (eflags_if s) (L_pipe p) (env (acquired L_ptable (asleep q (Ch_nread p) s))) =
        Inr (acquired (L_pipe p) t)" "at_pipe p q t" "written p h [] s new t"
      using sleep_read [OF Cons(2), of h env "Ch_nread p"] Cons(3) by (metis list.set_intros(1))
    have "piperead_wait p (env # envs) (acquired (L_pipe p) s) = piperead_wait p envs (acquired (L_pipe p) t)"
      using True runsD [OF run] sleep_at_pipe(1) [OF Cons(2), of "Ch_nread p"] t(1)
      by (subst piperead_wait.simps) (simp add: read_waits_def in_pipe_empty)
    then show ?thesis using wait_outcome_trans [OF t(3)] Cons(1) [OF t(2)] Cons(3) by simp
  qed
qed

lemma demo_at_pipe: "at_pipe p 1 (demo_kernel x)"
  using demo_kernel_runs(1) [of x] demo_kernel_runs(2) [where x = x]
  by (simp add: at_pipe_def pipe_ok_def) (simp add: demo_pipe_def)

lemma idle_env: "only_reads p q h (\<lambda>s. s)" "only_writes p q h (\<lambda>s. s)"
  using written_refl unfolding only_reads_def only_writes_def by blast+

interpretation pipe_q: fifo pipe_ok in_pipe pipe_put pipe_get 512
proof unfold_locales
  show "length (in_pipe x) \<le> 512" if "pipe_ok x" for x using that by (simp add: pipe_ok_def word_le_nat_alt)
qed (fact pipe_put_ok pipe_get_ok)+

lemma pipewrite_outcome:
  assumes "at_pipe p q s" and "\<forall>env\<in>set envs. only_reads p q h env"
  shows "(\<exists>ok t. pipewrite p bytes envs s = Inr (if ok then int (length bytes) else -1, t) \<and> wrote p q h bytes s ok t) \<or>
    (\<exists>u. pipewrite p bytes envs s = Inl (Sleeping (Ch_nwrite p) u) \<and> write_outcome p q h bytes s (Inl (Sleeping (Ch_nwrite p) u)))"
proof -
  have run: "runs q s" "lock_free (L_pipe p) s" "lock_free L_ptable s" using assms(1) by (simp_all add: at_pipe_def)
  have st: "pipewrite p bytes envs s = bindR (pipewrite_loop p bytes envs (acquired (L_pipe p) s)) (\<lambda>(ok, s).
      if \<not> ok then bindR (release (L_pipe p) s) (\<lambda>s. Inr (-1, s))
      else bindR (wakeup (Ch_nread p) s) (\<lambda>s. bindR (release (L_pipe p) s) (\<lambda>s. Inr (int (length bytes), s))))"
    using run runsD [OF run(1)] by (simp add: pipewrite_def)
  have wo: "write_outcome p q h bytes s (pipewrite_loop p bytes envs (acquired (L_pipe p) s))"
    by (rule pipewrite_loop_stream [OF assms])
  show ?thesis
  proof (cases "pipewrite_loop p bytes envs (acquired (L_pipe p) s)")
    case (Inl e)
    then show ?thesis using wo st by (auto simp: write_outcome_def split: kerr.splits)
  next
    case (Inr r)
    then obtain ok t where t: "r = (ok, acquired (L_pipe p) t)" "wrote p q h bytes s ok t"
      using wo by (cases r) (auto simp: write_outcome_def)
    have c: "calm t" "lock_free (L_pipe p) t" "lock_free L_ptable t"
      using t(2) by (auto simp: wrote_def at_pipe_def dest: runsD)
    have "wrote p q h bytes s True (wakeup1 (Some (Ch_nread p)) t)" if ok using t(2) that by (simp add: wrote_def)
    moreover have "pipewrite p bytes envs s = (if ok then Inr (int (length bytes), wakeup1 (Some (Ch_nread p)) t) else Inr (-1, t))"
      using st Inr t(1) c by simp
    ultimately show ?thesis
      using t(2) by (intro disjI1 exI [of _ ok] exI [of _ "if ok then wakeup1 (Some (Ch_nread p)) t else t"]) (cases ok, simp_all)
  qed
qed

section \<open>Properties\<close>

text \<open>
  C27: a pipe is a first-in first-out queue of at most 512 bytes. In every run of
  \<open>pipe_put\<close> (when there is room) and \<open>pipe_get\<close> (when there is a byte), from any state
  of the counters, wrapped around or not, the bytes that were in the pipe followed by those put in are
  the bytes taken out followed by those still there.
\<close>

theorem pipe_refines_queue:
  assumes "pipe_ok x" and "fifo.run in_pipe pipe_put pipe_get 512 ops x = (ins, outs, y)"
  shows "pipe_ok y \<and> length (in_pipe y) \<le> 512 \<and> in_pipe x @ ins = outs @ in_pipe y"
  using pipe_q.run_fifo [OF assms] pipe_q.bounded [of y] by simp

theorem pipe_refines_queue_witness:
  "let y = snd (pipe_get (pipe_put 9 (pipe_put 8 (pipe_put 7 demo_pipe))))
   in pipe_ok y \<and> length (in_pipe y) \<le> 512 \<and> in_pipe demo_pipe @ [7, 8, 9] = [7] @ in_pipe y"
proof -
  have ok: "pipe_ok demo_pipe" "in_pipe demo_pipe = []" by (simp_all add: pipe_ok_def demo_pipe_def in_pipe_empty)
  have 1: "pipe_ok (pipe_put 7 demo_pipe)" "in_pipe (pipe_put 7 demo_pipe) = [7]" using pipe_put_ok [OF ok(1), of 7] ok(2) by auto
  have 2: "pipe_ok (pipe_put 8 (pipe_put 7 demo_pipe))" "in_pipe (pipe_put 8 (pipe_put 7 demo_pipe)) = [7, 8]"
    using pipe_put_ok [OF 1(1), of 8] 1(2) by auto
  have 3: "pipe_ok (pipe_put 9 (pipe_put 8 (pipe_put 7 demo_pipe)))" "in_pipe (pipe_put 9 (pipe_put 8 (pipe_put 7 demo_pipe))) = [7, 8, 9]"
    using pipe_put_ok [OF 2(1), of 9] 2(2) by auto
  have "fst (pipe_get (pipe_put 9 (pipe_put 8 (pipe_put 7 demo_pipe)))) = 7" using pipe_get_ok [OF 3(1)] 3(2) by simp
  then show ?thesis
    using pipe_refines_queue [OF ok(1), of "[Some 7, Some 8, Some 9, None]"] ok 1 2 3 by (simp add: Let_def)
qed

text \<open>
  C28: writing into a pipe. Process \<open>q\<close> writes \<open>bytes\<close> while, whenever it sleeps, other
  processes do nothing to the pipe but read from it (\<open>h\<close> gives the bytes they have read).
  Then \<open>pipewrite\<close> does not fail; if it returns the number of bytes, exactly \<open>bytes\<close> have been
  appended to the stream; if it returns -1, some of them have, the pipe is full, and no reader is left
  or the writer was killed; otherwise it is asleep on the full pipe, with its lock free.
\<close>

theorem pipewrite_appends:
  assumes "at_pipe p q s" and "\<forall>env\<in>set envs. only_reads p q h env"
  shows "case pipewrite p bytes envs s of
      Inr (r, t) \<Rightarrow> at_pipe p q t \<and>
        (r = int (length bytes) \<and> stream p h t = stream p h s @ bytes \<or>
         r = -1 \<and> (\<exists>k\<le>length bytes. stream p h t = stream p h s @ take k bytes) \<and>
           length (in_pipe (pipes t p)) = 512 \<and> hung_up p q t)
    | Inl e \<Rightarrow> \<exists>t k. e = Sleeping (Ch_nwrite p) (acquired L_ptable (asleep q (Ch_nwrite p) t)) \<and> at_pipe p q t \<and>
        k < length bytes \<and> stream p h t = stream p h s @ take k bytes \<and>
        length (in_pipe (pipes t p)) = 512 \<and> \<not> hung_up p q t"
  using pipewrite_outcome [OF assms, of bytes]
  by (elim disjE exE conjE) (auto simp: wrote_def write_outcome_def split: if_splits)

theorem pipewrite_appends_witness:
  "case pipewrite 0x80500000 [7, 8] [\<lambda>s. s] (demo_kernel []) of
      Inr (r, t) \<Rightarrow> at_pipe 0x80500000 1 t \<and>
        (r = int (length [7 :: u8, 8]) \<and> stream 0x80500000 id t = stream 0x80500000 id (demo_kernel []) @ [7, 8] \<or>
         r = -1 \<and> (\<exists>k\<le>length [7 :: u8, 8]. stream 0x80500000 id t = stream 0x80500000 id (demo_kernel []) @ take k [7, 8]) \<and>
           length (in_pipe (pipes t 0x80500000)) = 512 \<and> hung_up 0x80500000 1 t)
    | Inl e \<Rightarrow> \<exists>t k. e = Sleeping (Ch_nwrite 0x80500000) (acquired L_ptable (asleep 1 (Ch_nwrite 0x80500000) t)) \<and>
        at_pipe 0x80500000 1 t \<and> k < length [7 :: u8, 8] \<and>
        stream 0x80500000 id t = stream 0x80500000 id (demo_kernel []) @ take k [7, 8] \<and>
        length (in_pipe (pipes t 0x80500000)) = 512 \<and> \<not> hung_up 0x80500000 1 t"
  by (rule pipewrite_appends [OF demo_at_pipe]) (simp add: idle_env)

text \<open>
  C29: reading from a pipe. Process \<open>q\<close> asks for \<open>n\<close> bytes while, whenever it sleeps, other
  processes do nothing to the pipe but write to it or close it (\<open>h\<close> gives what they have
  written). If \<open>piperead\<close> returns bytes, they and those left in the pipe are those that were in
  the pipe followed by those written since; they are as many as possible up to \<open>n\<close>; and none at
  all means that the last writer is gone (for positive \<open>n\<close>). It returns -1 only if the reader was
  killed, and sleeps only on an empty pipe that has a writer.
\<close>

theorem piperead_delivers:
  assumes "at_pipe p q s" and "\<forall>env\<in>set envs. only_writes p q h env"
  shows "case piperead p n envs s of
      Inr ((r, bytes), t) \<Rightarrow> at_pipe p q t \<and> (\<exists>new. written p h bytes s new t) \<and>
        (r = int (length bytes) \<and> length bytes \<le> nat n \<and> (length bytes < nat n \<longrightarrow> in_pipe (pipes t p) = []) \<and>
           (bytes = [] \<and> 0 < n \<longrightarrow> \<not> writeopen (pipes t p)) \<or>
         r = -1 \<and> bytes = [] \<and> killed (proc_at t q))
    | Inl e \<Rightarrow> \<exists>t. e = Sleeping (Ch_nread p) (acquired L_ptable (asleep q (Ch_nread p) t)) \<and> at_pipe p q t \<and>
        in_pipe (pipes t p) = [] \<and> writeopen (pipes t p) \<and> \<not> killed (proc_at t q)"
proof -
  have run: "runs q s" "lock_free (L_pipe p) s" "lock_free L_ptable s" using assms(1) by (simp_all add: at_pipe_def)
  have st: "piperead p n envs s = bindR (piperead_wait p envs (acquired (L_pipe p) s)) (\<lambda>(ok, s).
     if \<not> ok then bindR (release (L_pipe p) s) (\<lambda>s. Inr ((-1, []), s))
     else
       let (bytes, x) = piperead_copy (nat n) (pipes s p);
           s = upd_pipe p (\<lambda>_. x) s
       in bindR (wakeup (Ch_nwrite p) s) (\<lambda>s. bindR (release (L_pipe p) s) (\<lambda>s. Inr ((int (length bytes), bytes), s))))"
    using run runsD [OF run(1)] by (simp add: piperead_def)
  have wo: "wait_outcome p q h s (piperead_wait p envs (acquired (L_pipe p) s))"
    by (rule piperead_wait_outcome [OF assms])
  show ?thesis
  proof (cases "piperead_wait p envs (acquired (L_pipe p) s)")
    case (Inl e)
    then show ?thesis using wo st by (auto simp: wait_outcome_def read_waits_def split: kerr.splits)
  next
    case (Inr x)
    then obtain ok t new where t: "x = (ok, acquired (L_pipe p) t)" "at_pipe p q t" "written p h [] s new t"
        "ok = (\<not> read_waits p t)" "\<not> ok \<longrightarrow> killed (proc_at t q)"
      using wo by (cases x) (auto simp: wait_outcome_def)
    have c: "calm t" "lock_free (L_pipe p) t" "lock_free L_ptable t" "pipe_ok (pipes t p)"
      using t(2) by (auto simp: at_pipe_def dest: runsD)
    show ?thesis
    proof (cases ok)
      case False
      then show ?thesis using st Inr t c by auto
    next
      case True
      obtain bs y where y: "piperead_copy (nat n) (pipes t p) = (bs, y)" by fastforce
      note cp = piperead_copy_take [OF c(4) y]
      let ?u = "wakeup1 (Some (Ch_nwrite p)) (upd_pipe p (\<lambda>_. y) t)"
      have "at_pipe p q ?u" using t(2) cp by (simp add: at_pipe_def)
      moreover have "written p h bs s new ?u" using t(3) cp by (simp add: written_def)
      moreover have "piperead p n envs s = Inr ((int (length bs), bs), ?u)" using st Inr t(1) True c y by simp
      moreover have "\<not> writeopen y" if "bs = []" "0 < n" using t(4) True cp that by (auto simp: read_waits_def)
      ultimately show ?thesis using cp by auto
    qed
  qed
qed

theorem piperead_delivers_witness:
  "case piperead 0x80500000 10 [\<lambda>s. s] (demo_kernel []) of
      Inr ((r, bytes), t) \<Rightarrow> at_pipe 0x80500000 1 t \<and> (\<exists>new. written 0x80500000 id bytes (demo_kernel []) new t) \<and>
        (r = int (length bytes) \<and> length bytes \<le> nat 10 \<and>
           (length bytes < nat 10 \<longrightarrow> in_pipe (pipes t 0x80500000) = []) \<and>
           (bytes = [] \<and> 0 < (10 :: int) \<longrightarrow> \<not> writeopen (pipes t 0x80500000)) \<or>
         r = -1 \<and> bytes = [] \<and> killed (proc_at t 1))
    | Inl e \<Rightarrow> \<exists>t. e = Sleeping (Ch_nread 0x80500000) (acquired L_ptable (asleep 1 (Ch_nread 0x80500000) t)) \<and>
        at_pipe 0x80500000 1 t \<and> in_pipe (pipes t 0x80500000) = [] \<and> writeopen (pipes t 0x80500000) \<and>
        \<not> killed (proc_at t 1)"
  by (rule piperead_delivers [OF demo_at_pipe]) (simp add: idle_env)

end
