(* ===== verification/Bio_Cache.thy ===== *)
theory Bio_Cache
  imports Demo_Kernel
begin

unbundle bit_operations_syntax

text \<open>
  The buffer cache as its users see it: the circular list in order of use, the one buffer of a
  block, and what reading, writing and releasing a block do to the contents of the disk and of the
  cache (\<open>view\<close>), for a process that works alone on the cache.
\<close>

section \<open>Definitions\<close>

text \<open>
  The buffers of \<open>xs\<close> are linked one after the other, the first after \<open>a\<close> and \<open>z\<close>
  after the last, in both directions.
\<close>

fun seg :: "buf list \<Rightarrow> nat \<Rightarrow> nat list \<Rightarrow> nat \<Rightarrow> bool" where
  "seg bs a [] z \<longleftrightarrow> b_next (bs ! a) = z \<and> b_prev (bs ! z) = a"
| "seg bs a (x # xs) z \<longleftrightarrow> b_next (bs ! a) = x \<and> b_prev (bs ! x) = a \<and> seg bs x xs z"

text \<open>The circular list of the cache: the buffers in the order of \<open>xs\<close>, most recently used first.\<close>

definition ring :: "buf list \<Rightarrow> nat list \<Rightarrow> bool" where
  "ring bs xs \<longleftrightarrow> length bs = Suc NBUF \<and> distinct xs \<and> set xs = {..<NBUF} \<and> seg bs NBUF xs NBUF"

text \<open>What relinking leaves of a buffer.\<close>

definition core :: "buf \<Rightarrow> buf" where
  "core x = x\<lparr>b_next := 0, b_prev := 0\<rparr>"

definition valid_buf :: "buf \<Rightarrow> bool" where
  "valid_buf x \<longleftrightarrow> b_flags x AND B_VALID \<noteq> 0"

definition dirty_buf :: "buf \<Rightarrow> bool" where
  "dirty_buf x \<longleftrightarrow> b_flags x AND B_DIRTY \<noteq> 0"

definition own :: "nat \<Rightarrow> 'z ptab_scheme \<Rightarrow> sleeplock" where
  "own q s = \<lparr>sl_locked = True, sl_pid = pid (proc_at s q)\<rparr>"

text \<open>
  Process \<open>q\<close> works alone on the cache and holds the buffers of \<open>H\<close>; every cached block
  is in one buffer, and a clean buffer that is not held has the contents of its block.
\<close>

definition buf_ok :: "nat \<Rightarrow> nat set \<Rightarrow> 'z bio_scheme \<Rightarrow> nat \<Rightarrow> bool" where
  "buf_ok q H s b \<longleftrightarrow>
     (let x = buf_at s b; l = slocks s (L_buf b)
      in (if b \<in> H then l = own q s \<and> valid_buf x \<and> b_refcnt x = 1 else \<not> sl_locked l \<and> b_refcnt x = 0) \<and>
         length (b_data x) = BSIZE \<and> (b_dev x = 1 \<longleftrightarrow> valid_buf x) \<and> (dirty_buf x \<longrightarrow> valid_buf x) \<and>
         (valid_buf x \<longrightarrow> \<not> dirty_buf x \<longrightarrow> b \<notin> H \<longrightarrow> b_data x = memdisk s (b_blockno x)))"

definition one_buf :: "'z bio_scheme \<Rightarrow> bool" where
  "one_buf s \<longleftrightarrow> (\<forall>b<NBUF. \<forall>c<NBUF. valid_buf (buf_at s b) \<longrightarrow> valid_buf (buf_at s c) \<longrightarrow>
     b_blockno (buf_at s b) = b_blockno (buf_at s c) \<longrightarrow> b = c)"

definition cache_inv :: "nat \<Rightarrow> nat set \<Rightarrow> 'z bio_scheme \<Rightarrow> bool" where
  "cache_inv q H s \<longleftrightarrow> runs q s \<and> (\<forall>lk. lock_free lk s) \<and> (\<exists>xs. ring (bufs s) xs) \<and> H \<subseteq> {..<NBUF} \<and>
     (\<forall>b<NBUF. buf_ok q H s b) \<and> one_buf s \<and> (\<forall>n. length (memdisk s n) = BSIZE)"

text \<open>The contents of block \<open>n\<close> as a reader of the cache sees it.\<close>

definition holds_block :: "'z bio_scheme \<Rightarrow> u32 \<Rightarrow> nat \<Rightarrow> bool" where
  "holds_block s n b \<longleftrightarrow> b < NBUF \<and> valid_buf (buf_at s b) \<and> b_blockno (buf_at s b) = n"

definition view :: "'z bio_scheme \<Rightarrow> u32 \<Rightarrow> u8 list" where
  "view s n = (case find (holds_block s n) [0..<NBUF] of Some b \<Rightarrow> b_data (buf_at s b) | None \<Rightarrow> memdisk s n)"

text \<open>The blocks that are dirty in the cache, and so pinned there.\<close>

definition pinned :: "'z bio_scheme \<Rightarrow> nat set" where
  "pinned s = {b. b < NBUF \<and> dirty_buf (buf_at s b)}"

text \<open>What the operations of the cache leave alone.\<close>

definition bio_frame :: "'z bio_scheme \<Rightarrow> 'z bio_scheme \<Rightarrow> bool" where
  "bio_frame s t \<longleftrightarrow> t = s\<lparr>procs := procs t, slocks := slocks t, bufs := bufs t, memdisk := memdisk t, diskw := diskw t\<rparr> \<and>
     map pid (procs t) = map pid (procs s) \<and> (\<forall>i. slocks t (L_inode i) = slocks s (L_inode i))"

text \<open>The buffer \<open>bget\<close> takes for a block, in terms of the order \<open>xs\<close>: the one that has it, or else the last that is free.\<close>

definition cached_in :: "'z bio_scheme \<Rightarrow> u32 \<Rightarrow> nat list \<Rightarrow> nat option" where
  "cached_in s n xs = find (\<lambda>b. b_dev (buf_at s b) = 1 \<and> b_blockno (buf_at s b) = n) xs"

definition least_used :: "'z bio_scheme \<Rightarrow> nat list \<Rightarrow> nat option" where
  "least_used s xs = find (\<lambda>b. b_refcnt (buf_at s b) = 0 \<and> b_flags (buf_at s b) AND B_DIRTY = 0) (rev xs)"

text \<open>Reading, writing and releasing, as the layers above use them.\<close>

text \<open>The block numbers that are dirty in the cache.\<close>

definition dirty_blocks :: "'z bio_scheme \<Rightarrow> u32 set" where
  "dirty_blocks s = {n. \<exists>c. holds_block s n c \<and> dirty_buf (buf_at s c)}"

definition block_read :: "nat \<Rightarrow> nat set \<Rightarrow> u32 \<Rightarrow> 'z bio_scheme \<Rightarrow> nat \<Rightarrow> 'z bio_scheme \<Rightarrow> bool" where
  "block_read q H n s b t \<longleftrightarrow> b < NBUF \<and> b \<notin> H \<and> cache_inv q (insert b H) t \<and> holds_block t n b \<and>
     b_data (buf_at t b) = view s n \<and> (\<forall>m. view t m = view s m) \<and> memdisk t = memdisk s \<and> diskw t = diskw s \<and>
     pinned t = pinned s \<and> (\<forall>c\<in>H. buf_at t c = buf_at s c) \<and>
     (dirty_buf (buf_at t b) \<or> b_data (buf_at t b) = memdisk t n) \<and> dirty_blocks t = dirty_blocks s \<and> bio_frame s t"

text \<open>Writing a held buffer to the disk.\<close>

definition block_written :: "nat \<Rightarrow> nat set \<Rightarrow> u32 \<Rightarrow> 'z bio_scheme \<Rightarrow> nat \<Rightarrow> 'z bio_scheme \<Rightarrow> bool" where
  "block_written q H n s b t \<longleftrightarrow> cache_inv q H t \<and> (\<forall>m. view t m = view s m) \<and>
     memdisk t = (memdisk s)(n := b_data (buf_at s b)) \<and> diskw t = diskw s @ [(n, b_data (buf_at s b))] \<and>
     pinned t = pinned s - {b} \<and> (\<forall>c. b_data (buf_at t c) = b_data (buf_at s c) \<and> (\<forall>m. holds_block t m c = holds_block s m c)) \<and>
     \<not> dirty_buf (buf_at t b) \<and> (\<forall>c. c \<noteq> b \<longrightarrow> buf_at t c = buf_at s c) \<and> bio_frame s t"

text \<open>Releasing a buffer whose data are on the disk, or that is dirty and stays in the cache.\<close>

definition block_released :: "nat \<Rightarrow> nat set \<Rightarrow> 'z bio_scheme \<Rightarrow> nat \<Rightarrow> 'z bio_scheme \<Rightarrow> bool" where
  "block_released q H s b t \<longleftrightarrow> cache_inv q (H - {b}) t \<and> (\<forall>m. view t m = view s m) \<and> memdisk t = memdisk s \<and>
     diskw t = diskw s \<and> pinned t = pinned s \<and>
     (\<forall>c\<le>NBUF. b_data (buf_at t c) = b_data (buf_at s c) \<and> b_flags (buf_at t c) = b_flags (buf_at s c) \<and>
        (\<forall>m. holds_block t m c = holds_block s m c)) \<and> bio_frame s t"

text \<open>A disk, or a view of it, after a sequence of block writes.\<close>

definition play :: "(u32 \<times> u8 list) list \<Rightarrow> (u32 \<Rightarrow> u8 list) \<Rightarrow> u32 \<Rightarrow> u8 list" where
  "play ws D = foldl (\<lambda>D w. D(fst w := snd w)) D ws"

text \<open>The cache has written the blocks of \<open>ws\<close> through to the disk, and done nothing else.\<close>

definition wrote_blocks :: "nat \<Rightarrow> (u32 \<times> u8 list) list \<Rightarrow> 'z bio_scheme \<Rightarrow> 'z bio_scheme \<Rightarrow> bool" where
  "wrote_blocks q ws s t \<longleftrightarrow> cache_inv q {} t \<and> memdisk t = play ws (memdisk s) \<and> diskw t = diskw s @ ws \<and>
     view t = play ws (view s) \<and> dirty_blocks t = dirty_blocks s - fst ` set ws \<and> bio_frame s t"

text \<open>A machine before \<open>binit\<close>: the cache is all zero, as the loader leaves it.\<close>

definition blank_cache :: "nat \<Rightarrow> 'z bio_scheme \<Rightarrow> bool" where
  "blank_cache q s \<longleftrightarrow> runs q s \<and> (\<forall>lk. lock_free lk s) \<and> length (bufs s) = Suc NBUF \<and>
     (\<forall>b<NBUF. b_flags (buf_at s b) = 0 \<and> b_dev (buf_at s b) = 0 \<and> b_refcnt (buf_at s b) = 0 \<and> length (b_data (buf_at s b)) = BSIZE) \<and>
     (\<forall>n. length (memdisk s n) = BSIZE)"

lemma seg_append: "seg bs a (xs @ y # ys) z \<longleftrightarrow> seg bs a xs y \<and> seg bs y ys z"
  by (induction xs arbitrary: a) auto

lemma seg_ends: "seg bs a xs z \<Longrightarrow> b_next (bs ! a) = hd (xs @ [z])" "seg bs a xs z \<Longrightarrow> b_prev (bs ! z) = last (a # xs)"
  by (induction xs arbitrary: a) (auto split: if_splits)

lemma seg_cong:
  assumes "\<forall>u\<in>set (a # xs). b_next (cs ! u) = b_next (bs ! u)" and "\<forall>u\<in>set (xs @ [z]). b_prev (cs ! u) = b_prev (bs ! u)"
  shows "seg cs a xs z = seg bs a xs z"
  using assms by (induction xs arbitrary: a) auto

lemma seg_cut:
  assumes "seg bs a xs b" and "seg bs b ys z"
    and "distinct (a # xs @ b # ys)" and "z \<notin> set (xs @ b # ys)"
    and "b_next (cs ! last (a # xs)) = hd (ys @ [z])" and "b_prev (cs ! hd (ys @ [z])) = last (a # xs)"
    and "\<forall>u. u \<noteq> last (a # xs) \<longrightarrow> b_next (cs ! u) = b_next (bs ! u)"
    and "\<forall>u. u \<noteq> hd (ys @ [z]) \<longrightarrow> b_prev (cs ! u) = b_prev (bs ! u)"
  shows "seg cs a (xs @ ys) z"
  using assms
proof (induction xs arbitrary: a)
  case Nil
  show ?case
  proof (cases ys)
    case Nil
    then show ?thesis using \<open>b_next (cs ! last [a]) = hd (ys @ [z])\<close> \<open>b_prev (cs ! hd (ys @ [z])) = last [a]\<close> by simp
  next
    case (Cons y ys')
    have "seg cs y ys' z = seg bs y ys' z"
      using Nil.prems(3,4,7,8) Cons by (intro seg_cong) auto
    then show ?thesis using Nil.prems Cons by simp
  qed
next
  case (Cons x xs)
  have "seg cs x (xs @ ys) z"
    using Cons.prems by (intro Cons.IH) (auto split: if_splits)
  moreover have "a \<noteq> last (x # xs)" using Cons.prems(3) by (metis last_in_set distinct.simps(2) list.distinct(1) Un_iff append_Cons set_append)
  moreover have "x \<noteq> hd (ys @ [z])" using Cons.prems(3,4) by (cases ys) auto
  ultimately show ?case using Cons.prems by (simp split: if_splits)
qed

lemma upd_nth_sel: "i < length bs \<Longrightarrow> upd_nth i f bs ! j = (if j = i then f (bs ! j) else bs ! j)"
  by (auto simp: upd_nth_def)

lemma unlink_seg:
  assumes "seg bs a xs b" and "seg bs b ys z" and "distinct (a # xs @ b # ys)" and "z \<notin> set (xs @ b # ys)"
    and "set (a # z # xs @ b # ys) \<subseteq> {..<length bs}"
  shows "seg (unlink b bs) a (xs @ ys) z"
proof -
  let ?p = "last (a # xs)" and ?n = "hd (ys @ [z])"
  have b: "b_next (bs ! b) = ?n" "b_prev (bs ! b) = ?p" using seg_ends assms(1,2) by auto
  have "?p \<in> set (a # xs)" by (rule last_in_set) simp
  moreover have "?n \<in> set (ys @ [z])" by (rule hd_in_set) simp
  ultimately have l: "?p < length bs" "?n < length bs" "?p \<noteq> b" "?n \<noteq> b" using assms(3-5) by auto
  show ?thesis
    by (rule seg_cut [OF assms(1-4)]) (use b l in \<open>simp_all add: unlink_def Let_def upd_nth_sel del: last.simps\<close>)
qed

lemma core_relink [simp]: "core (x\<lparr>b_next := n\<rparr>) = core x" "core (x\<lparr>b_prev := n\<rparr>) = core x"
  by (simp_all add: core_def)

lemma core_fields: "core y = core x \<Longrightarrow> b_flags y = b_flags x \<and> b_dev y = b_dev x \<and> b_blockno y = b_blockno x \<and>
  b_refcnt y = b_refcnt x \<and> b_data y = b_data x"
  by (cases x, cases y) (simp add: core_def)

lemma core_unlink: "map core (unlink b bs) = map core bs"
  by (simp add: unlink_def Let_def map_upd_nth)

lemma core_link_front: "map core (link_front b bs) = map core bs"
  by (simp add: link_front_def Let_def map_upd_nth)

lemma link_front_seg:
  assumes "seg bs NBUF zs NBUF" and "distinct (b # NBUF # zs)" and "set (b # NBUF # zs) \<subseteq> {..<length bs}"
  shows "seg (link_front b bs) NBUF (b # zs) NBUF"
proof -
  let ?h = "hd (zs @ [NBUF])"
  have h: "b_next (bs ! 30) = ?h" using seg_ends(1) [OF assms(1)] by simp
  have "?h \<in> set (zs @ [NBUF])" by (rule hd_in_set) simp
  then have l: "?h < length bs" "?h \<noteq> b" "b < length bs" "30 < length bs" "b \<noteq> 30" using assms(2,3) by auto
  let ?c = "link_front b bs"
  have n: "b_next (?c ! u) = (if u = 30 then b else if u = b then ?h else b_next (bs ! u))"
    and p: "b_prev (?c ! u) = (if u = ?h then b else if u = b then 30 else b_prev (bs ! u))" for u
    using l h by (simp_all add: link_front_def Let_def upd_nth_sel)
  show ?thesis
  proof (cases zs)
    case Nil
    then show ?thesis using l n p by simp
  next
    case (Cons z zs')
    have "seg ?c z zs' 30 = seg bs z zs' 30" using assms(2) Cons l n p by (intro seg_cong) auto
    then show ?thesis using assms(1) Cons l n p by simp
  qed
qed

lemma ring_front:
  assumes "ring bs (xs @ b # ys)"
  shows "ring (link_front b (unlink b bs)) (b # xs @ ys)"
proof -
  have d: "length bs = 31" "distinct (xs @ b # ys)" "set (xs @ b # ys) = {..<30}" "seg bs 30 xs b" "seg bs b ys 30"
    using assms by (auto simp: ring_def seg_append)
  have in30: "x \<in> set (xs @ b # ys) \<Longrightarrow> x < 30" for x using d(3) by blast
  have "seg (unlink b bs) 30 (xs @ ys) 30"
    using d in30 by (intro unlink_seg) (auto dest: in30)
  then have "seg (link_front b (unlink b bs)) 30 (b # xs @ ys) 30"
    using d in30 map_eq_imp_length_eq [OF core_unlink, of b bs] by (intro link_front_seg) (auto dest: in30)
  moreover have "length (link_front b (unlink b bs)) = 31"
    using d(1) map_eq_imp_length_eq [OF core_unlink, of b bs] map_eq_imp_length_eq [OF core_link_front, of b "unlink b bs"] by simp
  moreover have "set (b # xs @ ys) = {..<30}" "distinct (b # xs @ ys)" using d(2,3) by auto
  ultimately show ?thesis by (simp only: ring_def simp_thms)
qed

lemma ring_cong:
  assumes "ring bs xs" and "length cs = length bs" and "\<And>i. i \<le> NBUF \<Longrightarrow> b_next (cs ! i) = b_next (bs ! i) \<and> b_prev (cs ! i) = b_prev (bs ! i)"
  shows "ring cs xs"
proof -
  have "\<forall>x\<in>set xs. x \<le> 30" using assms(1) by (auto simp: ring_def)
  then have "seg cs 30 xs 30 = seg bs 30 xs 30" using assms(3) by (intro seg_cong) auto
  then show ?thesis using assms(1,2) by (simp add: ring_def)
qed

lemma bget_forward_find:
  "seg bs a xs NBUF \<Longrightarrow> NBUF \<notin> set xs \<Longrightarrow> length xs \<le> n \<Longrightarrow>
   bget_forward n dv bn bs (b_next (bs ! a)) = Inr (find (\<lambda>b. b_dev (bs ! b) = dv \<and> b_blockno (bs ! b) = bn) xs)"
proof (induction xs arbitrary: a n)
  case Nil
  then show ?case by (cases n) auto
next
  case (Cons x xs)
  then obtain n' where "n = Suc n'" by (cases n) auto
  then show ?case using Cons by auto
qed

lemma bget_backward_find:
  "seg bs NBUF xs z \<Longrightarrow> NBUF \<notin> set xs \<Longrightarrow> length xs \<le> n \<Longrightarrow>
   bget_backward n bs (b_prev (bs ! z)) = Inr (find (\<lambda>b. b_refcnt (bs ! b) = 0 \<and> b_flags (bs ! b) AND B_DIRTY = 0) (rev xs))"
proof (induction xs arbitrary: z n rule: rev_induct)
  case Nil
  then show ?case by (cases n) auto
next
  case (snoc x xs)
  then obtain n' where n: "n = Suc n'" by (cases n) auto
  have s: "seg bs 30 xs x" "b_prev (bs ! z) = x" using snoc.prems(1) by (auto simp: seg_append)
  show ?case using snoc.IH [OF s(1), of n'] snoc.prems s(2) n by auto
qed

lemma and_2_4: "(w :: u32) AND 2 \<noteq> 0 \<longleftrightarrow> bit w 1" "(w :: u32) AND 4 \<noteq> 0 \<longleftrightarrow> bit w 2"
  using and_exp_eq_0_iff_not_bit [of w 1] and_exp_eq_0_iff_not_bit [of w 2] by simp_all

lemma bit_2_4: "bit (2 :: u32) n \<longleftrightarrow> n = 1" "bit (4 :: u32) n \<longleftrightarrow> n = 2"
  using bit_exp_iff [of 1 n, where 'a = u32] bit_exp_iff [of 2 n, where 'a = u32] by auto

lemma and_6_2: "(w :: u32) AND 6 = 2 \<longleftrightarrow> bit w 1 \<and> \<not> bit w 2"
proof -
  have "bit (2 OR 4 :: u32) n \<longleftrightarrow> n = 1 \<or> n = 2" for n by (simp only: bit_or_iff bit_2_4)
  then have 6: "bit (6 :: u32) n \<longleftrightarrow> n = 1 \<or> n = 2" for n by simp
  show ?thesis
  proof
    assume "w AND 6 = 2"
    then have "bit (w AND 6) n = bit (2 :: u32) n" for n by simp
    then have "(bit w n \<and> (n = 1 \<or> n = 2)) = (n = 1)" for n by (simp only: bit_and_iff 6 bit_2_4)
    from this [of 1] this [of 2] show "bit w 1 \<and> \<not> bit w 2" by simp
  next
    assume "bit w 1 \<and> \<not> bit w 2"
    then show "w AND 6 = 2" by (simp only: bit_eq_iff [of "w AND 6" "2 :: u32"] bit_and_iff 6 bit_2_4 possible_bit_word) auto
  qed
qed

lemma flag_bits:
  "valid_buf x \<longleftrightarrow> bit (b_flags x) 1" "dirty_buf x \<longleftrightarrow> bit (b_flags x) 2"
  by (simp_all add: valid_buf_def dirty_buf_def and_2_4)

lemma flag_ops [simp]:
  "valid_buf (x\<lparr>b_flags := w OR 2\<rparr>)" "valid_buf (x\<lparr>b_flags := w OR 4\<rparr>) = bit w 1"
  "valid_buf (x\<lparr>b_flags := w AND NOT 4\<rparr>) = bit w 1"
  "dirty_buf (x\<lparr>b_flags := w OR 2\<rparr>) = bit w 2" "dirty_buf (x\<lparr>b_flags := w OR 4\<rparr>)"
  "\<not> dirty_buf (x\<lparr>b_flags := w AND NOT 4\<rparr>)"
  "\<not> dirty_buf (x\<lparr>b_flags := 2\<rparr>)" "valid_buf (x\<lparr>b_flags := 2\<rparr>)"
  by (simp_all add: flag_bits bit_or_iff bit_and_iff bit_not_iff bit_2_4)

lemma flag_frame [simp]:
  "valid_buf (x\<lparr>b_data := d\<rparr>) = valid_buf x" "dirty_buf (x\<lparr>b_data := d\<rparr>) = dirty_buf x"
  "valid_buf (x\<lparr>b_refcnt := r\<rparr>) = valid_buf x" "dirty_buf (x\<lparr>b_refcnt := r\<rparr>) = dirty_buf x"
  by (simp_all add: valid_buf_def dirty_buf_def)

section \<open>Sleep locks that are free\<close>

lemma upd_slock_frame [simp]:
  "calm (upd_slock lk x s) = calm s" "cur (upd_slock lk x s) = cur s" "lock_free lk' (upd_slock lk x s) = lock_free lk' s"
  "upd_slock lk x (acquired lk' s) = acquired lk' (upd_slock lk x s)" "procs (upd_slock lk x s) = procs s"
  "slocks (upd_slock lk x s) = (slocks s)(lk := x)"
  by (simp_all add: upd_slock_def)

lemma acquiresleep_calm:
  assumes "calm s" and "cur s = Some q" and "lock_free lk s" and "\<not> sl_locked (slocks s lk)"
  shows "acquiresleep lk envs s = Inr (upd_slock lk (own q s) s)"
  using assms by (simp add: acquiresleep_def acquiresleep_loop.simps own_def)

lemma releasesleep_calm:
  assumes "calm s" and "lock_free lk s" and "lock_free L_ptable s" and "lk \<noteq> L_ptable"
  shows "releasesleep lk s = Inr (wakeup1 (Some (sl_chan lk)) (upd_slock lk \<lparr>sl_locked = False, sl_pid = 0\<rparr> s))"
  using assms by (simp add: releasesleep_def)

lemma holdingsleep_calm:
  assumes "calm s" and "cur s = Some q" and "lock_free lk s"
  shows "holdingsleep lk s = Inr (slocks s lk = own q s \<or> sl_locked (slocks s lk) \<and> sl_pid (slocks s lk) = pid (proc_at s q), s)"
  using assms by (auto simp: holdingsleep_def own_def)

section \<open>The invariant of the cache\<close>

lemma one_bufD: "one_buf s \<Longrightarrow> holds_block s n b \<Longrightarrow> holds_block s n c \<Longrightarrow> b = c"
  unfolding one_buf_def holds_block_def by blast

lemma view_held: "one_buf s \<Longrightarrow> holds_block s n b \<Longrightarrow> view s n = b_data (buf_at s b)"
proof -
  assume o: "one_buf s" and b: "holds_block s n b"
  have "find (holds_block s n) [0..<NBUF] = Some b"
    unfolding find_upt_Some using b
  proof (intro conjI allI impI notI)
    show "b < NBUF" using b by (simp add: holds_block_def)
    show False if "0 \<le> j \<and> j < b" "holds_block s n j" for j using one_bufD [OF o b that(2)] that(1) by simp
  qed simp_all
  then show ?thesis by (simp only: view_def option.case)
qed

lemma view_disk: "(\<And>b. \<not> holds_block s n b) \<Longrightarrow> view s n = memdisk s n"
proof -
  assume "\<And>b. \<not> holds_block s n b"
  then have "find (holds_block s n) [0..<NBUF] = None" unfolding find_upt_None by blast
  then show ?thesis by (simp only: view_def option.case)
qed

lemma cache_invD:
  assumes "cache_inv q H s"
  shows "runs q s" "lock_free lk s" "\<exists>xs. ring (bufs s) xs" "H \<subseteq> {..<NBUF}" "b < NBUF \<Longrightarrow> buf_ok q H s b" "one_buf s"
    "length (memdisk s n) = BSIZE"
  using assms by (simp_all add: cache_inv_def)

lemma cache_runs:
  assumes "cache_inv q H s"
  shows "calm s" "cur s = Some q" "length (bufs s) = 31" "q < NPROC" "length (procs s) = NPROC"
  using runsD [OF cache_invD(1) [OF assms]] cache_invD(3) [OF assms] by (auto simp: ring_def)

section \<open>The operations of the cache\<close>

lemma bio_frame_refl [simp]: "bio_frame s s"
  by (simp add: bio_frame_def)

lemma bio_frameD: "bio_frame s t \<Longrightarrow> t = s\<lparr>procs := procs t, slocks := slocks t, bufs := bufs t, memdisk := memdisk t, diskw := diskw t\<rparr>"
  by (simp add: bio_frame_def)

lemma bio_frame_trans: "bio_frame s t \<Longrightarrow> bio_frame t u \<Longrightarrow> bio_frame s u"
proof -
  assume a: "bio_frame s t" and b: "bio_frame t u"
  have "u = t\<lparr>procs := procs u, slocks := slocks u, bufs := bufs u, memdisk := memdisk u, diskw := diskw u\<rparr>"
    by (rule bio_frameD [OF b])
  also have "\<dots> = s\<lparr>procs := procs u, slocks := slocks u, bufs := bufs u, memdisk := memdisk u, diskw := diskw u\<rparr>"
    by (subst bio_frameD [OF a]) simp
  finally show ?thesis using a b by (simp add: bio_frame_def)
qed

lemma upd_buf_frame [simp]:
  "calm (upd_buf b f s) = calm s" "cur (upd_buf b f s) = cur s" "lock_free lk (upd_buf b f s) = lock_free lk s"
  "upd_buf b f (acquired lk s) = acquired lk (upd_buf b f s)" "procs (upd_buf b f s) = procs s"
  "slocks (upd_buf b f s) = slocks s" "memdisk (upd_buf b f s) = memdisk s" "diskw (upd_buf b f s) = diskw s"
  "disksize (upd_buf b f s) = disksize s" "bufs (upd_buf b f s) = upd_nth b f (bufs s)"
  by (simp_all add: upd_buf_def)

lemma upd_slock_bio [simp]:
  "bufs (upd_slock lk x s) = bufs s" "memdisk (upd_slock lk x s) = memdisk s" "diskw (upd_slock lk x s) = diskw s"
  "disksize (upd_slock lk x s) = disksize s"
  by (simp_all add: upd_slock_def)

lemma wakeup1_bio [simp]:
  "bufs (wakeup1 ch s) = bufs s" "memdisk (wakeup1 ch s) = memdisk s" "diskw (wakeup1 ch s) = diskw s"
  "disksize (wakeup1 ch s) = disksize s" "slocks (wakeup1 ch s) = slocks s"
  by (simp_all add: wakeup1_def)

lemma own_frame [simp]: "own q (upd_buf b f s) = own q s" "own q (upd_slock lk x s) = own q s"
  by (simp_all add: own_def)

lemma own_slock [simp]: "sl_locked (own q s)" "sl_pid (own q s) = pid (proc_at s q)"
  by (simp_all add: own_def)

lemma upd_nth_twice: "upd_nth b f (upd_nth b g xs) = upd_nth b (\<lambda>x. f (g x)) xs"
  by (simp add: upd_nth_compose comp_def)

lemma upd_buf_twice [simp]: "upd_buf b f (upd_buf b g s) = upd_buf b (\<lambda>x. f (g x)) s"
  by (simp add: upd_buf_def upd_nth_twice)

lemma upd_buf_slock [simp]: "upd_buf b f (upd_slock lk x s) = upd_slock lk x (upd_buf b f s)"
  by (simp add: upd_buf_def upd_slock_def)

lemma find_SomeD: "find P xs = Some x \<Longrightarrow> x \<in> set xs \<and> P x"
  by (induction xs) (auto split: if_splits)

lemma bget_calm:
  assumes "calm s" and "cur s = Some q" and "\<And>lk. lock_free lk s" and "ring (bufs s) xs"
    and "\<And>b. \<not> sl_locked (slocks s (L_buf b)) \<or> b \<in> H"
  shows "cached_in s n xs = Some b \<Longrightarrow> b \<notin> H \<Longrightarrow>
      bget 1 n s = Inr (b, upd_slock (L_buf b) (own q s) (upd_buf b (\<lambda>x. x\<lparr>b_refcnt := b_refcnt x + 1\<rparr>) s))"
    and "cached_in s n xs = None \<Longrightarrow> least_used s xs = Some b \<Longrightarrow> b \<notin> H \<Longrightarrow>
      bget 1 n s = Inr (b, upd_slock (L_buf b) (own q s)
        (upd_buf b (\<lambda>x. x\<lparr>b_dev := 1, b_blockno := n, b_flags := 0, b_refcnt := 1\<rparr>) s))"
    and "cached_in s n xs = None \<Longrightarrow> least_used s xs = None \<Longrightarrow> bget 1 n s = Inl (Panic ''bget: no buffers'')"
proof -
  have r: "seg (bufs s) 30 xs 30" "30 \<notin> set xs" "length xs \<le> 30"
    using assms(4) distinct_card [of xs] by (auto simp: ring_def)
  note f = bget_forward_find [OF r, of 1 n, folded cached_in_def]
    and k = bget_backward_find [OF r, folded least_used_def]
  have fr: "\<not> sl_locked (slocks s (L_buf b))" if "b \<notin> H" for b using assms(5) that by blast
  show "cached_in s n xs = Some b \<Longrightarrow> b \<notin> H \<Longrightarrow>
      bget 1 n s = Inr (b, upd_slock (L_buf b) (own q s) (upd_buf b (\<lambda>x. x\<lparr>b_refcnt := b_refcnt x + 1\<rparr>) s))"
    using assms(1-3) fr [of b] by (simp add: bget_def acquiresleep_calm f)
  show "cached_in s n xs = None \<Longrightarrow> least_used s xs = Some b \<Longrightarrow> b \<notin> H \<Longrightarrow>
      bget 1 n s = Inr (b, upd_slock (L_buf b) (own q s)
        (upd_buf b (\<lambda>x. x\<lparr>b_dev := 1, b_blockno := n, b_flags := 0, b_refcnt := 1\<rparr>) s))"
    using assms(1-3) fr [of b] by (simp add: bget_def acquiresleep_calm f k)
  show "cached_in s n xs = None \<Longrightarrow> least_used s xs = None \<Longrightarrow> bget 1 n s = Inl (Panic ''bget: no buffers'')"
    using assms(1-3) by (simp add: bget_def f k)
qed

lemma mem_iderw_calm:
  assumes "calm s" and "cur s = Some q" and "lock_free (L_buf b) s" and "slocks s (L_buf b) = own q s"
    and "b_dev (buf_at s b) = 1" and "b_blockno (buf_at s b) < disksize s" and "b < length (bufs s)"
  shows "dirty_buf (buf_at s b) \<Longrightarrow> mem_iderw b s = Inr ((upd_buf b (\<lambda>x. x\<lparr>b_flags := b_flags x AND NOT 4 OR 2\<rparr>) s)\<lparr>
      memdisk := (memdisk s)(b_blockno (buf_at s b) := b_data (buf_at s b)),
      diskw := diskw s @ [(b_blockno (buf_at s b), b_data (buf_at s b))]\<rparr>)"
    and "\<not> dirty_buf (buf_at s b) \<Longrightarrow> \<not> valid_buf (buf_at s b) \<Longrightarrow>
      mem_iderw b s = Inr (upd_buf b (\<lambda>x. x\<lparr>b_data := memdisk s (b_blockno (buf_at s b)), b_flags := b_flags x OR 2\<rparr>) s)"
proof -
  have h: "holdingsleep (L_buf b) s = Inr (True, s)" using assms(1-4) by (simp add: holdingsleep_calm)
  have g: "\<not> disksize s \<le> b_blockno (buf_at s b)" using assms(6) by simp
  have c: "upd_buf b f (u\<lparr>memdisk := d, diskw := w\<rparr>) = (upd_buf b f u)\<lparr>memdisk := d, diskw := w\<rparr>" for f u d w
    by (simp add: upd_buf_def)
  show "mem_iderw b s = Inr ((upd_buf b (\<lambda>x. x\<lparr>b_flags := b_flags x AND NOT 4 OR 2\<rparr>) s)\<lparr>
      memdisk := (memdisk s)(b_blockno (buf_at s b) := b_data (buf_at s b)),
      diskw := diskw s @ [(b_blockno (buf_at s b), b_data (buf_at s b))]\<rparr>)" if "dirty_buf (buf_at s b)"
  proof -
    have "b_flags (buf_at s b) AND 4 \<noteq> 0" "b_flags (buf_at s b) AND 6 \<noteq> 2"
      using that by (simp_all add: flag_bits and_2_4 and_6_2)
    then show ?thesis using h g assms(5,7) by (simp add: mem_iderw_def Let_def c upd_nth_sel)
  qed
  show "mem_iderw b s = Inr (upd_buf b (\<lambda>x. x\<lparr>b_data := memdisk s (b_blockno (buf_at s b)), b_flags := b_flags x OR 2\<rparr>) s)"
    if "\<not> dirty_buf (buf_at s b)" "\<not> valid_buf (buf_at s b)"
  proof -
    have "b_flags (buf_at s b) AND 4 = 0" "b_flags (buf_at s b) AND 6 \<noteq> 2"
      using that by (simp_all add: dirty_buf_def) (simp add: flag_bits and_6_2)
    then show ?thesis using h g assms(5,7) by (simp add: mem_iderw_def Let_def)
  qed
qed

lemma bread_calm:
  assumes "calm s" and "cur s = Some q" and "\<And>lk. lock_free lk s" and "ring (bufs s) xs"
    and "\<And>b. \<not> sl_locked (slocks s (L_buf b)) \<or> b \<in> H" and "n < disksize s"
  shows "cached_in s n xs = Some b \<Longrightarrow> b \<notin> H \<Longrightarrow> valid_buf (buf_at s b) \<Longrightarrow>
      bread 1 n s = Inr (b, upd_slock (L_buf b) (own q s) (upd_buf b (\<lambda>x. x\<lparr>b_refcnt := b_refcnt x + 1\<rparr>) s))"
    and "cached_in s n xs = None \<Longrightarrow> least_used s xs = Some b \<Longrightarrow> b \<notin> H \<Longrightarrow>
      bread 1 n s = Inr (b, upd_slock (L_buf b) (own q s)
        (upd_buf b (\<lambda>x. x\<lparr>b_dev := 1, b_blockno := n, b_refcnt := 1, b_data := memdisk s n, b_flags := 2\<rparr>) s))"
proof -
  have l: "b < length (bufs s)" if "b \<in> set xs" for b using that assms(4) by (auto simp: ring_def)
  show "bread 1 n s = Inr (b, upd_slock (L_buf b) (own q s) (upd_buf b (\<lambda>x. x\<lparr>b_refcnt := b_refcnt x + 1\<rparr>) s))"
    if "cached_in s n xs = Some b" "b \<notin> H" "valid_buf (buf_at s b)"
  proof -
    have "b \<in> set xs" using that(1) by (auto simp: cached_in_def dest: find_SomeD)
    then show ?thesis
      using bget_calm(1) [OF assms(1-5) that(1,2)] that(3) l [of b] by (simp add: bread_def upd_nth_sel valid_buf_def)
  qed
  show "bread 1 n s = Inr (b, upd_slock (L_buf b) (own q s)
        (upd_buf b (\<lambda>x. x\<lparr>b_dev := 1, b_blockno := n, b_refcnt := 1, b_data := memdisk s n, b_flags := 2\<rparr>) s))"
    if "cached_in s n xs = None" "least_used s xs = Some b" "b \<notin> H"
  proof -
    let ?t = "upd_slock (L_buf b) (own q s) (upd_buf b (\<lambda>x. x\<lparr>b_dev := 1, b_blockno := n, b_flags := 0, b_refcnt := 1\<rparr>) s)"
    have "b \<in> set xs" using that(2) by (auto simp: least_used_def dest: find_SomeD)
    note lb = l [OF this]
    have "mem_iderw b ?t = Inr (upd_slock (L_buf b) (own q s)
        (upd_buf b (\<lambda>x. x\<lparr>b_dev := 1, b_blockno := n, b_refcnt := 1, b_data := memdisk s n, b_flags := 2\<rparr>) s))"
      using assms(1-3,6) lb
      by (subst mem_iderw_calm(2) [where q = q]) (simp_all add: upd_nth_sel dirty_buf_def valid_buf_def)
    then show ?thesis using bget_calm(2) [OF assms(1-5) that] lb by (simp add: bread_def upd_nth_sel)
  qed
qed

lemma cache_free:
  assumes "cache_inv q H s"
  shows "\<not> sl_locked (slocks s (L_buf b)) \<or> b \<in> H \<or> 30 \<le> b"
  using cache_invD(5) [OF assms, of b] by (auto simp: buf_ok_def Let_def split: if_splits)

lemma runs_bio [simp]: "runs q (upd_slock lk x s) = runs q s" "runs q (upd_buf b f s') = runs q s'" "runs q (wakeup1 ch s) = runs q s"
proof -
  have "depth (upd_slock lk x s) = depth s" "depth (upd_buf b f s') = depth s'"
    by (rule mach_same_facts, simp add: upd_slock_def upd_buf_def mach_same_def)+
  then show "runs q (upd_slock lk x s) = runs q s" "runs q (upd_buf b f s') = runs q s'" by (simp_all add: runs_def)
  show "runs q (wakeup1 ch s) = runs q s" by (simp add: runs_def depth_same) (simp add: wakeup1_def)
qed

lemma ring_upd_nth:
  assumes "ring bs xs" and "\<And>x. b_next (f x) = b_next x \<and> b_prev (f x) = b_prev x"
  shows "ring (upd_nth b f bs) xs"
  by (rule ring_cong [OF assms(1)]) (use assms in \<open>auto simp: ring_def upd_nth_nth\<close>)

text \<open>The running process takes buffer \<open>b\<close>.\<close>

lemma take_buf:
  assumes "cache_inv q H s" and "b < NBUF" and "b \<notin> H"
    and "\<And>x. b_next (f x) = b_next x \<and> b_prev (f x) = b_prev x"
    and "valid_buf (f (buf_at s b))" and "b_dev (f (buf_at s b)) = 1" and "b_refcnt (f (buf_at s b)) = 1"
    and "length (b_data (f (buf_at s b))) = BSIZE"
    and "\<And>c. holds_block s (b_blockno (f (buf_at s b))) c \<Longrightarrow> c = b"
  shows "cache_inv q (insert b H) (upd_slock (L_buf b) (own q s) (upd_buf b f s))" (is "cache_inv q _ ?t")
proof -
  have l: "length (bufs s) = 31" using cache_runs(3) [OF assms(1)] .
  have at: "buf_at ?t c = (if c = b then f (buf_at s b) else buf_at s c)" for c using l assms(2) by (simp add: upd_nth_sel)
  have "buf_ok q (insert b H) ?t c" if "c < NBUF" for c
    using cache_invD(5) [OF assms(1) that] assms(2,3,5-8) unfolding buf_ok_def at by (auto simp: Let_def)
  moreover have "one_buf ?t"
    unfolding one_buf_def at using cache_invD(6) [OF assms(1)] assms(9) unfolding one_buf_def holds_block_def by auto
  moreover have "\<exists>xs. ring (bufs ?t) xs" using cache_invD(3) [OF assms(1)] ring_upd_nth [OF _ assms(4)] by auto
  ultimately show ?thesis using assms(1,2) by (simp add: cache_inv_def)
qed

section \<open>What the operations do to the cached blocks\<close>

lemma bio_frame_upd [simp]:
  "bio_frame s (upd_slock (L_buf b) x s)" "bio_frame s (upd_buf b f s)" "bio_frame s (upd_slock (L_buf b) x (upd_buf b f s))"
  by (simp_all add: bio_frame_def upd_slock_def upd_buf_def)

lemma pinned_same:
  assumes "\<And>c. dirty_buf (buf_at t c) = dirty_buf (buf_at s c)"
    and "\<And>c. dirty_buf (buf_at s c) \<Longrightarrow> valid_buf (buf_at t c) = valid_buf (buf_at s c) \<and> b_blockno (buf_at t c) = b_blockno (buf_at s c)"
  shows "pinned t = pinned s" "dirty_blocks t = dirty_blocks s"
proof -
  show "pinned t = pinned s" by (simp add: pinned_def assms(1))
  have "holds_block t n c \<and> dirty_buf (buf_at t c) \<longleftrightarrow> holds_block s n c \<and> dirty_buf (buf_at s c)" for n c
    using assms by (auto simp: holds_block_def)
  then show "dirty_blocks t = dirty_blocks s" by (simp add: dirty_blocks_def)
qed

lemma view_upd:
  assumes "one_buf s" and "one_buf t" and "memdisk t = memdisk s" and "b < NBUF"
    and "\<And>c. c \<noteq> b \<Longrightarrow> c < NBUF \<Longrightarrow> buf_at t c = buf_at s c"
    and "holds_block t n b" and "b_data (buf_at t b) = view s n"
    and "\<And>m. m \<noteq> n \<Longrightarrow> holds_block s m b \<Longrightarrow> b_data (buf_at s b) = memdisk s m"
  shows "view t m = view s m"
proof (cases "m = n")
  case True
  then show ?thesis using view_held [OF assms(2,6)] assms(7) by simp
next
  case False
  have ob: "holds_block t m c = holds_block s m c" if "c \<noteq> b" for c using assms(5) that by (auto simp: holds_block_def)
  have nb: "\<not> holds_block t m b" using False assms(6) by (auto simp: holds_block_def)
  show ?thesis
  proof (cases "\<exists>c. c \<noteq> b \<and> holds_block s m c")
    case True
    then obtain c where c: "c \<noteq> b" "holds_block s m c" by blast
    have "c < 30" using c(2) by (simp add: holds_block_def)
    then show ?thesis using view_held [OF assms(1) c(2)] view_held [OF assms(2), of m c] ob [OF c(1)] c assms(5) by simp
  next
    case no: False
    then have "view t m = memdisk t m" using nb ob by (intro view_disk) metis
    moreover have "view s m = memdisk s m"
    proof (cases "holds_block s m b")
      case True
      then show ?thesis using view_held [OF assms(1) True] assms(8) [OF False True] by simp
    next
      case False
      then show ?thesis using no by (intro view_disk) metis
    qed
    ultimately show ?thesis using assms(3) by simp
  qed
qed

lemma bread_hit:
  assumes "cache_inv q H s" and "n < disksize s" and "b \<notin> H" and "ring (bufs s) xs" and "cached_in s n xs = Some b"
  shows "\<exists>t. bread 1 n s = Inr (b, t) \<and> block_read q H n s b t"
proof -
  let ?f = "\<lambda>x. x\<lparr>b_refcnt := b_refcnt x + 1\<rparr>"
  let ?t = "upd_slock (L_buf b) (own q s) (upd_buf b ?f s)"
  note r = cache_runs [OF assms(1)]
  have b: "b < 30" "b_dev (buf_at s b) = 1" "b_blockno (buf_at s b) = n"
    using assms(4,5) by (auto simp: ring_def cached_in_def dest!: find_SomeD)
  note ok = cache_invD(5) [OF assms(1) b(1)]
  have v: "valid_buf (buf_at s b)" "b_refcnt (buf_at s b) = 0" "length (b_data (buf_at s b)) = 512"
      "dirty_buf (buf_at s b) \<or> b_data (buf_at s b) = memdisk s n"
    using ok b(2,3) assms(3) by (auto simp: buf_ok_def Let_def)
  have hb: "holds_block s n b" using b v by (simp add: holds_block_def)
  have at: "buf_at ?t c = (if c = b then ?f (buf_at s b) else buf_at s c)" for c using r(3) b(1) by (simp add: upd_nth_sel)
  have inv: "cache_inv q (insert b H) ?t"
    by (rule take_buf [OF assms(1) b(1) assms(3)]) (use b v one_bufD [OF cache_invD(6) [OF assms(1)] _ hb] in \<open>simp_all\<close>)
  have hb': "holds_block ?t n b" using hb at by (simp add: holds_block_def)
  have ps: "dirty_buf (buf_at ?t c) = dirty_buf (buf_at s c)"
      "dirty_buf (buf_at s c) \<Longrightarrow> valid_buf (buf_at ?t c) = valid_buf (buf_at s c) \<and> b_blockno (buf_at ?t c) = b_blockno (buf_at s c)" for c
    unfolding at by auto
  have "view ?t m = view s m" for m
    by (rule view_upd [OF cache_invD(6) [OF assms(1)] cache_invD(6) [OF inv] _ b(1) _ hb'])
      (use at view_held [OF cache_invD(6) [OF assms(1)] hb] b in \<open>auto simp: holds_block_def\<close>)
  moreover note pinned_same [of ?t s, OF ps]
  moreover have "bread 1 n s = Inr (b, ?t)"
    using bread_calm(1) [OF r(1,2) cache_invD(2) [OF assms(1)] assms(4) _ assms(2,5) _ v(1), where H = "H \<union> {30..}"]
      cache_free [OF assms(1)] assms(3) b(1) by auto
  ultimately show ?thesis
    using b(1) assms(3) inv hb' at v(4) view_held [OF cache_invD(6) [OF assms(1)] hb] by (auto simp: block_read_def)
qed

lemma not_cached:
  assumes "cache_inv q H s" and "ring (bufs s) xs" and "cached_in s n xs = None"
  shows "\<not> holds_block s n c"
proof
  assume h: "holds_block s n c"
  then have "c < 30" by (simp add: holds_block_def)
  then have "c \<in> set xs" "b_dev (buf_at s c) = 1 \<and> b_blockno (buf_at s c) = n"
    using h assms(2) cache_invD(5) [OF assms(1), of c] by (auto simp: ring_def holds_block_def buf_ok_def Let_def)
  then show False using assms(3) by (auto simp: cached_in_def find_None_iff)
qed

lemma bread_miss:
  assumes "cache_inv q H s" and "n < disksize s" and "ring (bufs s) xs" and "cached_in s n xs = None" and "card (pinned s \<union> H) < NBUF"
  shows "\<exists>b t. bread 1 n s = Inr (b, t) \<and> block_read q H n s b t"
proof -
  note r = cache_runs [OF assms(1)]
  have xs: "set xs = {..<30}" using assms(3) by (simp add: ring_def)
  have ex: "\<exists>b\<in>set (rev xs). b_refcnt (buf_at s b) = 0 \<and> b_flags (buf_at s b) AND B_DIRTY = 0"
  proof (rule ccontr)
    assume no: "\<not> ?thesis"
    have "{..<30} \<subseteq> pinned s \<union> H"
    proof
      fix c assume "c \<in> {..<30::nat}"
      then have c: "c < 30" "c \<in> set xs" using xs by auto
      then have "b_refcnt (buf_at s c) \<noteq> 0 \<or> dirty_buf (buf_at s c)" using no by (auto simp: dirty_buf_def)
      then show "c \<in> pinned s \<union> H" using cache_invD(5) [OF assms(1) c(1)] c(1) by (auto simp: pinned_def buf_ok_def Let_def split: if_splits)
    qed
    moreover have "finite (pinned s \<union> H)" using cache_invD(4) [OF assms(1)] by (auto simp: pinned_def intro: finite_subset)
    ultimately have "card {..<30::nat} \<le> card (pinned s \<union> H)" by (rule card_mono [rotated])
    then show False using assms(5) by simp
  qed
  then have "least_used s xs \<noteq> None" unfolding least_used_def find_None_iff by blast
  then obtain b where lu: "least_used s xs = Some b" by auto
  have b: "b < 30" "b_refcnt (buf_at s b) = 0" "\<not> dirty_buf (buf_at s b)"
    using find_SomeD [OF lu [unfolded least_used_def]] xs by (simp_all add: dirty_buf_def)
  note ok = cache_invD(5) [OF assms(1) b(1)]
  have bH: "b \<notin> H" "valid_buf (buf_at s b) \<Longrightarrow> b_data (buf_at s b) = memdisk s (b_blockno (buf_at s b))"
    using ok b by (auto simp: buf_ok_def Let_def split: if_splits)
  let ?f = "\<lambda>x. x\<lparr>b_dev := 1, b_blockno := n, b_refcnt := 1, b_data := memdisk s n, b_flags := 2\<rparr>"
  let ?t = "upd_slock (L_buf b) (own q s) (upd_buf b ?f s)"
  have at: "buf_at ?t c = (if c = b then ?f (buf_at s b) else buf_at s c)" for c using r(3) b(1) by (simp add: upd_nth_sel)
  have no: "\<not> holds_block s n c" for c by (rule not_cached [OF assms(1,3,4)])
  have inv: "cache_inv q (insert b H) ?t"
    by (rule take_buf [OF assms(1) b(1) bH(1)]) (use no cache_invD(7) [OF assms(1)] in simp_all)
  have hb: "holds_block ?t n b" using b(1) at by (simp add: holds_block_def)
  have vn: "view s n = memdisk s n" by (rule view_disk [OF no])
  have ps: "dirty_buf (buf_at ?t c) = dirty_buf (buf_at s c)"
      "dirty_buf (buf_at s c) \<Longrightarrow> valid_buf (buf_at ?t c) = valid_buf (buf_at s c) \<and> b_blockno (buf_at ?t c) = b_blockno (buf_at s c)" for c
    using b(3) unfolding at by auto
  have "view ?t m = view s m" for m
    by (rule view_upd [OF cache_invD(6) [OF assms(1)] cache_invD(6) [OF inv] _ b(1) _ hb])
      (use at vn bH(2) in \<open>auto simp: holds_block_def\<close>)
  moreover note pinned_same [of ?t s, OF ps]
  moreover have "bread 1 n s = Inr (b, ?t)"
    using bread_calm(2) [OF r(1,2) cache_invD(2) [OF assms(1)] assms(3) _ assms(2,4) lu, where H = "H \<union> {30..}"]
      cache_free [OF assms(1)] bH(1) b(1) by auto
  ultimately show ?thesis using b(1) bH(1) inv hb at vn by (intro exI [of _ b] exI [of _ ?t]) (auto simp: block_read_def)
qed

lemma bread_ok:
  assumes "cache_inv q H s" and "n < disksize s" and "\<forall>b\<in>H. \<not> holds_block s n b"
    and "(\<exists>b. holds_block s n b) \<or> card (pinned s \<union> H) < NBUF"
  shows "\<exists>b t. bread 1 n s = Inr (b, t) \<and> block_read q H n s b t"
proof -
  obtain xs where xs: "ring (bufs s) xs" using cache_invD(3) [OF assms(1)] by blast
  show ?thesis
  proof (cases "cached_in s n xs")
    case None
    have "\<not> holds_block s n b" for b
      by (rule not_cached [OF assms(1) xs None])
    then show ?thesis using bread_miss [OF assms(1,2) xs None] assms(4) by blast
  next
    case (Some b)
    have b: "b < 30" "b_dev (buf_at s b) = 1" "b_blockno (buf_at s b) = n"
      using xs Some by (auto simp: ring_def cached_in_def dest!: find_SomeD)
    then have "b \<notin> H" using assms(3) cache_invD(5) [OF assms(1) b(1)] by (auto simp: holds_block_def buf_ok_def Let_def)
    then show ?thesis using bread_hit [OF assms(1,2) _ xs Some] by blast
  qed
qed

lemma one_buf_alt: "one_buf s \<longleftrightarrow> (\<forall>n b c. holds_block s n b \<longrightarrow> holds_block s n c \<longrightarrow> b = c)"
  unfolding one_buf_def holds_block_def by blast

lemma one_buf_same: "(\<And>n b. holds_block t n b = holds_block s n b) \<Longrightarrow> one_buf t = one_buf s"
  by (simp add: one_buf_alt)

text \<open>The holder of a buffer changes its data.\<close>

lemma set_data_ok:
  assumes "cache_inv q H s" and "b \<in> H" and "length d = BSIZE" and "holds_block s n b"
    and "t = upd_buf b (\<lambda>x. x\<lparr>b_data := d\<rparr>) s"
  shows "cache_inv q H t" "view t m = (if m = n then d else view s m)" "pinned t = pinned s"
    "holds_block t m' c = holds_block s m' c" "buf_at t b = (buf_at s b)\<lparr>b_data := d\<rparr>" "c \<noteq> b \<Longrightarrow> buf_at t c = buf_at s c"
proof -
  have b: "b < 30" using assms(4) by (simp add: holds_block_def)
  have at: "buf_at t c = (if c = b then (buf_at s b)\<lparr>b_data := d\<rparr> else buf_at s c)" for c
    using cache_runs(3) [OF assms(1)] b by (simp add: assms(5) upd_nth_sel)
  then show "c \<noteq> b \<Longrightarrow> buf_at t c = buf_at s c" "buf_at t b = (buf_at s b)\<lparr>b_data := d\<rparr>" by simp_all
  show hb: "holds_block t m' c = holds_block s m' c" for m' c using at by (simp add: holds_block_def)
  show "pinned t = pinned s" using at by (auto simp: pinned_def)
  have "buf_ok q H t c" if "c < NBUF" for c
    using cache_invD(5) [OF assms(1) that] assms(2,3) unfolding buf_ok_def at by (auto simp: Let_def assms(5))
  moreover have o: "one_buf t" using one_buf_same [of t s] hb cache_invD(6) [OF assms(1)] by simp
  moreover have "\<exists>xs. ring (bufs t) xs" using cache_invD(3) [OF assms(1)] ring_upd_nth [of _ _ "\<lambda>x. x\<lparr>b_data := d\<rparr>" b] by (auto simp: assms(5))
  ultimately show "cache_inv q H t" using assms(1) by (simp add: cache_inv_def assms(5))
  show "view t m = (if m = n then d else view s m)"
  proof (cases "m = n")
    case True
    then show ?thesis using view_held [OF o, of n b] hb assms(4) at by simp
  next
    case False
    show ?thesis
    proof (cases "\<exists>c. holds_block s m c")
      case True
      then obtain c where c: "holds_block s m c" by blast
      have "c \<noteq> b" using c assms(4) False by (auto simp: holds_block_def)
      then show ?thesis using view_held [OF o, of m c] view_held [OF cache_invD(6) [OF assms(1)] c] hb c at False by simp
    next
      case no: False
      then show ?thesis using view_disk [of s m] view_disk [of t m] hb False by (simp add: assms(5))
    qed
  qed
qed

lemma bwrite_ok:
  assumes "cache_inv q H s" and "b \<in> H" and "holds_block s n b" and "n < disksize s"
  shows "\<exists>t. bwrite b s = Inr t \<and> block_written q H n s b t"
proof -
  note r = cache_runs [OF assms(1)]
  have b: "b < 30" "valid_buf (buf_at s b)" "b_blockno (buf_at s b) = n" using assms(3) by (simp_all add: holds_block_def)
  note ok = cache_invD(5) [OF assms(1) b(1)]
  have bo: "slocks s (L_buf b) = own q s" "b_dev (buf_at s b) = 1" "length (b_data (buf_at s b)) = 512"
    using ok assms(2) b(2) by (auto simp: buf_ok_def Let_def)
  let ?u = "upd_buf b (\<lambda>x. x\<lparr>b_flags := b_flags x OR 4\<rparr>) s"
  let ?g = "\<lambda>x. x\<lparr>b_flags := (b_flags x OR 4) AND NOT 4 OR 2\<rparr>"
  let ?t = "(upd_buf b ?g s)\<lparr>memdisk := (memdisk s)(n := b_data (buf_at s b)), diskw := diskw s @ [(n, b_data (buf_at s b))]\<rparr>"
  have "mem_iderw b ?u = Inr ?t"
    using r(1-3) b bo assms(4) cache_invD(2) [OF assms(1)]
    by (subst mem_iderw_calm(1) [where q = q]) (simp_all add: upd_nth_sel)
  then have w: "bwrite b s = Inr ?t"
    using r(1,2) cache_invD(2) [OF assms(1)] bo(1) by (simp add: bwrite_def holdingsleep_calm)
  have at: "buf_at ?t c = (if c = b then ?g (buf_at s b) else buf_at s c)" for c using r(3) b(1) by (simp add: upd_nth_sel)
  have fl: "valid_buf (?g x)" "\<not> dirty_buf (?g x)" for x
    by (simp_all add: flag_bits bit_or_iff bit_and_iff bit_not_iff bit_2_4)
  have hb: "holds_block ?t m c = holds_block s m c" for m c using at fl b(2) by (simp add: holds_block_def)
  have sl: "own q ?t = own q s" "slocks ?t = slocks s" by (simp_all add: own_def)
  have nb: "b_blockno (buf_at s c) \<noteq> n" if "c \<noteq> b" "c < 30" "valid_buf (buf_at s c)" for c
    using one_bufD [OF cache_invD(6) [OF assms(1)] assms(3), of c] that by (auto simp: holds_block_def)
  have "buf_ok q H ?t c" if "c < NBUF" for c
    using cache_invD(5) [OF assms(1) that] assms(2) fl nb [OF _ that] bo b unfolding buf_ok_def at sl by (auto simp: Let_def)
  moreover have o: "one_buf ?t" using one_buf_same [of ?t s] hb cache_invD(6) [OF assms(1)] by simp
  moreover have "\<exists>xs. ring (bufs ?t) xs" using cache_invD(3) [OF assms(1)] ring_upd_nth [of _ _ ?g b] by auto
  moreover have "runs q ?t" "lock_free lk ?t" for lk
  proof -
    have ms: "mach_same s ?t" by (simp add: mach_same_def upd_buf_def)
    show "lock_free lk ?t" using cache_invD(2) [OF assms(1), of lk] by simp
    show "runs q ?t" using cache_invD(1) [OF assms(1)] mach_same_facts [OF ms] by (simp add: runs_def)
  qed
  ultimately have inv: "cache_inv q H ?t" using cache_invD(4,7) [OF assms(1)] bo(3) by (simp add: cache_inv_def)
  have "view ?t m = view s m" for m
  proof (cases "\<exists>c. holds_block s m c")
    case True
    then obtain c where c: "holds_block s m c" by blast
    then show ?thesis using view_held [OF o, of m c] view_held [OF cache_invD(6) [OF assms(1)] c] hb at by simp
  next
    case False
    then have "m \<noteq> n" using assms(3) by auto
    then show ?thesis using view_disk [of s m] view_disk [of ?t m] hb False by simp
  qed
  moreover have "pinned ?t = pinned s - {b}" using at fl by (auto simp: pinned_def)
  moreover have "bio_frame s ?t" by (simp add: bio_frame_def upd_buf_def)
  moreover have "memdisk ?t = (memdisk s)(n := b_data (buf_at s b))" "diskw ?t = diskw s @ [(n, b_data (buf_at s b))]" by simp_all
  ultimately show ?thesis using w inv hb at fl unfolding block_written_def by (intro exI [of _ ?t]) simp
qed

lemma brelse_calm:
  assumes "cache_inv q H s" and "b \<in> H" and "b < NBUF"
  shows "brelse b s = Inr (wakeup1 (Some (Ch_buflock b)) (upd_slock (L_buf b) \<lparr>sl_locked = False, sl_pid = 0\<rparr>
    (s\<lparr>bufs := link_front b (unlink b (upd_nth b (\<lambda>x. x\<lparr>b_refcnt := 0\<rparr>) (bufs s)))\<rparr>)))"
proof -
  note r = cache_runs [OF assms(1)] and f = cache_invD(2) [OF assms(1)]
  have b: "slocks s (L_buf b) = own q s" "b_refcnt (buf_at s b) = 1"
    using cache_invD(5) [OF assms(1,3)] assms(2) by (simp_all add: buf_ok_def Let_def)
  have u: "upd_nth b (\<lambda>x. x\<lparr>b_refcnt := b_refcnt x - 1\<rparr>) (bufs s) = upd_nth b (\<lambda>x. x\<lparr>b_refcnt := 0\<rparr>) (bufs s)"
    using b(2) by (simp add: upd_nth_def)
  have w: "upd_buf b g (wakeup1 ch (upd_slock lk x s)) = wakeup1 ch (upd_slock lk x (upd_buf b g s))"
    "(wakeup1 ch (upd_slock lk x s))\<lparr>bufs := bs\<rparr> = wakeup1 ch (upd_slock lk x (s\<lparr>bufs := bs\<rparr>))" for g ch lk x bs
    by (simp_all add: upd_buf_def wakeup1_def upd_slock_def)
  show ?thesis
    using r(1-3) f b(1) assms(3)
    by (simp add: brelse_def holdingsleep_calm releasesleep_calm Let_def w upd_nth_sel b(2))
      (simp add: upd_buf_def w u upd_slock_def wakeup1_def)
qed

lemma relinked_buf:
  assumes "length (bufs s) = 31" and "b < NBUF" and "c \<le> NBUF"
  shows "core (link_front b (unlink b (upd_nth b (\<lambda>x. x\<lparr>b_refcnt := 0\<rparr>) (bufs s))) ! c) =
    core (if c = b then (buf_at s b)\<lparr>b_refcnt := 0\<rparr> else buf_at s c)"
proof -
  let ?u = "upd_nth b (\<lambda>x. x\<lparr>b_refcnt := 0\<rparr>) (bufs s)"
  have "map core (link_front b (unlink b ?u)) = map core ?u" by (simp add: core_link_front core_unlink)
  moreover have "c < length ?u" using assms by simp
  ultimately have "core (link_front b (unlink b ?u) ! c) = core (?u ! c)" by (metis map_eq_imp_length_eq nth_map)
  then show ?thesis using assms by (simp add: upd_nth_sel)
qed

lemma ring_release:
  assumes "cache_inv q H s" and "b < NBUF"
  shows "\<exists>xs. ring (link_front b (unlink b (upd_nth b (\<lambda>x. x\<lparr>b_refcnt := 0\<rparr>) (bufs s)))) xs"
proof -
  obtain xs where "ring (bufs s) xs" using cache_invD(3) [OF assms(1)] by blast
  then have x: "ring (upd_nth b (\<lambda>x. x\<lparr>b_refcnt := 0\<rparr>) (bufs s)) xs" by (rule ring_upd_nth) simp
  moreover have "b \<in> set xs" using x assms(2) by (simp add: ring_def)
  ultimately obtain ys zs where "ring (upd_nth b (\<lambda>x. x\<lparr>b_refcnt := 0\<rparr>) (bufs s)) (ys @ b # zs)" by (metis split_list)
  then show ?thesis using ring_front by metis
qed

lemma runs_bufs: "runs q (s\<lparr>bufs := bs\<rparr>) = runs q s"
proof -
  have "mach_same s (s\<lparr>bufs := bs\<rparr>)" by (simp add: mach_same_def)
  then show ?thesis using mach_same_facts [of s "s\<lparr>bufs := bs\<rparr>"] by (simp add: runs_def)
qed

lemma brelse_ok:
  assumes "cache_inv q H s" and "b \<in> H" and "dirty_buf (buf_at s b) \<or> b_data (buf_at s b) = memdisk s (b_blockno (buf_at s b))"
  shows "\<exists>t. brelse b s = Inr t \<and> block_released q H s b t"
proof -
  have b: "b < 30" using assms(2) cache_invD(4) [OF assms(1)] by auto
  let ?l = "link_front b (unlink b (upd_nth b (\<lambda>x. x\<lparr>b_refcnt := 0\<rparr>) (bufs s)))"
  let ?t = "wakeup1 (Some (Ch_buflock b)) (upd_slock (L_buf b) \<lparr>sl_locked = False, sl_pid = 0\<rparr> (s\<lparr>bufs := ?l\<rparr>))"
  note r = cache_runs [OF assms(1)]
  have bt: "bufs ?t = ?l" "memdisk ?t = memdisk s" "diskw ?t = diskw s" by simp_all
  have sl: "slocks ?t = (slocks s)(L_buf b := \<lparr>sl_locked = False, sl_pid = 0\<rparr>)" by simp
  have fd: "b_flags (buf_at ?t c) = b_flags (buf_at s c)" "b_dev (buf_at ?t c) = b_dev (buf_at s c)"
      "b_blockno (buf_at ?t c) = b_blockno (buf_at s c)" "b_data (buf_at ?t c) = b_data (buf_at s c)"
      "b_refcnt (buf_at ?t c) = (if c = b then 0 else b_refcnt (buf_at s c))" if "c \<le> 30" for c
    using core_fields [OF relinked_buf [OF r(3) b that]] by (simp_all add: bt)
  have vd: "valid_buf (buf_at ?t c) = valid_buf (buf_at s c)" "dirty_buf (buf_at ?t c) = dirty_buf (buf_at s c)" if "c \<le> 30" for c
    using fd(1) [OF that] by (simp_all add: valid_buf_def dirty_buf_def)
  have hb: "holds_block ?t m c = holds_block s m c" for m c
    unfolding holds_block_def using vd(1) [of c] fd(3) [of c] by (cases "c < 30") simp_all
  have pid: "map pid (procs ?t) = map pid (procs s)" by (simp add: wakeup1_def)
  then have "pid (proc_at ?t q) = pid (proc_at s q)"
    using r(4,5) by (metis (no_types, lifting) length_map nth_map)
  then have ow: "own q ?t = own q s" by (simp add: own_def)
  have "buf_ok q (H - {b}) ?t c" if "c < NBUF" for c
    using cache_invD(5) [OF assms(1) that] assms(3) that unfolding buf_ok_def Let_def ow sl bt(2) vd [OF less_imp_le [OF that]] fd [OF less_imp_le [OF that]]
    by auto
  moreover have o: "one_buf ?t" using one_buf_same [of ?t s] hb cache_invD(6) [OF assms(1)] by simp
  moreover have "\<exists>xs. ring (bufs ?t) xs" using ring_release [OF assms(1) b] bt(1) by simp
  moreover have "runs q ?t" "lock_free lk ?t" for lk
    using cache_invD(2) [OF assms(1), of lk] cache_invD(1) [OF assms(1)] by (simp_all add: runs_bufs)
  ultimately have inv: "cache_inv q (H - {b}) ?t" using cache_invD(4,7) [OF assms(1)] by (auto simp: cache_inv_def)
  have vw: "view ?t m = view s m" for m
  proof (cases "\<exists>c. holds_block s m c")
    case True
    then obtain c where c: "holds_block s m c" by blast
    then have "c \<le> 30" by (simp add: holds_block_def)
    then show ?thesis using view_held [OF o, of m c] view_held [OF cache_invD(6) [OF assms(1)] c] hb c fd(4) by simp
  next
    case False
    then show ?thesis using view_disk [of s m] view_disk [of ?t m] hb by simp
  qed
  have "pinned ?t = pinned s" using vd(2) by (auto simp: pinned_def less_imp_le)
  moreover have "bio_frame s ?t" using pid by (simp add: bio_frame_def wakeup1_def upd_slock_def)
  ultimately show ?thesis
    using brelse_calm [OF assms(1,2) b] inv vw hb fd(1,4) bt(2,3) unfolding block_released_def by (intro exI [of _ ?t]) simp
qed

section \<open>Copying a block\<close>

lemma play_simps [simp]: "play [] D = D" "play (w # ws) D = play ws (D(fst w := snd w))" "play (ws @ ws') D = play ws' (play ws D)"
  by (simp_all add: play_def)

lemma play_const:
  "(\<And>w. w \<in> set ws \<Longrightarrow> fst w = m \<Longrightarrow> snd w = v) \<Longrightarrow> play ws D m = (if m \<in> fst ` set ws then v else D m)"
  by (induction ws arbitrary: D) (auto simp: image_iff)

lemma wrote_blocks_refl: "cache_inv q {} s \<Longrightarrow> wrote_blocks q [] s s"
  by (simp add: wrote_blocks_def)

lemma wrote_blocks_trans: "wrote_blocks q ws s t \<Longrightarrow> wrote_blocks q ws' t u \<Longrightarrow> wrote_blocks q (ws @ ws') s u"
  using bio_frame_trans [of s t u] by (auto simp: wrote_blocks_def)

lemma dirty_blocks_image: "cache_inv q H s \<Longrightarrow> dirty_blocks s = (\<lambda>c. b_blockno (buf_at s c)) ` pinned s"
proof -
  assume i: "cache_inv q H s"
  have "valid_buf (buf_at s c)" if "c \<in> pinned s" for c
    using cache_invD(5) [OF i, of c] that by (simp add: pinned_def buf_ok_def Let_def)
  then show ?thesis by (auto simp: dirty_blocks_def pinned_def holds_block_def)
qed

lemma card_pinned: "cache_inv q H s \<Longrightarrow> card (pinned s) = card (dirty_blocks s)"
proof -
  assume i: "cache_inv q H s"
  have "inj_on (\<lambda>c. b_blockno (buf_at s c)) (pinned s)"
  proof (rule inj_onI)
    fix x y assume "x \<in> pinned s" "y \<in> pinned s" and e: "b_blockno (buf_at s x) = b_blockno (buf_at s y)"
    then have "holds_block s (b_blockno (buf_at s x)) x" "holds_block s (b_blockno (buf_at s x)) y"
      using cache_invD(5) [OF i] by (auto simp: pinned_def holds_block_def buf_ok_def Let_def)
    then show "x = y" by (rule one_bufD [OF cache_invD(6) [OF i]])
  qed
  then show ?thesis by (simp add: dirty_blocks_image [OF i] card_image)
qed

lemma bio_frame_disksize: "bio_frame s t \<Longrightarrow> disksize t = disksize s"
proof -
  assume "bio_frame s t"
  from bio_frameD [OF this] have "disksize t = disksize (s\<lparr>procs := procs t, slocks := slocks t, bufs := bufs t,
    memdisk := memdisk t, diskw := diskw t\<rparr>)" by (rule arg_cong)
  then show ?thesis by simp
qed

lemma dirty_minus:
  assumes "cache_inv q H s" and "holds_block s n d"
    and "\<And>k c. c < NBUF \<Longrightarrow> holds_block y k c = holds_block s k c"
    and "\<And>c. c < NBUF \<Longrightarrow> dirty_buf (buf_at y c) \<longleftrightarrow> c \<noteq> d \<and> dirty_buf (buf_at s c)"
  shows "dirty_blocks y = dirty_blocks s - {n}"
proof (rule set_eqI)
  fix k
  have "k = n" if "holds_block s k d" using that assms(2) by (simp add: holds_block_def)
  moreover have "c = d" if "holds_block s n c" for c using one_bufD [OF cache_invD(6) [OF assms(1)] that assms(2)] .
  moreover have "c < 30" if "holds_block s k c \<or> holds_block y k c" for c using that by (auto simp: holds_block_def)
  ultimately show "k \<in> dirty_blocks y \<longleftrightarrow> k \<in> dirty_blocks s - {n}" using assms(3,4) unfolding dirty_blocks_def by blast
qed

lemma copy_rest:
  assumes "cache_inv q {f, d} s" and "f \<noteq> d" and "holds_block s m f" and "holds_block s n d" and "n < disksize s"
    and "dirty_buf (buf_at s f) \<or> b_data (buf_at s f) = memdisk s m"
  shows "\<exists>t. bindR (bwrite d (upd_buf d (\<lambda>x. x\<lparr>b_data := b_data (buf_at s f)\<rparr>) s)) (\<lambda>s. bindR (brelse f s) (\<lambda>s. brelse d s)) = Inr t \<and>
    wrote_blocks q [(n, view s m)] s t"
proof -
  let ?v = "b_data (buf_at s f)"
  have f: "f < 30" "length ?v = 512" "?v = view s m"
    using assms(3) cache_invD(5) [OF assms(1), of f] view_held [OF cache_invD(6) [OF assms(1)] assms(3)]
    by (auto simp: holds_block_def buf_ok_def Let_def)
  have mn: "m \<noteq> n" using one_bufD [OF cache_invD(6) [OF assms(1)] assms(3), of d] assms(2,4) by auto
  define u where "u = upd_buf d (\<lambda>x. x\<lparr>b_data := ?v\<rparr>) s"
  have dH: "d \<in> {f, d}" by simp
  note u = set_data_ok [OF assms(1) dH f(2) assms(4) u_def]
  have uf: "memdisk u = memdisk s" "diskw u = diskw s" "disksize u = disksize s" "bio_frame s u" by (simp_all add: u_def)
  have hd: "holds_block u n d" "n < disksize u" using u(4) assms(4,5) uf by auto
  obtain w where w: "bwrite d u = Inr w" "block_written q {f, d} n u d w" using bwrite_ok [OF u(1) dH hd] by blast
  have wf: "cache_inv q {f, d} w" "memdisk w = (memdisk s)(n := ?v)" "\<not> dirty_buf (buf_at w d)" "buf_at w f = buf_at s f"
      "b_data (buf_at w d) = ?v" "\<And>k c. holds_block w k c = holds_block s k c" "pinned w = pinned s - {d}" "bio_frame u w"
      "diskw w = diskw s @ [(n, ?v)]" "\<And>k. view w k = view u k"
    using w(2) uf u assms(2) unfolding block_written_def by auto
  have bn: "b_blockno (buf_at s f) = m" using assms(3) by (simp add: holds_block_def)
  have "dirty_buf (buf_at w f) \<or> b_data (buf_at w f) = memdisk w (b_blockno (buf_at w f))"
    using assms(6) wf(2,4) mn bn by auto
  then obtain x where x: "brelse f w = Inr x" "block_released q {f, d} w f x" using brelse_ok [OF wf(1), of f] by blast
  have dl: "d < 30" using assms(4) by (simp add: holds_block_def)
  have xf: "cache_inv q {d} x" "memdisk x = memdisk w" "b_data (buf_at x d) = ?v" "holds_block x n d"
    using x(2) wf assms(2,4) dl by (auto simp: block_released_def insert_Diff_if)
  have "b_data (buf_at x d) = memdisk x (b_blockno (buf_at x d))" using xf(2-4) wf(2) by (simp add: holds_block_def)
  then obtain y where y: "brelse d x = Inr y" "block_released q {d} x d y" using brelse_ok [OF xf(1), of d] by blast
  have fl: "b_flags (buf_at y c) = b_flags (buf_at w c)" "holds_block y k c = holds_block s k c" if "c < 30" for k c
    using x(2) y(2) wf(6) that by (auto simp: block_released_def)
  have "dirty_blocks y = dirty_blocks s - {n}"
  proof (rule dirty_minus [OF assms(1,4)])
    show "holds_block y k c = holds_block s k c" if "c < NBUF" for k c using fl(2) that by simp
    show "dirty_buf (buf_at y c) \<longleftrightarrow> c \<noteq> d \<and> dirty_buf (buf_at s c)" if "c < NBUF" for c
      using fl(1) [OF that] wf(7) that by (auto simp: dirty_buf_def pinned_def)
  qed
  moreover have "view y = (view s)(n := ?v)" using x(2) y(2) wf(10) u(2) by (auto simp: block_released_def fun_eq_iff)
  moreover have "cache_inv q {} y" "memdisk y = (memdisk s)(n := ?v)" "diskw y = diskw s @ [(n, ?v)]"
    using x(2) y(2) wf(2,9) by (auto simp: block_released_def)
  moreover have "bio_frame s y" using uf(4) wf(8) x(2) y(2) unfolding block_released_def by (meson bio_frame_trans)
  ultimately show ?thesis using w(1) x(1) y(1) f(3) by (intro exI [of _ y]) (simp add: u_def wrote_blocks_def)
qed

lemma second_read:
  assumes "block_read q {} n s a t" and "m < disksize s" and "m \<noteq> n" and "m \<in> dirty_blocks s \<or> card (dirty_blocks s) + 1 < NBUF"
  shows "\<exists>b u. bread 1 m t = Inr (b, u) \<and> block_read q {a} m t b u"
proof (rule bread_ok)
  note r = assms(1) [unfolded block_read_def]
  show i: "cache_inv q {a} t" and "m < disksize t" using r assms(2) bio_frame_disksize [of s t] by auto
  show "\<forall>b\<in>{a}. \<not> holds_block t m b" using r assms(3) by (auto simp: holds_block_def)
  have "card (pinned t \<union> {a}) \<le> card (pinned t) + 1" using card_Un_le [of "pinned t" "{a}"] by simp
  moreover have "card (pinned t) = card (dirty_blocks s)" using card_pinned [OF i] r by simp
  moreover have "\<exists>b. holds_block t m b" if "m \<in> dirty_blocks s" using that r by (auto simp: dirty_blocks_def)
  ultimately show "(\<exists>b. holds_block t m b) \<or> card (pinned t \<union> {a}) < NBUF" using assms(4) by auto
qed

lemma copy_block:
  assumes "cache_inv q {} s" and "n < disksize s" and "m < disksize s" and "m \<noteq> n"
    and "card (dirty_blocks s) < NBUF"
  shows "m \<in> dirty_blocks s \<or> card (dirty_blocks s) + 1 < NBUF \<Longrightarrow>
     \<exists>d f u v t. bread 1 n s = Inr (d, u) \<and> bio_frame s u \<and> bread 1 m u = Inr (f, v) \<and>
        bindR (bwrite d (upd_buf d (\<lambda>x. x\<lparr>b_data := b_data (buf_at v f)\<rparr>) v)) (\<lambda>s. bindR (brelse f s) (\<lambda>s. brelse d s)) = Inr t \<and>
        wrote_blocks q [(n, view s m)] s t"
    and "n \<in> dirty_blocks s \<or> card (dirty_blocks s) + 1 < NBUF \<Longrightarrow>
     \<exists>d f u v t. bread 1 m s = Inr (f, u) \<and> bio_frame s u \<and> bread 1 n u = Inr (d, v) \<and>
        bindR (bwrite d (upd_buf d (\<lambda>x. x\<lparr>b_data := b_data (buf_at v f)\<rparr>) v)) (\<lambda>s. bindR (brelse f s) (\<lambda>s. brelse d s)) = Inr t \<and>
        wrote_blocks q [(n, view s m)] s t"
proof -
  have room: "card (pinned s \<union> {}) < NBUF" using assms(5) card_pinned [OF assms(1)] by simp
  have rest: "\<exists>t. bindR (bwrite d (upd_buf d (\<lambda>x. x\<lparr>b_data := b_data (buf_at u f)\<rparr>) u)) (\<lambda>s. bindR (brelse f s) (\<lambda>s. brelse d s)) = Inr t \<and>
      wrote_blocks q [(n, view s m)] s t"
    if "cache_inv q {f, d} u" "f \<noteq> d" "holds_block u m f" "holds_block u n d"
      "dirty_buf (buf_at u f) \<or> b_data (buf_at u f) = memdisk u m" "memdisk u = memdisk s" "diskw u = diskw s"
      "\<forall>k. view u k = view s k" "dirty_blocks u = dirty_blocks s" "bio_frame s u" for f d u
  proof -
    have "n < disksize u" using bio_frame_disksize [OF that(10)] assms(2) by simp
    moreover have "view u = view s" using that(8) by auto
    ultimately show ?thesis
      using copy_rest [OF that(1-4) _ that(5)] that(6,7,9,10) bio_frame_trans [of s u] unfolding wrote_blocks_def by auto
  qed
  show "\<exists>d f u v t. bread 1 n s = Inr (d, u) \<and> bio_frame s u \<and> bread 1 m u = Inr (f, v) \<and>
        bindR (bwrite d (upd_buf d (\<lambda>x. x\<lparr>b_data := b_data (buf_at v f)\<rparr>) v)) (\<lambda>s. bindR (brelse f s) (\<lambda>s. brelse d s)) = Inr t \<and>
        wrote_blocks q [(n, view s m)] s t"
    if r: "m \<in> dirty_blocks s \<or> card (dirty_blocks s) + 1 < NBUF"
  proof -
    obtain d t where t: "bread 1 n s = Inr (d, t)" "block_read q {} n s d t" using bread_ok [OF assms(1,2)] room by auto
    obtain f u where u: "bread 1 m t = Inr (f, u)" "block_read q {d} m t f u" using second_read [OF t(2) assms(3,4) r] by blast
    have "holds_block u n d" "f \<noteq> d" using t(2) u(2) by (auto simp: block_read_def holds_block_def)
    then have "\<exists>t. bindR (bwrite d (upd_buf d (\<lambda>x. x\<lparr>b_data := b_data (buf_at u f)\<rparr>) u)) (\<lambda>s. bindR (brelse f s) (\<lambda>s. brelse d s)) = Inr t \<and>
      wrote_blocks q [(n, view s m)] s t"
      using t(2) u(2) bio_frame_trans [of s t u] unfolding block_read_def by (intro rest) auto
    then show ?thesis using t u(1) unfolding block_read_def by blast
  qed
  show "\<exists>d f u v t. bread 1 m s = Inr (f, u) \<and> bio_frame s u \<and> bread 1 n u = Inr (d, v) \<and>
        bindR (bwrite d (upd_buf d (\<lambda>x. x\<lparr>b_data := b_data (buf_at v f)\<rparr>) v)) (\<lambda>s. bindR (brelse f s) (\<lambda>s. brelse d s)) = Inr t \<and>
        wrote_blocks q [(n, view s m)] s t"
    if r: "n \<in> dirty_blocks s \<or> card (dirty_blocks s) + 1 < NBUF"
  proof -
    obtain f t where t: "bread 1 m s = Inr (f, t)" "block_read q {} m s f t" using bread_ok [OF assms(1,3)] room by auto
    obtain d u where u: "bread 1 n t = Inr (d, u)" "block_read q {f} n t d u"
      using second_read [OF t(2) assms(2) assms(4) [symmetric] r] by blast
    have "holds_block u m f" "f \<noteq> d" "buf_at u f = buf_at t f" using t(2) u(2) by (auto simp: block_read_def holds_block_def)
    then have "\<exists>t. bindR (bwrite d (upd_buf d (\<lambda>x. x\<lparr>b_data := b_data (buf_at u f)\<rparr>) u)) (\<lambda>s. bindR (brelse f s) (\<lambda>s. brelse d s)) = Inr t \<and>
      wrote_blocks q [(n, view s m)] s t"
      using t(2) u(2) bio_frame_trans [of s t u] unfolding block_read_def by (intro rest) (auto simp: insert_commute)
    then show ?thesis using t u(1) unfolding block_read_def by blast
  qed
qed

text \<open>Writing new contents to a block that has been read.\<close>

lemma put_rest:
  assumes "cache_inv q {d} s" and "holds_block s n d" and "n < disksize s" and "length v = BSIZE"
  shows "\<exists>t. bindR (bwrite d (upd_buf d (\<lambda>x. x\<lparr>b_data := v\<rparr>) s)) (\<lambda>s. brelse d s) = Inr t \<and> wrote_blocks q [(n, v)] s t"
proof -
  define u where "u = upd_buf d (\<lambda>x. x\<lparr>b_data := v\<rparr>) s"
  have dH: "d \<in> {d}" by simp
  note u = set_data_ok [OF assms(1) dH assms(4,2) u_def]
  have uf: "memdisk u = memdisk s" "diskw u = diskw s" "disksize u = disksize s" "bio_frame s u" by (simp_all add: u_def)
  have hd: "holds_block u n d" "n < disksize u" using u(4) assms(2,3) uf by auto
  obtain w where w: "bwrite d u = Inr w" "block_written q {d} n u d w" using bwrite_ok [OF u(1) dH hd] by blast
  have wf: "cache_inv q {d} w" "memdisk w = (memdisk s)(n := v)" "b_data (buf_at w d) = v"
      "\<And>k c. holds_block w k c = holds_block s k c" "pinned w = pinned s - {d}" "bio_frame u w"
      "diskw w = diskw s @ [(n, v)]" "\<And>k. view w k = view u k"
    using w(2) uf u unfolding block_written_def by auto
  have "holds_block w n d" using wf(4) assms(2) by simp
  then have "b_data (buf_at w d) = memdisk w (b_blockno (buf_at w d))" using wf(2,3) by (simp add: holds_block_def)
  then obtain y where y: "brelse d w = Inr y" "block_released q {d} w d y" using brelse_ok [OF wf(1), of d] by blast
  have "dirty_blocks y = dirty_blocks s - {n}"
  proof (rule dirty_minus [OF assms(1,2)])
    show "holds_block y k c = holds_block s k c" if "c < NBUF" for k c using y(2) wf(4) that by (auto simp: block_released_def)
    have "b_flags (buf_at y c) = b_flags (buf_at w c)" if "c < 30" for c using y(2) that by (auto simp: block_released_def)
    then show "dirty_buf (buf_at y c) \<longleftrightarrow> c \<noteq> d \<and> dirty_buf (buf_at s c)" if "c < NBUF" for c
      using wf(5) that by (auto simp: dirty_buf_def pinned_def)
  qed
  moreover have "view y = (view s)(n := v)" using y(2) wf(8) u(2) by (auto simp: block_released_def fun_eq_iff)
  moreover have "bio_frame s y" using uf(4) wf(6) y(2) unfolding block_released_def by (meson bio_frame_trans)
  ultimately show ?thesis using w(1) y wf(2,7) by (intro exI [of _ y]) (simp add: u_def wrote_blocks_def block_released_def)
qed

lemma view_length:
  assumes "cache_inv q H s"
  shows "length (view s n) = BSIZE"
proof (cases "\<exists>b. holds_block s n b")
  case True
  then obtain b where b: "holds_block s n b" by blast
  then show ?thesis using view_held [OF cache_invD(6) [OF assms] b] cache_invD(5) [OF assms, of b]
    by (simp add: holds_block_def buf_ok_def Let_def)
next
  case False
  then show ?thesis using view_disk [of s n] cache_invD(7) [OF assms] by simp
qed

lemma view_clean: "cache_inv q {} s \<Longrightarrow> n \<notin> dirty_blocks s \<Longrightarrow> view s n = memdisk s n"
proof -
  assume i: "cache_inv q {} s" and c: "n \<notin> dirty_blocks s"
  show ?thesis
  proof (cases "\<exists>b. holds_block s n b")
    case True
    then obtain b where b: "holds_block s n b" by blast
    have "b < 30" "valid_buf (buf_at s b)" "b_blockno (buf_at s b) = n" "\<not> dirty_buf (buf_at s b)"
      using b c by (auto simp: holds_block_def dirty_blocks_def)
    then show ?thesis using view_held [OF cache_invD(6) [OF i] b] cache_invD(5) [OF i, of b] by (simp add: buf_ok_def Let_def)
  next
    case False
    then show ?thesis using view_disk by blast
  qed
qed

section \<open>The cache at boot\<close>

lemma link_all:
  assumes "length bs = 31" and "b_next (bs ! NBUF) = NBUF" and "b_prev (bs ! NBUF) = NBUF" and "n \<le> NBUF"
  shows "let cs = foldl (\<lambda>bs b. link_front b bs) bs [0..<n]
    in seg cs NBUF (rev [0..<n]) NBUF \<and> length cs = 31 \<and> map core cs = map core bs"
  using assms(4)
proof (induction n)
  case 0
  then show ?case using assms(1-3) by simp
next
  case (Suc n)
  let ?cs = "foldl (\<lambda>bs b. link_front b bs) bs [0..<n]"
  have i: "seg ?cs 30 (rev [0..<n]) 30" "length ?cs = 31" "map core ?cs = map core bs" using Suc by (simp_all add: Let_def)
  have "seg (link_front n ?cs) NBUF (n # rev [0..<n]) NBUF"
    using i(1,2) Suc.prems by (intro link_front_seg) auto
  moreover have "map core (link_front n ?cs) = map core bs" using i(3) by (simp add: core_link_front)
  moreover have "length (link_front n ?cs) = 31" using i(2) map_eq_imp_length_eq [OF core_link_front, of n ?cs] by simp
  ultimately show ?case by (simp add: Let_def)
qed

lemma initlock_free: "lock_free lk s \<Longrightarrow> initlock lk s = s"
  by (simp add: initlock_def lock_free_def fun_upd_idem)

lemma binit_fold:
  assumes "\<And>lk. lock_free lk s"
  shows "let t = foldl (\<lambda>s b. initsleeplock (L_buf b) (s\<lparr>bufs := link_front b (bufs s)\<rparr>)) s [0..<n]
    in bufs t = foldl (\<lambda>bs b. link_front b bs) (bufs s) [0..<n] \<and> (\<forall>b<n. \<not> sl_locked (slocks t (L_buf b))) \<and>
       mach_same s t \<and> procs t = procs s \<and> memdisk t = memdisk s \<and> bio_frame s t"
proof (induction n)
  case 0
  show ?case by simp
next
  case (Suc n)
  define t where "t = foldl (\<lambda>s b. initsleeplock (L_buf b) (s\<lparr>bufs := link_front b (bufs s)\<rparr>)) s [0..<n]"
  have i: "bufs t = foldl (\<lambda>bs b. link_front b bs) (bufs s) [0..<n]" "\<forall>b<n. \<not> sl_locked (slocks t (L_buf b))"
      "mach_same s t" "procs t = procs s" "memdisk t = memdisk s" "bio_frame s t" using Suc unfolding t_def Let_def by blast+
  let ?l = "\<lparr>sl_locked = False, sl_pid = 0\<rparr>" and ?u = "t\<lparr>bufs := link_front n (bufs t)\<rparr>"
  have "lock_free (L_buf n) ?u" using mach_same_facts(5) [OF i(3)] assms by simp
  then have "initsleeplock (L_buf n) ?u = upd_slock (L_buf n) ?l ?u" by (simp add: initsleeplock_def initlock_free)
  then have e: "foldl (\<lambda>s b. initsleeplock (L_buf b) (s\<lparr>bufs := link_front b (bufs s)\<rparr>)) s [0..<Suc n] = upd_slock (L_buf n) ?l ?u"
    by (simp add: t_def)
  have "bio_frame t (upd_slock (L_buf n) ?l ?u)" by (simp add: bio_frame_def upd_slock_def)
  moreover have "mach_same t (upd_slock (L_buf n) ?l ?u)" by (simp add: mach_same_def upd_slock_def)
  moreover have "bufs (upd_slock (L_buf n) ?l ?u) = foldl (\<lambda>bs b. link_front b bs) (bufs s) [0..<Suc n]" using i(1) by simp
  ultimately show ?case unfolding e Let_def
    using i(2,4,5) bio_frame_trans [OF i(6)] mach_same_trans [OF i(3)] by (simp add: less_Suc_eq)
qed

lemma binit_cache:
  assumes "blank_cache q s"
  shows "cache_inv q {} (binit s)" "dirty_blocks (binit s) = {}" "bio_frame s (binit s)" "memdisk (binit s) = memdisk s"
    "ring (bufs (binit s)) (rev [0..<NBUF])" "\<not> holds_block (binit s) m b"
proof -
  have b: "runs q s" "\<And>lk. lock_free lk s" "length (bufs s) = 31" "\<And>n. length (memdisk s n) = 512"
    "\<And>b. b < 30 \<Longrightarrow> b_flags (buf_at s b) = 0 \<and> b_dev (buf_at s b) = 0 \<and> b_refcnt (buf_at s b) = 0 \<and> length (b_data (buf_at s b)) = 512"
    using assms by (simp_all add: blank_cache_def)
  define u where "u = upd_buf NBUF (\<lambda>x. x\<lparr>b_prev := NBUF, b_next := NBUF\<rparr>) s"
  define cs where "cs = foldl (\<lambda>bs b. link_front b bs) (bufs u) [0..<30]"
  have lu: "length (bufs u) = 31" "b_next (bufs u ! 30) = 30" "b_prev (bufs u ! 30) = 30"
    using b(3) by (simp_all add: u_def upd_nth_sel)
  have cs: "seg cs 30 (rev [0..<30]) 30" "length cs = 31" "map core cs = map core (bufs u)"
    using link_all [OF lu, of 30] unfolding cs_def Let_def by blast+
  have mu: "map core (bufs u) = map core (bufs s)" by (simp add: u_def map_upd_nth)
  have core: "core (cs ! c) = core (buf_at s c)" if "c < 30" for c
  proof -
    have "map core cs ! c = map core (bufs s) ! c" using cs(3) mu by simp
    then show ?thesis using that cs(2) b(3) by simp
  qed
  have "lock_free lk u" for lk using b(2) by (simp add: u_def)
  note f = binit_fold [OF this, of 30, folded cs_def, unfolded Let_def]
  have bi: "binit s = foldl (\<lambda>s b. initsleeplock (L_buf b) (s\<lparr>bufs := link_front b (bufs s)\<rparr>)) u [0..<NBUF]"
    unfolding binit_def Let_def initlock_free [OF b(2)] u_def ..
  have bt: "bufs (binit s) = cs" "\<And>b. b < 30 \<Longrightarrow> \<not> sl_locked (slocks (binit s) (L_buf b))" "mach_same u (binit s)"
      "procs (binit s) = procs u" "bio_frame u (binit s)" "memdisk (binit s) = memdisk u"
    using f unfolding bi by blast+
  show md: "memdisk (binit s) = memdisk s" using bt(6) by (simp add: u_def)
  show "bio_frame s (binit s)" using bio_frame_trans [OF _ bt(5), of s] by (simp add: u_def)
  show rg: "ring (bufs (binit s)) (rev [0..<NBUF])" unfolding ring_def bt(1) using cs(1,2) by (simp only: distinct_rev distinct_upt set_rev set_upt) auto
  have fd: "b_flags (buf_at (binit s) c) = 0" "b_dev (buf_at (binit s) c) = 0" "b_refcnt (buf_at (binit s) c) = 0"
      "length (b_data (buf_at (binit s) c)) = 512" if "c < 30" for c
    using core_fields [OF core [OF that]] b(5) [OF that] by (simp_all add: bt(1))
  then have nv: "\<not> valid_buf (buf_at (binit s) c)" "\<not> dirty_buf (buf_at (binit s) c)" if "c < 30" for c
    using that by (simp_all add: valid_buf_def dirty_buf_def)
  show "\<not> holds_block (binit s) m b" using nv by (auto simp: holds_block_def)
  show "dirty_blocks (binit s) = {}" using nv by (auto simp: dirty_blocks_def holds_block_def)
  have "runs q (binit s)" "lock_free lk (binit s)" for lk
  proof -
    have "runs q u" "lock_free lk u" using b(1,2) by (simp_all add: u_def)
    then show "runs q (binit s)" "lock_free lk (binit s)"
      using mach_same_facts [OF bt(3)] calm_same [OF bt(3)] cur_same [OF bt(3)] bt(4) by (simp_all add: runs_def)
  qed
  moreover have "\<forall>c<NBUF. buf_ok q {} (binit s) c" using fd nv bt(2) by (simp add: buf_ok_def Let_def)
  moreover have "one_buf (binit s)" using nv by (simp add: one_buf_def)
  ultimately show "cache_inv q {} (binit s)" using rg b(4) md unfolding cache_inv_def by auto
qed

lemma find_split: "find P xs = Some x \<Longrightarrow> \<exists>ys zs. xs = ys @ x # zs \<and> P x \<and> (\<forall>y\<in>set ys. \<not> P y)"
proof (induction xs)
  case (Cons y ys)
  show ?case
  proof (cases "P y")
    case True
    then show ?thesis using Cons.prems by (intro exI [of _ "[]"] exI [of _ ys]) simp
  next
    case False
    then obtain as bs where "ys = as @ x # bs" "P x" "\<forall>y\<in>set as. \<not> P y" using Cons by auto
    then show ?thesis using False by (intro exI [of _ "y # as"] exI [of _ bs]) simp
  qed
qed simp

lemma bread_lru:
  assumes "cache_inv q H s" and "n < disksize s" and "ring (bufs s) xs" and "\<And>b. \<not> holds_block s n b"
  shows "least_used s xs = Some b \<Longrightarrow> \<exists>t. bread 1 n s = Inr (b, t) \<and> ring (bufs t) xs"
    and "least_used s xs = None \<Longrightarrow> bread 1 n s = Inl (Panic ''bget: no buffers'')"
proof -
  note r = cache_runs [OF assms(1)]
  have no: "cached_in s n xs = None"
  proof (rule ccontr)
    assume "cached_in s n xs \<noteq> None"
    then obtain c where "c \<in> set xs" "b_dev (buf_at s c) = 1" "b_blockno (buf_at s c) = n"
      by (auto simp: cached_in_def dest!: find_SomeD)
    then have "holds_block s n c"
      using assms(3) cache_invD(5) [OF assms(1), of c] by (auto simp: ring_def holds_block_def buf_ok_def Let_def)
    then show False using assms(4) by blast
  qed
  have fr: "\<not> sl_locked (slocks s (L_buf c)) \<or> c \<in> H \<union> {30..}" for c using cache_free [OF assms(1), of c] by auto
  show "\<exists>t. bread 1 n s = Inr (b, t) \<and> ring (bufs t) xs" if lu: "least_used s xs = Some b"
  proof -
    have b: "b \<in> set xs" "b_refcnt (buf_at s b) = 0" using find_SomeD [OF lu [unfolded least_used_def]] by simp_all
    have "b < 30" using b(1) assms(3) by (simp add: ring_def)
    moreover have "b \<notin> H" using b(2) cache_invD(5) [OF assms(1) calculation] by (auto simp: buf_ok_def Let_def)
    ultimately have "bread 1 n s = Inr (b, upd_slock (L_buf b) (own q s)
        (upd_buf b (\<lambda>x. x\<lparr>b_dev := 1, b_blockno := n, b_refcnt := 1, b_data := memdisk s n, b_flags := 2\<rparr>) s))"
      using bread_calm(2) [OF r(1,2) cache_invD(2) [OF assms(1)] assms(3) fr assms(2) no lu] by simp
    moreover have "ring (upd_nth b (\<lambda>x. x\<lparr>b_dev := 1, b_blockno := n, b_refcnt := 1, b_data := memdisk s n, b_flags := 2\<rparr>) (bufs s)) xs"
      by (rule ring_upd_nth [OF assms(3)]) simp
    ultimately show ?thesis by simp
  qed
  show "bread 1 n s = Inl (Panic ''bget: no buffers'')" if "least_used s xs = None"
    using bget_calm(3) [OF r(1,2) cache_invD(2) [OF assms(1)] assms(3) fr no that] by (simp add: bread_def)
qed

lemma demo_blank: "blank_cache 1 (demo_kernel ())"
  using demo_kernel_runs(1) [of "()"] demo_kernel_runs(2) [where x = "()"]
  by (simp add: blank_cache_def) (simp add: demo_kernel_def demo_buf_def)

lemma demo_cache:
  "cache_inv 1 {} (binit (demo_kernel ()))" "100 < disksize (binit (demo_kernel ()))" "\<not> holds_block (binit (demo_kernel ())) n b"
  "card (pinned (binit (demo_kernel ()))) = 0"
proof -
  note b = binit_cache [OF demo_blank]
  show "cache_inv 1 {} (binit (demo_kernel ()))" "\<not> holds_block (binit (demo_kernel ())) n b" by (rule b)+
  show "100 < disksize (binit (demo_kernel ()))" using bio_frame_disksize [OF b(3)] by (simp add: demo_kernel_def)
  show "card (pinned (binit (demo_kernel ()))) = 0" using card_pinned [OF b(1)] b(2) by simp
qed

section \<open>Properties\<close>



text \<open>
  C31: reading a block. In a well-formed cache whose user does not already hold block \<open>n\<close>, and
  that has the block or a buffer to spare, \<open>bread\<close> returns a locked buffer with the current
  contents of the block (what was last written to it, whether that is on the disk yet or not). The
  contents of no block change, and dirty blocks stay in the cache.
\<close>

theorem bread_returns_block:
  assumes "cache_inv q H s" and "n < disksize s" and "\<forall>b\<in>H. \<not> holds_block s n b"
    and "(\<exists>b. holds_block s n b) \<or> card (pinned s \<union> H) < NBUF"
  shows "returnsR (bread 1 n s) (\<lambda>(b, t). b \<notin> H \<and> cache_inv q (insert b H) t \<and> holds_block t n b \<and>
    b_data (buf_at t b) = view s n \<and> view t = view s \<and> memdisk t = memdisk s \<and> diskw t = diskw s \<and>
    dirty_blocks t = dirty_blocks s \<and> (\<forall>c\<in>H. buf_at t c = buf_at s c))"
proof -
  obtain b t where t: "bread 1 n s = Inr (b, t)" "block_read q H n s b t" using bread_ok [OF assms] by blast
  have "view t = view s" using t(2) by (auto simp: block_read_def)
  then show ?thesis using t by (simp add: block_read_def)
qed

theorem bread_returns_block_witness:
  "returnsR (bread 1 100 (binit (demo_kernel ()))) (\<lambda>(b, t). b \<notin> {} \<and> cache_inv 1 (insert b {}) t \<and> holds_block t 100 b \<and>
    b_data (buf_at t b) = view (binit (demo_kernel ())) 100 \<and> view t = view (binit (demo_kernel ())) \<and>
    memdisk t = memdisk (binit (demo_kernel ())) \<and> diskw t = diskw (binit (demo_kernel ())) \<and>
    dirty_blocks t = dirty_blocks (binit (demo_kernel ())) \<and> (\<forall>c\<in>{}. buf_at t c = buf_at (binit (demo_kernel ())) c))"
  by (rule bread_returns_block [OF demo_cache(1)]) (simp_all add: demo_cache)

text \<open>
  C32: the replacement policy. With the buffers in the order \<open>xs\<close>, most recently used first, a
  block that is not cached goes into the last buffer of that order that is neither in use nor
  dirty, and panics if there is none; releasing a buffer moves it to the front.
\<close>

theorem cache_replaces_least_recent:
  assumes "cache_inv q H s" and "n < disksize s" and "ring (bufs s) xs" and "\<And>b. \<not> holds_block s n b"
  shows "(case least_used s xs of
      None \<Rightarrow> (\<forall>b\<in>set xs. b_refcnt (buf_at s b) \<noteq> 0 \<or> dirty_buf (buf_at s b)) \<and> bread 1 n s = Inl (Panic ''bget: no buffers'')
    | Some b \<Rightarrow> \<exists>ys zs t u. xs = ys @ b # zs \<and> b_refcnt (buf_at s b) = 0 \<and> \<not> dirty_buf (buf_at s b) \<and>
        (\<forall>c\<in>set zs. b_refcnt (buf_at s c) \<noteq> 0 \<or> dirty_buf (buf_at s c)) \<and>
        bread 1 n s = Inr (b, t) \<and> ring (bufs t) xs \<and> brelse b t = Inr u \<and> ring (bufs u) (b # ys @ zs))"
proof (cases "least_used s xs")
  case None
  have "\<forall>b\<in>set xs. b_refcnt (buf_at s b) \<noteq> 0 \<or> dirty_buf (buf_at s b)"
    using None unfolding least_used_def find_None_iff by (auto simp: dirty_buf_def)
  then show ?thesis using bread_lru(2) [OF assms None] None by simp
next
  case (Some b)
  obtain as bs where ab: "rev xs = as @ b # bs" "b_refcnt (buf_at s b) = 0" "\<not> dirty_buf (buf_at s b)"
      "\<forall>c\<in>set as. b_refcnt (buf_at s c) \<noteq> 0 \<or> dirty_buf (buf_at s c)"
    using find_split [OF Some [unfolded least_used_def]] by (auto simp: dirty_buf_def)
  have xs: "xs = rev bs @ b # rev as" using arg_cong [OF ab(1), of rev] by simp
  obtain t where t: "bread 1 n s = Inr (b, t)" "ring (bufs t) xs" using bread_lru(1) [OF assms Some] by blast
  have card: "card (pinned s \<union> H) < NBUF"
  proof -
    have "b < 30" using assms(3) xs by (auto simp: ring_def)
    then have "b \<notin> pinned s \<union> H" using ab(2,3) cache_invD(5) [OF assms(1), of b] by (auto simp: pinned_def buf_ok_def Let_def)
    moreover have "pinned s \<union> H \<subseteq> {..<30}" using cache_invD(4) [OF assms(1)] by (auto simp: pinned_def)
    ultimately have "pinned s \<union> H \<subset> {..<30}" using \<open>b < 30\<close> by blast
    then show ?thesis using psubset_card_mono [of "{..<30::nat}"] by simp
  qed
  have rd: "block_read q H n s b t"
    using bread_ok [OF assms(1,2) _ disjI2 [OF card]] assms(4) t(1) by auto
  have inv: "cache_inv q (insert b H) t" and cl: "dirty_buf (buf_at t b) \<or> b_data (buf_at t b) = memdisk t (b_blockno (buf_at t b))"
    and bl: "b < 30" using rd by (auto simp: block_read_def holds_block_def)
  have "ring (upd_nth b (\<lambda>x. x\<lparr>b_refcnt := 0\<rparr>) (bufs t)) (rev bs @ b # rev as)"
    using ring_upd_nth [OF t(2), of "\<lambda>x. x\<lparr>b_refcnt := 0\<rparr>" b] xs by simp
  then have "ring (link_front b (unlink b (upd_nth b (\<lambda>x. x\<lparr>b_refcnt := 0\<rparr>) (bufs t)))) (b # rev bs @ rev as)" by (rule ring_front)
  moreover obtain u where "brelse b t = Inr u" "bufs u = link_front b (unlink b (upd_nth b (\<lambda>x. x\<lparr>b_refcnt := 0\<rparr>) (bufs t)))"
    using brelse_calm [OF inv _ bl] by simp
  ultimately show ?thesis using Some ab(2-4) xs t
    by (simp only: option.case) (intro exI [of _ "rev bs"] exI [of _ "rev as"] exI [of _ t] exI [of _ u], simp)
qed

theorem cache_replaces_least_recent_witness:
  "let s = binit (demo_kernel ()); xs = rev [0..<NBUF] in
   (case least_used s xs of
      None \<Rightarrow> (\<forall>b\<in>set xs. b_refcnt (buf_at s b) \<noteq> 0 \<or> dirty_buf (buf_at s b)) \<and> bread 1 100 s = Inl (Panic ''bget: no buffers'')
    | Some b \<Rightarrow> \<exists>ys zs t u. xs = ys @ b # zs \<and> b_refcnt (buf_at s b) = 0 \<and> \<not> dirty_buf (buf_at s b) \<and>
        (\<forall>c\<in>set zs. b_refcnt (buf_at s c) \<noteq> 0 \<or> dirty_buf (buf_at s c)) \<and>
        bread 1 100 s = Inr (b, t) \<and> ring (bufs t) xs \<and> brelse b t = Inr u \<and> ring (bufs u) (b # ys @ zs))"
  unfolding Let_def by (rule cache_replaces_least_recent [OF demo_cache(1) demo_cache(2) binit_cache(5) [OF demo_blank] demo_cache(3)])

end
