(* ===== verification/Log_Crash.thy ===== *)
theory Log_Crash
  imports Bio_Cache Log
begin

unbundle bit_operations_syntax

text \<open>
  The write-ahead log against crashes: the exact sequence of disk writes of \<open>commit\<close>, what
  recovery makes of the disk after any prefix of it, and what \<open>log_write\<close> keeps of the
  transaction in memory.
\<close>

section \<open>Definitions\<close>

definition logblk :: "'z logst_scheme \<Rightarrow> nat \<Rightarrow> u32" where
  "logblk s i = log_start s + of_nat i + 1"

definition homeblk :: "'z logst_scheme \<Rightarrow> nat \<Rightarrow> u32" where
  "homeblk s i = lh_block s ! i"

text \<open>What a transaction never changes of the log.\<close>

definition log_fixed :: "'z logst_scheme \<Rightarrow> 'z logst_scheme \<Rightarrow> bool" where
  "log_fixed s t \<longleftrightarrow> log_start t = log_start s \<and> log_size t = log_size s \<and> log_dev t = log_dev s \<and> disksize t = disksize s \<and>
     outstanding t = outstanding s \<and> committing t = committing s"

definition header_of :: "int \<Rightarrow> u32 list \<Rightarrow> u8 list \<Rightarrow> u8 list" where
  "header_of n bl d = foldl (\<lambda>d i. put32 (4 + 4 * i) (bl ! i) d) (put32 0 (word_of_int n) d) [0..<nat n]"

text \<open>The blocks of the log on the disk: the header and the blocks after it.\<close>

definition log_area :: "'z logst_scheme \<Rightarrow> u32 set" where
  "log_area s = insert (log_start s) (logblk s ` {..<LOGSIZE - 1})"

text \<open>
  The header in block \<open>d\<close> describes \<open>n\<close> logged blocks whose homes are \<open>hb\<close>: blocks of
  the disk that are not part of the log.
\<close>

definition header_ok :: "'z logst_scheme \<Rightarrow> u8 list \<Rightarrow> nat \<Rightarrow> (nat \<Rightarrow> u32) \<Rightarrow> bool" where
  "header_ok s d n hb \<longleftrightarrow> sint (get32 d 0) = int n \<and> n < LOGSIZE \<and>
     (\<forall>i<n. get32 d (4 + 4 * i) = hb i \<and> hb i < disksize s \<and> hb i \<notin> log_area s)"

text \<open>The log lies on the disk.\<close>

definition log_fits :: "'z logst_scheme \<Rightarrow> bool" where
  "log_fits s \<longleftrightarrow> log_dev s = 1 \<and> length (lh_block s) = LOGSIZE \<and> (\<forall>n\<in>log_area s. n < disksize s)"

text \<open>
  A transaction that can be committed: the blocks recorded in the header are the dirty ones, they
  are not part of the log, and the header on the disk is empty.
\<close>

definition log_ready :: "nat \<Rightarrow> 'z logst_scheme \<Rightarrow> bool" where
  "log_ready q s \<longleftrightarrow> cache_inv q {} s \<and> log_fits s \<and> 0 < lh_n s \<and> lh_n s < int LOGSIZE \<and>
     dirty_blocks s = homeblk s ` {..<nat (lh_n s)} \<and>
     (\<forall>i<nat (lh_n s). homeblk s i < disksize s \<and> homeblk s i \<notin> log_area s) \<and> get32 (memdisk s (log_start s)) 0 = 0"

definition log_writes :: "'z logst_scheme \<Rightarrow> (u32 \<times> u8 list) list" where
  "log_writes s = map (\<lambda>i. (logblk s i, view s (homeblk s i))) [0..<nat (lh_n s)]"

definition home_writes :: "'z logst_scheme \<Rightarrow> (u32 \<times> u8 list) list" where
  "home_writes s = map (\<lambda>i. (homeblk s i, view s (homeblk s i))) [0..<nat (lh_n s)]"

definition committed_head :: "'z logst_scheme \<Rightarrow> u8 list" where
  "committed_head s = header_of (lh_n s) (lh_block s) (view s (log_start s))"

text \<open>The writes \<open>commit\<close> sends to the disk, in order.\<close>

definition commit_writes :: "'z logst_scheme \<Rightarrow> (u32 \<times> u8 list) list" where
  "commit_writes s = log_writes s @ (log_start s, committed_head s) # home_writes s @
     [(log_start s, header_of 0 (lh_block s) (committed_head s))]"

text \<open>
  A machine that has been started again with the disk \<open>D\<close>: nothing is dirty in its cache, and its
  log is where \<open>s\<close> had it.
\<close>

definition rebooted :: "nat \<Rightarrow> (u32 \<Rightarrow> u8 list) \<Rightarrow> 'z logst_scheme \<Rightarrow> 'y logst_scheme \<Rightarrow> bool" where
  "rebooted p D s r \<longleftrightarrow> cache_inv p {} r \<and> dirty_blocks r = {} \<and> log_fits r \<and> log_start r = log_start s \<and>
     disksize r = disksize s \<and> memdisk r = D"

text \<open>The transaction in memory: the first \<open>lh_n\<close> entries are the dirty blocks, each recorded once.\<close>

definition txn_inv :: "'z logst_scheme \<Rightarrow> bool" where
  "txn_inv s \<longleftrightarrow> 0 \<le> lh_n s \<and> lh_n s < int LOGSIZE \<and> length (lh_block s) = LOGSIZE \<and>
     dirty_blocks s = homeblk s ` {..<nat (lh_n s)} \<and> inj_on (homeblk s) {..<nat (lh_n s)}"

text \<open>
  A system call that changes blocks: it opens an operation, reads, overwrites and logs one block
  after the other, and closes the operation.
\<close>

definition update_block :: "u32 \<Rightarrow> u8 list \<Rightarrow> 'z logst_scheme \<Rightarrow> ('z logst_scheme, 'z logst_scheme) kres" where
  "update_block n d s = bindR (bread 1 n s) (\<lambda>(b, s).
     bindR (log_write b (upd_buf b (\<lambda>x. x\<lparr>b_data := d\<rparr>) s)) (\<lambda>s. brelse b s))"

primrec update_blocks :: "(u32 \<times> u8 list) list \<Rightarrow> 'z logst_scheme \<Rightarrow> ('z logst_scheme, 'z logst_scheme) kres" where
  "update_blocks [] s = Inr s"
| "update_blocks (w # ws) s = bindR (update_block (fst w) (snd w) s) (\<lambda>s. update_blocks ws s)"

definition transaction :: "(u32 \<times> u8 list) list \<Rightarrow> 'z logst_scheme \<Rightarrow> ('z logst_scheme, 'z logst_scheme) kres" where
  "transaction ws s = bindR (begin_op [] s) (\<lambda>s. bindR (update_blocks ws s) (\<lambda>s. end_op s))"

text \<open>The log between transactions, and while operations are open and process \<open>q\<close> alone runs, which holds the buffers of \<open>H\<close>.\<close>

definition log_idle :: "nat \<Rightarrow> 'z logst_scheme \<Rightarrow> bool" where
  "log_idle q s \<longleftrightarrow> cache_inv q {} s \<and> log_fits s \<and> dirty_blocks s = {} \<and> lh_n s = 0 \<and> outstanding s = 0 \<and>
     \<not> committing s \<and> log_size s = int LOGSIZE \<and> get32 (memdisk s (log_start s)) 0 = 0"

definition in_op :: "nat \<Rightarrow> nat set \<Rightarrow> 'z logst_scheme \<Rightarrow> bool" where
  "in_op q H s \<longleftrightarrow> cache_inv q H s \<and> log_fits s \<and> txn_inv s \<and> (\<forall>m\<in>dirty_blocks s. m < disksize s \<and> m \<notin> log_area s) \<and>
     1 \<le> outstanding s \<and> \<not> committing s \<and> log_size s = int LOGSIZE \<and> get32 (memdisk s (log_start s)) 0 = 0"

text \<open>What an operation leaves alone.\<close>

definition op_frame :: "'z logst_scheme \<Rightarrow> 'z logst_scheme \<Rightarrow> bool" where
  "op_frame s t \<longleftrightarrow> t = s\<lparr>procs := procs t, slocks := slocks t, bufs := bufs t, memdisk := memdisk t, diskw := diskw t,
      lh_n := lh_n t, lh_block := lh_block t\<rparr> \<and>
     map pid (procs t) = map pid (procs s) \<and> (\<forall>i. slocks t (L_inode i) = slocks s (L_inode i))"

text \<open>The blocks of \<open>ws\<close> have been overwritten in the cache and recorded in the log, and nothing else has changed.\<close>

definition logged :: "(u32 \<times> u8 list) list \<Rightarrow> 'z logst_scheme \<Rightarrow> 'z logst_scheme \<Rightarrow> bool" where
  "logged ws s t \<longleftrightarrow> view t = play ws (view s) \<and> memdisk t = memdisk s \<and> diskw t = diskw s \<and>
     dirty_blocks t = dirty_blocks s \<union> fst ` set ws \<and> lh_n t \<le> lh_n s + int (length ws) \<and> op_frame s t"

text \<open>The buffers of \<open>H\<close> still hold their blocks, and those that were dirty still are.\<close>

definition keeps :: "nat set \<Rightarrow> 'z bio_scheme \<Rightarrow> 'z bio_scheme \<Rightarrow> bool" where
  "keeps H s t \<longleftrightarrow> (\<forall>c\<in>H. (\<forall>m. holds_block t m c = holds_block s m c) \<and> (dirty_buf (buf_at s c) \<longrightarrow> dirty_buf (buf_at t c)))"

text \<open>Blocks a transaction may write: blocks of the disk outside the log.\<close>

definition home_ok :: "'z logst_scheme \<Rightarrow> u32 \<times> u8 list \<Rightarrow> bool" where
  "home_ok s w \<longleftrightarrow> fst w < disksize s \<and> fst w \<notin> log_area s \<and> length (snd w) = BSIZE"

text \<open>What a commit promises, whatever the crash: the disk after recovery, and without one.\<close>

definition commits :: "nat \<Rightarrow> (u32 \<times> u8 list) list \<Rightarrow> 'z logst_scheme \<Rightarrow> 'z logst_scheme \<Rightarrow> bool" where
  "commits j log s t \<longleftrightarrow> diskw t = diskw s @ log \<and> (\<forall>m. m \<notin> log_area s \<longrightarrow> memdisk t m = view s m) \<and>
     (\<forall>k p r. rebooted p (play (take k log) (memdisk s)) s (r :: 'z logst_scheme) \<longrightarrow> (\<exists>u. recover_from_log r = Inr u \<and>
        (\<forall>m. m \<notin> log_area s \<longrightarrow> memdisk u m = (if k \<le> j then memdisk s m else view s m))))"

section \<open>Numbers in blocks\<close>

lemma put32_length [simp]: "length (put32 i w bs) = length bs" "length (put16 i v bs) = length bs"
  by (simp_all add: put32_def put16_def)

lemma word_split32: "ucast (ucast (w :: u32) :: u8) OR push_bit 8 (ucast (ucast (drop_bit 8 w) :: u8)) OR
    push_bit 16 (ucast (ucast (drop_bit 16 w) :: u8)) OR push_bit 24 (ucast (ucast (drop_bit 24 w) :: u8)) = w"
proof (rule bit_word_eqI)
  fix n assume "n < LENGTH(32)"
  then show "bit (ucast (ucast w :: u8) OR push_bit 8 (ucast (ucast (drop_bit 8 w) :: u8)) OR
    push_bit 16 (ucast (ucast (drop_bit 16 w) :: u8)) OR push_bit 24 (ucast (ucast (drop_bit 24 w) :: u8)) :: u32) n = bit w n"
    by (cases "n < 16"; cases "n < 24") (auto simp: bit_or_iff bit_push_bit_iff bit_ucast_iff bit_drop_bit_eq)
qed

lemma get32_put32 [simp]: "i + 3 < length bs \<Longrightarrow> get32 (put32 i w bs) i = w"
  by (simp add: get32_def put32_def nth_list_update word_split32)

lemma get32_put32_other: "i + 4 \<le> j \<or> j + 4 \<le> i \<Longrightarrow> get32 (put32 j w bs) i = get32 bs i"
  by (auto simp: get32_def put32_def)

section \<open>The loops of the log\<close>

lemma wrote_Cons:
  assumes "wrote_blocks q [(dst i, view s (src i))] s t" and "wrote_blocks q (map (\<lambda>j. (dst j, view t (src j))) is) t u"
    and "\<forall>j\<in>set is. src j \<noteq> dst i"
  shows "wrote_blocks q (map (\<lambda>j. (dst j, view s (src j))) (i # is)) s u"
proof -
  have "view t = (view s)(dst i := view s (src i))" using assms(1) by (simp add: wrote_blocks_def)
  then have e: "map (\<lambda>j. (dst j, view t (src j))) is = map (\<lambda>j. (dst j, view s (src j))) is" using assms(3) by simp
  show ?thesis using wrote_blocks_trans [OF assms(1,2)] by (simp only: e append_Cons append_Nil list.map)
qed

lemma bio_frame_log:
  assumes "bio_frame s t"
  shows "log_dev t = log_dev s" "log_start t = log_start s" "lh_n t = lh_n s" "lh_block t = lh_block s"
    "log_size t = log_size s" "outstanding t = outstanding s" "committing t = committing s" "disksize t = disksize s"
    "logblk t = logblk s" "homeblk t = homeblk s"
proof -
  note e = bio_frameD [OF assms]
  show "log_dev t = log_dev s" "lh_n t = lh_n s"
    "log_size t = log_size s" "outstanding t = outstanding s" "committing t = committing s" "disksize t = disksize s"
    using arg_cong [OF e, of log_dev] arg_cong [OF e, of lh_n] arg_cong [OF e, of log_size]
      arg_cong [OF e, of outstanding] arg_cong [OF e, of committing] arg_cong [OF e, of disksize] by simp_all
  show a: "log_start t = log_start s" and b: "lh_block t = lh_block s"
    using arg_cong [OF e, of log_start] arg_cong [OF e, of lh_block] by simp_all
  show "logblk t = logblk s" "homeblk t = homeblk s" by (simp_all add: fun_eq_iff logblk_def homeblk_def a b)
qed

lemma bio_frame_fixed: "bio_frame s t \<Longrightarrow> log_fixed s t"
  using bio_frame_log [of s t] by (simp add: log_fixed_def)

lemma log_fixed_trans: "log_fixed s t \<Longrightarrow> log_fixed t u \<Longrightarrow> log_fixed s u"
  by (simp add: log_fixed_def)

lemma finite_dirty: "cache_inv q H s \<Longrightarrow> finite (dirty_blocks s)"
  by (simp add: dirty_blocks_image pinned_def)

lemma write_log_loop_copies:
  assumes "cache_inv q {} s" and "log_dev s = 1" and "card (dirty_blocks s) < NBUF"
    and "\<And>i. i \<in> set is \<Longrightarrow> logblk s i < disksize s \<and> homeblk s i < disksize s \<and> homeblk s i \<in> dirty_blocks s"
    and "\<And>i j. i \<in> set is \<Longrightarrow> j \<in> set is \<Longrightarrow> homeblk s j \<noteq> logblk s i"
  shows "\<exists>t. write_log_loop is s = Inr t \<and> wrote_blocks q (map (\<lambda>i. (logblk s i, view s (homeblk s i))) is) s t"
  using assms
proof (induction "is" arbitrary: s)
  case Nil
  then show ?case by (simp add: wrote_blocks_refl)
next
  case (Cons i "is")
  have c: "logblk s i < disksize s" "homeblk s i < disksize s" "homeblk s i \<noteq> logblk s i" "homeblk s i \<in> dirty_blocks s"
    using Cons.prems(4,5) by auto
  obtain d f v w t where t: "bread 1 (logblk s i) s = Inr (d, v)" "bio_frame s v" "bread 1 (homeblk s i) v = Inr (f, w)"
      "bindR (bwrite d (upd_buf d (\<lambda>x. x\<lparr>b_data := b_data (buf_at w f)\<rparr>) w)) (\<lambda>s. bindR (brelse f s) (\<lambda>s. brelse d s)) = Inr t"
      "wrote_blocks q [(logblk s i, view s (homeblk s i))] s t"
    using copy_block(1) [OF Cons.prems(1) c(1-3) Cons.prems(3)] c(4) by blast
  note bf = t(5) [unfolded wrote_blocks_def]
  have fr: "bio_frame s t" and inv: "cache_inv q {} t" and db: "dirty_blocks t = dirty_blocks s - {logblk s i}"
    using bf by simp_all
  note fl = bio_frame_log [OF fr]
  have "card (dirty_blocks t) \<le> card (dirty_blocks s)"
    unfolding db by (rule card_mono [OF finite_dirty [OF Cons.prems(1)]]) auto
  then obtain u where u: "write_log_loop is t = Inr u" "wrote_blocks q (map (\<lambda>i. (logblk s i, view t (homeblk s i))) is) t u"
    using Cons.IH [OF inv] Cons.prems(2-5) fl db by auto
  have "write_log_loop (i # is) s = Inr u"
    using t(1,3,4) u(1) Cons.prems(2) bio_frame_log [OF t(2)] by (auto simp: logblk_def homeblk_def Let_def bindR_assoc)
  then show ?case using wrote_Cons [OF t(5) u(2)] Cons.prems(5) by auto
qed

lemma install_trans_loop_copies:
  assumes "cache_inv q {} s" and "log_dev s = 1" and "card (dirty_blocks s) < NBUF"
    and "\<And>i. i \<in> set is \<Longrightarrow> logblk s i < disksize s \<and> homeblk s i < disksize s"
    and "(\<forall>i\<in>set is. homeblk s i \<in> dirty_blocks s) \<or> card (dirty_blocks s) + 1 < NBUF"
    and "\<And>i j. i \<in> set is \<Longrightarrow> j \<in> set is \<Longrightarrow> logblk s j \<noteq> homeblk s i"
  shows "\<exists>t. install_trans_loop is s = Inr t \<and> wrote_blocks q (map (\<lambda>i. (homeblk s i, view s (logblk s i))) is) s t"
  using assms
proof (induction "is" arbitrary: s)
  case Nil
  then show ?case by (simp add: wrote_blocks_refl)
next
  case (Cons i "is")
  have c: "homeblk s i < disksize s" "logblk s i < disksize s" "logblk s i \<noteq> homeblk s i"
      "homeblk s i \<in> dirty_blocks s \<or> card (dirty_blocks s) + 1 < NBUF"
    using Cons.prems(4-6) by auto
  obtain d f v w t where t: "bread 1 (logblk s i) s = Inr (f, v)" "bio_frame s v" "bread 1 (homeblk s i) v = Inr (d, w)"
      "bindR (bwrite d (upd_buf d (\<lambda>x. x\<lparr>b_data := b_data (buf_at w f)\<rparr>) w)) (\<lambda>s. bindR (brelse f s) (\<lambda>s. brelse d s)) = Inr t"
      "wrote_blocks q [(homeblk s i, view s (logblk s i))] s t"
    using copy_block(2) [OF Cons.prems(1) c(1-3) Cons.prems(3) c(4)] by blast
  note bf = t(5) [unfolded wrote_blocks_def]
  have fr: "bio_frame s t" and inv: "cache_inv q {} t" and db: "dirty_blocks t = dirty_blocks s - {homeblk s i}"
    using bf by simp_all
  note fl = bio_frame_log [OF fr]
  have le: "card (dirty_blocks t) \<le> card (dirty_blocks s)"
    unfolding db by (rule card_mono [OF finite_dirty [OF Cons.prems(1)]]) auto
  have "card (dirty_blocks t) < card (dirty_blocks s)" if "homeblk s i \<in> dirty_blocks s"
    unfolding db using that finite_dirty [OF Cons.prems(1)] by (metis card_Diff1_less)
  then have "card (dirty_blocks t) + 1 < NBUF" using c(4) le Cons.prems(3) by linarith
  then obtain u where u: "install_trans_loop is t = Inr u" "wrote_blocks q (map (\<lambda>i. (homeblk s i, view t (logblk s i))) is) t u"
    using Cons.IH [OF inv] Cons.prems(2,4,6) fl by auto
  have "install_trans_loop (i # is) s = Inr u"
    using t(1,3,4) u(1) Cons.prems(2) bio_frame_log [OF t(2)] by (auto simp: logblk_def homeblk_def Let_def bindR_assoc)
  then show ?case using wrote_Cons [OF t(5) u(2)] Cons.prems(6) by auto
qed

section \<open>The header\<close>

lemma header_length: "length (header_of n bl d) = length d"
proof -
  have "length (foldl (\<lambda>d i. put32 (4 + 4 * i) (bl ! i) d) e is) = length e" for e "is" by (induction "is" arbitrary: e) auto
  then show ?thesis by (simp add: header_of_def)
qed

lemma header_n:
  assumes "4 \<le> length d"
  shows "get32 (header_of n bl d) 0 = word_of_int n"
proof -
  have "get32 (foldl (\<lambda>d i. put32 (4 + 4 * i) (bl ! i) d) e is) 0 = get32 e 0" for e "is"
    by (induction "is" arbitrary: e) (auto simp: get32_put32_other)
  then show ?thesis using assms by (simp add: header_of_def)
qed

lemma header_block:
  assumes "4 + 4 * nat n \<le> length d" and "i < nat n"
  shows "get32 (header_of n bl d) (4 + 4 * i) = bl ! i"
proof -
  have "i < m \<Longrightarrow> 4 + 4 * m \<le> length e \<Longrightarrow>
      get32 (foldl (\<lambda>d i. put32 (4 + 4 * i) (bl ! i) d) e [0..<m]) (4 + 4 * i) = bl ! i" for m e
  proof (induction m)
    case (Suc m)
    have "length (foldl (\<lambda>d i. put32 (4 + 4 * i) (bl ! i) d) e [0..<m]) = length e" for e
      by (induction m) auto
    then show ?case using Suc by (cases "i = m") (auto simp: get32_put32_other)
  qed simp
  then show ?thesis using assms by (simp add: header_of_def)
qed

lemma write_head_writes:
  assumes "cache_inv q {} s" and "log_dev s = 1" and "card (dirty_blocks s) < NBUF" and "log_start s < disksize s"
  shows "\<exists>t. write_head s = Inr t \<and>
    wrote_blocks q [(log_start s, header_of (lh_n s) (lh_block s) (view s (log_start s)))] s t"
proof -
  let ?h = "header_of (lh_n s) (lh_block s) (view s (log_start s))"
  have room: "card (pinned s \<union> {}) < NBUF" using assms(3) card_pinned [OF assms(1)] by simp
  obtain d u where u: "bread 1 (log_start s) s = Inr (d, u)" "block_read q {} (log_start s) s d u"
    using bread_ok [OF assms(1,4)] room by auto
  note r = u(2) [unfolded block_read_def]
  have fr: "bio_frame s u" and inv: "cache_inv q {d} u" and hb: "holds_block u (log_start s) d" and da: "b_data (buf_at u d) = view s (log_start s)"
    and eq: "memdisk u = memdisk s" "diskw u = diskw s" "view u = view s" "dirty_blocks u = dirty_blocks s"
    using r by (auto simp: fun_eq_iff)
  note fl = bio_frame_log [OF fr]
  have d: "d < 30" "length (bufs u) = 31" using hb cache_runs(3) [OF inv] by (simp_all add: holds_block_def)
  have "length (b_data (buf_at u d)) = 512" using cache_invD(5) [OF inv d(1)] by (simp add: buf_ok_def Let_def)
  then have "length ?h = 512" by (simp add: header_length da)
  then obtain t where t: "bindR (bwrite d (upd_buf d (\<lambda>x. x\<lparr>b_data := ?h\<rparr>) u)) (\<lambda>s. brelse d s) = Inr t" "wrote_blocks q [(log_start s, ?h)] u t"
    using put_rest [OF inv hb] assms(4) fl(8) by metis
  have e: "upd_buf d (\<lambda>x. x\<lparr>b_data := foldl (\<lambda>d i. put32 (4 + 4 * i) (lh_block (upd_buf d' g u) ! i) d) (put32 0 (word_of_int (lh_n u)) (b_data x))
      [0..<nat (lh_n (upd_buf d' g u))]\<rparr>) u = upd_buf d (\<lambda>x. x\<lparr>b_data := ?h\<rparr>) u" for g d'
    using da fl by (simp add: upd_buf_def upd_nth_def header_of_def)
  have "write_head s = Inr t" using u(1) t(1) assms(2) by (simp add: write_head_def Let_def e)
  then show ?thesis using t(2) eq bio_frame_trans [OF fr] by (auto simp: wrote_blocks_def)
qed

section \<open>Recovery\<close>

lemma cache_same:
  assumes "mach_same s t" and "procs t = procs s" and "slocks t = slocks s" and "bufs t = bufs s" and "memdisk t = memdisk s"
  shows "cache_inv q H t = cache_inv q H s" "view t = view s" "dirty_blocks t = dirty_blocks s"
proof -
  have h: "holds_block t n = holds_block s n" for n by (rule ext) (simp add: holds_block_def assms(4))
  show "view t = view s" "dirty_blocks t = dirty_blocks s"
    by (simp_all only: fun_eq_iff view_def dirty_blocks_def assms(4,5) h simp_thms)
  have "one_buf t = one_buf s" "buf_ok q H t b = buf_ok q H s b" for b
    by (simp_all add: one_buf_def buf_ok_def own_def assms(2-5))
  moreover have "runs q t = runs q s" "lock_free lk t = lock_free lk s" for lk
    using mach_same_facts [OF assms(1)] calm_same [OF assms(1)] cur_same [OF assms(1)] assms(2) by (simp_all add: runs_def)
  ultimately show "cache_inv q H t = cache_inv q H s" by (simp add: cache_inv_def assms(4,5))
qed

lemma cache_lh [simp]:
  "cache_inv q H (s\<lparr>lh_n := n\<rparr>) = cache_inv q H s" "view (s\<lparr>lh_n := n\<rparr>) = view s" "dirty_blocks (s\<lparr>lh_n := n\<rparr>) = dirty_blocks s"
  "cache_inv q H (s\<lparr>lh_block := bl\<rparr>) = cache_inv q H s" "view (s\<lparr>lh_block := bl\<rparr>) = view s"
  "dirty_blocks (s\<lparr>lh_block := bl\<rparr>) = dirty_blocks s"
  by (rule cache_same; simp add: mach_same_def)+

lemma logblk_inj: "i < 30 \<Longrightarrow> j < 30 \<Longrightarrow> logblk s i = logblk s j \<Longrightarrow> i = j"
proof -
  assume "i < 30" "j < 30" "logblk s i = logblk s j"
  then have "(of_nat i :: u32) = of_nat j" by (simp add: logblk_def)
  then show "i = j" using \<open>i < 30\<close> \<open>j < 30\<close> by (simp add: u32_eq_iff unat_of_nat_u32)
qed

lemma logblk_start: "i < 30 \<Longrightarrow> logblk s i \<noteq> log_start s"
proof
  assume "i < 30" "logblk s i = log_start s"
  then have "(of_nat (Suc i) :: u32) = 0" by (simp add: logblk_def algebra_simps)
  then show False using \<open>i < 30\<close> by (simp only: u32_eq_iff unat_of_nat_u32) simp
qed

lemma log_start_apart: "log_start s \<notin> logblk s ` {..<29}"
proof
  assume "log_start s \<in> logblk s ` {..<29}"
  then obtain i where "i < 29" "logblk s i = log_start s" by auto
  then show False using logblk_start [of i s] by simp
qed

lemma foldl_blocks:
  assumes "m \<le> length bl"
  shows "length (foldl (\<lambda>bl i. bl[i := f i]) bl [0..<m]) = length bl"
    "i < m \<Longrightarrow> foldl (\<lambda>bl i. bl[i := f i]) bl [0..<m] ! i = f i"
proof -
  show l: "length (foldl (\<lambda>bl i. bl[i := f i]) bl [0..<m]) = length bl" for m by (induction m) auto
  show "i < m \<Longrightarrow> foldl (\<lambda>bl i. bl[i := f i]) bl [0..<m] ! i = f i" using assms
    by (induction m) (auto simp: l nth_list_update less_Suc_eq)
qed

lemma released_dirty:
  assumes "block_released q H s b t"
  shows "dirty_blocks t = dirty_blocks s"
proof -
  have "holds_block t k c \<and> dirty_buf (buf_at t c) \<longleftrightarrow> holds_block s k c \<and> dirty_buf (buf_at s c)" for k c
  proof (cases "c < 30")
    case True
    then have "holds_block t k c = holds_block s k c" "b_flags (buf_at t c) = b_flags (buf_at s c)"
      using assms by (simp_all add: block_released_def)
    then show ?thesis by (simp add: dirty_buf_def)
  qed (simp add: holds_block_def)
  then show ?thesis by (simp add: dirty_blocks_def)
qed

lemma read_head_reads:
  assumes "cache_inv q {} s" and "log_fits s" and "card (dirty_blocks s) < NBUF" and "header_ok s (view s (log_start s)) n hb"
  shows "\<exists>t. read_head s = Inr t \<and> cache_inv q {} t \<and> memdisk t = memdisk s \<and> diskw t = diskw s \<and> view t = view s \<and>
    dirty_blocks t = dirty_blocks s \<and> lh_n t = int n \<and> (\<forall>i<n. homeblk t i = hb i) \<and> log_fits t \<and>
    log_start t = log_start s \<and> disksize t = disksize s \<and> logblk t = logblk s \<and> log_area t = log_area s"
proof -
  have g: "log_dev s = 1" "log_start s < disksize s" "length (lh_block s) = 30" using assms(2) by (auto simp: log_fits_def log_area_def)
  have h: "sint (get32 (view s (log_start s)) 0) = int n" "n < 30" "\<And>i. i < n \<Longrightarrow> get32 (view s (log_start s)) (4 + 4 * i) = hb i"
    using assms(4) by (auto simp: header_ok_def)
  have room: "card (pinned s \<union> {}) < NBUF" using assms(3) card_pinned [OF assms(1)] by simp
  obtain d u where u: "bread 1 (log_start s) s = Inr (d, u)" "block_read q {} (log_start s) s d u"
    using bread_ok [OF assms(1) g(2)] room by auto
  note r = u(2) [unfolded block_read_def]
  have fr: "bio_frame s u" and inv: "cache_inv q {d} u" and hb: "holds_block u (log_start s) d" and da: "b_data (buf_at u d) = view s (log_start s)"
    and eq: "memdisk u = memdisk s" "diskw u = diskw s" "view u = view s" "dirty_blocks u = dirty_blocks s"
    and cl: "dirty_buf (buf_at u d) \<or> b_data (buf_at u d) = memdisk u (log_start s)"
    using r by (auto simp: fun_eq_iff)
  note fl = bio_frame_log [OF fr]
  let ?bl = "foldl (\<lambda>bl i. bl[i := get32 (view s (log_start s)) (4 + 4 * i)]) (lh_block s) [0..<n]"
  let ?v = "u\<lparr>lh_n := int n, lh_block := ?bl\<rparr>"
  have "dirty_buf (buf_at ?v d) \<or> b_data (buf_at ?v d) = memdisk ?v (b_blockno (buf_at ?v d))" using cl hb by (simp add: holds_block_def)
  moreover have "cache_inv q {d} ?v" using inv by simp
  ultimately obtain t where t: "brelse d ?v = Inr t" "block_released q {d} ?v d t" using brelse_ok [of q "{d}" ?v d] by blast
  note tf = t(2) [unfolded block_released_def]
  have ft: "bio_frame ?v t" using tf by simp
  note gl = bio_frame_log [OF ft]
  have "read_head s = Inr t" using u(1) t(1) g(1) h(1,2) da fl by (simp add: read_head_def Let_def)
  moreover have "view t = view s" "cache_inv q {} t" "memdisk t = memdisk s" "diskw t = diskw s" using tf eq by (auto simp: fun_eq_iff)
  moreover have "dirty_blocks t = dirty_blocks s" using released_dirty [OF t(2)] eq(4) by simp
  moreover have "length ?bl = 30" "\<And>i. i < n \<Longrightarrow> ?bl ! i = hb i" using foldl_blocks [of n "lh_block s"] g(3) h by simp_all
  moreover have "logblk t = logblk s" "log_area t = log_area s" using gl fl by (simp_all add: fun_eq_iff logblk_def log_area_def)
  ultimately show ?thesis using gl fl assms(2) by (intro exI [of _ t]) (simp add: homeblk_def log_fits_def)
qed

lemma log_fitsD:
  assumes "log_fits s"
  shows "log_dev s = 1" "log_start s < disksize s" "i < LOGSIZE - 1 \<Longrightarrow> logblk s i < disksize s" "length (lh_block s) = LOGSIZE"
  using assms by (auto simp: log_fits_def log_area_def)

lemma log_areaD: "n \<notin> log_area s \<Longrightarrow> n \<noteq> log_start s" "n \<notin> log_area s \<Longrightarrow> i < LOGSIZE - 1 \<Longrightarrow> logblk s i \<noteq> n"
  by (auto simp: log_area_def)

lemma recover_writes:
  assumes "cache_inv q {} s" and "log_fits s" and "dirty_blocks s = {}" and "header_ok s (memdisk s (log_start s)) n hb"
  shows "\<exists>t h. recover_from_log s = Inr t \<and> cache_inv q {} t \<and> dirty_blocks t = {} \<and> lh_n t = 0 \<and>
    memdisk t = (play (map (\<lambda>i. (hb i, memdisk s (logblk s i))) [0..<n]) (memdisk s))(log_start s := h) \<and> get32 h 0 = 0"
proof -
  have v: "view s = memdisk s" using view_clean [OF assms(1)] assms(3) by auto
  obtain t where t: "read_head s = Inr t" "cache_inv q {} t" "memdisk t = memdisk s" "view t = view s" "dirty_blocks t = {}"
      "lh_n t = int n" "\<forall>i<n. homeblk t i = hb i" "log_fits t" "log_start t = log_start s" "disksize t = disksize s"
      "logblk t = logblk s" "log_area t = log_area s"
    using read_head_reads [OF assms(1,2), of n hb] assms(3,4) v by auto
  have n: "n < 30" "\<And>i. i < n \<Longrightarrow> hb i < disksize s \<and> hb i \<notin> log_area s" using assms(4) by (auto simp: header_ok_def)
  have ln: "log_dev t = 1" "card (dirty_blocks t) < NBUF" "card (dirty_blocks t) + 1 < NBUF" using log_fitsD(1) [OF t(8)] t(5) by simp_all
  have ok: "logblk t i < disksize t \<and> homeblk t i < disksize t" "logblk t j \<noteq> homeblk t i" if "i \<in> set [0..<n]" "j \<in> set [0..<n]" for i j
    using that n t(7) log_fitsD(3) [OF t(8)] log_areaD(2) [of "hb i" t j] t(10,12) by auto
  obtain u where u: "install_trans_loop [0..<n] t = Inr u" "wrote_blocks q (map (\<lambda>i. (homeblk t i, view t (logblk t i))) [0..<n]) t u"
    using install_trans_loop_copies [OF t(2) ln(1,2), of "[0..<n]"] ok ln(3) by blast
  have e: "map (\<lambda>i. (homeblk t i, view t (logblk t i))) [0..<n] = map (\<lambda>i. (hb i, memdisk s (logblk s i))) [0..<n]"
    using t(4,7,11) v by simp
  note uf = u(2) [unfolded e wrote_blocks_def]
  have fu: "bio_frame t u" using uf by simp
  note gl = bio_frame_log [OF fu]
  let ?c = "u\<lparr>lh_n := 0\<rparr>"
  have cu: "cache_inv q {} ?c" "dirty_blocks ?c = {}" "log_dev ?c = 1" "log_start ?c < disksize ?c"
    using uf t(5) gl ln(1) log_fitsD(2) [OF t(8)] by auto
  then obtain w where w: "write_head ?c = Inr w" "wrote_blocks q [(log_start ?c, header_of (lh_n ?c) (lh_block ?c) (view ?c (log_start ?c)))] ?c w"
    using write_head_writes [of q ?c] by auto
  note wf = w(2) [unfolded wrote_blocks_def]
  have hw: "lh_n w = 0" using bio_frame_log(3) [of ?c w] wf by simp
  have "recover_from_log s = Inr w" using t(1,6) u(1) w(1) by (simp add: recover_from_log_def install_trans_def)
  moreover have "memdisk w = (play (map (\<lambda>i. (hb i, memdisk s (logblk s i))) [0..<n]) (memdisk s))
      (log_start s := header_of 0 (lh_block u) (view u (log_start s)))"
    using wf uf t(3,9) gl by simp
  moreover have "length (view u (log_start s)) = 512"
    by (rule view_length) (use cu(1) in simp)
  then have "get32 (header_of 0 (lh_block u) (view u (log_start s))) 0 = 0" by (subst header_n) simp_all
  ultimately show ?thesis using wf cu(2) hw by (intro exI [of _ w] exI [of _ "header_of 0 (lh_block u) (view u (log_start s))"]) simp
qed

section \<open>Commit\<close>

lemma log_readyD:
  assumes "log_ready q s"
  shows "cache_inv q {} s" "log_fits s" "0 < lh_n s" "nat (lh_n s) < 30" "dirty_blocks s = homeblk s ` {..<nat (lh_n s)}"
    "i < nat (lh_n s) \<Longrightarrow> homeblk s i < disksize s" "i < nat (lh_n s) \<Longrightarrow> homeblk s i \<notin> log_area s"
    "get32 (memdisk s (log_start s)) 0 = 0"
  using assms by (auto simp: log_ready_def)

lemma log_writes_other: "nat (lh_n s) < LOGSIZE \<Longrightarrow> m \<notin> logblk s ` {..<29} \<Longrightarrow> play (take k (log_writes s)) D m = D m"
  by (subst play_const [where v = undefined]) (auto simp: log_writes_def dest!: in_set_takeD)

lemma play_log_writes:
  assumes "nat (lh_n s) < LOGSIZE" and "i < nat (lh_n s)"
  shows "play (log_writes s) D (logblk s i) = view s (homeblk s i)"
proof -
  have "snd w = view s (homeblk s i)" if w: "w \<in> set (log_writes s)" "fst w = logblk s i" for w
  proof -
    obtain j where j: "j < nat (lh_n s)" "w = (logblk s j, view s (homeblk s j))" using w(1) by (auto simp: log_writes_def)
    then have "j = i" using w(2) assms by (intro logblk_inj [of j i s]) simp_all
    then show ?thesis using j by simp
  qed
  then have "play (log_writes s) D (logblk s i) =
      (if logblk s i \<in> fst ` set (log_writes s) then view s (homeblk s i) else D (logblk s i))" by (rule play_const)
  moreover have "logblk s i \<in> fst ` set (log_writes s)" using assms(2) by (force simp: log_writes_def)
  ultimately show ?thesis by simp
qed

lemma play_home_writes:
  "play (take k (home_writes s)) D m = (if m \<in> homeblk s ` {..<min k (nat (lh_n s))} then view s m else D m)"
proof -
  have t: "take k (home_writes s) = map (\<lambda>i. (homeblk s i, view s (homeblk s i))) [0..<min k (nat (lh_n s))]"
    by (cases "k \<le> nat (lh_n s)") (simp_all add: home_writes_def take_map min_def)
  show ?thesis unfolding t by (subst play_const [where v = "view s m"]) (auto simp: image_iff)
qed

lemma log_ready_apart:
  assumes "log_ready q s" and "i < nat (lh_n s)" and "j < nat (lh_n s)"
  shows "logblk s j \<noteq> homeblk s i" "homeblk s i \<noteq> logblk s j" "homeblk s i \<noteq> log_start s"
proof -
  have "j < 29" using assms(3) log_readyD(4) [OF assms(1)] by simp
  then show l: "logblk s j \<noteq> homeblk s i" using log_areaD(2) [OF log_readyD(7) [OF assms(1,2)]] by simp
  show "homeblk s i \<noteq> logblk s j" using l by (rule not_sym)
  show "homeblk s i \<noteq> log_start s" by (rule log_areaD(1) [OF log_readyD(7) [OF assms(1,2)]])
qed

text \<open>The first half, up to the write that commits.\<close>

lemma commit_logs:
  assumes "log_ready q s"
  shows "\<exists>a b. write_log s = Inr a \<and> write_head a = Inr b \<and>
    wrote_blocks q (log_writes s @ [(log_start s, committed_head s)]) s b \<and> dirty_blocks b = dirty_blocks s \<and>
    (\<forall>i<nat (lh_n s). view b (logblk s i) = view s (homeblk s i)) \<and> card (dirty_blocks s) < NBUF"
proof -
  note r = log_readyD [OF assms] and f = log_fitsD [OF log_readyD(2) [OF assms]] and ar = log_ready_apart [OF assms]
  let ?n = "nat (lh_n s)" and ?st = "log_start s"
  have "card (homeblk s ` {..<?n}) \<le> ?n" using card_image_le [of "{..<?n}" "homeblk s"] by simp
  then have cd: "card (dirty_blocks s) < NBUF" using r(4,5) by simp
  obtain a where a: "write_log s = Inr a" "wrote_blocks q (log_writes s) s a"
    unfolding write_log_def log_writes_def
    using write_log_loop_copies [OF r(1) f(1) cd, of "[0..<?n]"] r(4,5,6) f(3) ar by auto
  note af = a(2) [unfolded wrote_blocks_def]
  have fa: "bio_frame s a" using af by simp
  note ga = bio_frame_log [OF fa]
  have da: "dirty_blocks a = dirty_blocks s" using af ar r(5) by (auto simp: log_writes_def)
  have vs: "view a ?st = view s ?st"
    using af log_writes_other [OF r(4) log_start_apart, of ?n "view s"] by (simp add: log_writes_def)
  have fa': "log_dev a = 1" "card (dirty_blocks a) < NBUF" "log_start a < disksize a" using ga da cd f by auto
  obtain b where b: "write_head a = Inr b" "wrote_blocks q [(?st, committed_head s)] a b"
    using write_head_writes [OF _ fa', of q] af ga(2-4) vs unfolding committed_head_def by metis
  note bf = b(2) [unfolded wrote_blocks_def]
  have "dirty_blocks b = dirty_blocks s" using bf da r(5) ar(3) by auto
  moreover have "view b (logblk s i) = view s (homeblk s i)" if "i < ?n" for i
    using bf af play_log_writes [OF r(4) that] logblk_start [of i s] that r(4) by simp
  ultimately show ?thesis using a(1) b(1) wrote_blocks_trans [OF a(2) b(2)] cd by blast
qed

lemma commit_runs:
  assumes "log_ready q s"
  shows "\<exists>t. commit s = Inr t \<and> cache_inv q {} t \<and> memdisk t = play (commit_writes s) (memdisk s) \<and>
    diskw t = diskw s @ commit_writes s \<and> view t = play (commit_writes s) (view s) \<and> dirty_blocks t = {} \<and> lh_n t = 0 \<and>
    log_fixed s t \<and> lh_block t = lh_block s"
proof -
  note r = log_readyD [OF assms] and f = log_fitsD [OF log_readyD(2) [OF assms]] and ar = log_ready_apart [OF assms]
  let ?n = "nat (lh_n s)" and ?st = "log_start s"
  obtain a b where ab: "write_log s = Inr a" "write_head a = Inr b" "wrote_blocks q (log_writes s @ [(?st, committed_head s)]) s b"
      "dirty_blocks b = dirty_blocks s" "\<And>i. i < ?n \<Longrightarrow> view b (logblk s i) = view s (homeblk s i)" "card (dirty_blocks s) < NBUF"
    using commit_logs [OF assms] by blast
  note bf = ab(3) [unfolded wrote_blocks_def]
  have fb: "bio_frame s b" using bf by simp
  note gb = bio_frame_log [OF fb]
  have cb: "cache_inv q {} b" "log_dev b = 1" "card (dirty_blocks b) < NBUF" using bf gb f(1) ab(4,6) by auto
  obtain c where c: "install_trans_loop [0..<?n] b = Inr c" "wrote_blocks q (map (\<lambda>i. (homeblk b i, view b (logblk b i))) [0..<?n]) b c"
    using install_trans_loop_copies [OF cb, of "[0..<?n]"] gb ab(4) r(4,5,6) f(3) ar by auto
  have e: "map (\<lambda>i. (homeblk b i, view b (logblk b i))) [0..<?n] = home_writes s" using ab(5) gb by (simp add: home_writes_def)
  note cf = c(2) [unfolded e wrote_blocks_def]
  have fc: "bio_frame b c" using cf by simp
  note gc = bio_frame_log [OF fc]
  have dc: "dirty_blocks c = {}" using cf ab(4) r(5) by (simp add: home_writes_def image_image atLeast0LessThan)
  have "?st \<notin> homeblk s ` {..<?n}" using ar(3) by (metis imageE lessThan_iff)
  then have vc: "view c ?st = committed_head s"
    using cf bf play_home_writes [where k = ?n and s = s and m = ?st] by (simp add: home_writes_def)
  let ?d = "c\<lparr>lh_n := 0\<rparr>"
  have cd: "cache_inv q {} ?d" "log_dev ?d = 1" "card (dirty_blocks ?d) < NBUF" "log_start ?d < disksize ?d"
    using cf dc gb gc f by auto
  obtain t where t: "write_head ?d = Inr t" "wrote_blocks q [(?st, header_of 0 (lh_block s) (committed_head s))] ?d t"
    using write_head_writes [OF cd] gb gc vc by auto
  note tf = t(2) [unfolded wrote_blocks_def]
  have "commit s = Inr t" using ab(1,2) c(1) t(1) r(3) gb by (simp add: commit_def install_trans_def)
  moreover have "lh_n t = 0" "lh_block t = lh_block s" using bio_frame_log(3,4) [of ?d t] tf gb gc by simp_all
  moreover have "log_fixed s t" using bio_frame_log [of ?d t] tf gb gc by (simp add: log_fixed_def)
  ultimately show ?thesis using bf cf tf dc by (intro exI [of _ t]) (simp add: commit_writes_def)
qed

section \<open>Crashes\<close>

lemma rebootedD:
  assumes "rebooted p D s r"
  shows "cache_inv p {} r" "dirty_blocks r = {}" "log_fits r" "log_start r = log_start s" "disksize r = disksize s" "memdisk r = D"
    "logblk r = logblk s" "log_area r = log_area s"
  using assms by (simp_all add: rebooted_def logblk_def log_area_def fun_eq_iff)

lemma recover_empty:
  assumes "rebooted p D s r" and "get32 (D (log_start s)) 0 = 0"
  shows "\<exists>u. recover_from_log r = Inr u \<and> (\<forall>m. m \<noteq> log_start s \<longrightarrow> memdisk u m = D m)"
proof -
  note r = rebootedD [OF assms(1)]
  have "header_ok r (memdisk r (log_start r)) 0 (\<lambda>_. 0)" using assms(2) r(4,6) by (simp add: header_ok_def)
  then obtain u h where "recover_from_log r = Inr u" "memdisk u = (memdisk r)(log_start r := h)"
    using recover_writes [OF r(1,3,2), of 0 "\<lambda>_. 0"] by auto
  then show ?thesis using r(4,6) by auto
qed

lemma take_commit_writes:
  assumes "n = nat (lh_n s)"
  shows "k \<le> n \<Longrightarrow> take k (commit_writes s) = take k (log_writes s)"
    "n < k \<Longrightarrow> k \<le> 2 * n + 1 \<Longrightarrow>
      take k (commit_writes s) = log_writes s @ (log_start s, committed_head s) # take (k - n - 1) (home_writes s)"
    "2 * n + 1 < k \<Longrightarrow> take k (commit_writes s) = commit_writes s"
  using assms by (auto simp: commit_writes_def log_writes_def home_writes_def take_Cons' not_le)

lemma committed_header:
  assumes "log_ready q s"
  shows "length (committed_head s) = BSIZE" "get32 (committed_head s) 0 = word_of_int (lh_n s)"
    "i < nat (lh_n s) \<Longrightarrow> get32 (committed_head s) (4 + 4 * i) = homeblk s i"
proof -
  have l: "length (view s (log_start s)) = 512" by (rule view_length [OF log_readyD(1) [OF assms]])
  then show "length (committed_head s) = BSIZE" "get32 (committed_head s) 0 = word_of_int (lh_n s)"
    by (simp_all add: committed_head_def header_length header_n)
  show "i < nat (lh_n s) \<Longrightarrow> get32 (committed_head s) (4 + 4 * i) = homeblk s i"
    unfolding committed_head_def homeblk_def using l log_readyD(4) [OF assms] by (intro header_block) simp_all
qed

lemma home_or_clean:
  assumes "log_ready q s" and "m \<notin> homeblk s ` {..<nat (lh_n s)}"
  shows "view s m = memdisk s m"
  using view_clean [OF log_readyD(1) [OF assms(1)]] log_readyD(5) [OF assms(1)] assms(2) by blast

lemma crash_committed:
  assumes "log_ready q s" and "D = play (log_writes s @ (log_start s, committed_head s) # take j (home_writes s)) (memdisk s)"
    and "rebooted p D s r"
  shows "\<exists>u. recover_from_log r = Inr u \<and> (\<forall>m. m \<notin> log_area s \<longrightarrow> memdisk u m = view s m)"
proof -
  note l = log_readyD [OF assms(1)] and r = rebootedD [OF assms(3)] and ap = log_ready_apart [OF assms(1)]
  let ?n = "nat (lh_n s)" and ?st = "log_start s"
  have D: "D m = (if m \<in> homeblk s ` {..<min j ?n} then view s m else
      if m = ?st then committed_head s else play (log_writes s) (memdisk s) m)" for m
    using assms(2) by (simp add: play_home_writes)
  have st: "?st \<notin> homeblk s ` {..<k}" if "k \<le> ?n" for k using ap(3) that by (metis imageE lessThan_iff order_less_le_trans)
  have Dst: "D ?st = committed_head s" using D st by simp
  have Dl: "D (logblk s i) = view s (homeblk s i)" if "i < ?n" for i
  proof -
    have "logblk s i \<notin> homeblk s ` {..<min j ?n}" using ap(1) that by auto
    moreover have "logblk s i \<noteq> ?st" using logblk_start [of i s] that l(4) by simp
    ultimately show ?thesis using D play_log_writes [OF l(4) that] by simp
  qed
  have "sint (word_of_int (lh_n s) :: u32) = lh_n s" using l(3,4) by (simp add: signed_of_int signed_take_bit_int_eq_self)
  then have "header_ok r (memdisk r (log_start r)) ?n (homeblk s)"
    using committed_header [OF assms(1)] Dst r l by (simp add: header_ok_def)
  then obtain u h where u: "recover_from_log r = Inr u"
      "memdisk u = (play (map (\<lambda>i. (homeblk s i, D (logblk s i))) [0..<?n]) D)(?st := h)"
    using recover_writes [OF r(1,3,2), of ?n "homeblk s"] by (auto simp: r(4,6,7))
  have e: "map (\<lambda>i. (homeblk s i, D (logblk s i))) [0..<?n] = home_writes s" using Dl by (simp add: home_writes_def)
  have "memdisk u m = view s m" if m: "m \<notin> log_area s" for m
  proof -
    have "m \<notin> logblk s ` {..<29}" "m \<noteq> ?st" using m by (auto simp: log_area_def)
    then have "play (log_writes s) (memdisk s) m = memdisk s m" using log_writes_other [OF l(4), of m ?n] by (simp add: log_writes_def)
    then show ?thesis
      using u(2) D [of m] play_home_writes [where k = ?n and s = s and m = m] home_or_clean [OF assms(1)] \<open>m \<noteq> ?st\<close>
      by (auto simp: e home_writes_def)
  qed
  then show ?thesis using u(1) by blast
qed

text \<open>The disk after a commit, outside the log.\<close>

lemma commit_disk:
  assumes "log_ready q s" and "m \<notin> log_area s"
  shows "play (commit_writes s) (memdisk s) m = view s m" "play (commit_writes s) (view s) m = view s m"
proof -
  note l = log_readyD [OF assms(1)]
  have m: "m \<notin> logblk s ` {..<29}" "m \<noteq> log_start s" using assms(2) by (auto simp: log_area_def)
  have lw: "play (log_writes s) D m = D m" for D
    using log_writes_other [OF l(4) m(1), of "nat (lh_n s)"] by (simp add: log_writes_def)
  have hw: "play (home_writes s) D m = (if m \<in> homeblk s ` {..<nat (lh_n s)} then view s m else D m)" for D
    using play_home_writes [where k = "nat (lh_n s)" and s = s] by (simp add: home_writes_def)
  show "play (commit_writes s) (memdisk s) m = view s m" "play (commit_writes s) (view s) m = view s m"
    using m(2) home_or_clean [OF assms(1), of m] by (simp_all add: commit_writes_def hw lw)
qed

lemma crash_recovers:
  assumes "log_ready q s" and "rebooted p (play (take k (commit_writes s)) (memdisk s)) s r"
  shows "\<exists>u. recover_from_log r = Inr u \<and>
    (\<forall>m. m \<notin> log_area s \<longrightarrow> memdisk u m = (if k \<le> nat (lh_n s) then memdisk s m else view s m))"
proof -
  note l = log_readyD [OF assms(1)]
  let ?n = "nat (lh_n s)" and ?st = "log_start s"
  consider "k \<le> ?n" | "?n < k" "k \<le> 2 * ?n + 1" | "2 * ?n + 1 < k" by linarith
  then show ?thesis
  proof cases
    case 1
    let ?D = "play (take k (log_writes s)) (memdisk s)"
    have rb: "rebooted p ?D s r" using assms(2) take_commit_writes(1) [OF refl 1] by simp
    have "?D ?st = memdisk s ?st" by (rule log_writes_other [OF l(4) log_start_apart])
    then obtain u where "recover_from_log r = Inr u" "\<forall>m. m \<noteq> ?st \<longrightarrow> memdisk u m = ?D m"
      using recover_empty [OF rb] l(8) by auto
    then show ?thesis using 1 log_writes_other [OF l(4)] by (auto simp: log_area_def)
  next
    case 2
    then show ?thesis using crash_committed [OF assms(1) refl] assms(2) take_commit_writes(2) [OF refl 2] by auto
  next
    case 3
    let ?D = "play (commit_writes s) (memdisk s)"
    have rb: "rebooted p ?D s r" using assms(2) take_commit_writes(3) [OF refl 3] by simp
    have "get32 (header_of 0 (lh_block s) (committed_head s)) 0 = 0" using committed_header(1) [OF assms(1)] by (simp add: header_n)
    then obtain u where u: "recover_from_log r = Inr u" "\<forall>m. m \<noteq> ?st \<longrightarrow> memdisk u m = ?D m"
      using recover_empty [OF rb] by (auto simp: commit_writes_def)
    have "memdisk u m = view s m" if m: "m \<notin> log_area s" for m
      using commit_disk [OF assms(1) m] u(2) m by (auto simp: log_area_def)
    then show ?thesis using 3 u(1) by auto
  qed
qed

section \<open>Recording blocks\<close>

lemma set_dirty_ok:
  assumes "cache_inv q H s" and "b \<in> H" and "holds_block s n b" and "t = upd_buf b (\<lambda>x. x\<lparr>b_flags := b_flags x OR 4\<rparr>) s"
  shows "cache_inv q H t" "view t = view s" "dirty_blocks t = insert n (dirty_blocks s)" "holds_block t m c = holds_block s m c"
proof -
  have b: "b < 30" "valid_buf (buf_at s b)" using assms(3) by (simp_all add: holds_block_def)
  have at: "buf_at t c = (if c = b then (buf_at s b)\<lparr>b_flags := b_flags (buf_at s b) OR 4\<rparr> else buf_at s c)" for c
    using cache_runs(3) [OF assms(1)] b(1) by (simp add: assms(4) upd_nth_sel)
  have v: "valid_buf (buf_at t c) = valid_buf (buf_at s c)" for c using at b(2) by (simp add: flag_bits bit_or_iff)
  show hb: "holds_block t m c = holds_block s m c" for m c using at v by (auto simp: holds_block_def)
  have "buf_ok q H t c" if "c < NBUF" for c
  proof (cases "c = b")
    case True
    have "valid_buf ((buf_at s b)\<lparr>b_flags := b_flags (buf_at s b) OR 4\<rparr>)" using v [of b] b(2) at by simp
    then show ?thesis using cache_invD(5) [OF assms(1) that] assms(2) b(2) True unfolding buf_ok_def at by (simp add: Let_def assms(4))
  next
    case False
    then show ?thesis using cache_invD(5) [OF assms(1) that] unfolding buf_ok_def at by (simp add: Let_def assms(4))
  qed
  moreover have o: "one_buf t" using one_buf_same [of t s] hb cache_invD(6) [OF assms(1)] by simp
  moreover have "\<exists>xs. ring (bufs t) xs" using cache_invD(3) [OF assms(1)] ring_upd_nth [of _ _ "\<lambda>x. x\<lparr>b_flags := b_flags x OR 4\<rparr>" b] by (auto simp: assms(4))
  ultimately show "cache_inv q H t" using assms(1) by (simp add: cache_inv_def assms(4))
  show "view t = view s"
  proof
    fix m show "view t m = view s m"
    proof (cases "\<exists>c. holds_block s m c")
      case True
      then obtain c where c: "holds_block s m c" by blast
      then show ?thesis using view_held [OF o, of m c] view_held [OF cache_invD(6) [OF assms(1)] c] hb at by simp
    next
      case False
      then show ?thesis using view_disk [of s m] view_disk [of t m] hb by (simp add: assms(4))
    qed
  qed
  have "dirty_buf (buf_at t c) \<longleftrightarrow> c = b \<or> dirty_buf (buf_at s c)" for c using at by simp
  then show "dirty_blocks t = insert n (dirty_blocks s)" using assms(3) hb unfolding dirty_blocks_def
    by (auto simp: holds_block_def)
qed

lemma log_slot_new: "n \<notin> homeblk s ` {..<nat (lh_n s)} \<Longrightarrow> log_slot n s = nat (lh_n s)"
proof -
  assume "n \<notin> homeblk s ` {..<nat (lh_n s)}"
  then have "find (\<lambda>i. lh_block s ! i = n) [0..<nat (lh_n s)] = None" by (auto simp: find_upt_None homeblk_def)
  then show ?thesis by (simp add: log_slot_def)
qed

lemma log_slot_old: "n \<in> homeblk s ` {..<nat (lh_n s)} \<Longrightarrow> log_slot n s < nat (lh_n s) \<and> homeblk s (log_slot n s) = n"
proof -
  assume "n \<in> homeblk s ` {..<nat (lh_n s)}"
  then have "find (\<lambda>i. lh_block s ! i = n) [0..<nat (lh_n s)] \<noteq> None" by (auto simp: find_upt_None homeblk_def)
  then obtain i where "find (\<lambda>i. lh_block s ! i = n) [0..<nat (lh_n s)] = Some i" by auto
  moreover from this have "i < nat (lh_n s)" "lh_block s ! i = n" by (simp_all add: find_upt_Some)
  ultimately show ?thesis by (simp add: log_slot_def homeblk_def)
qed

lemma log_write_calm:
  assumes "cache_inv q H s" and "b_blockno (buf_at s b) = n" and "txn_inv s" and "lh_n s < log_size s - 1" and "1 \<le> outstanding s"
  shows "log_write b s = Inr (upd_buf b (\<lambda>x. x\<lparr>b_flags := b_flags x OR 4\<rparr>)
    (if n \<in> dirty_blocks s then s else s\<lparr>lh_block := (lh_block s)[nat (lh_n s) := n], lh_n := lh_n s + 1\<rparr>))"
proof -
  have t: "0 \<le> lh_n s" "lh_n s < 30" "dirty_blocks s = homeblk s ` {..<nat (lh_n s)}" using assms(3) by (simp_all add: txn_inv_def)
  have sl: "log_slot n (acquired L_log s) = log_slot n s" by (simp add: log_slot_def cong: option.case_cong)
  have c: "calm s" "lock_free L_log s" using cache_runs(1) [OF assms(1)] cache_invD(2) [OF assms(1)] by simp_all
  show ?thesis
  proof (cases "n \<in> dirty_blocks s")
    case True
    then have i: "log_slot n s < nat (lh_n s)" "lh_block s ! log_slot n s = n" using log_slot_old [of n s] t(3) by (auto simp: homeblk_def)
    then have "(lh_block s)[log_slot n s := n] = lh_block s" by (metis list_update_id)
    then have "s\<lparr>lh_block := (lh_block s)[log_slot n s := n]\<rparr> = s" by simp
    moreover have "int (log_slot n s) \<noteq> lh_n s" using i(1) by simp
    ultimately show ?thesis using True t assms(2,4,5) c sl by (simp add: log_write_def Let_def)
  next
    case False
    then have "log_slot n s = nat (lh_n s)" using log_slot_new [of n s] t(3) by simp
    then show ?thesis using False t assms(2,4,5) c sl by (simp add: log_write_def Let_def)
  qed
qed

lemma log_write_ok:
  assumes "cache_inv q H s" and "b \<in> H" and "holds_block s n b" and "txn_inv s" and "lh_n s < log_size s - 1" and "log_size s \<le> int LOGSIZE"
    and "1 \<le> outstanding s"
  shows "\<exists>t. log_write b s = Inr t \<and> cache_inv q H t \<and> txn_inv t \<and> view t = view s \<and> memdisk t = memdisk s \<and> diskw t = diskw s \<and>
    dirty_blocks t = insert n (dirty_blocks s) \<and> lh_n t = (if n \<in> dirty_blocks s then lh_n s else lh_n s + 1) \<and>
    log_fixed s t \<and> holds_block t n b \<and> dirty_buf (buf_at t b)"
proof -
  have bn: "b_blockno (buf_at s b) = n" using assms(3) by (simp add: holds_block_def)
  have t: "0 \<le> lh_n s" "lh_n s < 30" "dirty_blocks s = homeblk s ` {..<nat (lh_n s)}" "length (lh_block s) = 30"
      "inj_on (homeblk s) {..<nat (lh_n s)}" using assms(4) by (simp_all add: txn_inv_def)
  define u where "u = (if n \<in> dirty_blocks s then s else s\<lparr>lh_block := (lh_block s)[nat (lh_n s) := n], lh_n := lh_n s + 1\<rparr>)"
  define v where "v = upd_buf b (\<lambda>x. x\<lparr>b_flags := b_flags x OR 4\<rparr>) u"
  have uf: "cache_inv q H u" "view u = view s" "dirty_blocks u = dirty_blocks s" "memdisk u = memdisk s" "diskw u = diskw s"
      "holds_block u n b" "lh_n u = (if n \<in> dirty_blocks s then lh_n s else lh_n s + 1)"
    using assms(1,3) by (simp_all add: u_def holds_block_def)
  note d = set_dirty_ok [OF uf(1) assms(2) uf(6) v_def]
  have vf: "memdisk v = memdisk s" "diskw v = diskw s" "lh_n v = lh_n u" "lh_block v = lh_block u" "homeblk v = homeblk u"
    using uf(4,5) by (simp_all add: v_def upd_buf_def homeblk_def fun_eq_iff)
  have "homeblk v ` {..<nat (lh_n v)} = insert n (dirty_blocks s) \<and> inj_on (homeblk v) {..<nat (lh_n v)}"
  proof (cases "n \<in> dirty_blocks s")
    case True
    then show ?thesis using vf t uf(7) by (auto simp: u_def)
  next
    case False
    have h: "homeblk v i = homeblk s i" if "i < nat (lh_n s)" for i using vf(5) False that by (simp add: u_def homeblk_def)
    have "homeblk v (nat (lh_n s)) = n" using vf(5) False t by (simp add: u_def homeblk_def)
    moreover have "{..<nat (lh_n v)} = insert (nat (lh_n s)) {..<nat (lh_n s)}" using vf(3) uf(7) False t(1) by auto
    moreover have "homeblk v ` {..<nat (lh_n s)} = homeblk s ` {..<nat (lh_n s)}" using h by (intro image_cong) auto
    moreover have "inj_on (homeblk v) {..<nat (lh_n s)}" using t(5) h by (auto simp: inj_on_def)
    ultimately show ?thesis using t(3) False by auto
  qed
  moreover have "0 \<le> lh_n v" "lh_n v < 30" "length (lh_block v) = 30" using vf uf(7) t assms(5,6) by (auto simp: u_def)
  ultimately have "txn_inv v" using d(3) uf(3) by (simp add: txn_inv_def)
  moreover have "log_write b s = Inr v" using log_write_calm [OF assms(1) bn assms(4,5,7)] by (simp add: v_def u_def)
  moreover have "log_fixed s v" by (simp add: log_fixed_def v_def u_def upd_buf_def)
  moreover have "dirty_buf (buf_at v b)"
    using assms(3) cache_runs(3) [OF uf(1)] by (simp add: v_def upd_nth_sel holds_block_def)
  ultimately show ?thesis using d vf uf by (intro exI [of _ v]) simp
qed

section \<open>Transactions\<close>

lemma log_fixed_area: "log_fixed s t \<Longrightarrow> log_area t = log_area s"
  by (simp add: log_area_def logblk_def log_fixed_def)

lemma log_fixed_fits: "log_fixed s t \<Longrightarrow> length (lh_block t) = LOGSIZE \<Longrightarrow> log_fits s \<Longrightarrow> log_fits t"
  using log_fixed_area [of s t] by (simp add: log_fits_def log_fixed_def)

lemma op_frame_refl [simp]: "op_frame s s"
  by (simp add: op_frame_def)

lemma op_frameD: "op_frame s t \<Longrightarrow> t = s\<lparr>procs := procs t, slocks := slocks t, bufs := bufs t, memdisk := memdisk t, diskw := diskw t,
    lh_n := lh_n t, lh_block := lh_block t\<rparr>"
  by (simp add: op_frame_def)

lemma op_frame_trans: "op_frame s t \<Longrightarrow> op_frame t u \<Longrightarrow> op_frame s u"
proof -
  assume a: "op_frame s t" and b: "op_frame t u"
  have "u = t\<lparr>procs := procs u, slocks := slocks u, bufs := bufs u, memdisk := memdisk u, diskw := diskw u,
      lh_n := lh_n u, lh_block := lh_block u\<rparr>"
    by (rule op_frameD [OF b])
  also have "\<dots> = s\<lparr>procs := procs u, slocks := slocks u, bufs := bufs u, memdisk := memdisk u, diskw := diskw u,
      lh_n := lh_n u, lh_block := lh_block u\<rparr>"
    by (subst op_frameD [OF a]) simp
  finally show ?thesis using a b by (simp add: op_frame_def)
qed

lemma bio_op_frame: "bio_frame s t \<Longrightarrow> op_frame s t"
proof -
  assume a: "bio_frame s t"
  have "t = s\<lparr>procs := procs t, slocks := slocks t, bufs := bufs t, memdisk := memdisk t, diskw := diskw t\<rparr>" by (rule bio_frameD [OF a])
  also have "\<dots> = s\<lparr>procs := procs t, slocks := slocks t, bufs := bufs t, memdisk := memdisk t, diskw := diskw t,
      lh_n := lh_n t, lh_block := lh_block t\<rparr>"
    using bio_frame_log(3,4) [OF a] by simp
  finally show ?thesis using a by (simp add: op_frame_def bio_frame_def)
qed

lemma op_frame_fixed: "op_frame s t \<Longrightarrow> log_fixed s t"
proof -
  assume a: "op_frame s t"
  show ?thesis unfolding log_fixed_def by (subst (1 2 3 4 5 6) op_frameD [OF a]) simp
qed

lemma logged_refl [simp]: "logged [] s s"
  by (simp add: logged_def)

lemma logged_trans: "logged ws s t \<Longrightarrow> logged ws' t u \<Longrightarrow> logged (ws @ ws') s u"
  using op_frame_trans [of s t u] by (auto simp: logged_def)

lemma keeps_refl [simp]: "keeps H s s"
  by (simp add: keeps_def)

lemma keeps_trans: "keeps H s t \<Longrightarrow> keeps H t u \<Longrightarrow> keeps H s u"
  by (simp add: keeps_def)

lemma keeps_mono: "keeps H s t \<Longrightarrow> G \<subseteq> H \<Longrightarrow> keeps G s t"
  by (auto simp: keeps_def)

lemma in_opD:
  assumes "in_op q H s"
  shows "cache_inv q H s" "log_fits s" "txn_inv s" "1 \<le> outstanding s" "log_size s = 30" "\<not> committing s" "0 \<le> lh_n s"
    "card (dirty_blocks s) = nat (lh_n s)" "finite H"
  using assms cache_invD(4) [of q H s] by (auto simp: in_op_def txn_inv_def card_image intro: finite_subset)

lemma in_op_logged:
  assumes "in_op q H s" and "cache_inv q G t" and "txn_inv t" and "logged ws s t" and "\<forall>w\<in>set ws. home_ok s w"
  shows "in_op q G t"
proof -
  have fx: "log_fixed s t" using assms(4) op_frame_fixed [of s t] by (simp add: logged_def)
  have "log_fits t" using log_fixed_fits [OF fx _ in_opD(2) [OF assms(1)]] assms(3) by (simp add: txn_inv_def)
  moreover have "\<forall>m\<in>dirty_blocks t. m < disksize t \<and> m \<notin> log_area t"
    using assms(1,4,5) fx log_fixed_area [OF fx] by (auto simp: in_op_def logged_def home_ok_def log_fixed_def)
  ultimately show ?thesis using assms fx by (simp add: in_op_def log_fixed_def logged_def)
qed

lemma read_ok:
  assumes "in_op q H s" and "n < disksize s" and "\<forall>c\<in>H. \<not> holds_block s n c" and "lh_n s + int (card H) < 30"
  shows "\<exists>b t. bread 1 n s = Inr (b, t) \<and> b \<notin> H \<and> in_op q (insert b H) t \<and> holds_block t n b \<and> logged [] s t \<and> keeps H s t \<and>
    (dirty_buf (buf_at t b) \<or> view t n = memdisk t n)"
proof -
  note i = in_opD [OF assms(1)]
  have "card (pinned s \<union> H) \<le> card (pinned s) + card H" by (rule card_Un_le)
  then have room: "card (pinned s \<union> H) < NBUF" using card_pinned [OF i(1)] i(7,8) assms(4) by linarith
  obtain b t where t: "bread 1 n s = Inr (b, t)" "block_read q H n s b t" using bread_ok [OF i(1) assms(2,3)] room by auto
  note r = t(2) [unfolded block_read_def]
  have f: "bio_frame s t" "cache_inv q (insert b H) t" "holds_block t n b" "view t = view s" "dirty_blocks t = dirty_blocks s" using r by auto
  have l: "logged [] s t" using r f bio_frame_log(3) [OF f(1)] bio_op_frame [OF f(1)] by (simp add: logged_def)
  have "txn_inv t" using i(3) bio_frame_log [OF f(1)] f(5) by (simp add: txn_inv_def)
  then have "in_op q (insert b H) t" using in_op_logged [OF assms(1) f(2) _ l] by simp
  moreover have "keeps H s t" using r by (auto simp: keeps_def holds_block_def)
  moreover have "view t n = b_data (buf_at t b)" by (rule view_held [OF cache_invD(6) [OF f(2)] f(3)])
  ultimately show ?thesis using t(1) r l by (intro exI [of _ b] exI [of _ t]) auto
qed

lemma put_ok:
  assumes "in_op q H s" and "b \<in> H" and "holds_block s n b" and "home_ok s (n, f (view s n))" and "lh_n s < 29"
  shows "\<exists>t. log_write b (upd_buf b (\<lambda>x. x\<lparr>b_data := f (b_data x)\<rparr>) s) = Inr t \<and> in_op q H t \<and> logged [(n, f (view s n))] s t \<and>
    keeps H s t \<and> dirty_buf (buf_at t b)"
proof -
  note i = in_opD [OF assms(1)]
  define d where "d = f (view s n)"
  define v where "v = upd_buf b (\<lambda>x. x\<lparr>b_data := d\<rparr>) s"
  have b: "b < 31" using assms(3) by (simp add: holds_block_def)
  have "b_data (buf_at s b) = view s n" using view_held [OF cache_invD(6) [OF i(1)] assms(3)] by simp
  then have e: "upd_buf b (\<lambda>x. x\<lparr>b_data := f (b_data x)\<rparr>) s = v"
    using b cache_runs(3) [OF i(1)] by (simp add: v_def d_def upd_buf_def upd_nth_def)
  have len: "length d = BSIZE" using assms(4) by (simp add: home_ok_def d_def)
  note vd = set_data_ok [OF i(1) assms(2) len assms(3) v_def]
  have vf: "lh_n v = lh_n s" "lh_block v = lh_block s" "homeblk v = homeblk s" "log_size v = log_size s" "outstanding v = outstanding s"
      "memdisk v = memdisk s" "diskw v = diskw s"
    by (simp_all add: v_def upd_buf_def homeblk_def fun_eq_iff)
  have "dirty_buf (buf_at v c) = dirty_buf (buf_at s c)" "valid_buf (buf_at v c) = valid_buf (buf_at s c)"
      "b_blockno (buf_at v c) = b_blockno (buf_at s c)" for c
    using vd(5,6) by (cases "c = b"; simp)+
  note same = this and dv = pinned_same(2) [of v s]
  have tv: "txn_inv v" using i(3) vf dv same by (simp add: txn_inv_def)
  have lv: "lh_n v < log_size v - 1" "log_size v \<le> int LOGSIZE" "1 \<le> outstanding v" using vf i assms(5) by simp_all
  have cv: "holds_block v n b" "b_blockno (buf_at v b) = n" using vd(4) assms(3) by (simp_all add: holds_block_def same)
  define u where "u = (if n \<in> dirty_blocks v then v else v\<lparr>lh_block := (lh_block v)[nat (lh_n v) := n], lh_n := lh_n v + 1\<rparr>)"
  define t where "t = upd_buf b (\<lambda>x. x\<lparr>b_flags := b_flags x OR 4\<rparr>) u"
  have t: "log_write b v = Inr t" using log_write_calm [OF vd(1) cv(2) tv lv(1,3)] by (simp add: t_def u_def)
  have w: "cache_inv q H t" "txn_inv t" "view t = view v" "memdisk t = memdisk v" "diskw t = diskw v" "dirty_blocks t = insert n (dirty_blocks v)"
      "lh_n t \<le> lh_n v + 1" "dirty_buf (buf_at t b)"
    using log_write_ok [OF vd(1) assms(2) cv(1) tv lv] t by auto
  have "bufs t = upd_nth b (\<lambda>x. x\<lparr>b_flags := b_flags x OR 4\<rparr>) (bufs v)" by (simp add: t_def u_def upd_buf_def)
  then have at: "buf_at t c = (if c = b then (buf_at v b)\<lparr>b_flags := b_flags (buf_at v b) OR 4\<rparr> else buf_at v c)" for c
    using b cache_runs(3) [OF vd(1)] by (simp add: upd_nth_sel)
  have ht: "holds_block t m c = holds_block v m c" for m c
    using at [of c] cv(1) by (auto simp: holds_block_def flag_bits bit_or_iff)
  have "op_frame s t" by (simp add: op_frame_def t_def u_def v_def upd_buf_def)
  moreover have "view t = (view s)(n := d)" using w(3) vd(2) by (auto simp: fun_eq_iff)
  ultimately have l: "logged [(n, d)] s t" using w vf dv same by (simp add: logged_def)
  have "keeps H s t" using ht vd(4) at same w(8) by (simp add: keeps_def)
  moreover have "in_op q H t" by (rule in_op_logged [OF assms(1) w(1,2) l]) (use assms(4) in \<open>simp add: d_def\<close>)
  ultimately show ?thesis using t e l w(8) by (auto simp: d_def)
qed

lemma rel_ok:
  assumes "in_op q H s" and "b \<in> H" and "holds_block s n b" and "dirty_buf (buf_at s b) \<or> view s n = memdisk s n"
  shows "\<exists>t. brelse b s = Inr t \<and> in_op q (H - {b}) t \<and> logged [] s t \<and> keeps H s t"
proof -
  note i = in_opD [OF assms(1)]
  have "dirty_buf (buf_at s b) \<or> b_data (buf_at s b) = memdisk s (b_blockno (buf_at s b))"
    using assms(3,4) view_held [OF cache_invD(6) [OF i(1)] assms(3)] by (auto simp: holds_block_def)
  then obtain t where t: "brelse b s = Inr t" "block_released q H s b t" using brelse_ok [OF i(1) assms(2)] by blast
  note r = t(2) [unfolded block_released_def] and d = released_dirty [OF t(2)]
  have f: "bio_frame s t" "cache_inv q (H - {b}) t" "view t = view s" using r by auto
  have l: "logged [] s t" using r f d bio_frame_log(3) [OF f(1)] bio_op_frame [OF f(1)] by (simp add: logged_def)
  have "txn_inv t" using i(3) bio_frame_log [OF f(1)] d by (simp add: txn_inv_def)
  then have "in_op q (H - {b}) t" using in_op_logged [OF assms(1) f(2) _ l] by simp
  moreover have "keeps H s t"
  proof -
    have "c \<le> 30" if "c \<in> H" for c using that cache_invD(4) [OF i(1)] by auto
    then show ?thesis using r by (simp add: keeps_def dirty_buf_def)
  qed
  ultimately show ?thesis using t(1) l by blast
qed

text \<open>Reading a block, changing it, recording it and releasing it.\<close>

lemma update_ok:
  assumes "in_op q H s" and "home_ok s (n, f (view s n))" and "\<forall>c\<in>H. \<not> holds_block s n c" and "lh_n s + int (card H) < 29"
  shows "\<exists>b u v t. bread 1 n s = Inr (b, u) \<and> b \<notin> H \<and> holds_block u n b \<and> cache_inv q (insert b H) u \<and> logged [] s u \<and>
    log_write b (upd_buf b (\<lambda>x. x\<lparr>b_data := f (b_data x)\<rparr>) u) = Inr v \<and> brelse b v = Inr t \<and> op_frame s v \<and>
    in_op q H t \<and> logged [(n, f (view s n))] s t \<and> keeps H s t"
proof -
  have n: "n < disksize s" "lh_n s + int (card H) < 30" using assms(2,4) by (simp_all add: home_ok_def)
  obtain b u where u: "bread 1 n s = Inr (b, u)" "b \<notin> H" "in_op q (insert b H) u" "holds_block u n b" "logged [] s u" "keeps H s u"
    using read_ok [OF assms(1) n(1) assms(3) n(2)] by blast
  have us: "view u = view s" "lh_n u \<le> lh_n s" "op_frame s u" using u(5) by (simp_all add: logged_def)
  have hu: "home_ok u (n, f (view u n))"
    using assms(2) us op_frame_fixed [OF us(3)] log_fixed_area [OF op_frame_fixed [OF us(3)]] by (simp add: home_ok_def log_fixed_def)
  have "lh_n u < 29" using us(2) assms(4) by linarith
  then obtain v where v: "log_write b (upd_buf b (\<lambda>x. x\<lparr>b_data := f (b_data x)\<rparr>) u) = Inr v" "in_op q (insert b H) v"
      "logged [(n, f (view s n))] u v" "keeps (insert b H) u v" "dirty_buf (buf_at v b)"
    using put_ok [where f = f, OF u(3) _ u(4) hu] us(1) by auto
  have hv: "holds_block v n b" using v(4) u(4) by (simp add: keeps_def)
  obtain t where t: "brelse b v = Inr t" "in_op q (insert b H - {b}) t" "logged [] v t" "keeps (insert b H) v t"
    using rel_ok [OF v(2) _ hv] v(5) by blast
  have "insert b H - {b} = H" using u(2) by auto
  moreover have "keeps H s t" using u(6) keeps_mono [OF v(4), of H] keeps_mono [OF t(4), of H] by (blast intro: keeps_trans)
  moreover have "op_frame s v" using us(3) v(3) op_frame_trans by (auto simp: logged_def)
  ultimately show ?thesis using u v(1) t logged_trans [OF logged_trans [OF u(5) v(3)] t(3)] in_opD(1) [OF u(3)] by auto
qed

lemma update_block_ok:
  assumes "in_op q {} s" and "home_ok s (n, d)" and "lh_n s < 29"
  shows "\<exists>t. update_block n d s = Inr t \<and> in_op q {} t \<and> logged [(n, d)] s t"
proof -
  have "lh_n s + int (card {}) < 29" using assms(3) by simp
  from update_ok [where f = "\<lambda>_. d", OF assms(1,2) _ this] show ?thesis by (auto simp: update_block_def)
qed

lemma home_ok_logged: "logged ws s t \<Longrightarrow> home_ok t w = home_ok s w"
  using op_frame_fixed [of s t] log_fixed_area [of s t] by (simp add: logged_def home_ok_def log_fixed_def)

lemma update_blocks_ok:
  assumes "in_op q {} s" and "\<forall>w\<in>set ws. home_ok s w" and "lh_n s + int (length ws) \<le> 29"
  shows "\<exists>t. update_blocks ws s = Inr t \<and> in_op q {} t \<and> logged ws s t"
  using assms
proof (induction ws arbitrary: s)
  case Nil
  then show ?case by simp
next
  case (Cons w ws)
  obtain t where t: "update_block (fst w) (snd w) s = Inr t" "in_op q {} t" "logged [w] s t"
    using update_block_ok [OF Cons.prems(1), of "fst w" "snd w"] Cons.prems(2,3) by auto
  have "\<forall>w\<in>set ws. home_ok t w" using Cons.prems(2) home_ok_logged [OF t(3)] by simp
  then obtain u where "update_blocks ws t = Inr u" "in_op q {} u" "logged ws t u"
    using Cons.IH [OF t(2)] Cons.prems(3) t(3) by (auto simp: logged_def)
  then show ?case using t logged_trans [OF t(3)] by fastforce
qed

lemma cache_wakeup:
  "cache_inv q H (wakeup1 ch s) = cache_inv q H s" "view (wakeup1 ch s) = view s" "dirty_blocks (wakeup1 ch s) = dirty_blocks s"
proof -
  let ?t = "wakeup1 ch s"
  have h: "holds_block ?t n = holds_block s n" for n by (rule ext) (simp add: holds_block_def)
  show "view ?t = view s" "dirty_blocks ?t = dirty_blocks s"
    by (simp_all only: fun_eq_iff view_def dirty_blocks_def wakeup1_bio h simp_thms)
  have "runs q ?t = runs q s" by (simp add: runs_def depth_same) (simp add: wakeup1_def)
  moreover have "own q ?t = own q s" if "runs q s"
    using that by (simp add: own_def wakeup1_proc_at runs_def)
  moreover have "one_buf ?t = one_buf s" by (simp add: one_buf_def)
  ultimately show "cache_inv q H ?t = cache_inv q H s" unfolding cache_inv_def buf_ok_def Let_def wakeup1_bio wakeup1_calm by auto
qed

lemma cache_log_flags [simp]:
  "cache_inv q H (s\<lparr>outstanding := n\<rparr>) = cache_inv q H s" "view (s\<lparr>outstanding := n\<rparr>) = view s" "dirty_blocks (s\<lparr>outstanding := n\<rparr>) = dirty_blocks s"
  "cache_inv q H (s\<lparr>committing := c\<rparr>) = cache_inv q H s" "view (s\<lparr>committing := c\<rparr>) = view s" "dirty_blocks (s\<lparr>committing := c\<rparr>) = dirty_blocks s"
  by (rule cache_same; simp add: mach_same_def)+

lemma log_flags [simp]:
  "log_area (s\<lparr>outstanding := n\<rparr>) = log_area s" "log_fits (s\<lparr>outstanding := n\<rparr>) = log_fits s" "homeblk (s\<lparr>outstanding := n\<rparr>) = homeblk s"
  "log_area (s\<lparr>committing := c\<rparr>) = log_area s" "log_fits (s\<lparr>committing := c\<rparr>) = log_fits s" "homeblk (s\<lparr>committing := c\<rparr>) = homeblk s"
  by (simp_all add: log_area_def logblk_def log_fits_def homeblk_def fun_eq_iff)

lemma wakeup1_log [simp]:
  "log_area (wakeup1 ch s) = log_area s" "log_fits (wakeup1 ch s) = log_fits s" "lh_n (wakeup1 ch s) = lh_n s"
  "outstanding (wakeup1 ch s) = outstanding s" "committing (wakeup1 ch s) = committing s" "log_size (wakeup1 ch s) = log_size s"
  "log_start (wakeup1 ch s) = log_start s"
  by (simp_all add: log_area_def logblk_def log_fits_def wakeup1_def)

lemma begin_op_admits:
  assumes "cache_inv q H s" and "\<not> committing s" and "lh_n s + (outstanding s + 1) * MAXOPBLOCKS \<le> int LOGSIZE"
  shows "begin_op [] s = Inr (s\<lparr>outstanding := outstanding s + 1\<rparr>)"
  using assms cache_runs(1) [OF assms(1)] cache_invD(2) [OF assms(1)] by (simp add: begin_op_def begin_op_loop.simps)

lemma begin_op_ok:
  assumes "log_idle q s"
  shows "begin_op [] s = Inr (s\<lparr>outstanding := 1\<rparr>)" "in_op q {} (s\<lparr>outstanding := 1\<rparr>)"
proof -
  have i: "cache_inv q {} s" "log_fits s" "dirty_blocks s = {}" "lh_n s = 0" "outstanding s = 0" "\<not> committing s"
    using assms by (simp_all add: log_idle_def)
  show "begin_op [] s = Inr (s\<lparr>outstanding := 1\<rparr>)"
    using begin_op_admits [OF i(1)] i by simp
  show "in_op q {} (s\<lparr>outstanding := 1\<rparr>)" using i assms by (simp add: in_op_def txn_inv_def log_idle_def log_fits_def)
qed

lemma commit_ok:
  assumes "cache_inv q {} s" and "log_fits s" and "txn_inv s" and "\<forall>m\<in>dirty_blocks s. m < disksize s \<and> m \<notin> log_area s"
    and "get32 (memdisk s (log_start s)) 0 = 0"
  shows "\<exists>t log j. commit s = Inr t \<and> cache_inv q {} t \<and> dirty_blocks t = {} \<and> lh_n t = 0 \<and> get32 (memdisk t (log_start s)) 0 = 0 \<and>
    log_fixed s t \<and> lh_block t = lh_block s \<and> commits j log s t"
proof (cases "lh_n s > 0")
  case True
  have rd: "log_ready q s" using assms True by (auto simp: log_ready_def txn_inv_def)
  obtain t where t: "commit s = Inr t" "cache_inv q {} t" "memdisk t = play (commit_writes s) (memdisk s)"
    "diskw t = diskw s @ commit_writes s" "dirty_blocks t = {}" "lh_n t = 0" "log_fixed s t" "lh_block t = lh_block s"
    using commit_runs [OF rd] by blast
  have "get32 (header_of 0 (lh_block s) (committed_head s)) 0 = 0" using committed_header(1) [OF rd] by (simp add: header_n)
  then have "get32 (memdisk t (log_start s)) 0 = 0" by (simp add: t(3) commit_writes_def)
  moreover have "commits (nat (lh_n s)) (commit_writes s) s t"
    unfolding commits_def t(3,4) using commit_disk(1) [OF rd] crash_recovers [OF rd] by blast
  ultimately show ?thesis using t by blast
next
  case False
  then have z: "lh_n s = 0" "dirty_blocks s = {}" using assms(3) by (auto simp: txn_inv_def)
  then have v: "view s = memdisk s" using view_clean [OF assms(1)] by auto
  have "\<exists>u. recover_from_log r = Inr u \<and> (\<forall>m. m \<notin> log_area s \<longrightarrow> memdisk u m = memdisk s m)"
    if "rebooted p (memdisk s) s r" for p and r :: "'a logst_scheme"
    using recover_empty [OF that assms(5)] by (auto simp: log_area_def)
  then have "commits 0 [] s s" unfolding commits_def v if_cancel by (simp add: play_def)
  then show ?thesis using z assms by (intro exI [of _ s] exI [of _ "[]"] exI [of _ 0]) (simp add: commit_def log_fixed_def)
qed

lemma end_op_ok:
  assumes "in_op q {} s" and "outstanding s = 1"
  shows "\<exists>t log j. end_op s = Inr t \<and> log_idle q t \<and> commits j log s t"
proof -
  define c where "c = s\<lparr>outstanding := 0, committing := True\<rparr>"
  have i: "cache_inv q {} s" "outstanding s = 1" "\<not> committing s" "log_fits s" "log_size s = 30" using assms by (simp_all add: in_op_def)
  have ci: "cache_inv q {} c" "log_fits c" "txn_inv c" "\<forall>m\<in>dirty_blocks c. m < disksize c \<and> m \<notin> log_area c"
    "get32 (memdisk c (log_start c)) 0 = 0" using assms by (simp_all add: c_def in_op_def txn_inv_def)
  obtain t log j where t: "commit c = Inr t" "cache_inv q {} t" "dirty_blocks t = {}" "lh_n t = 0" "get32 (memdisk t (log_start c)) 0 = 0"
      "log_fixed c t" "lh_block t = lh_block c" "commits j log c t" using commit_ok [OF ci] by blast
  define u where "u = wakeup1 (Some Ch_log) (t\<lparr>committing := False\<rparr>)"
  have "end_op s = Inr u"
    using i t(1) cache_runs(1) [OF i(1)] cache_invD(2) [OF i(1)] cache_runs(1) [OF t(2)] cache_invD(2) [OF t(2)]
    by (simp add: end_op_def Let_def c_def u_def)
  moreover have "log_fits t" using log_fixed_fits [OF t(6) _ ci(2)] t(7) ci(2) by (simp add: log_fits_def)
  then have "log_idle q u" using t i(5) by (simp add: log_idle_def u_def cache_wakeup log_fixed_def c_def)
  moreover have cs: "view c = view s" "memdisk c = memdisk s" "diskw c = diskw s" "log_area c = log_area s"
      "memdisk u = memdisk t" "diskw u = diskw t" "rebooted p D c r = rebooted p D s r" for p D and r :: "'a logst_scheme"
    by (simp_all add: c_def u_def rebooted_def)
  have "commits j log s u" using t(8) unfolding commits_def cs .
  ultimately show ?thesis by blast
qed

lemma update_blocks_append: "update_blocks (vs @ ws) s = bindR (update_blocks vs s) (\<lambda>s. update_blocks ws s)"
  by (induction vs arbitrary: s) (simp_all add: bindR_assoc)

lemma update_block_full:
  assumes "in_op q {} s" and "n < disksize s" and "lh_n s = 29"
  shows "update_block n d s = Inl (Panic ''too big a transaction'')"
proof -
  have i: "cache_inv q {} s" "txn_inv s" "log_size s = 30" using assms(1) by (simp_all add: in_op_def)
  have "card (dirty_blocks s) = nat (lh_n s)" using i(2) by (simp add: txn_inv_def card_image)
  then have room: "card (pinned s \<union> {}) < NBUF" using card_pinned [OF i(1)] assms(3) by simp
  obtain b u where u: "bread 1 n s = Inr (b, u)" "bio_frame s u" using bread_ok [OF i(1) assms(2)] room by (auto simp: block_read_def)
  then show ?thesis using bio_frame_log [OF u(2)] assms(3) i(3) by (simp add: update_block_def log_write_def upd_buf_def)
qed

lemma returnsR_iff: "returnsR m P \<longleftrightarrow> (\<exists>x. m = Inr x \<and> P x)"
  by (auto simp: returnsR_def split: sum.splits)

lemma demo_binit [simp]:
  "log_dev (binit (demo_kernel ())) = 1" "log_start (binit (demo_kernel ())) = 2" "lh_n (binit (demo_kernel ())) = 0"
  "length (lh_block (binit (demo_kernel ()))) = 30" "log_size (binit (demo_kernel ())) = 30" "outstanding (binit (demo_kernel ())) = 0"
  "\<not> committing (binit (demo_kernel ()))" "disksize (binit (demo_kernel ())) = 1000" "memdisk (binit (demo_kernel ())) n = replicate 512 0"
  using bio_frame_log [OF binit_cache(3) [OF demo_blank]] binit_cache(2) [OF demo_blank] binit_cache(4) [OF demo_blank]
  by (simp_all add: demo_kernel_def)

lemma demo_log_area: "n \<in> log_area (binit (demo_kernel ())) \<Longrightarrow> n < 32"
proof -
  have "3 + of_nat i < (32 :: u32)" if "i < 29" for i
  proof -
    have "of_nat i < (29 :: u32)" using that by (simp add: word_less_nat_alt unat_of_nat)
    then show ?thesis by unat_arith
  qed
  then have "2 + of_nat i + 1 < (32 :: u32)" if "i < 29" for i using that by (simp add: add.commute add.left_commute)
  moreover assume "n \<in> log_area (binit (demo_kernel ()))"
  ultimately show ?thesis by (auto simp: log_area_def logblk_def)
qed

lemma demo_idle: "log_idle 1 (binit (demo_kernel ()))"
proof -
  have "n < 1000" if "n < (32 :: u32)" for n using that by unat_arith
  then have "log_fits (binit (demo_kernel ()))" using demo_log_area by (auto simp: log_fits_def)
  moreover have "get32 (replicate 512 0) 0 = 0" by (simp add: get32_def nth_replicate)
  ultimately show ?thesis using binit_cache(1,2) [OF demo_blank] by (simp add: log_idle_def)
qed

lemma demo_home: "32 \<le> n \<Longrightarrow> n < 1000 \<Longrightarrow> length d = BSIZE \<Longrightarrow> home_ok (binit (demo_kernel ())) (n, d)"
  using demo_log_area [of n] by (auto simp: home_ok_def)

section \<open>Properties\<close>

text \<open>
  C5: transactions are atomic. A process alone in the file system that opens an operation, updates at
  most \<open>MAXOPBLOCKS\<close> blocks outside the log and closes it, finds all of them on the disk and the
  log empty again. If the machine stops after any number \<open>k\<close> of the block writes that this sends
  to the disk and is started again, recovery returns and leaves the disk (outside the log) either
  as it was before the transaction or as it is after it, the latter from some number of writes on.
\<close>

theorem transaction_atomic:
  fixes s :: "'a logst_scheme"
  assumes "log_idle q s" and "int (length ws) \<le> MAXOPBLOCKS" and "\<forall>w\<in>set ws. home_ok s w"
  shows "returnsR (transaction ws s) (\<lambda>t. log_idle q t \<and> (\<forall>m. m \<notin> log_area s \<longrightarrow> memdisk t m = play ws (memdisk s) m) \<and>
    (\<exists>log j. diskw t = diskw s @ log \<and> (\<forall>k p r. rebooted p (play (take k log) (memdisk s)) s (r :: 'a logst_scheme) \<longrightarrow>
      returnsR (recover_from_log r) (\<lambda>u. \<forall>m. m \<notin> log_area s \<longrightarrow>
        memdisk u m = (if k \<le> j then memdisk s m else play ws (memdisk s) m)))))"
proof -
  note b = begin_op_ok [OF assms(1)]
  let ?b = "s\<lparr>outstanding := 1\<rparr>"
  have "\<forall>w\<in>set ws. home_ok ?b w" using assms(3) by (simp add: home_ok_def)
  then obtain u where u: "update_blocks ws ?b = Inr u" "in_op q {} u" "view u = play ws (view s)" "memdisk u = memdisk s" "diskw u = diskw s" "log_fixed ?b u"
    using update_blocks_ok [OF b(2), of ws] op_frame_fixed [of ?b] assms(1,2) by (auto simp: log_idle_def logged_def)
  obtain t log j where t: "end_op u = Inr t" "log_idle q t" "commits j log u t" using end_op_ok [OF u(2)] u(6) by (auto simp: log_fixed_def)
  have "view s = memdisk s" by (rule ext) (use view_clean [of q s] assms(1) in \<open>simp add: log_idle_def\<close>)
  then have v: "view u = play ws (memdisk s)" using u(3) by simp
  have a: "log_area u = log_area s" "rebooted p D u r = rebooted p D s r" for p D and r :: "'a logst_scheme"
    using log_fixed_area [OF u(6)] u(6) by (simp_all add: rebooted_def log_fixed_def)
  have "transaction ws s = Inr t" using b(1) u(1) t(1) by (simp add: transaction_def)
  then show ?thesis using t(2,3) unfolding commits_def v a u(4,5) returnsR_iff by blast
qed

theorem transaction_atomic_witness:
  "let s = binit (demo_kernel ()); ws = [(100, replicate 512 7), (101, replicate 512 8), (100, replicate 512 9)] in
    returnsR (transaction ws s) (\<lambda>t. log_idle 1 t \<and> (\<forall>m. m \<notin> log_area s \<longrightarrow> memdisk t m = play ws (memdisk s) m) \<and>
    (\<exists>log j. diskw t = diskw s @ log \<and> (\<forall>k p r. rebooted p (play (take k log) (memdisk s)) s (r :: pipest) \<longrightarrow>
      returnsR (recover_from_log r) (\<lambda>u. \<forall>m. m \<notin> log_area s \<longrightarrow>
        memdisk u m = (if k \<le> j then memdisk s m else play ws (memdisk s) m)))))"
  unfolding Let_def by (rule transaction_atomic [OF demo_idle]) (simp_all add: demo_home)

text \<open>
  C33: the reservation of \<open>begin_op\<close> is one block too large for the log. Three operations are
  admitted at once into an empty log, each for \<open>MAXOPBLOCKS\<close> blocks; when they log that many
  distinct blocks, the kernel panics at the last one, because the header takes one of the
  \<open>LOGSIZE\<close> blocks of the log.
\<close>

theorem log_reservation_overrun:
  assumes "log_idle q s" and "length ws = 30" and "\<forall>w\<in>set ws. home_ok s w" and "distinct (map fst ws)"
  shows "bindR (begin_op [] s) (\<lambda>s. bindR (begin_op [] s) (\<lambda>s. begin_op [] s)) = Inr (s\<lparr>outstanding := 3\<rparr>) \<and>
    int (length ws) = 3 * MAXOPBLOCKS \<and> update_blocks ws (s\<lparr>outstanding := 3\<rparr>) = Inl (Panic ''too big a transaction'')"
proof -
  have i: "cache_inv q {} s" "\<not> committing s" "lh_n s = 0" "outstanding s = 0" "dirty_blocks s = {}" using assms(1) by (simp_all add: log_idle_def)
  have b: "begin_op [] (s\<lparr>outstanding := n\<rparr>) = Inr (s\<lparr>outstanding := n + 1\<rparr>)" if "n \<le> 2" for n
    using begin_op_admits [of q "{}" "s\<lparr>outstanding := n\<rparr>"] i that by simp
  have s: "s = s\<lparr>outstanding := 0\<rparr>" using i(4) by simp
  let ?s = "s\<lparr>outstanding := 3\<rparr>"
  obtain vs w where ws: "ws = vs @ [w]" "length vs = 29" using assms(2) by (cases ws rule: rev_cases) auto
  have t0: "in_op q {} ?s" using assms(1) by (simp add: in_op_def txn_inv_def log_idle_def log_fits_def)
  have "\<forall>w\<in>set vs. home_ok ?s w" using assms(3) ws(1) by (simp add: home_ok_def)
  then obtain t where t: "update_blocks vs ?s = Inr t" "in_op q {} t" "log_fixed ?s t" "dirty_blocks t = fst ` set vs"
    using update_blocks_ok [OF t0, of vs] op_frame_fixed [of ?s] ws(2) i(3,5) by (auto simp: logged_def)
  have "card (fst ` set vs) = 29" using assms(4) ws by (simp add: distinct_card flip: set_map)
  then have "lh_n t = 29" using t(2,4) by (simp add: in_op_def txn_inv_def card_image)
  moreover have "fst w < disksize t" using assms(3) ws(1) t(3) by (simp add: home_ok_def log_fixed_def)
  ultimately have "update_blocks ws ?s = Inl (Panic ''too big a transaction'')"
    using update_block_full [OF t(2)] t(1) ws(1) by (simp add: update_blocks_append)
  moreover have "bindR (begin_op [] s) (\<lambda>s. bindR (begin_op [] s) (\<lambda>s. begin_op [] s)) = Inr ?s"
    by (subst s) (simp add: b)
  ultimately show ?thesis using assms(2) by simp
qed

theorem log_reservation_overrun_witness:
  "let s = binit (demo_kernel ()); ws = map (\<lambda>n. (of_nat n, replicate 512 7)) [100..<130] in
    bindR (begin_op [] s) (\<lambda>s. bindR (begin_op [] s) (\<lambda>s. begin_op [] s)) = Inr (s\<lparr>outstanding := 3\<rparr>) \<and>
    int (length ws) = 3 * MAXOPBLOCKS \<and> update_blocks ws (s\<lparr>outstanding := 3\<rparr>) = Inl (Panic ''too big a transaction'')"
  unfolding Let_def
proof (rule log_reservation_overrun [OF demo_idle])
  show "\<forall>w\<in>set (map (\<lambda>n. (of_nat n, replicate 512 7)) [100..<130]). home_ok (binit (demo_kernel ())) w"
    using demo_home by (auto simp: word_less_nat_alt word_le_nat_alt unat_of_nat)
  show "distinct (map fst (map (\<lambda>n. (of_nat n :: u32, replicate 512 7)) [100..<130]))"
    by (auto simp: distinct_map inj_on_def word_of_nat_eq_iff unat_of_nat comp_def word_eq_iff_unsigned)
qed simp

end
