(* ===== verification/Block_Alloc.thy ===== *)
theory Block_Alloc
  imports Log_Crash
begin

unbundle bit_operations_syntax

text \<open>
  The block allocator of \<open>fs.c\<close> on the contents of the disk as the cache shows it: the bitmap as
  the set of blocks in use, the layout of the disk, and what \<open>balloc\<close>, \<open>bzero\<close> and \<open>bfree\<close>
  write, for a process that works alone in an open operation and may hold other buffers.
\<close>

section \<open>Definitions\<close>

text \<open>
  A block is in use when its bit is set. The blocks a file never gets are the boot block and those of
  the log, of the inodes and of the bitmap.
\<close>

definition used :: "'z icache_scheme \<Rightarrow> u32 \<Rightarrow> bool" where
  "used s n \<longleftrightarrow> \<not> bit_free (view s (BBLOCK n (sb s))) (unat n mod BPB)"

definition bitmap_blocks :: "'z icache_scheme \<Rightarrow> u32 set" where
  "bitmap_blocks s = (\<lambda>n. BBLOCK n (sb s)) ` {n. n < sb_size (sb s)}"

definition inode_blocks :: "'z icache_scheme \<Rightarrow> u32 set" where
  "inode_blocks s = (\<lambda>i. IBLOCK i (sb s)) ` {i. i < sb_ninodes (sb s)}"

definition meta :: "'z icache_scheme \<Rightarrow> u32 set" where
  "meta s = {0} \<union> log_area s \<union> bitmap_blocks s \<union> inode_blocks s"

definition fs_disk :: "'z icache_scheme \<Rightarrow> bool" where
  "fs_disk s \<longleftrightarrow> sb_size (sb s) \<le> disksize s \<and> (\<forall>n\<in>meta s. n < sb_size (sb s) \<and> used s n) \<and>
     bitmap_blocks s \<inter> log_area s = {} \<and> inode_blocks s \<inter> log_area s = {} \<and> bitmap_blocks s \<inter> inode_blocks s = {}"

definition mark :: "nat \<Rightarrow> u8 list \<Rightarrow> u8 list" where
  "mark bi d = upd_nth (bi div 8) (\<lambda>y. y OR push_bit (bi mod 8) 1) d"

definition unmark :: "nat \<Rightarrow> u8 list \<Rightarrow> u8 list" where
  "unmark bi d = upd_nth (bi div 8) (\<lambda>y. y AND NOT (push_bit (bi mod 8) 1)) d"

definition held_used :: "nat set \<Rightarrow> 'z icache_scheme \<Rightarrow> bool" where
  "held_used H s \<longleftrightarrow> (\<forall>c\<in>H. \<forall>n. holds_block s n c \<longrightarrow> n \<notin> meta s \<and> used s n)"

text \<open>What allocating block \<open>n\<close> writes.\<close>

definition alloc_writes :: "u32 \<Rightarrow> 'z icache_scheme \<Rightarrow> (u32 \<times> u8 list) list" where
  "alloc_writes n s = [(BBLOCK n (sb s), mark (unat n mod BPB) (view s (BBLOCK n (sb s)))), (n, replicate BSIZE 0)]"

text \<open>The first free block of the group that starts at \<open>b\<close>.\<close>

definition first_free :: "nat \<Rightarrow> 'z icache_scheme \<Rightarrow> nat option" where
  "first_free b s = find (\<lambda>bi. b + bi < unat (sb_size (sb s)) \<and> bit_free (view s (BBLOCK (of_nat b) (sb s))) bi) [0..<BPB]"

lemma play_other: "n \<notin> fst ` set ws \<Longrightarrow> play ws D n = D n"
  by (induction ws arbitrary: D) auto

lemma bit_free_bit: "bit_free d bi \<longleftrightarrow> \<not> bit (d ! (bi div 8)) (bi mod 8)"
  by (simp add: bit_free_def push_bit_eq_mult and_exp_eq_0_iff_not_bit)

lemma mark_length [simp]: "length (mark bi d) = length d"
  by (simp add: mark_def upd_nth_def)

lemma bit_free_mark: "length d = BSIZE \<Longrightarrow> bi < BPB \<Longrightarrow> bit_free (mark bi d) bj \<longleftrightarrow> bj \<noteq> bi \<and> bit_free d bj"
proof -
  assume l: "length d = BSIZE" "bi < BPB"
  have m: "bi div 8 < length d" using l by simp
  have "bit (mark bi d ! (bj div 8)) (bj mod 8) \<longleftrightarrow> bj = bi \<or> bit (d ! (bj div 8)) (bj mod 8)"
  proof (cases "bj div 8 = bi div 8")
    case True
    have "bj mod 8 = bi mod 8 \<longleftrightarrow> bj = bi" using True by (metis div_mult_mod_eq)
    then show ?thesis using m True by (auto simp: mark_def upd_nth_def bit_or_iff bit_exp_iff)
  next
    case False
    then show ?thesis using m by (auto simp: mark_def upd_nth_def)
  qed
  then show ?thesis by (auto simp: bit_free_bit)
qed

lemma bblock_group:
  assumes "b mod BPB = 0" and "bi < BPB" and "b + bi < 2 ^ 32"
  shows "BBLOCK (of_nat (b + bi)) S = BBLOCK (of_nat b) S" "unat (of_nat (b + bi) :: u32) mod BPB = bi"
proof -
  have "(b + bi) div 4096 = b div 4096" using assms(1,2) by (auto simp: mod_eq_0_iff_dvd elim!: dvdE)
  then have "(of_nat (b + bi) :: u32) div 4096 = of_nat b div 4096"
    using assms(3) by (simp add: word_unat_eq_iff unat_div unat_of_nat del: of_nat_add)
  then show "BBLOCK (of_nat (b + bi)) S = BBLOCK (of_nat b) S" by (simp add: BBLOCK_def)
  show "unat (of_nat (b + bi) :: u32) mod BPB = bi" using assms mod_add_left_eq [of b 4096 bi] by (simp add: unat_of_nat del: of_nat_add)
qed

lemma same_bitmap:
  "BBLOCK m S = BBLOCK n S \<longleftrightarrow> m div 4096 = n div 4096"
  by (simp add: BBLOCK_def)

lemma same_bit: "m div 4096 = n div 4096 \<Longrightarrow> unat m mod BPB = unat n mod BPB \<Longrightarrow> m = (n :: u32)"
proof -
  assume a: "m div 4096 = n div 4096" "unat m mod BPB = unat n mod BPB"
  have "unat m div 4096 = unat n div 4096" using arg_cong [OF a(1), of unat] by (simp add: unat_div)
  then have "unat m = unat n" using a(2) by (metis div_mult_mod_eq)
  then show ?thesis by (simp add: word_unat_eq_iff)
qed

lemma op_frame_icache:
  assumes "op_frame s t"
  shows "inodes t = inodes s" "sb t = sb s" "disksize t = disksize s" "log_area t = log_area s"
  using arg_cong [OF op_frameD [OF assms], of inodes] arg_cong [OF op_frameD [OF assms], of sb] op_frame_fixed [OF assms]
    log_fixed_area [OF op_frame_fixed [OF assms]]
  by (simp_all add: log_fixed_def)

lemma logged_icache:
  assumes "logged ws s t"
  shows "inodes t = inodes s" "sb t = sb s" "disksize t = disksize s" "log_area t = log_area s" "bitmap_blocks t = bitmap_blocks s"
    "inode_blocks t = inode_blocks s" "meta t = meta s"
  using assms op_frame_icache [of s t] by (simp_all add: logged_def bitmap_blocks_def inode_blocks_def meta_def)

lemma logged_used:
  assumes "logged ws s t" and "fst ` set ws \<inter> bitmap_blocks s = {}" and "n < sb_size (sb s)"
  shows "used t n = used s n"
proof -
  have "BBLOCK n (sb s) \<in> bitmap_blocks s" using assms(3) by (auto simp: bitmap_blocks_def)
  then have "BBLOCK n (sb s) \<notin> fst ` set ws" using assms(2) by auto
  then have "play ws (view s) (BBLOCK n (sb s)) = view s (BBLOCK n (sb s))" by (simp add: play_other)
  then show ?thesis using assms(1) logged_icache(2) [OF assms(1)] by (simp add: used_def logged_def)
qed

lemma logged_fs_disk:
  assumes "logged ws s t" and "fst ` set ws \<inter> bitmap_blocks s = {}" and "fs_disk s"
  shows "fs_disk t"
  using assms(3) logged_used [OF assms(1,2)] logged_icache [OF assms(1)] by (auto simp: fs_disk_def)
lemma alloc_used:
  assumes "in_op q H s" and "fs_disk s" and "n < sb_size (sb s)" and "\<not> used s n" and "logged (alloc_writes n s) s t"
  shows "m < sb_size (sb s) \<Longrightarrow> used t m \<longleftrightarrow> m = n \<or> used s m" "fs_disk t"
proof -
  note l = logged_icache [OF assms(5)] and len = view_length [OF in_opD(1) [OF assms(1)]]
  have nm: "n \<notin> meta s" using assms(2,4) by (auto simp: fs_disk_def)
  have u: "used t m \<longleftrightarrow> m = n \<or> used s m" if "m < sb_size (sb s)" for m
  proof -
    have "BBLOCK m (sb s) \<in> bitmap_blocks s" using that by (auto simp: bitmap_blocks_def)
    then have "BBLOCK m (sb s) \<noteq> n" using nm by (auto simp: meta_def)
    then have "view t (BBLOCK m (sb s)) = (if m div 4096 = n div 4096 then mark (unat n mod BPB) (view s (BBLOCK n (sb s))) else view s (BBLOCK m (sb s)))"
      using assms(5) by (simp add: logged_def alloc_writes_def same_bitmap)
    moreover have "m div 4096 = n div 4096 \<Longrightarrow> BBLOCK n (sb s) = BBLOCK m (sb s)" by (simp add: same_bitmap)
    ultimately show ?thesis using l(2) bit_free_mark [OF len, of "unat n mod BPB" _ "unat m mod BPB"] same_bit [of m n]
      by (auto simp: used_def)
  qed
  then show "m < sb_size (sb s) \<Longrightarrow> used t m \<longleftrightarrow> m = n \<or> used s m" by blast
  show "fs_disk t" using assms(2) u l by (auto simp: fs_disk_def)
qed

lemma bzero_ok:
  assumes "in_op q H s" and "n < disksize s" and "n \<notin> log_area s" and "\<forall>c\<in>H. \<not> holds_block s n c" and "lh_n s + int (card H) < 29"
  shows "\<exists>t. bzero 1 n s = Inr t \<and> in_op q H t \<and> logged [(n, replicate BSIZE 0)] s t \<and> keeps H s t"
proof -
  have "home_ok s (n, replicate BSIZE 0)" using assms(2,3) by (simp add: home_ok_def)
  from update_ok [where f = "\<lambda>_. replicate BSIZE 0", OF assms(1) this assms(4,5)] show ?thesis by (auto simp: bzero_def)
qed

text \<open>Taking the free block that was found in a block of the bitmap.\<close>

lemma balloc_take:
  assumes "in_op q H s" and "fs_disk s" and "held_used H s" and "lh_n s + int (card H) < 28"
    and "n < sb_size (sb s)" and "\<not> used s n"
  shows "\<exists>b u v w t. bread 1 (BBLOCK n (sb s)) s = Inr (b, u) \<and> b_data (buf_at u b) = view s (BBLOCK n (sb s)) \<and> sb u = sb s \<and>
    log_write b (upd_buf b (\<lambda>x. x\<lparr>b_data := mark (unat n mod BPB) (b_data x)\<rparr>) u) = Inr v \<and> brelse b v = Inr w \<and>
    bzero 1 n w = Inr t \<and> in_op q H t \<and> logged (alloc_writes n s) s t \<and> keeps H s t"
proof -
  let ?m = "BBLOCK n (sb s)"
  have bm: "?m \<in> bitmap_blocks s" using assms(5) by (auto simp: bitmap_blocks_def)
  have m: "?m < disksize s" "?m \<notin> log_area s" "?m \<in> meta s"
    using assms(2) bm by (auto simp: fs_disk_def meta_def intro: less_le_trans)
  have n: "n < disksize s" "n \<notin> meta s" using assms(2,5,6) by (auto simp: fs_disk_def intro: less_le_trans)
  have hm: "home_ok s (?m, mark (unat n mod BPB) (view s ?m))"
    using m view_length [OF in_opD(1) [OF assms(1)]] by (simp add: home_ok_def)
  have nh: "\<forall>c\<in>H. \<not> holds_block s ?m c" "\<forall>c\<in>H. \<not> holds_block s n c" using assms(3,6) m(3) by (auto simp: held_used_def)
  have "lh_n s + int (card H) < 29" using assms(4) by simp
  from update_ok [where f = "mark (unat n mod BPB)", OF assms(1) hm nh(1) this]
  obtain b u v w where w: "bread 1 ?m s = Inr (b, u)" "holds_block u ?m b" "cache_inv q (insert b H) u" "logged [] s u"
      "log_write b (upd_buf b (\<lambda>x. x\<lparr>b_data := mark (unat n mod BPB) (b_data x)\<rparr>) u) = Inr v" "brelse b v = Inr w"
      "in_op q H w" "logged [(?m, mark (unat n mod BPB) (view s ?m))] s w" "keeps H s w"
    by blast
  note lw = logged_icache [OF w(8)]
  have "b_data (buf_at u b) = view u ?m" using view_held [OF cache_invD(6) [OF w(3)] w(2)] by simp
  then have d: "b_data (buf_at u b) = view s ?m" "sb u = sb s" using w(4) logged_icache(2) [OF w(4)] by (simp_all add: logged_def)
  have "\<forall>c\<in>H. \<not> holds_block w n c" "n < disksize w" "n \<notin> log_area w" "lh_n w + int (card H) < 29"
    using nh(2) w(8,9) n lw assms(4) by (auto simp: keeps_def meta_def logged_def)
  then obtain t where t: "bzero 1 n w = Inr t" "in_op q H t" "logged [(n, replicate BSIZE 0)] w t" "keeps H w t"
    using bzero_ok [OF w(7)] by blast
  have "logged (alloc_writes n s) s t" using logged_trans [OF w(8) t(3)] by (simp add: alloc_writes_def)
  then show ?thesis using w(1,5,6) d t(1,2) keeps_trans [OF w(9) t(4)] by blast
qed

lemma first_free_group:
  assumes "b mod BPB = 0"
  shows "first_free b s = Some bi \<Longrightarrow> (of_nat (b + bi) :: u32) < sb_size (sb s) \<and> \<not> used s (of_nat (b + bi)) \<and>
      unat (of_nat (b + bi) :: u32) mod BPB = bi \<and> BBLOCK (of_nat (b + bi)) (sb s) = BBLOCK (of_nat b) (sb s)"
    "first_free b s = None \<Longrightarrow> bi < BPB \<Longrightarrow> b + bi < unat (sb_size (sb s)) \<Longrightarrow> used s (of_nat (b + bi))"
proof -
  have sz: "unat (sb_size (sb s)) < 2 ^ 32" using unsigned_less [of "sb_size (sb s)"] by simp
  show "(of_nat (b + bi) :: u32) < sb_size (sb s) \<and> \<not> used s (of_nat (b + bi)) \<and>
      unat (of_nat (b + bi) :: u32) mod BPB = bi \<and> BBLOCK (of_nat (b + bi)) (sb s) = BBLOCK (of_nat b) (sb s)"
    if "first_free b s = Some bi"
  proof -
    have i: "bi < BPB" "b + bi < unat (sb_size (sb s))" "bit_free (view s (BBLOCK (of_nat b) (sb s))) bi"
      using that unfolding first_free_def find_upt_Some by blast+
    then have "b + bi < 2 ^ 32" using sz by simp
    note g = bblock_group [OF assms i(1) this]
    have "(of_nat (b + bi) :: u32) < sb_size (sb s)" using i(2) sz by (simp add: word_less_nat_alt unat_of_nat del: of_nat_add)
    then show ?thesis using g i(3) unfolding used_def by simp
  qed
  show "used s (of_nat (b + bi))" if "first_free b s = None" "bi < BPB" "b + bi < unat (sb_size (sb s))"
  proof -
    have "\<not> bit_free (view s (BBLOCK (of_nat b) (sb s))) bi" using that unfolding first_free_def find_upt_None by blast
    moreover have "b + bi < 2 ^ 32" using sz that(3) by simp
    ultimately show ?thesis using bblock_group [OF assms that(2)] unfolding used_def by simp
  qed
qed

lemma balloc_loop_ok:
  assumes "in_op q H s" and "fs_disk s" and "held_used H s" and "lh_n s + int (card H) < 28"
    and "\<forall>b\<in>set bs. b mod BPB = 0 \<and> b < unat (sb_size (sb s))"
  shows "if (\<exists>b\<in>set bs. first_free b s \<noteq> None)
    then \<exists>n t. balloc_loop bs 1 s = Inr (n, t) \<and> n < sb_size (sb s) \<and> \<not> used s n \<and> in_op q H t \<and> logged (alloc_writes n s) s t \<and> keeps H s t
    else balloc_loop bs 1 s = Inl (Panic ''balloc: out of blocks'')"
  using assms
proof (induction bs arbitrary: s)
  case Nil
  then show ?case by simp
next
  case (Cons b bs)
  have b: "b mod BPB = 0" "b < unat (sb_size (sb s))" using Cons.prems(5) by simp_all
  let ?m = "BBLOCK (of_nat b) (sb s)"
  show ?case
  proof (cases "first_free b s")
    case (Some bi)
    let ?n = "of_nat (b + bi) :: u32"
    note f = first_free_group(1) [OF b(1) Some]
    then have n: "?n < sb_size (sb s)" "\<not> used s ?n" "unat ?n mod BPB = bi" "BBLOCK ?n (sb s) = ?m" by blast+
    obtain c u v w t where t: "bread 1 ?m s = Inr (c, u)" "b_data (buf_at u c) = view s ?m" "sb u = sb s"
      "log_write c (upd_buf c (\<lambda>x. x\<lparr>b_data := mark bi (b_data x)\<rparr>) u) = Inr v" "brelse c v = Inr w"
      "bzero 1 ?n w = Inr t" "in_op q H t" "logged (alloc_writes ?n s) s t" "keeps H s t"
      using balloc_take [OF Cons.prems(1-4) n(1,2)] unfolding n(3,4) by blast
    have "balloc_loop (b # bs) 1 s = Inr (?n, t)"
      unfolding balloc_loop.simps t(1) bindR_simps prod.case t(2,3) first_free_def [symmetric] Some option.case Let_def mark_def [symmetric] t(4-6) by simp
    then show ?thesis using n(1,2) t(7-9) Some by auto
  next
    case None
    have bm: "?m \<in> bitmap_blocks s" using b(2) by (auto simp: bitmap_blocks_def word_less_nat_alt unat_of_nat intro!: imageI)
    have m: "?m < disksize s" "?m \<in> meta s" using Cons.prems(2) bm by (auto simp: fs_disk_def meta_def intro: less_le_trans)
    have nh: "\<forall>c\<in>H. \<not> holds_block s ?m c" using Cons.prems(3) m(2) by (auto simp: held_used_def)
    have "lh_n s + int (card H) < 30" using Cons.prems(4) by simp
    then obtain c u where u: "bread 1 ?m s = Inr (c, u)" "c \<notin> H" "in_op q (insert c H) u" "holds_block u ?m c" "logged [] s u" "keeps H s u"
        "dirty_buf (buf_at u c) \<or> view u ?m = memdisk u ?m"
      using read_ok [OF Cons.prems(1) m(1) nh] by blast
    obtain t where t: "brelse c u = Inr t" "in_op q (insert c H - {c}) t" "logged [] u t" "keeps (insert c H) u t"
      using rel_ok [OF u(3) _ u(4,7)] by blast
    have "insert c H - {c} = H" using u(2) by auto
    then have it: "in_op q H t" using t(2) by simp
    have kt: "keeps H s t" using keeps_trans [OF u(6) keeps_mono [OF t(4)]] by auto
    have lt: "logged [] s t" using logged_trans [OF u(5) t(3)] by simp
    have vt: "view t = view s" "sb t = sb s" "meta t = meta s" "lh_n t \<le> lh_n s" using lt logged_icache [OF lt] by (simp_all add: logged_def)
    have same: "used t = used s" "first_free x t = first_free x s" "alloc_writes n t = alloc_writes n s" for x n
      unfolding used_def first_free_def alloc_writes_def vt by (rule refl)+
    have "fs_disk t" by (rule logged_fs_disk [OF lt _ Cons.prems(2)]) simp
    moreover have "held_used H t" using Cons.prems(3) kt vt(3) same(1) by (auto simp: held_used_def keeps_def)
    moreover have "lh_n t + int (card H) < 28" using vt(4) Cons.prems(4) by linarith
    moreover have "\<forall>b\<in>set bs. b mod BPB = 0 \<and> b < unat (sb_size (sb t))" using Cons.prems(5) vt(2) by simp
    moreover have lg: "logged ws s x" if "logged ws t x" for ws x using logged_trans [OF lt that] by simp
    moreover have "balloc_loop (b # bs) 1 s = balloc_loop bs 1 t"
    proof -
      have d: "b_data (buf_at u c) = view s ?m" "sb u = sb s"
        using view_held [OF cache_invD(6) [OF in_opD(1) [OF u(3)]] u(4)] u(5) logged_icache(2) [OF u(5)] by (simp_all add: logged_def)
      show ?thesis unfolding balloc_loop.simps u(1) bindR_simps prod.case d first_free_def [symmetric] None option.case t(1) by simp
    qed
    ultimately show ?thesis using Cons.IH [OF it] keeps_trans [OF kt] None same unfolding vt(2) by (auto split: if_splits)
  qed
qed
lemma balloc_groups:
  assumes "n < sb_size (sb s)"
  shows "\<exists>b\<in>set (map ((*) BPB) [0..<(unat (sb_size (sb s)) + (BPB - 1)) div BPB]). \<exists>bi<BPB. n = of_nat (b + bi) \<and> b + bi < unat (sb_size (sb s))"
proof -
  have n: "unat n < unat (sb_size (sb s))" using assms by (simp add: word_less_nat_alt)
  then have "unat n div 4096 < (unat (sb_size (sb s)) + (BPB - 1)) div BPB" by (simp add: less_mult_imp_div_less div_less_iff_less_mult)
  moreover have "4096 * (unat n div 4096) + unat n mod 4096 = unat n" by simp
  ultimately show ?thesis using n
    by (intro bexI [of _ "4096 * (unat n div 4096)"] exI [of _ "unat n mod 4096"]) (auto simp del: of_nat_add upt_rec_numeral)
qed

text \<open>\<open>balloc\<close> takes a free block, or panics when there is none.\<close>

lemma balloc_ok:
  assumes "in_op q H s" and "fs_disk s" and "held_used H s" and "lh_n s + int (card H) < 28"
  shows "if (\<exists>n. n < sb_size (sb s) \<and> \<not> used s n)
    then \<exists>n t. balloc 1 s = Inr (n, t) \<and> n < sb_size (sb s) \<and> \<not> used s n \<and> in_op q H t \<and> logged (alloc_writes n s) s t \<and> keeps H s t
    else balloc 1 s = Inl (Panic ''balloc: out of blocks'')"
proof -
  let ?bs = "map ((*) BPB) [0..<(unat (sb_size (sb s)) + (BPB - 1)) div BPB]"
  have "x * 4096 < n" if "x < (n + 4095) div 4096" for x n :: nat using that by linarith
  then have g: "\<forall>b\<in>set ?bs. b mod BPB = 0 \<and> b < unat (sb_size (sb s))" by (auto simp: mult.commute)
  have "(\<exists>b\<in>set ?bs. first_free b s \<noteq> None) \<longleftrightarrow> (\<exists>n. n < sb_size (sb s) \<and> \<not> used s n)"
  proof
    assume "\<exists>b\<in>set ?bs. first_free b s \<noteq> None"
    then obtain b bi where b: "b \<in> set ?bs" "first_free b s = Some bi" by blast
    have "b mod BPB = 0" using g b(1) by blast
    from first_free_group(1) [OF this b(2)] show "\<exists>n. n < sb_size (sb s) \<and> \<not> used s n" by blast
  next
    assume "\<exists>n. n < sb_size (sb s) \<and> \<not> used s n"
    then obtain n where n: "n < sb_size (sb s)" "\<not> used s n" by blast
    obtain b bi where b: "b \<in> set ?bs" "bi < BPB" "n = of_nat (b + bi)" "b + bi < unat (sb_size (sb s))" using balloc_groups [OF n(1)] by blast
    have "b mod BPB = 0" using g b(1) by blast
    then have "first_free b s \<noteq> None" using first_free_group(2) [of b s bi] b(2,4) n(2) unfolding b(3) by metis
    then show "\<exists>b\<in>set ?bs. first_free b s \<noteq> None" using b(1) by blast
  qed
  then show ?thesis using balloc_loop_ok [OF assms g] unfolding balloc_def by presburger
qed

lemma bit_free_unmark: "length d = BSIZE \<Longrightarrow> bi < BPB \<Longrightarrow> bit_free (unmark bi d) bj \<longleftrightarrow> bj = bi \<or> bit_free d bj"
proof -
  assume l: "length d = BSIZE" "bi < BPB"
  have m: "bi div 8 < length d" using l by simp
  have "bit (unmark bi d ! (bj div 8)) (bj mod 8) \<longleftrightarrow> bj \<noteq> bi \<and> bit (d ! (bj div 8)) (bj mod 8)"
  proof (cases "bj div 8 = bi div 8")
    case True
    have "bj mod 8 = bi mod 8 \<longleftrightarrow> bj = bi" using True by (metis div_mult_mod_eq)
    then show ?thesis using m True by (auto simp: unmark_def upd_nth_def bit_and_iff bit_not_iff bit_exp_iff push_bit_eq_mult)
  next
    case False
    then show ?thesis using m by (auto simp: unmark_def upd_nth_def)
  qed
  then show ?thesis by (auto simp: bit_free_bit)
qed

lemma bfree_ok:
  assumes "in_op q H s" and "fs_disk s" and "n < sb_size (sb s)" and "\<forall>c\<in>H. \<forall>m. holds_block s m c \<longrightarrow> m \<notin> meta s" and "lh_n s + int (card H) < 29"
  shows "if used s n then \<exists>t. bfree 1 n s = Inr t \<and> in_op q H t \<and> keeps H s t \<and>
      logged [(BBLOCK n (sb s), unmark (unat n mod BPB) (view s (BBLOCK n (sb s))))] s t \<and>
      (\<forall>m < sb_size (sb s). used t m \<longleftrightarrow> m \<noteq> n \<and> used s m)
    else bfree 1 n s = Inl (Panic ''freeing free block'')"
proof -
  let ?m = "BBLOCK n (sb s)" and ?f = "unmark (unat n mod BPB)"
  have bm: "?m \<in> bitmap_blocks s" using assms(3) by (auto simp: bitmap_blocks_def)
  have m: "?m < disksize s" "?m \<notin> log_area s" "?m \<in> meta s"
    using assms(2) bm by (auto simp: fs_disk_def meta_def intro: less_le_trans)
  note len = view_length [OF in_opD(1) [OF assms(1)]]
  have hm: "home_ok s (?m, ?f (view s ?m))" using m len by (simp add: home_ok_def unmark_def upd_nth_def)
  have nh: "\<forall>c\<in>H. \<not> holds_block s ?m c" using assms(4) m(3) by auto
  from update_ok [where f = ?f, OF assms(1) hm nh assms(5)]
  obtain b u v t where t: "bread 1 ?m s = Inr (b, u)" "holds_block u ?m b" "cache_inv q (insert b H) u" "logged [] s u"
      "log_write b (upd_buf b (\<lambda>x. x\<lparr>b_data := ?f (b_data x)\<rparr>) u) = Inr v" "brelse b v = Inr t"
      "in_op q H t" "logged [(?m, ?f (view s ?m))] s t" "keeps H s t"
    by blast
  have "b_data (buf_at u b) = view u ?m" using view_held [OF cache_invD(6) [OF t(3)] t(2)] by simp
  then have d: "b_data (buf_at u b) = view s ?m" using t(4) by (simp add: logged_def)
  have e: "bfree 1 n s = (if used s n then Inr t else Inl (Panic ''freeing free block''))"
    using t(1,5,6) d by (simp add: bfree_def used_def unmark_def Let_def)
  have "used t j \<longleftrightarrow> j \<noteq> n \<and> used s j" if "j < sb_size (sb s)" for j
  proof -
    have "view t (BBLOCK j (sb s)) = (if j div 4096 = n div 4096 then ?f (view s ?m) else view s (BBLOCK j (sb s)))"
      using t(8) by (simp add: logged_def same_bitmap)
    moreover have "j div 4096 = n div 4096 \<Longrightarrow> ?m = BBLOCK j (sb s)" by (simp add: same_bitmap)
    ultimately show ?thesis using logged_icache(2) [OF t(8)] bit_free_unmark [OF len, of "unat n mod BPB" _ "unat j mod BPB"] same_bit [of j n]
      by (auto simp: used_def)
  qed
  then show ?thesis using e t(7-9) by auto
qed

section \<open>A file system\<close>

text \<open>
  A disk as \<open>mkfs\<close> lays it out: boot block, super block, 30 blocks of log, 26 of inodes, the
  bitmap in block 58, and data blocks, the first of which (59) is in use.
\<close>

definition demo_bitmap :: "u8 list" where
  "demo_bitmap = replicate 7 0xFF @ [15] @ replicate 504 0"

definition demo_fs :: "'z \<Rightarrow> 'z pipest_scheme" where
  "demo_fs x = binit ((demo_kernel x)\<lparr>memdisk := (\<lambda>n. if n = 58 then demo_bitmap else replicate 512 0)\<rparr>)"

lemma demo_fs_blank: "blank_cache 1 ((demo_kernel x)\<lparr>memdisk := (\<lambda>n. if n = 58 then demo_bitmap else replicate 512 0)\<rparr>)"
proof -
  let ?s = "(demo_kernel x)\<lparr>memdisk := (\<lambda>n. if n = 58 then demo_bitmap else replicate 512 0)\<rparr>"
  have "mach_same (demo_kernel x) ?s" by (simp add: mach_same_def)
  then have "runs 1 ?s" "lock_free lk ?s" for lk
    using demo_kernel_runs [where x = x] mach_same_facts [of "demo_kernel x" ?s] by (simp_all add: runs_def lock_free_def)
  then show ?thesis by (simp add: blank_cache_def demo_kernel_def demo_buf_def demo_bitmap_def nth_Cons')
qed

lemma demo_fs_fields [simp]:
  "log_dev (demo_fs x) = 1" "log_start (demo_fs x) = 2" "lh_n (demo_fs x) = 0" "length (lh_block (demo_fs x)) = 30" "log_size (demo_fs x) = 30"
  "outstanding (demo_fs x) = 0" "\<not> committing (demo_fs x)" "disksize (demo_fs x) = 1000" "sb (demo_fs x) = demo_sb"
  "memdisk (demo_fs x) n = (if n = 58 then demo_bitmap else replicate 512 0)" "inodes (demo_fs x) = replicate 50 demo_inode"
proof -
  note f = bio_frame_log [OF binit_cache(3) [OF demo_fs_blank [of x]], folded demo_fs_def]
    op_frame_icache [OF bio_op_frame [OF binit_cache(3) [OF demo_fs_blank [of x]]], folded demo_fs_def]
    fun_cong [OF binit_cache(4) [OF demo_fs_blank [of x]], of n, folded demo_fs_def]
  show "log_dev (demo_fs x) = 1" "log_start (demo_fs x) = 2" "lh_n (demo_fs x) = 0" "length (lh_block (demo_fs x)) = 30" "log_size (demo_fs x) = 30"
    "outstanding (demo_fs x) = 0" "\<not> committing (demo_fs x)" "disksize (demo_fs x) = 1000" "sb (demo_fs x) = demo_sb"
    "memdisk (demo_fs x) n = (if n = 58 then demo_bitmap else replicate 512 0)" "inodes (demo_fs x) = replicate 50 demo_inode"
    unfolding f by (simp_all add: demo_kernel_def)
qed

lemma demo_fs_log_area: "n \<in> log_area (demo_fs x) \<Longrightarrow> 2 \<le> n \<and> n < 32"
proof -
  have "(2 :: u32) \<le> 3 + of_nat i \<and> 3 + of_nat i < (32 :: u32)" if "i < 29" for i
    using that by (simp add: word_less_nat_alt word_le_nat_alt unat_word_ariths unat_of_nat)
  then have "(2 :: u32) \<le> 2 + of_nat i + 1 \<and> 2 + of_nat i + 1 < (32 :: u32)" if "i < 29" for i using that by (simp add: add.commute add.left_commute)
  moreover assume "n \<in> log_area (demo_fs x)"
  ultimately show ?thesis by (auto simp: log_area_def logblk_def)
qed

lemma demo_fs_idle: "log_idle 1 (demo_fs x)"
proof -
  have "n < 1000" if "n < (32 :: u32)" for n using that by unat_arith
  then have "log_fits (demo_fs x)" using demo_fs_log_area [of _ x] by (auto simp: log_fits_def)
  moreover have "get32 (replicate 512 0) 0 = 0" by (simp add: get32_def nth_replicate)
  ultimately show ?thesis using binit_cache(1,2) [OF demo_fs_blank [of x], folded demo_fs_def] by (simp add: log_idle_def)
qed

lemma demo_fs_view: "view (demo_fs x) n = (if n = 58 then demo_bitmap else replicate 512 0)"
  using view_clean [of 1 "demo_fs x" n] demo_fs_idle [of x] by (simp add: log_idle_def)

lemma demo_bitmap_used: "bi < 60 \<Longrightarrow> \<not> bit_free demo_bitmap bi"
proof -
  have "\<forall>bi\<in>set [0..<60]. \<not> bit_free demo_bitmap bi" by code_simp
  moreover assume "bi < 60"
  ultimately show ?thesis by simp
qed

lemma demo_fs_used:
  assumes "n < 1000"
  shows "BBLOCK n demo_sb = 58" "n < 60 \<Longrightarrow> used (demo_fs x) n"
proof -
  have "n div 4096 = 0" using assms by (simp add: word_unat_eq_iff unat_div word_less_nat_alt)
  then show b: "BBLOCK n demo_sb = 58" by (simp add: BBLOCK_def demo_sb_def)
  assume "n < 60"
  then have "unat n mod 4096 < 60" by (simp add: word_less_nat_alt)
  then show "used (demo_fs x) n" using demo_bitmap_used b by (simp add: used_def demo_fs_view)
qed

lemma demo_fs_free: "n < 1000 \<Longrightarrow> 64 \<le> n \<Longrightarrow> \<not> used (demo_fs x) n"
proof -
  assume a: "n < 1000" "64 \<le> n"
  have n: "unat n < 1000" "8 \<le> unat n div 8" using a by (simp_all add: word_less_nat_alt word_le_nat_alt)
  have "demo_bitmap ! (unat n div 8) = 0" using n by (simp add: demo_bitmap_def nth_append nth_Cons')
  then have "bit_free demo_bitmap (unat n)" by (simp add: bit_free_def)
  then show ?thesis using demo_fs_used(1) [OF a(1)] n(1) by (simp add: used_def demo_fs_view)
qed

lemma demo_fs_disk: "fs_disk (demo_fs x)" and demo_fs_meta: "n \<in> meta (demo_fs x) \<Longrightarrow> n < 59"
proof -
  have bm: "bitmap_blocks (demo_fs x) = {58}" using demo_fs_used(1) by (auto simp: bitmap_blocks_def demo_sb_def [THEN arg_cong, of sb_size, simplified] intro!: image_eqI [of _ _ 0])
  have ib: "32 \<le> n \<and> n < 58" if mem: "n \<in> inode_blocks (demo_fs x)" for n
  proof -
    obtain i where i: "n = i div 8 + 32" "i < 200" using mem by (fastforce simp: inode_blocks_def IBLOCK_def demo_sb_def)
    have "unat i div 8 < 25" using i(2) by (simp add: word_less_nat_alt)
    then have "unat n = unat i div 8 + 32" using i(1) by (simp add: unat_word_ariths unat_div)
    then show ?thesis using \<open>unat i div 8 < 25\<close> by (simp add: word_less_nat_alt word_le_nat_alt)
  qed
  have m: "n < 59 \<and> n < 1000" if "n \<in> meta (demo_fs x)" for n
    using that demo_fs_log_area [of n x] ib [of n] bm unfolding meta_def by (auto simp: word_less_nat_alt word_le_nat_alt)
  then show "n < 59" if "n \<in> meta (demo_fs x)" using that by blast
  have "n < 60" if "n < 59" for n :: u32 using that by (simp add: word_less_nat_alt)
  then have "\<forall>n\<in>meta (demo_fs x). n < sb_size (sb (demo_fs x)) \<and> used (demo_fs x) n" using m demo_fs_used(2) [where x = x] by (simp add: demo_sb_def)
  moreover have "58 \<notin> log_area (demo_fs x)" "58 \<notin> inode_blocks (demo_fs x)" using demo_fs_log_area [of 58 x] ib [of 58] by auto
  moreover have "inode_blocks (demo_fs x) \<inter> log_area (demo_fs x) = {}" using demo_fs_log_area ib by fastforce
  ultimately show "fs_disk (demo_fs x)" using bm by (simp add: fs_disk_def demo_sb_def)
qed

lemma demo_fs_op: "in_op 1 {} ((demo_fs x)\<lparr>outstanding := 1\<rparr>)" "fs_disk ((demo_fs x)\<lparr>outstanding := 1\<rparr>)"
    "used ((demo_fs x)\<lparr>outstanding := 1\<rparr>) n = used (demo_fs x) n"
proof -
  show "in_op 1 {} ((demo_fs x)\<lparr>outstanding := 1\<rparr>)" by (rule begin_op_ok(2) [OF demo_fs_idle])
  have u: "used ((demo_fs x)\<lparr>outstanding := 1\<rparr>) n = used (demo_fs x) n" for n by (simp add: used_def)
  then show "used ((demo_fs x)\<lparr>outstanding := 1\<rparr>) n = used (demo_fs x) n" .
  have "meta ((demo_fs x)\<lparr>outstanding := 1\<rparr>) = meta (demo_fs x)" "bitmap_blocks ((demo_fs x)\<lparr>outstanding := 1\<rparr>) = bitmap_blocks (demo_fs x)"
    "inode_blocks ((demo_fs x)\<lparr>outstanding := 1\<rparr>) = inode_blocks (demo_fs x)"
    by (simp_all add: meta_def bitmap_blocks_def inode_blocks_def)
  then show "fs_disk ((demo_fs x)\<lparr>outstanding := 1\<rparr>)" using demo_fs_disk [of x] u by (simp add: fs_disk_def)
qed

section \<open>Properties\<close>

text \<open>
  C34: the block allocator. A process alone in the file system that has opened an operation and has
  room left in the log gets from \<open>balloc\<close> a block that was free; the block reads as
  zeros, it is in use afterwards, no other block changes hands and no block but it and its bitmap
  block changes. Giving it back with \<open>bfree\<close> makes exactly the blocks free that were free before, and
  giving it back twice is caught. When no block is free, \<open>balloc\<close> panics.
\<close>

theorem balloc_takes_free_block:
  assumes "in_op q {} s" and "fs_disk s" and "lh_n s \<le> 25"
  shows "if (\<exists>n. n < sb_size (sb s) \<and> \<not> used s n)
    then returnsR (balloc 1 s) (\<lambda>(n, t). n < sb_size (sb s) \<and> \<not> used s n \<and> in_op q {} t \<and> fs_disk t \<and>
      view t n = replicate BSIZE 0 \<and> (\<forall>m. m \<noteq> n \<longrightarrow> m \<noteq> BBLOCK n (sb s) \<longrightarrow> view t m = view s m) \<and>
      (\<forall>m < sb_size (sb s). used t m \<longleftrightarrow> m = n \<or> used s m) \<and>
      returnsR (bfree 1 n t) (\<lambda>u. (\<forall>m < sb_size (sb s). used u m \<longleftrightarrow> used s m) \<and> bfree 1 n u = Inl (Panic ''freeing free block'')))
    else balloc 1 s = Inl (Panic ''balloc: out of blocks'')"
proof (cases "\<exists>n. n < sb_size (sb s) \<and> \<not> used s n")
  case True
  have h: "held_used {} s" "lh_n s + int (card {}) < 28" using assms(3) by (simp_all add: held_used_def)
  obtain n t where t: "balloc 1 s = Inr (n, t)" "n < sb_size (sb s)" "\<not> used s n" "in_op q {} t" "logged (alloc_writes n s) s t"
    using balloc_ok [OF assms(1,2) h] True by auto
  note a = alloc_used [OF assms(1,2) t(2,3,5)] and i = logged_icache [OF t(5)]
  have nm: "n \<notin> meta s" using assms(2) t(3) by (auto simp: fs_disk_def)
  have lt: "n < sb_size (sb t)" "lh_n t \<le> 27" using t(2,5) i assms(3) by (simp_all add: logged_def alloc_writes_def)
  obtain u where u: "bfree 1 n t = Inr u" "in_op q {} u" "\<forall>m < sb_size (sb t). used u m \<longleftrightarrow> m \<noteq> n \<and> used t m"
      "logged [(BBLOCK n (sb t), unmark (unat n mod BPB) (view t (BBLOCK n (sb t))))] t u"
    using bfree_ok [OF t(4) a(2) lt(1)] lt a(1) [OF t(2)] by auto
  have us: "\<forall>m < sb_size (sb s). used u m \<longleftrightarrow> used s m" using u(3) a(1) t(3) i(2) by auto
  have "fs_disk u"
  proof -
    have "used u m" if "m \<in> meta s" for m using that us assms(2) by (auto simp: fs_disk_def)
    then show ?thesis using a(2) logged_icache [OF u(4)] i by (auto simp: fs_disk_def)
  qed
  moreover have "lh_n u \<le> 28" "\<not> used u n" "n < sb_size (sb u)" using u(3,4) lt logged_icache(2) [OF u(4)] by (auto simp: logged_def)
  ultimately have "bfree 1 n u = Inl (Panic ''freeing free block'')" using bfree_ok [of q "{}" u n] u(2) by auto
  moreover have "view t n = replicate BSIZE 0" "\<forall>m. m \<noteq> n \<longrightarrow> m \<noteq> BBLOCK n (sb s) \<longrightarrow> view t m = view s m"
    using t(5) by (auto simp: logged_def alloc_writes_def)
  ultimately show ?thesis using True t a u(1) us by (simp add: returnsR_iff)
next
  case False
  have "held_used {} s" "lh_n s + int (card {}) < 28" using assms(3) by (simp_all add: held_used_def)
  then show ?thesis using balloc_ok [OF assms(1,2)] False by auto
qed

theorem balloc_takes_free_block_witness:
  "let s = (demo_fs ())\<lparr>outstanding := 1\<rparr> in
    if (\<exists>n. n < sb_size (sb s) \<and> \<not> used s n)
    then returnsR (balloc 1 s) (\<lambda>(n, t). n < sb_size (sb s) \<and> \<not> used s n \<and> in_op 1 {} t \<and> fs_disk t \<and>
      view t n = replicate BSIZE 0 \<and> (\<forall>m. m \<noteq> n \<longrightarrow> m \<noteq> BBLOCK n (sb s) \<longrightarrow> view t m = view s m) \<and>
      (\<forall>m < sb_size (sb s). used t m \<longleftrightarrow> m = n \<or> used s m) \<and>
      returnsR (bfree 1 n t) (\<lambda>u. (\<forall>m < sb_size (sb s). used u m \<longleftrightarrow> used s m) \<and> bfree 1 n u = Inl (Panic ''freeing free block'')))
    else balloc 1 s = Inl (Panic ''balloc: out of blocks'')"
  unfolding Let_def by (rule balloc_takes_free_block [OF demo_fs_op(1,2)]) simp

end
