(* ===== verification/File_Map.thy ===== *)
theory File_Map
  imports Block_Alloc Fs
begin

unbundle bit_operations_syntax

text \<open>
  The block map of a file: the disk block that holds each block of the file, through the direct
  entries of the inode and the table of indirect ones, and \<open>bmap\<close>, which adds blocks to it.
\<close>

section \<open>The map\<close>

text \<open>Block \<open>k\<close> of the file of inode \<open>x\<close> on a disk \<open>V\<close>, 0 if there is none; its contents; all the blocks of the file.\<close>

definition file_block :: "(u32 \<Rightarrow> u8 list) \<Rightarrow> inode \<Rightarrow> nat \<Rightarrow> u32" where
  "file_block V x k = (if k < NDIRECT then i_addrs x ! k else if i_addrs x ! NDIRECT = 0 then 0
     else get32 (V (i_addrs x ! NDIRECT)) (4 * (k - NDIRECT)))"

definition file_data :: "(u32 \<Rightarrow> u8 list) \<Rightarrow> inode \<Rightarrow> nat \<Rightarrow> u8 list" where
  "file_data V x k = (if file_block V x k = 0 then replicate BSIZE 0 else V (file_block V x k))"

definition file_blocks :: "(u32 \<Rightarrow> u8 list) \<Rightarrow> inode \<Rightarrow> u32 set" where
  "file_blocks V x = insert (i_addrs x ! NDIRECT) (file_block V x ` {..<MAXFILE}) - {0}"

definition file_shape :: "(u32 \<Rightarrow> u8 list) \<Rightarrow> inode \<Rightarrow> bool" where
  "file_shape V x \<longleftrightarrow> length (i_addrs x) = NDIRECT + 1 \<and>
     (\<forall>j<MAXFILE. \<forall>k<MAXFILE. file_block V x j = file_block V x k \<longrightarrow> file_block V x j \<noteq> 0 \<longrightarrow> j = k) \<and>
     (\<forall>k<MAXFILE. file_block V x k \<noteq> 0 \<longrightarrow> file_block V x k \<noteq> i_addrs x ! NDIRECT)"

lemma file_shapeD:
  assumes "file_shape V x"
  shows "length (i_addrs x) = 13" "j < MAXFILE \<Longrightarrow> k < MAXFILE \<Longrightarrow> file_block V x j = file_block V x k \<Longrightarrow> file_block V x j \<noteq> 0 \<Longrightarrow> j = k"
    "k < MAXFILE \<Longrightarrow> file_block V x k \<noteq> 0 \<Longrightarrow> file_block V x k \<noteq> i_addrs x ! NDIRECT"
  using assms by (auto simp: file_shape_def)

lemma file_blocksI: "k < MAXFILE \<Longrightarrow> file_block V x k \<noteq> 0 \<Longrightarrow> file_block V x k \<in> file_blocks V x"
  "i_addrs x ! NDIRECT \<noteq> 0 \<Longrightarrow> i_addrs x ! NDIRECT \<in> file_blocks V x"
  by (auto simp: file_blocks_def)

text \<open>
  Block \<open>k\<close> of the file of inode \<open>x\<close> has become block \<open>n\<close> of the disk, and the inode \<open>y\<close>.
\<close>

definition mapped_at :: "nat \<Rightarrow> u32 \<Rightarrow> (u32 \<Rightarrow> u8 list) \<Rightarrow> inode \<Rightarrow> (u32 \<Rightarrow> u8 list) \<Rightarrow> inode \<Rightarrow> bool" where
  "mapped_at k n V x W y \<longleftrightarrow> file_shape W y \<and> (\<forall>j<MAXFILE. file_block W y j = (if j = k then n else file_block V x j)) \<and>
     file_blocks W y = insert n (file_blocks V x) \<and> (\<forall>j<MAXFILE. file_data W y j = file_data V x j)"

lemma get32_zero [simp]: "i + 3 < n \<Longrightarrow> get32 (replicate n 0) i = 0"
  by (simp add: get32_def)

lemma shape_insert:
  assumes "file_shape V x" and "k < MAXFILE" and "n \<noteq> 0" and "n \<notin> file_blocks V x" and "file_block V x k = 0"
    and "\<forall>j<MAXFILE. file_block W y j = (if j = k then n else file_block V x j)" and "i_addrs y ! NDIRECT = i_addrs x ! NDIRECT"
    and "length (i_addrs y) = 13" and "W n = replicate BSIZE 0" and "\<forall>m\<in>file_blocks V x. m \<noteq> i_addrs x ! NDIRECT \<longrightarrow> W m = V m"
  shows "mapped_at k n V x W y"
proof -
  have n: "n \<noteq> file_block V x j" if "j < MAXFILE" for j using assms(3,4) file_blocksI(1) [OF that, of V x] by auto
  have a: "n \<noteq> i_addrs x ! NDIRECT" using assms(3,4) file_blocksI(2) [of x V] by auto
  have "file_shape W y"
    unfolding file_shape_def assms(7) using assms(2,3,6,8) n a file_shapeD [OF assms(1)] by (auto split: if_splits)
  moreover have "file_blocks W y = insert n (file_blocks V x)"
  proof -
    have "file_block W y ` {..<140} = insert n (file_block V x ` ({..<140} - {k}))" using assms(2,6) by auto
    moreover have "file_block V x ` {..<140} - {0} = file_block V x ` ({..<140} - {k}) - {0}" using assms(5) by auto
    ultimately show ?thesis using assms(3) unfolding file_blocks_def assms(7) by auto
  qed
  moreover have "file_data W y j = file_data V x j" if "j < MAXFILE" for j
  proof (cases "j = k \<or> file_block V x j = 0")
    case True
    then show ?thesis using assms(3,5,6,9) that by (auto simp: file_data_def)
  next
    case False
    then have "W (file_block V x j) = V (file_block V x j)"
      using assms(10) file_blocksI(1) [OF that] file_shapeD(3) [OF assms(1) that] by auto
    then show ?thesis using False assms(6) that by (simp add: file_data_def)
  qed
  ultimately show ?thesis using assms(6) by (simp add: mapped_at_def)
qed

lemma map_direct:
  assumes "file_shape V x" and "k < NDIRECT" and "i_addrs x ! k = 0" and "n \<noteq> 0" and "n \<notin> file_blocks V x"
    and "W n = replicate BSIZE 0" and "\<forall>m\<in>file_blocks V x. W m = V m"
  shows "mapped_at k n V x W (x\<lparr>i_addrs := (i_addrs x)[k := n]\<rparr>)"
proof -
  have l: "length (i_addrs x) = 13" using file_shapeD(1) [OF assms(1)] .
  have "i_addrs x ! 12 \<noteq> 0 \<Longrightarrow> W (i_addrs x ! 12) = V (i_addrs x ! 12)" using assms(7) file_blocksI(2) [of x V] by simp
  then have "file_block W (x\<lparr>i_addrs := (i_addrs x)[k := n]\<rparr>) j = (if j = k then n else file_block V x j)" for j
    using assms(2) l by (auto simp: file_block_def nth_list_update)
  then show ?thesis using assms l by (intro shape_insert) (auto simp: file_block_def)
qed

lemma map_table:
  assumes "file_shape V x" and "i_addrs x ! NDIRECT = 0" and "n \<noteq> 0" and "n \<notin> file_blocks V x"
    and "W n = replicate BSIZE 0" and "\<forall>m\<in>file_blocks V x. W m = V m" and "y = x\<lparr>i_addrs := (i_addrs x)[NDIRECT := n]\<rparr>"
  shows "file_shape W y" "j < MAXFILE \<Longrightarrow> file_block W y j = file_block V x j" "file_blocks W y = insert n (file_blocks V x)"
    "j < MAXFILE \<Longrightarrow> file_data W y j = file_data V x j" "i_addrs y ! NDIRECT = n"
proof -
  have l: "length (i_addrs x) = 13" using file_shapeD(1) [OF assms(1)] .
  have a: "i_addrs y ! NDIRECT = n" using assms(7) l by simp
  then show "i_addrs y ! NDIRECT = n" .
  have b: "file_block W y j = file_block V x j" if "j < MAXFILE" for j
    using assms(2,3,5,7) l that by (auto simp: file_block_def nth_list_update)
  then show "j < MAXFILE \<Longrightarrow> file_block W y j = file_block V x j" .
  have n: "n \<noteq> file_block V x j" if "j < MAXFILE" for j using assms(3,4) file_blocksI(1) [OF that, of V x] by auto
  show "file_shape W y" unfolding file_shape_def a using b n file_shapeD [OF assms(1)] l assms(7) by auto
  show "file_blocks W y = insert n (file_blocks V x)" unfolding file_blocks_def a using b assms(2,3) by auto
  show "j < MAXFILE \<Longrightarrow> file_data W y j = file_data V x j" using b assms(6) file_blocksI(1) [of j V x] by (simp add: file_data_def)
qed

lemma map_entry:
  assumes "file_shape V x" and "NDIRECT \<le> k" and "k < MAXFILE" and "i_addrs x ! NDIRECT \<noteq> 0" and "file_block V x k = 0"
    and "n \<noteq> 0" and "n \<notin> file_blocks V x" and "W n = replicate BSIZE 0" and "length (V (i_addrs x ! NDIRECT)) = BSIZE"
    and "W (i_addrs x ! NDIRECT) = put32 (4 * (k - NDIRECT)) n (V (i_addrs x ! NDIRECT))"
    and "\<forall>m\<in>file_blocks V x. m \<noteq> i_addrs x ! NDIRECT \<longrightarrow> W m = V m"
  shows "mapped_at k n V x W x"
proof -
  have "file_block W x j = (if j = k then n else file_block V x j)" if "j < MAXFILE" for j
  proof (cases "j < NDIRECT \<or> j = k")
    case True
    then show ?thesis using assms(2,3,4,9,10) by (auto simp: file_block_def)
  next
    case False
    then have "4 * (j - 12) + 4 \<le> 4 * (k - 12) \<or> 4 * (k - 12) + 4 \<le> 4 * (j - 12)" using assms(2) by auto
    then show ?thesis using False assms(4,10) by (simp add: file_block_def get32_put32_other)
  qed
  then show ?thesis using assms file_shapeD(1) [OF assms(1)] by (intro shape_insert) auto
qed

text \<open>The blocks that belong to files and directories, and those that are free.\<close>

definition data_blocks :: "'z icache_scheme \<Rightarrow> u32 set" where
  "data_blocks s = {n. n < sb_size (sb s) \<and> n \<notin> meta s \<and> used s n}"

definition free_blocks :: "'z icache_scheme \<Rightarrow> u32 set" where
  "free_blocks s = {n. n < sb_size (sb s) \<and> \<not> used s n}"

definition file_ok :: "'z icache_scheme \<Rightarrow> nat \<Rightarrow> bool" where
  "file_ok s ip \<longleftrightarrow> ip < length (inodes s) \<and> i_dev (inode_at s ip) = 1 \<and> file_shape (view s) (inode_at s ip) \<and>
     file_blocks (view s) (inode_at s ip) \<subseteq> data_blocks s"

text \<open>
  What an operation on the contents of inode \<open>ip\<close> leaves alone: the other inodes, the other fields of
  this one, and the blocks of other files; the blocks it adds were free.
\<close>

definition inode_kept :: "inode \<Rightarrow> inode \<Rightarrow> bool" where
  "inode_kept x y \<longleftrightarrow> y = x\<lparr>i_addrs := i_addrs y, i_size := i_size y\<rparr>"

definition fs_step :: "nat \<Rightarrow> 'z icache_scheme \<Rightarrow> 'z icache_scheme \<Rightarrow> bool" where
  "fs_step ip s t \<longleftrightarrow> op_frame s (t\<lparr>inodes := inodes s\<rparr>) \<and> memdisk t = memdisk s \<and> diskw t = diskw s \<and>
     length (inodes t) = length (inodes s) \<and> (\<forall>i. i \<noteq> ip \<longrightarrow> inode_at t i = inode_at s i) \<and>
     inode_kept (inode_at s ip) (inode_at t ip) \<and> data_blocks s \<subseteq> data_blocks t \<and>
     (\<forall>m\<in>data_blocks s - file_blocks (view s) (inode_at s ip). view t m = view s m) \<and>
     file_blocks (view t) (inode_at t ip) \<inter> data_blocks s \<subseteq> file_blocks (view s) (inode_at s ip)"

definition same_data :: "nat \<Rightarrow> 'z icache_scheme \<Rightarrow> 'z icache_scheme \<Rightarrow> bool" where
  "same_data ip s t \<longleftrightarrow> i_size (inode_at t ip) = i_size (inode_at s ip) \<and>
     (\<forall>k<MAXFILE. file_data (view t) (inode_at t ip) k = file_data (view s) (inode_at s ip) k \<and>
        (file_block (view s) (inode_at s ip) k \<noteq> 0 \<longrightarrow> file_block (view t) (inode_at t ip) k = file_block (view s) (inode_at s ip) k))"

text \<open>The file is in order and nothing is held.\<close>

definition file_op :: "nat \<Rightarrow> nat \<Rightarrow> 'z icache_scheme \<Rightarrow> bool" where
  "file_op q ip s \<longleftrightarrow> in_op q {} s \<and> fs_disk s \<and> file_ok s ip"

definition file_step :: "nat \<Rightarrow> nat \<Rightarrow> nat \<Rightarrow> nat \<Rightarrow> 'z icache_scheme \<Rightarrow> 'z icache_scheme \<Rightarrow> bool" where
  "file_step q ip l f s t \<longleftrightarrow> file_op q ip t \<and> fs_step ip s t \<and> lh_n t \<le> lh_n s + int l \<and>
     card (free_blocks s) \<le> card (free_blocks t) + f"

lemma op_frame_inodes:
  assumes "op_frame s (t\<lparr>inodes := inodes s\<rparr>)" and "op_frame t (u\<lparr>inodes := inodes t\<rparr>)"
  shows "op_frame s (u\<lparr>inodes := inodes s\<rparr>)"
proof -
  have "op_frame (t\<lparr>inodes := inodes s\<rparr>) (u\<lparr>inodes := inodes s\<rparr>)"
  proof -
    have "u\<lparr>inodes := inodes t\<rparr> = t\<lparr>procs := procs u, slocks := slocks u, bufs := bufs u, memdisk := memdisk u, diskw := diskw u,
      lh_n := lh_n u, lh_block := lh_block u\<rparr>" using op_frameD [OF assms(2)] by simp
    then have "(u\<lparr>inodes := inodes t\<rparr>)\<lparr>inodes := inodes s\<rparr> = t\<lparr>procs := procs u, slocks := slocks u, bufs := bufs u, memdisk := memdisk u, diskw := diskw u,
      lh_n := lh_n u, lh_block := lh_block u\<rparr>\<lparr>inodes := inodes s\<rparr>" by (rule arg_cong)
    then show ?thesis using assms(2) by (simp add: op_frame_def)
  qed
  then show ?thesis using assms(1) op_frame_trans by blast
qed

lemma op_frame_sb:
  assumes "op_frame s (t\<lparr>inodes := inodes s\<rparr>)"
  shows "sb t = sb s" "disksize t = disksize s" "log_area t = log_area s" "meta t = meta s"
proof -
  note f = op_frame_icache [OF assms]
  show a: "sb t = sb s" "disksize t = disksize s" using f by simp_all
  show b: "log_area t = log_area s" using f(4) by (simp add: log_area_def logblk_def)
  show "meta t = meta s" using a b by (simp add: meta_def bitmap_blocks_def inode_blocks_def)
qed

lemma inode_kept_refl [simp]: "inode_kept x x"
  by (simp add: inode_kept_def)

lemma inode_kept_trans: "inode_kept x y \<Longrightarrow> inode_kept y z \<Longrightarrow> inode_kept x z"
  unfolding inode_kept_def by (cases x, cases y, cases z) simp

lemma fs_step_refl [simp]: "fs_step ip s s"
  by (auto simp: fs_step_def)

lemma fs_step_trans:
  assumes "fs_step ip s t" and "fs_step ip t u"
  shows "fs_step ip s u"
proof -
  have "op_frame s (u\<lparr>inodes := inodes s\<rparr>)" using assms op_frame_inodes [of s t u] by (simp add: fs_step_def)
  moreover have "view u m = view s m" if "m \<in> data_blocks s - file_blocks (view s) (inode_at s ip)" for m
  proof -
    have "m \<in> data_blocks t - file_blocks (view t) (inode_at t ip)" using that assms(1) by (auto simp: fs_step_def)
    then show ?thesis using that assms by (simp add: fs_step_def)
  qed
  moreover have "file_blocks (view u) (inode_at u ip) \<inter> data_blocks s \<subseteq> file_blocks (view s) (inode_at s ip)"
    using assms by (auto simp: fs_step_def)
  moreover have "inode_kept (inode_at s ip) (inode_at u ip)" using assms inode_kept_trans by (simp add: fs_step_def) blast
  moreover have "data_blocks s \<subseteq> data_blocks u" using assms by (auto simp: fs_step_def)
  ultimately show ?thesis using assms by (simp add: fs_step_def)
qed

lemma file_step_trans: "file_step q ip l f s t \<Longrightarrow> file_step q ip l' f' t u \<Longrightarrow> file_step q ip (l + l') (f + f') s u"
  using fs_step_trans [of ip s t u] by (auto simp: file_step_def)

lemma same_data_refl [simp]: "same_data ip s s"
  by (simp add: same_data_def)

lemma same_data_trans: "same_data ip s t \<Longrightarrow> same_data ip t u \<Longrightarrow> same_data ip s u"
  by (simp add: same_data_def)

lemma upd_inode_fields [simp]:
  "inodes (upd_inode ip f s) = upd_nth ip f (inodes s)" "sb (upd_inode ip f s) = sb s" "view (upd_inode ip f s) = view s"
  "memdisk (upd_inode ip f s) = memdisk s" "diskw (upd_inode ip f s) = diskw s" "lh_n (upd_inode ip f s) = lh_n s"
  "(upd_inode ip f s)\<lparr>inodes := is\<rparr> = s\<lparr>inodes := is\<rparr>"
  using cache_same(2) [of s "upd_inode ip f s"] by (simp_all add: upd_inode_def mach_same_def)

lemma upd_inode_op [simp]:
  "in_op q H (upd_inode ip f s) = in_op q H s" "used (upd_inode ip f s) = used s" "fs_disk (upd_inode ip f s) = fs_disk s"
  "meta (upd_inode ip f s) = meta s" "data_blocks (upd_inode ip f s) = data_blocks s" "free_blocks (upd_inode ip f s) = free_blocks s"
proof -
  let ?t = "upd_inode ip f s"
  have c: "cache_inv q H ?t = cache_inv q H s" "dirty_blocks ?t = dirty_blocks s" "view ?t = view s"
    using cache_same(1) [of s ?t q H] cache_same(2,3) [of s ?t] by (simp_all add: upd_inode_def mach_same_def)
  have l: "log_area ?t = log_area s" "txn_inv ?t = txn_inv s" "log_fits ?t = log_fits s"
    using c(2) by (simp_all add: log_area_def logblk_def txn_inv_def homeblk_def [abs_def] log_fits_def upd_inode_def)
  show "in_op q H ?t = in_op q H s" using c l by (simp add: in_op_def upd_inode_def)
  show u: "used ?t = used s" using c by (simp add: used_def [abs_def] upd_inode_def)
  have m: "bitmap_blocks ?t = bitmap_blocks s" "inode_blocks ?t = inode_blocks s"
    by (simp_all add: bitmap_blocks_def inode_blocks_def)
  then show mt: "meta ?t = meta s" using l by (simp add: meta_def)
  show "fs_disk ?t = fs_disk s" using u m mt l by (simp add: fs_disk_def upd_inode_def)
  show "data_blocks ?t = data_blocks s" "free_blocks ?t = free_blocks s" using u mt by (simp_all add: data_blocks_def free_blocks_def)
qed

section \<open>Adding blocks to a file\<close>

lemma finite_free [simp]: "finite (free_blocks s)"
  by simp

text \<open>What \<open>balloc\<close> does to the blocks of files.\<close>

lemma alloc_blocks:
  assumes "in_op q H s" and "fs_disk s" and "n < sb_size (sb s)" and "\<not> used s n" and "logged (alloc_writes n s) s t"
  shows "data_blocks t = insert n (data_blocks s)" "n \<notin> data_blocks s" "n \<noteq> 0" "view t n = replicate BSIZE 0"
    "m \<in> data_blocks s \<Longrightarrow> view t m = view s m" "card (free_blocks s) = card (free_blocks t) + 1" "fs_disk t"
    "lh_n t \<le> lh_n s + 2" "inodes t = inodes s" "op_frame s t" "memdisk t = memdisk s" "diskw t = diskw s"
proof -
  note i = logged_icache [OF assms(5)] and u = alloc_used(1) [OF assms]
  have nm: "n \<notin> meta s" using assms(2,4) by (auto simp: fs_disk_def)
  show "data_blocks t = insert n (data_blocks s)" using u i nm assms(3) by (auto simp: data_blocks_def)
  show nd: "n \<notin> data_blocks s" using assms(4) by (simp add: data_blocks_def)
  show "n \<noteq> 0" using nm by (auto simp: meta_def)
  show "view t n = replicate BSIZE 0" using assms(5) by (simp add: logged_def alloc_writes_def)
  show "view t m = view s m" if "m \<in> data_blocks s"
  proof -
    have "BBLOCK n (sb s) \<in> meta s" using assms(3) by (auto simp: meta_def bitmap_blocks_def)
    then have "m \<noteq> BBLOCK n (sb s)" "m \<noteq> n" using that nd by (auto simp: data_blocks_def)
    then show ?thesis using assms(5) by (simp add: logged_def alloc_writes_def)
  qed
  have "free_blocks s = insert n (free_blocks t)" "n \<notin> free_blocks t" using u i assms(3,4) by (auto simp: free_blocks_def)
  then show "card (free_blocks s) = card (free_blocks t) + 1" by simp
  show "fs_disk t" by (rule alloc_used(2) [OF assms])
  show "lh_n t \<le> lh_n s + 2" "inodes t = inodes s" "op_frame s t" "memdisk t = memdisk s" "diskw t = diskw s"
    using assms(5) i by (simp_all add: logged_def alloc_writes_def)
qed

lemma balloc_ip:
  assumes "in_op q H s" and "fs_disk s" and "held_used H s" and "lh_n s + int (card H) < 28" and "free_blocks s \<noteq> {}"
  shows "\<exists>n t. balloc 1 s = Inr (n, t) \<and> n < sb_size (sb s) \<and> \<not> used s n \<and> in_op q H t \<and> logged (alloc_writes n s) s t \<and> keeps H s t"
proof -
  have "\<exists>n. n < sb_size (sb s) \<and> \<not> used s n" using assms(5) by (auto simp: free_blocks_def)
  then show ?thesis using balloc_ok [OF assms(1-4)] by simp
qed

text \<open>A new inode table entry after an allocation.\<close>

lemma alloc_step:
  assumes "file_op q ip s" and "n < sb_size (sb s)" and "\<not> used s n" and "logged (alloc_writes n s) s t" and "in_op q {} t"
    and "y = (inode_at s ip)\<lparr>i_addrs := as\<rparr>" and "file_shape (view t) y"
    and "file_blocks (view t) y = insert n (file_blocks (view s) (inode_at s ip))"
  shows "file_step q ip 2 1 s (upd_inode ip (\<lambda>x. x\<lparr>i_addrs := as\<rparr>) t)"
proof -
  have f: "in_op q {} s" "fs_disk s" "file_ok s ip" using assms(1) by (simp_all add: file_op_def)
  note a = alloc_blocks [OF f(1,2) assms(2-4)]
  have ip: "ip < length (inodes s)" "i_dev (inode_at s ip) = 1" "file_blocks (view s) (inode_at s ip) \<subseteq> data_blocks s"
    using f(3) by (simp_all add: file_ok_def)
  let ?t = "upd_inode ip (\<lambda>x. x\<lparr>i_addrs := as\<rparr>) t"
  have it: "inodes ?t = upd_nth ip (\<lambda>x. x\<lparr>i_addrs := as\<rparr>) (inodes s)" by (simp add: a(9))
  have y: "inode_at ?t ip = y" "inode_at ?t i = inode_at s i" if "i \<noteq> ip" for i
    using ip(1) that unfolding it assms(6) by (simp_all add: upd_nth_sel)
  have y': "inode_at ?t ip = y" using ip(1) unfolding it assms(6) by (simp add: upd_nth_sel)
  have "file_ok ?t ip"
    unfolding file_ok_def y' using ip assms(6-8) a(1) by (auto simp: a(9) upd_nth_def)
  then have "file_op q ip ?t" using a(7) assms(5) by (simp add: file_op_def)
  moreover have "fs_step ip s ?t"
  proof -
    have "t\<lparr>inodes := inodes s\<rparr> = t" using a(9) by (metis (no_types) icache.surjective icache.update_convs(1))
    then have "op_frame s (?t\<lparr>inodes := inodes s\<rparr>)" using a(10) by simp
    moreover have "inode_kept (inode_at s ip) (inode_at ?t ip)" unfolding y' assms(6) by (simp add: inode_kept_def)
    moreover have "data_blocks s \<subseteq> data_blocks ?t" using a(1) by auto
    moreover have "file_blocks (view ?t) (inode_at ?t ip) \<inter> data_blocks s \<subseteq> file_blocks (view s) (inode_at s ip)"
      unfolding y' using assms(8) a(2) by auto
    ultimately show ?thesis using a(5,11,12) y(2) by (simp add: fs_step_def a(9) upd_nth_def)
  qed
  ultimately show ?thesis using a(6,8) by (simp add: file_step_def)
qed

lemma logged_data:
  assumes "logged ws s t" and "fst ` set ws \<inter> bitmap_blocks s = {}"
  shows "data_blocks t = data_blocks s" "free_blocks t = free_blocks s"
  using logged_used [OF assms] logged_icache [OF assms(1)] by (auto simp: data_blocks_def free_blocks_def)

lemma logged_inodes: "logged ws s t \<Longrightarrow> t\<lparr>inodes := inodes s\<rparr> = t"
  using logged_icache(1) [of ws s t] by (metis (no_types) icache.surjective icache.update_convs(1))

text \<open>An operation that writes only to blocks of the file.\<close>

lemma logged_step:
  assumes "file_op q ip s" and "logged ws s t" and "in_op q {} t" and "fst ` set ws \<subseteq> file_blocks (view s) (inode_at s ip)"
    and "file_shape (view t) (inode_at s ip)" and "file_blocks (view t) (inode_at s ip) = file_blocks (view s) (inode_at s ip)"
  shows "file_step q ip (length ws) 0 s t"
proof -
  have f: "fs_disk s" "file_ok s ip" "file_blocks (view s) (inode_at s ip) \<subseteq> data_blocks s" using assms(1) by (simp_all add: file_op_def file_ok_def)
  have b: "fst ` set ws \<inter> bitmap_blocks s = {}" using assms(4) f(3) by (auto simp: data_blocks_def meta_def)
  note d = logged_data [OF assms(2) b] and i = logged_icache(1) [OF assms(2)]
  have o: "file_op q ip t" using assms(3,5,6) f d i logged_fs_disk [OF assms(2) b f(1)] by (simp add: file_op_def file_ok_def)
  have "view t m = view s m" if "m \<in> data_blocks s - file_blocks (view s) (inode_at s ip)" for m
  proof -
    have "m \<notin> fst ` set ws" using that assms(4) by auto
    then show ?thesis using assms(2) by (simp add: logged_def play_other)
  qed
  moreover have "op_frame s (t\<lparr>inodes := inodes s\<rparr>)" unfolding logged_inodes [OF assms(2)] using assms(2) by (simp add: logged_def)
  ultimately have "fs_step ip s t" using assms(2,6) i d by (simp add: fs_step_def logged_def)
  then show ?thesis using o assms(2) d by (simp add: file_step_def logged_def)
qed

lemma read_step:
  assumes "file_op q ip s" and "logged [] s t" and "in_op q {} t"
  shows "file_step q ip 0 0 s t" "same_data ip s t"
proof -
  have v: "view t = view s" "inodes t = inodes s" using assms(2) logged_icache(1) [OF assms(2)] by (simp_all add: logged_def)
  show "file_step q ip 0 0 s t" using logged_step [OF assms] assms(1) v by (simp add: file_op_def file_ok_def)
  show "same_data ip s t" using v by (simp add: same_data_def)
qed

lemma mapped_same:
  assumes "mapped_at k n (view s) (inode_at s ip) (view t) (inode_at t ip)" and "file_block (view s) (inode_at s ip) k = 0"
    and "i_size (inode_at t ip) = i_size (inode_at s ip)"
  shows "same_data ip s t" "k < MAXFILE \<Longrightarrow> file_block (view t) (inode_at t ip) k = n"
  using assms by (auto simp: mapped_at_def same_data_def)

text \<open>The outcome of mapping block \<open>k\<close> of a file.\<close>

definition mapping_ok :: "nat \<Rightarrow> nat \<Rightarrow> nat \<Rightarrow> nat \<Rightarrow> nat \<Rightarrow> 'z icache_scheme \<Rightarrow> ('z icache_scheme, u32 \<times> 'z icache_scheme) kres \<Rightarrow> bool" where
  "mapping_ok q ip k l f s r \<longleftrightarrow> (\<exists>t. r = Inr (file_block (view t) (inode_at t ip) k, t) \<and> file_step q ip l f s t \<and> same_data ip s t \<and>
     file_block (view t) (inode_at t ip) k \<noteq> 0)"

lemma bmap_direct:
  assumes "file_op q ip s" and "k < NDIRECT" and "lh_n s < 28" and "free_blocks s \<noteq> {}"
  shows "mapping_ok q ip k 2 1 s (bmap ip k s)"
proof (cases "i_addrs (inode_at s ip) ! k = 0")
  case True
  have f: "in_op q {} s" "fs_disk s" "file_ok s ip" using assms(1) by (simp_all add: file_op_def)
  have h: "held_used {} s" "lh_n s + int (card {}) < 28" using assms(3) by (simp_all add: held_used_def)
  obtain n t where t: "balloc 1 s = Inr (n, t)" "n < sb_size (sb s)" "\<not> used s n" "in_op q {} t" "logged (alloc_writes n s) s t"
    using balloc_ip [OF f(1,2) h assms(4)] by blast
  note a = alloc_blocks [OF f(1,2) t(2,3,5)]
  let ?x = "inode_at s ip"
  let ?as = "(i_addrs ?x)[k := n]" and ?u = "upd_inode ip (\<lambda>x. x\<lparr>i_addrs := (i_addrs x)[k := n]\<rparr>) t"
  have sh: "file_shape (view s) ?x" "file_blocks (view s) ?x \<subseteq> data_blocks s" "ip < length (inodes s)" "i_dev ?x = 1" using f(3) by (simp_all add: file_ok_def)
  have m: "mapped_at k n (view s) ?x (view t) (?x\<lparr>i_addrs := ?as\<rparr>)"
    using sh a(2,5) by (intro map_direct [where W = "view t", OF sh(1) assms(2) True a(3) _ a(4)]) auto
  then have "file_step q ip 2 1 s (upd_inode ip (\<lambda>x. x\<lparr>i_addrs := ?as\<rparr>) t)"
    by (intro alloc_step [OF assms(1) t(2,3,5,4) refl]) (auto simp: mapped_at_def)
  moreover have "?u = upd_inode ip (\<lambda>x. x\<lparr>i_addrs := ?as\<rparr>) t" using sh(3) a(9) by (simp add: upd_inode_def upd_nth_def)
  moreover have at: "inode_at ?u ip = ?x\<lparr>i_addrs := ?as\<rparr>" using sh(3) a(9) by (simp add: upd_nth_sel)
  then have "same_data ip s ?u" "file_block (view ?u) (inode_at ?u ip) k = n"
    using mapped_same [of k n s ip ?u] m assms(2) True by (simp_all add: file_block_def)
  moreover have "bmap ip k s = Inr (n, ?u)" using assms(2) True t(1) sh(4) by (simp add: bmap_def Let_def)
  ultimately show ?thesis using a(3) unfolding mapping_ok_def by (intro exI [of _ ?u]) simp
next
  case False
  have "file_step q ip 0 0 s s" using read_step(1) [OF assms(1) logged_refl] assms(1) by (simp add: file_op_def)
  then show ?thesis using False assms(2) unfolding mapping_ok_def
    by (intro exI [of _ s]) (simp add: bmap_def Let_def file_block_def file_step_def)
qed

lemma bmap_table:
  assumes "file_op q ip s" and "lh_n s < 28" and "free_blocks s \<noteq> {}"
  shows "\<exists>t. (if i_addrs (inode_at s ip) ! NDIRECT = 0
      then bindR (balloc (i_dev (inode_at s ip)) s) (\<lambda>(addr, s). Inr (addr, upd_inode ip (\<lambda>x. x\<lparr>i_addrs := (i_addrs x)[NDIRECT := addr]\<rparr>) s))
      else Inr (i_addrs (inode_at s ip) ! NDIRECT, s)) = Inr (i_addrs (inode_at t ip) ! NDIRECT, t) \<and>
    file_step q ip 2 1 s t \<and> same_data ip s t \<and> i_addrs (inode_at t ip) ! NDIRECT \<noteq> 0"
proof (cases "i_addrs (inode_at s ip) ! NDIRECT = 0")
  case True
  have f: "in_op q {} s" "fs_disk s" "file_ok s ip" using assms(1) by (simp_all add: file_op_def)
  have h: "held_used {} s" "lh_n s + int (card {}) < 28" using assms(2) by (simp_all add: held_used_def)
  obtain n t where t: "balloc 1 s = Inr (n, t)" "n < sb_size (sb s)" "\<not> used s n" "in_op q {} t" "logged (alloc_writes n s) s t"
    using balloc_ip [OF f(1,2) h assms(3)] by blast
  note a = alloc_blocks [OF f(1,2) t(2,3,5)]
  let ?x = "inode_at s ip"
  let ?as = "(i_addrs ?x)[NDIRECT := n]" and ?u = "upd_inode ip (\<lambda>x. x\<lparr>i_addrs := (i_addrs x)[NDIRECT := n]\<rparr>) t"
  have sh: "file_shape (view s) ?x" "file_blocks (view s) ?x \<subseteq> data_blocks s" "ip < length (inodes s)" "i_dev ?x = 1" using f(3) by (simp_all add: file_ok_def)
  have nb: "n \<notin> file_blocks (view s) ?x" "\<forall>m\<in>file_blocks (view s) ?x. view t m = view s m" using sh(2) a(2,5) by auto
  note m = map_table [where W = "view t", OF sh(1) True a(3) nb(1) a(4) nb(2) refl]
  have "file_step q ip 2 1 s (upd_inode ip (\<lambda>x. x\<lparr>i_addrs := ?as\<rparr>) t)"
    using m(1,3) by (intro alloc_step [OF assms(1) t(2,3,5,4) refl]) simp_all
  moreover have "?u = upd_inode ip (\<lambda>x. x\<lparr>i_addrs := ?as\<rparr>) t" using sh(3) a(9) by (simp add: upd_inode_def upd_nth_def)
  moreover have at: "inode_at ?u ip = ?x\<lparr>i_addrs := ?as\<rparr>" using sh(3) a(9) by (simp add: upd_nth_sel)
  moreover have "same_data ip s ?u" unfolding same_data_def at using m(2,4) by simp
  ultimately show ?thesis using a(3) m(5) True t(1) sh(4) by (intro exI [of _ ?u]) simp
next
  case False
  have "file_step q ip 0 0 s s" using read_step(1) [OF assms(1) logged_refl] assms(1) by (simp add: file_op_def)
  then show ?thesis using False by (intro exI [of _ s]) (simp add: file_step_def)
qed

lemma file_data_blocks:
  assumes "file_op q ip s" and "n \<in> file_blocks (view s) (inode_at s ip)"
  shows "n < disksize s" "n \<notin> log_area s" "n \<notin> meta s" "used s n" "n \<in> data_blocks s" "length d = BSIZE \<Longrightarrow> home_ok s (n, d)"
proof -
  show d: "n \<in> data_blocks s" using assms by (auto simp: file_op_def file_ok_def)
  then show "n \<notin> log_area s" "n \<notin> meta s" "used s n" by (simp_all add: data_blocks_def meta_def)
  show "n < disksize s" using d assms(1) by (auto simp: data_blocks_def file_op_def fs_disk_def intro: less_le_trans)
  then show "length d = BSIZE \<Longrightarrow> home_ok s (n, d)" using d by (simp add: home_ok_def data_blocks_def meta_def)
qed

text \<open>A new entry in the table of indirect blocks: the table stays locked while the block is allocated.\<close>

lemma entry_new:
  assumes "file_op q ip s" and "NDIRECT \<le> k" and "k < MAXFILE" and "i_addrs (inode_at s ip) ! NDIRECT = a" and "a \<noteq> 0"
    and "lh_n s < 26" and "free_blocks s \<noteq> {}" and "file_block (view s) (inode_at s ip) k = 0"
    and "in_op q {b} u" and "holds_block u a b" and "logged [] s u"
  shows "\<exists>n v w t. balloc 1 u = Inr (n, v) \<and> log_write b (upd_buf b (\<lambda>x. x\<lparr>b_data := put32 (4 * (k - NDIRECT)) n (b_data x)\<rparr>) v) = Inr w \<and>
    brelse b w = Inr t \<and> file_step q ip 3 1 s t \<and> mapped_at k n (view s) (inode_at s ip) (view t) (inode_at s ip) \<and> inodes t = inodes s \<and> n \<noteq> 0"
proof -
  let ?x = "inode_at s ip" and ?f = "put32 (4 * (k - NDIRECT))"
  have f: "in_op q {} s" "fs_disk s" "file_ok s ip" using assms(1) by (simp_all add: file_op_def)
  have sh: "file_shape (view s) ?x" "file_blocks (view s) ?x \<subseteq> data_blocks s" using f(3) by (simp_all add: file_ok_def)
  have af: "a \<in> file_blocks (view s) ?x" using file_blocksI(2) [of ?x "view s"] assms(4,5) by simp
  note ad = file_data_blocks [OF assms(1) af] and iu = logged_icache [OF assms(11)]
  have us: "view u = view s" "used u = used s" "alloc_writes n u = alloc_writes n s" "free_blocks u = free_blocks s" "lh_n u \<le> lh_n s" for n
    using assms(11) iu(2) by (simp_all add: logged_def used_def [abs_def] alloc_writes_def free_blocks_def)
  have "fs_disk u" by (rule logged_fs_disk [OF assms(11) _ f(2)]) simp
  moreover have "m = a" if "holds_block u m b" for m using that assms(10) by (auto simp: holds_block_def)
  then have "held_used {b} u" using ad(3,4) iu(7) us(2) by (auto simp: held_used_def)
  ultimately obtain n v where v: "balloc 1 u = Inr (n, v)" "n < sb_size (sb s)" "\<not> used s n" "in_op q {b} v" "logged (alloc_writes n s) u v" "keeps {b} u v"
    using balloc_ip [OF assms(9)] assms(6,7) us iu(2) by auto
  have sv: "logged (alloc_writes n s) s v" using logged_trans [OF assms(11) v(5)] by simp
  note al = alloc_blocks [OF f(1,2) v(2,3) sv] and iv = logged_icache [OF sv]
  have hv: "holds_block v a b" "home_ok v (a, ?f n (view v a))" "lh_n v < 29" "view v a = view s a"
    using v(6) assms(6,10) al(5,8) ad(1,2,5) view_length [OF in_opD(1) [OF f(1)]] iv by (simp_all add: keeps_def home_ok_def)
  obtain w where w: "log_write b (upd_buf b (\<lambda>x. x\<lparr>b_data := ?f n (b_data x)\<rparr>) v) = Inr w" "in_op q {b} w"
      "logged [(a, ?f n (view v a))] v w" "keeps {b} v w" "dirty_buf (buf_at w b)"
    using put_ok [where f = "?f n", OF v(4) _ hv(1,2,3)] by blast
  have "holds_block w a b" using w(4) hv(1) by (simp add: keeps_def)
  then obtain t where t: "brelse b w = Inr t" "in_op q {} t" "logged [] w t" using rel_ok [OF w(2)] w(5) by auto
  have vt: "logged [(a, ?f n (view s a))] v t" using logged_trans [OF w(3) t(3)] hv(4) by simp
  have vw: "view t = (view v)(a := ?f n (view s a))" using vt by (simp add: logged_def)
  have an: "a \<noteq> n" using al(2) ad(5) by auto
  have m: "mapped_at k n (view s) ?x (view t) ?x"
    by (rule map_entry [OF sh(1) assms(2,3)]) (use assms(4,5,8) al(2-5) sh(2) an vw view_length [OF in_opD(1) [OF f(1)]] in \<open>auto\<close>)
  have ab: "a \<notin> bitmap_blocks v" using ad(3) iv by (simp add: meta_def)
  note d = logged_data [OF vt] and it = logged_icache(1) [OF vt] iv(1)
  have lt: "logged (alloc_writes n s @ [(a, ?f n (view s a))]) s t" by (rule logged_trans [OF sv vt])
  have "file_op q ip t"
    using t(2) logged_fs_disk [OF vt _ al(7)] m f(3) d it ab al(1) unfolding file_op_def file_ok_def mapped_at_def by auto
  moreover have "fs_step ip s t"
  proof -
    have "op_frame s (t\<lparr>inodes := inodes s\<rparr>)" unfolding logged_inodes [OF lt] using lt by (simp add: logged_def)
    moreover have "view t z = view s z" if "z \<in> data_blocks s - file_blocks (view s) ?x" for z using that af vw al(5) by auto
    moreover have "file_blocks (view t) ?x \<inter> data_blocks s \<subseteq> file_blocks (view s) ?x" using m al(2) by (auto simp: mapped_at_def)
    ultimately show ?thesis using it d ab al(1,11,12) vt by (auto simp: fs_step_def logged_def)
  qed
  moreover have "lh_n t \<le> lh_n s + 3" "card (free_blocks s) \<le> card (free_blocks t) + 1" using lt al(6) d ab by (simp_all add: logged_def alloc_writes_def)
  ultimately show ?thesis using v(1) w(1) t(1) m it al(3) unfolding file_step_def by fastforce
qed

lemma bmap_entry:
  assumes "file_op q ip s" and "NDIRECT \<le> k" and "k < MAXFILE" and "i_addrs (inode_at s ip) ! NDIRECT = a" and "a \<noteq> 0"
    and "lh_n s < 26" and "free_blocks s \<noteq> {}"
  shows "mapping_ok q ip k 3 1 s (bindR (bread (i_dev (inode_at s ip)) a s) (\<lambda>(bp, s).
    let addr = get32 (b_data (buf_at s bp)) (4 * (k - NDIRECT))
    in bindR (if addr = 0 then
                bindR (balloc (i_dev (inode_at s ip)) s) (\<lambda>(addr, s).
                bindR (log_write bp (upd_buf bp (\<lambda>x. x\<lparr>b_data := put32 (4 * (k - NDIRECT)) addr (b_data x)\<rparr>) s)) (\<lambda>s.
                Inr (addr, s)))
              else Inr (addr, s)) (\<lambda>(addr, s).
       bindR (brelse bp s) (\<lambda>s. Inr (addr, s)))))" (is "mapping_ok q ip k 3 1 s ?r")
proof -
  have f: "in_op q {} s" "fs_disk s" "i_dev (inode_at s ip) = 1" using assms(1) by (simp_all add: file_op_def file_ok_def)
  have af: "a \<in> file_blocks (view s) (inode_at s ip)" using file_blocksI(2) [of "inode_at s ip" "view s"] assms(4,5) by simp
  note ad = file_data_blocks [OF assms(1) af]
  have "lh_n s + int (card {}) < 30" using assms(6) by simp
  then obtain b u where u: "bread 1 a s = Inr (b, u)" "in_op q {b} u" "holds_block u a b" "logged [] s u"
      "dirty_buf (buf_at u b) \<or> view u a = memdisk u a"
    using read_ok [OF f(1) ad(1)] by auto
  have us: "view u = view s" "inodes u = inodes s" using u(4) logged_icache(1) [OF u(4)] by (simp_all add: logged_def)
  have d: "get32 (b_data (buf_at u b)) (4 * (k - 12)) = file_block (view s) (inode_at s ip) k"
    using view_held [OF cache_invD(6) [OF in_opD(1) [OF u(2)]] u(3)] us(1) assms(2,4,5) by (simp add: file_block_def)
  show ?thesis
  proof (cases "file_block (view s) (inode_at s ip) k = 0")
    case True
    from entry_new [OF assms True u(2-4)]
    obtain n v w t where t: "balloc 1 u = Inr (n, v)" "log_write b (upd_buf b (\<lambda>x. x\<lparr>b_data := put32 (4 * (k - NDIRECT)) n (b_data x)\<rparr>) v) = Inr w"
        "brelse b w = Inr t" "file_step q ip 3 1 s t" "mapped_at k n (view s) (inode_at s ip) (view t) (inode_at s ip)" "inodes t = inodes s" "n \<noteq> 0"
      by blast
    have "?r = Inr (n, t)" using u(1) d True t(1-3) f(3) us(2) by (simp add: Let_def)
    moreover have "same_data ip s t" "file_block (view t) (inode_at t ip) k = n"
      using mapped_same [of k n s ip t] t(5,6) True assms(3) by simp_all
    ultimately show ?thesis using t(4,7) unfolding mapping_ok_def by auto
  next
    case False
    obtain t where t: "brelse b u = Inr t" "in_op q {} t" "logged [] u t" using rel_ok [OF u(2) _ u(3,5)] by auto
    have st: "logged [] s t" using logged_trans [OF u(4) t(3)] by simp
    then have vt: "view t = view s" "inodes t = inodes s" using logged_icache(1) [OF st] by (simp_all add: logged_def)
    have "?r = Inr (file_block (view t) (inode_at t ip) k, t)" using u(1) d False t(1) f(3) vt by (simp add: Let_def)
    then show ?thesis using read_step [OF assms(1) st t(2)] False vt unfolding mapping_ok_def by (auto simp: file_step_def)
  qed
qed

lemma mapping_trans:
  assumes "file_step q ip l f s t" and "same_data ip s t" and "mapping_ok q ip k l' f' t r"
  shows "mapping_ok q ip k (l + l') (f + f') s r"
  using assms(3) file_step_trans [OF assms(1)] same_data_trans [OF assms(2)] unfolding mapping_ok_def by blast

lemma bmap_ok:
  assumes "file_op q ip s" and "k < MAXFILE" and "lh_n s < 24" and "2 \<le> card (free_blocks s)"
  shows "mapping_ok q ip k 5 2 s (bmap ip k s)"
proof (cases "k < NDIRECT")
  case True
  have "free_blocks s \<noteq> {}" using assms(4) by auto
  then have "mapping_ok q ip k 2 1 s (bmap ip k s)" using bmap_direct [OF assms(1) True] assms(3) by simp
  then show ?thesis unfolding mapping_ok_def file_step_def by fastforce
next
  case False
  have "free_blocks s \<noteq> {}" "lh_n s < 28" using assms(3,4) by auto
  note tb = bmap_table [OF assms(1) this(2,1)]
  then obtain t where t: "(if i_addrs (inode_at s ip) ! NDIRECT = 0
      then bindR (balloc (i_dev (inode_at s ip)) s) (\<lambda>(addr, s). Inr (addr, upd_inode ip (\<lambda>x. x\<lparr>i_addrs := (i_addrs x)[NDIRECT := addr]\<rparr>) s))
      else Inr (i_addrs (inode_at s ip) ! NDIRECT, s)) = Inr (i_addrs (inode_at t ip) ! NDIRECT, t)"
      "file_step q ip 2 1 s t" "same_data ip s t" "i_addrs (inode_at t ip) ! NDIRECT \<noteq> 0" by blast
  have "file_op q ip t" "lh_n t < 26" "free_blocks t \<noteq> {}" using t(2) assms(3,4) by (auto simp: file_step_def)
  note e = bmap_entry [OF this(1) _ assms(2) refl t(4) this(2,3)]
  have "k - NDIRECT < NINDIRECT" using assms(2) False by simp
  then have "mapping_ok q ip k 3 1 t (bmap ip k s)" using e False unfolding bmap_def Let_def t(1) by simp
  from mapping_trans [OF t(2,3) this] show ?thesis by (simp add: numeral_2_eq_2)
qed

end
