(* ===== verification/File_Data.thy ===== *)
theory File_Data
  imports File_Map
begin

unbundle bit_operations_syntax

text \<open>
  The contents of a file as a list of bytes, and what \<open>readi\<close> and \<open>writei\<close> of \<open>fs.c\<close> do to it,
  for a process that works alone in the file system.
\<close>

section \<open>Reading\<close>

definition file_byte :: "(u32 \<Rightarrow> u8 list) \<Rightarrow> inode \<Rightarrow> nat \<Rightarrow> u8" where
  "file_byte V x i = file_data V x (i div BSIZE) ! (i mod BSIZE)"

text \<open>The contents of a file.\<close>

definition contents :: "'z icache_scheme \<Rightarrow> nat \<Rightarrow> u8 list" where
  "contents s ip = map (file_byte (view s) (inode_at s ip)) [0..<unat (i_size (inode_at s ip))]"

text \<open>All the blocks below the size of a file are there.\<close>

definition file_mapped :: "'z icache_scheme \<Rightarrow> nat \<Rightarrow> bool" where
  "file_mapped s ip \<longleftrightarrow> unat (i_size (inode_at s ip)) \<le> MAXFILE * BSIZE \<and>
     (\<forall>k. k * BSIZE < unat (i_size (inode_at s ip)) \<longrightarrow> file_block (view s) (inode_at s ip) k \<noteq> 0)"

text \<open>Reading leaves the contents of the disk and of the cache as they are.\<close>

definition quiet :: "nat \<Rightarrow> 'z bio_scheme \<Rightarrow> 'z bio_scheme \<Rightarrow> bool" where
  "quiet q s t \<longleftrightarrow> cache_inv q {} t \<and> view t = view s \<and> memdisk t = memdisk s \<and> diskw t = diskw s \<and> dirty_blocks t = dirty_blocks s \<and> bio_frame s t"

lemma quiet_trans: "quiet q s t \<Longrightarrow> quiet q t u \<Longrightarrow> quiet q s u"
  using bio_frame_trans [of s t u] by (simp add: quiet_def)

lemma quiet_icache:
  assumes "quiet q s t"
  shows "inodes t = inodes s" "view t = view s" "disksize t = disksize s" "sb t = sb s" "dirty_blocks t = dirty_blocks s" "cache_inv q {} t"
  using assms op_frame_icache [OF bio_op_frame [of s t]] by (simp_all add: quiet_def)

lemma read_released:
  assumes "cache_inv q {} s" and "n < disksize s" and "card (dirty_blocks s) < NBUF"
  shows "\<exists>b u t. bread 1 n s = Inr (b, u) \<and> b_data (buf_at u b) = view s n \<and> bio_frame s u \<and> brelse b u = Inr t \<and> quiet q s t"
proof -
  have "card (pinned s \<union> {}) < NBUF" using card_pinned [OF assms(1)] assms(3) by simp
  then obtain b u where u: "bread 1 n s = Inr (b, u)" "block_read q {} n s b u" using bread_ok [OF assms(1,2)] by auto
  note r = u(2) [unfolded block_read_def]
  have "dirty_buf (buf_at u b) \<or> b_data (buf_at u b) = memdisk u (b_blockno (buf_at u b))" using r by (auto simp: holds_block_def)
  then obtain t where t: "brelse b u = Inr t" "block_released q {b} u b t" using brelse_ok [of q "{b}" u b] r by auto
  note y = t(2) [unfolded block_released_def]
  have "bio_frame s t" using r y bio_frame_trans by blast
  then have "quiet q s t" using r y released_dirty [OF t(2)] by (auto simp: quiet_def)
  then show ?thesis using u(1) t(1) r by blast
qed

lemma bmap_mapped:
  assumes "cache_inv q {} s" and "card (dirty_blocks s) < NBUF" and "fs_disk s" and "file_ok s ip" and "k < MAXFILE"
    and "file_block (view s) (inode_at s ip) k \<noteq> 0"
  shows "\<exists>t. bmap ip k s = Inr (file_block (view s) (inode_at s ip) k, t) \<and> quiet q s t"
proof (cases "k < NDIRECT")
  case True
  then show ?thesis using assms(1,6) by (intro exI [of _ s]) (simp add: bmap_def file_block_def Let_def quiet_def)
next
  case False
  let ?a = "i_addrs (inode_at s ip) ! NDIRECT"
  have a: "?a \<noteq> 0" using False assms(6) by (auto simp: file_block_def)
  have "?a \<in> data_blocks s" using file_blocksI(2) [OF a] assms(4) by (auto simp: file_ok_def)
  then have "?a < disksize s" using assms(3) by (auto simp: data_blocks_def fs_disk_def intro: less_le_trans)
  then obtain b u t where t: "bread 1 ?a s = Inr (b, u)" "b_data (buf_at u b) = view s ?a" "brelse b u = Inr t" "quiet q s t"
    using read_released [OF assms(1) _ assms(2)] by blast
  have "k - 12 < 128" "i_dev (inode_at s ip) = 1" using assms(4,5) False by (auto simp: file_ok_def)
  then show ?thesis using False a assms(6) t by (simp add: bmap_def file_block_def Let_def)
qed

lemma nth_chunk: "length d = BSIZE \<Longrightarrow> m \<le> BSIZE - i mod BSIZE \<Longrightarrow>
    take m (drop (i mod BSIZE) d) = map (\<lambda>j. d ! (j mod BSIZE)) [i..<i + m]"
proof (rule nth_equalityI)
  fix j
  assume a: "length d = BSIZE" "m \<le> BSIZE - i mod BSIZE" "j < length (take m (drop (i mod BSIZE) d))"
  then have "(i + j) mod 512 = i mod 512 + j" by (simp add: mod_add_left_eq [symmetric, of i])
  then show "take m (drop (i mod BSIZE) d) ! j = map (\<lambda>j. d ! (j mod BSIZE)) [i..<i + m] ! j" using a by simp
qed simp

lemma div_chunk: "m \<le> BSIZE - i mod BSIZE \<Longrightarrow> i \<le> j \<Longrightarrow> j < i + m \<Longrightarrow> j div BSIZE = i div (BSIZE :: nat)"
proof -
  assume a: "m \<le> BSIZE - i mod BSIZE" "i \<le> j" "j < i + m"
  have "i mod 512 < 512" by simp
  then have "m + i mod 512 \<le> 512" using a(1) by linarith
  then have "512 * (i div 512) \<le> j" "j < 512 * (i div 512) + 512" using a(2,3) mult_div_mod_eq [of 512 i] by linarith+
  then show ?thesis by (intro div_nat_eqI) simp_all
qed

lemma readi_loop_ok:
  assumes "cache_inv q {} s" and "card (dirty_blocks s) < NBUF" and "fs_disk s" and "file_ok s ip" and "i + n \<le> MAXFILE * BSIZE"
    and "\<forall>j. i \<le> j \<longrightarrow> j < i + n \<longrightarrow> file_block (view s) (inode_at s ip) (j div BSIZE) \<noteq> 0"
  shows "\<exists>t. readi_loop ip i n acc s = Inr (acc @ map (file_byte (view s) (inode_at s ip)) [i..<i + n], t) \<and> quiet q s t"
  using assms
proof (induction n arbitrary: i acc s rule: less_induct)
  case (less n)
  show ?case
  proof (cases "n = 0")
    case True
    then show ?thesis using less.prems(1) by (intro exI [of _ s]) (simp add: readi_loop.simps quiet_def)
  next
    case False
    let ?x = "inode_at s ip" and ?m = "min n (BSIZE - i mod BSIZE)"
    let ?k = "file_block (view s) ?x (i div BSIZE)"
    have k: "?k \<noteq> 0" "i div BSIZE < MAXFILE" using less.prems(5,6) False by (auto simp: div_less_iff_less_mult)
    obtain t where t: "bmap ip (i div BSIZE) s = Inr (?k, t)" "quiet q s t" using bmap_mapped [OF less.prems(1-4) k(2,1)] by blast
    note q = quiet_icache [OF t(2)]
    have "?k \<in> data_blocks s" using file_blocksI(1) [OF k(2,1)] less.prems(4) by (auto simp: file_ok_def)
    then have kd: "?k < disksize t" using less.prems(3) q(3) by (auto simp: data_blocks_def fs_disk_def intro: less_le_trans)
    obtain b u v where v: "bread 1 ?k t = Inr (b, u)" "b_data (buf_at u b) = view s ?k" "brelse b u = Inr v" "quiet q t v" "bio_frame t u"
      using read_released [OF q(6) kd] less.prems(2) unfolding q(2,5) by blast
    have sv: "quiet q s v" by (rule quiet_trans [OF t(2) v(4)])
    note w = quiet_icache [OF sv]
    have fs: "fs_disk v" "file_ok v ip"
    proof -
      have "logged [] s v" using sv bio_op_frame [of s v] bio_frame_log(3) [of s v] by (simp add: logged_def quiet_def)
      note l = logged_fs_disk [OF this _ less.prems(3)] logged_data(1) [OF this]
      then show "fs_disk v" "file_ok v ip" using less.prems(4) w by (simp_all add: file_ok_def)
    qed
    have dev: "i_dev (inode_at t ip) = 1" using less.prems(4) q(1) by (simp add: file_ok_def)
    have len: "length (view s ?k) = BSIZE" by (rule view_length [OF less.prems(1)])
    let ?c = "take ?m (drop (i mod BSIZE) (view s ?k))"
    have n: "n - ?m < n" "i + ?m + (n - ?m) = i + n" using False by simp_all
    have "card (dirty_blocks v) < NBUF" using w(5) less.prems(2) by simp
    moreover have "i + ?m + (n - ?m) \<le> MAXFILE * BSIZE" using less.prems(5) unfolding n(2) .
    moreover have "\<forall>j. i + ?m \<le> j \<longrightarrow> j < i + ?m + (n - ?m) \<longrightarrow> file_block (view v) (inode_at v ip) (j div BSIZE) \<noteq> 0"
      using less.prems(6) add_leD1 unfolding n(2) w(1,2) by blast
    ultimately obtain y where y: "readi_loop ip (i + ?m) (n - ?m) (acc @ ?c) v =
        Inr ((acc @ ?c) @ map (file_byte (view s) ?x) [i + ?m..<i + n], y)" "quiet q v y"
      using less.IH [OF n(1) w(6) _ fs, of "i + ?m" "acc @ ?c"] unfolding n(2) w(1,2) by blast
    have "take ?m (drop (i mod BSIZE) (view s ?k)) = map (file_byte (view s) ?x) [i..<i + ?m]"
      unfolding nth_chunk [OF len min.cobounded2] using k(1) div_chunk [of ?m i] by (auto simp: file_byte_def file_data_def)
    then have "acc @ map (file_byte (view s) ?x) [i..<i + n] = (acc @ ?c) @ map (file_byte (view s) ?x) [i + ?m..<i + n]"
      using upt_add_eq_append [of i "i + ?m" "n - ?m"] n(2) by simp
    moreover have "readi_loop ip i n acc s = readi_loop ip (i + ?m) (n - ?m) (acc @ ?c) v"
      using False t(1) v(1,2,3) dev by (subst readi_loop.simps) (simp add: Let_def)
    ultimately show ?thesis using y(1) quiet_trans [OF sv y(2)] by metis
  qed
qed

lemma contents_length [simp]: "length (contents s ip) = unat (i_size (inode_at s ip))"
  by (simp add: contents_def)

lemma contents_part: "i + n \<le> unat (i_size (inode_at s ip)) \<Longrightarrow>
    map (file_byte (view s) (inode_at s ip)) [i..<i + n] = take n (drop i (contents s ip))"
  by (simp add: contents_def drop_map take_map)

lemma u32_wraps:
  fixes a b :: u32
  assumes "2 ^ 32 \<le> unat a + unat b"
  shows "unat (a + b) < unat a"
proof -
  have b: "unat a < 4294967296" "unat b < 4294967296" by (rule unat_u32_less)+
  have "unat (a + b) = (unat a + unat b) mod 4294967296" by (simp add: unat_word_ariths)
  also have "\<dots> = (unat a + unat b - 4294967296) mod 4294967296" using assms by (simp add: le_mod_geq)
  also have "\<dots> = unat a + unat b - 4294967296" using b by (intro mod_less) linarith
  finally show ?thesis using b assms by simp
qed

lemma readi_ok:
  assumes "cache_inv q {} s" and "card (dirty_blocks s) < NBUF" and "fs_disk s" and "file_ok s ip" and "file_mapped s ip"
    and "i_type (inode_at s ip) \<noteq> T_DEV" and "unat off \<le> unat (i_size (inode_at s ip))" and "unat off + unat n < 2 ^ 32"
  shows "\<exists>t. readi ip off n envs s = Inr ((int (length (take (unat n) (drop (unat off) (contents s ip)))), take (unat n) (drop (unat off) (contents s ip))), t) \<and> quiet q s t"
proof -
  let ?z = "i_size (inode_at s ip)"
  have z: "unat ?z \<le> MAXFILE * BSIZE" "\<And>k. k * BSIZE < unat ?z \<Longrightarrow> file_block (view s) (inode_at s ip) k \<noteq> 0" using assms(5) by (auto simp: file_mapped_def)
  have on: "unat (off + n) = unat off + unat n" using assms(8) by (simp add: unat_word_ariths)
  define m where "m = (if off + n > ?z then ?z - off else n)"
  have le: "off \<le> ?z" using assms(7) by (simp add: word_le_nat_alt)
  have m: "unat m = min (unat n) (unat ?z - unat off)"
    using le on by (auto simp: m_def word_less_nat_alt unat_sub)
  have r: "unat off + unat m \<le> unat ?z" using m assms(7) by simp
  have "file_block (view s) (inode_at s ip) (j div BSIZE) \<noteq> 0" if "j < unat off + unat m" for j
    by (rule z(2)) (use that r div_times_less_eq_dividend [of j 512] in linarith)
  then obtain t where t: "readi_loop ip (unat off) (unat m) [] s = Inr (take (unat m) (drop (unat off) (contents s ip)), t)" "quiet q s t"
    using readi_loop_ok [OF assms(1-4), of "unat off" "unat m" "[]"] contents_part [OF r] r z(1) by auto
  have e: "take (unat m) (drop (unat off) (contents s ip)) = take (unat n) (drop (unat off) (contents s ip))"
    by (cases "unat n \<le> unat ?z - unat off") (simp_all add: m min_def)
  have "unat m < 2 ^ 31" using r z(1) by simp
  then have "sint m = int (unat m)" by (rule sint_small)
  then have "sint m = int (length (take (unat n) (drop (unat off) (contents s ip))))" using m by (simp add: min.commute)
  moreover have "\<not> off > ?z" "\<not> off + n < off" using le on by (simp_all add: word_less_nat_alt word_le_nat_alt)
  ultimately have "readi ip off n envs s = Inr ((int (length (take (unat n) (drop (unat off) (contents s ip)))), take (unat n) (drop (unat off) (contents s ip))), t)"
    using assms(6) t(1) unfolding readi_def m_def [symmetric] Let_def e by simp
  then show ?thesis using t(2) by blast
qed

section \<open>Writing\<close>

lemma put_bytes_length: "i + length xs \<le> length d \<Longrightarrow> length (put_bytes i xs d) = length d"
  by (simp add: put_bytes_def)

lemma put_bytes_nth: "i + length xs \<le> length d \<Longrightarrow> j < length d \<Longrightarrow>
    put_bytes i xs d ! j = (if i \<le> j \<and> j < i + length xs then xs ! (j - i) else d ! j)"
  by (auto simp: put_bytes_def nth_append)

text \<open>A write to a data block of the file changes that block of the file and no other.\<close>

lemma file_put:
  assumes "file_shape V x" and "k < MAXFILE" and "file_block V x k = n" and "n \<noteq> 0"
  shows "file_block (V(n := d)) x j = file_block V x j" "file_shape (V(n := d)) x" "file_blocks (V(n := d)) x = file_blocks V x"
    "j < MAXFILE \<Longrightarrow> file_data (V(n := d)) x j = (if j = k then d else file_data V x j)"
proof -
  have "n \<noteq> i_addrs x ! NDIRECT" using file_shapeD(3) [OF assms(1,2)] assms(3,4) by auto
  then have b: "file_block (V(n := d)) x j = file_block V x j" for j by (simp add: file_block_def)
  then show "file_block (V(n := d)) x j = file_block V x j" .
  show "file_shape (V(n := d)) x" using assms(1) unfolding file_shape_def b .
  show "file_blocks (V(n := d)) x = file_blocks V x" unfolding file_blocks_def b by (rule refl)
  show "file_data (V(n := d)) x j = (if j = k then d else file_data V x j)" if "j < MAXFILE"
  proof (cases "j = k")
    case True
    then show ?thesis using assms(3,4) b by (simp add: file_data_def)
  next
    case False
    then have "file_block V x j \<noteq> n \<or> file_block V x j = 0" using file_shapeD(2) [OF assms(1) that assms(2)] assms(3) by metis
    then show ?thesis using False assms(4) b by (auto simp: file_data_def)
  qed
qed

text \<open>One round of the loop of \<open>writei\<close>.\<close>

lemma write_block:
  assumes "file_op q ip s" and "k < MAXFILE" and "lh_n s < 23" and "2 \<le> card (free_blocks s)" and "o' + length xs \<le> BSIZE"
  shows "\<exists>n t b u v w. bmap ip k s = Inr (n, t) \<and> i_dev (inode_at t ip) = 1 \<and> bread 1 n t = Inr (b, u) \<and>
    log_write b (upd_buf b (\<lambda>x. x\<lparr>b_data := put_bytes o' xs (b_data x)\<rparr>) u) = Inr v \<and> brelse b v = Inr w \<and> file_step q ip 6 2 s w \<and>
    i_size (inode_at w ip) = i_size (inode_at s ip) \<and> file_block (view w) (inode_at w ip) k \<noteq> 0 \<and>
    (\<forall>j<MAXFILE. file_data (view w) (inode_at w ip) j = (if j = k then put_bytes o' xs (file_data (view s) (inode_at s ip) k)
       else file_data (view s) (inode_at s ip) j) \<and>
       (file_block (view s) (inode_at s ip) j \<noteq> 0 \<longrightarrow> file_block (view w) (inode_at w ip) j \<noteq> 0))"
proof -
  obtain t where t: "bmap ip k s = Inr (file_block (view t) (inode_at t ip) k, t)" "file_step q ip 5 2 s t" "same_data ip s t"
      "file_block (view t) (inode_at t ip) k \<noteq> 0" using bmap_ok [OF assms(1,2) _ assms(4)] assms(3) by (auto simp: mapping_ok_def)
  let ?x = "inode_at t ip" and ?f = "put_bytes o' xs"
  let ?n = "file_block (view t) ?x k"
  have ot: "file_op q ip t" "in_op q {} t" "file_shape (view t) ?x" "i_dev ?x = 1" "lh_n t + int (card {}) < 29"
    using t(2) assms(3) by (simp_all add: file_step_def file_op_def file_ok_def)
  have nf: "?n \<in> file_blocks (view t) ?x" by (rule file_blocksI(1) [OF assms(2) t(4)])
  have len: "length (view t ?n) = BSIZE" by (rule view_length [OF in_opD(1) [OF ot(2)]])
  have hm: "home_ok t (?n, ?f (view t ?n))" using file_data_blocks(6) [OF ot(1) nf] put_bytes_length len assms(5) by simp
  obtain b u v w where w: "bread 1 ?n t = Inr (b, u)" "log_write b (upd_buf b (\<lambda>x. x\<lparr>b_data := ?f (b_data x)\<rparr>) u) = Inr v" "brelse b v = Inr w"
      "in_op q {} w" "logged [(?n, ?f (view t ?n))] t w"
    using update_ok [where f = ?f, OF ot(2) hm _ ot(5)] by auto
  have vw: "view w = (view t)(?n := ?f (view t ?n))" "inodes w = inodes t" using w(5) logged_icache(1) [OF w(5)] by (simp_all add: logged_def)
  note p = file_put [where d = "?f (view t ?n)", OF ot(3) assms(2) refl t(4), folded vw(1)]
  have st: "file_step q ip 1 0 t w" using logged_step [OF ot(1) w(5,4)] nf p(2,3) by simp
  have sd: "file_data (view t) ?x j = file_data (view s) (inode_at s ip) j"
      "file_block (view s) (inode_at s ip) j \<noteq> 0 \<Longrightarrow> file_block (view t) ?x j \<noteq> 0" if "j < MAXFILE" for j
    using t(3) that by (auto simp: same_data_def)
  have fk: "file_data (view s) (inode_at s ip) k = view t ?n" using sd(1) [OF assms(2)] t(4) by (simp add: file_data_def)
  have fw: "file_step q ip 6 2 s w" using file_step_trans [OF t(2) st] by simp
  have sz: "i_size (inode_at w ip) = i_size (inode_at s ip)" "file_block (view w) (inode_at w ip) k \<noteq> 0"
    using t(3,4) p(1) unfolding vw(2) by (simp_all add: same_data_def)
  have dw: "\<forall>j<MAXFILE. file_data (view w) (inode_at w ip) j = (if j = k then ?f (file_data (view s) (inode_at s ip) k)
       else file_data (view s) (inode_at s ip) j) \<and>
       (file_block (view s) (inode_at s ip) j \<noteq> 0 \<longrightarrow> file_block (view w) (inode_at w ip) j \<noteq> 0)"
    using p(4) sd unfolding vw(2) fk p(1) by simp
  show ?thesis by (intro exI conjI) (rule t(1) ot(4) w(1) w(2) w(3) fw sz dw)+
qed

text \<open>The number of blocks that \<open>n\<close> bytes at offset \<open>i\<close> touch.\<close>

definition span :: "nat \<Rightarrow> nat \<Rightarrow> nat" where
  "span i n = (if n = 0 then 0 else (i mod BSIZE + n + (BSIZE - 1)) div BSIZE)"

text \<open>The bytes \<open>src\<close> have been put into the file at offset \<open>i\<close>.\<close>

definition wrote :: "nat \<Rightarrow> u8 list \<Rightarrow> nat \<Rightarrow> 'z icache_scheme \<Rightarrow> 'z icache_scheme \<Rightarrow> bool" where
  "wrote i src ip s t \<longleftrightarrow> i_size (inode_at t ip) = i_size (inode_at s ip) \<and>
     (\<forall>j<MAXFILE * BSIZE. file_byte (view t) (inode_at t ip) j =
        (if i \<le> j \<and> j < i + length src then src ! (j - i) else file_byte (view s) (inode_at s ip) j)) \<and>
     (\<forall>k<MAXFILE. file_block (view s) (inode_at s ip) k \<noteq> 0 \<longrightarrow> file_block (view t) (inode_at t ip) k \<noteq> 0) \<and>
     (\<forall>j. i \<le> j \<longrightarrow> j < i + length src \<longrightarrow> file_block (view t) (inode_at t ip) (j div BSIZE) \<noteq> 0)"

lemma span_step:
  assumes "0 < n" and "m = min n (BSIZE - i mod BSIZE)"
  shows "span i n = Suc (span (i + m) (n - m))"
proof -
  have r: "i mod 512 < 512" by simp
  show ?thesis
  proof (cases "n \<le> 512 - i mod 512")
    case True
    then have "512 \<le> i mod 512 + n + 511" "i mod 512 + n + 511 < 1024" using assms(1) r by linarith+
    then have "(i mod 512 + n + 511) div 512 = 1" by (intro div_nat_eqI) simp_all
    then show ?thesis using True assms by (simp add: span_def)
  next
    case False
    then have m: "m = 512 - i mod 512" "m < n" using assms(2) by simp_all
    have "(i + m) mod 512 = (i mod 512 + m) mod 512" by (rule mod_add_left_eq [symmetric])
    also have "i mod 512 + m = 512" using m(1) r by linarith
    finally have "(i + m) mod 512 = 0" by simp
    moreover have "i mod 512 + n + 511 = 512 + (n - m + 511)" using m r by linarith
    ultimately show ?thesis using m(2) assms(1) by (simp add: span_def)
  qed
qed

lemma wrote_trans:
  assumes "wrote i xs ip s t" and "wrote (i + length xs) ys ip t u" and "i + length xs + length ys \<le> MAXFILE * BSIZE"
  shows "wrote i (xs @ ys) ip s u"
proof -
  have "file_byte (view u) (inode_at u ip) j = (if i \<le> j \<and> j < i + length (xs @ ys) then (xs @ ys) ! (j - i) else file_byte (view s) (inode_at s ip) j)"
    if "j < MAXFILE * BSIZE" for j
    using assms(1,2) that unfolding wrote_def by (auto simp: nth_append)
  moreover have "file_block (view u) (inode_at u ip) (j div BSIZE) \<noteq> 0" if "i \<le> j" "j < i + length (xs @ ys)" for j
  proof (cases "j < i + length xs")
    case True
    have "j div BSIZE < MAXFILE" using that assms(3) by (auto simp: div_less_iff_less_mult)
    then show ?thesis using True that(1) assms(1,2) by (simp add: wrote_def)
  next
    case False
    then show ?thesis using that(2) assms(2) by (simp add: wrote_def)
  qed
  ultimately show ?thesis using assms(1,2) by (simp add: wrote_def)
qed

lemma file_data_length:
  assumes "in_op q H s"
  shows "length (file_data (view s) x k) = BSIZE"
  using view_length [OF in_opD(1) [OF assms]] by (simp add: file_data_def)

lemma write_chunk:
  assumes "file_op q ip s" and "xs \<noteq> []" and "length xs \<le> BSIZE - i mod BSIZE" and "i div BSIZE < MAXFILE"
    and "\<forall>j<MAXFILE. file_data (view w) (inode_at w ip) j = (if j = i div BSIZE then put_bytes (i mod BSIZE) xs (file_data (view s) (inode_at s ip) (i div BSIZE))
       else file_data (view s) (inode_at s ip) j) \<and>
       (file_block (view s) (inode_at s ip) j \<noteq> 0 \<longrightarrow> file_block (view w) (inode_at w ip) j \<noteq> 0)"
    and "i_size (inode_at w ip) = i_size (inode_at s ip)" and "file_block (view w) (inode_at w ip) (i div BSIZE) \<noteq> 0"
  shows "wrote i xs ip s w"
proof -
  have len: "length (file_data (view s) (inode_at s ip) k) = BSIZE" for k
    using file_data_length [of q "{}" s] assms(1) by (simp add: file_op_def)
  have r: "i mod 512 < 512" by simp
  then have fit: "i mod BSIZE + length xs \<le> BSIZE" using assms(3) by linarith
  have "file_byte (view w) (inode_at w ip) j = (if i \<le> j \<and> j < i + length xs then xs ! (j - i) else file_byte (view s) (inode_at s ip) j)"
    if j: "j < MAXFILE * BSIZE" for j
  proof (cases "j div BSIZE = i div BSIZE")
    case True
    have e: "j = 512 * (i div 512) + j mod 512" "i = 512 * (i div 512) + i mod 512" using True mult_div_mod_eq [of 512 j] mult_div_mod_eq [of 512 i] by simp_all
    have c: "i mod 512 \<le> j mod 512 \<longleftrightarrow> i \<le> j" "j mod 512 < i mod 512 + length xs \<longleftrightarrow> j < i + length xs" "j mod 512 - i mod 512 = j - i"
      using e by linarith+
    have "file_byte (view w) (inode_at w ip) j = put_bytes (i mod BSIZE) xs (file_data (view s) (inode_at s ip) (i div BSIZE)) ! (j mod BSIZE)"
      using assms(4,5) True by (simp add: file_byte_def)
    also have "\<dots> = (if i \<le> j \<and> j < i + length xs then xs ! (j - i) else file_data (view s) (inode_at s ip) (i div BSIZE) ! (j mod BSIZE))"
      using put_bytes_nth [of "i mod BSIZE" xs "file_data (view s) (inode_at s ip) (i div BSIZE)" "j mod BSIZE"] fit len c by simp
    finally show ?thesis using True by (simp add: file_byte_def)
  next
    case False
    then have "\<not> (i \<le> j \<and> j < i + length xs)" using div_chunk [OF assms(3)] by blast
    moreover have "j div BSIZE < MAXFILE" using j by (simp add: div_less_iff_less_mult)
    ultimately show ?thesis using False assms(5) by (auto simp: file_byte_def)
  qed
  moreover have "file_block (view w) (inode_at w ip) (j div BSIZE) \<noteq> 0" if "i \<le> j" "j < i + length xs" for j
    using div_chunk [OF assms(3) that] assms(7) by simp
  ultimately show ?thesis using assms(5,6) unfolding wrote_def by blast
qed

lemma write_round:
  assumes "file_op q ip s" and "xs \<noteq> []" and "length xs \<le> BSIZE - i mod BSIZE" and "i div BSIZE < MAXFILE" and "lh_n s < 23"
    and "2 \<le> card (free_blocks s)"
  shows "\<exists>n t b u v w. bmap ip (i div BSIZE) s = Inr (n, t) \<and> i_dev (inode_at t ip) = 1 \<and> bread 1 n t = Inr (b, u) \<and>
    log_write b (upd_buf b (\<lambda>x. x\<lparr>b_data := put_bytes (i mod BSIZE) xs (b_data x)\<rparr>) u) = Inr v \<and> brelse b v = Inr w \<and>
    file_step q ip 6 2 s w \<and> wrote i xs ip s w"
proof -
  have "i mod 512 < 512" by simp
  then have fit: "i mod BSIZE + length xs \<le> BSIZE" using assms(3) by linarith
  from write_block [OF assms(1,4,5,6) fit] obtain n t b u v w
    where w: "bmap ip (i div BSIZE) s = Inr (n, t)" "i_dev (inode_at t ip) = 1" "bread 1 n t = Inr (b, u)"
      "log_write b (upd_buf b (\<lambda>x. x\<lparr>b_data := put_bytes (i mod BSIZE) xs (b_data x)\<rparr>) u) = Inr v" "brelse b v = Inr w" "file_step q ip 6 2 s w"
    and c: "i_size (inode_at w ip) = i_size (inode_at s ip)" "file_block (view w) (inode_at w ip) (i div BSIZE) \<noteq> 0"
      "\<forall>j<MAXFILE. file_data (view w) (inode_at w ip) j = (if j = i div BSIZE then put_bytes (i mod BSIZE) xs (file_data (view s) (inode_at s ip) (i div BSIZE))
       else file_data (view s) (inode_at s ip) j) \<and>
       (file_block (view s) (inode_at s ip) j \<noteq> 0 \<longrightarrow> file_block (view w) (inode_at w ip) j \<noteq> 0)"
    by (elim exE conjE)
  show ?thesis using w write_chunk [OF assms(1-4) c(3,1,2)] by blast
qed

lemma writei_loop_ok:
  assumes "file_op q ip s" and "i + length src \<le> MAXFILE * BSIZE" and "lh_n s + 6 * int (span i (length src)) \<le> 28"
    and "2 * span i (length src) \<le> card (free_blocks s)"
  shows "\<exists>t. writei_loop ip i src s = Inr t \<and> file_step q ip (6 * span i (length src)) (2 * span i (length src)) s t \<and> wrote i src ip s t"
  using assms
proof (induction "length src" arbitrary: i src s rule: less_induct)
  case less
  show ?case
  proof (cases "src = []")
    case True
    have "file_step q ip 0 0 s s" using read_step(1) [OF less.prems(1) logged_refl] less.prems(1) by (simp add: file_op_def)
    then show ?thesis using True by (intro exI [of _ s]) (auto simp: writei_loop.simps span_def wrote_def)
  next
    case False
    define m where "m = min (length src) (BSIZE - i mod BSIZE)"
    have r: "i mod 512 < 512" by simp
    then have m: "0 < m" "m \<le> length src" "m \<le> BSIZE - i mod BSIZE" using False by (auto simp: m_def)
    let ?xs = "take m src" and ?ys = "drop m src"
    have lx: "length ?xs = m" "?xs \<noteq> []" "length ?ys < length src" "length ?ys = length src - m" using m False by auto
    have sp: "span i (length src) = Suc (span (i + m) (length ?ys))" using span_step [OF _ m_def] False by simp
    have "0 < length src" using False by simp
    then have "i < MAXFILE * BSIZE" using less.prems(2) by linarith
    then have k: "i div BSIZE < MAXFILE" by (simp add: div_less_iff_less_mult)
    have cx: "length ?xs \<le> BSIZE - i mod BSIZE" using lx(1) m(3) by simp
    have lh: "lh_n s < 23" "2 \<le> card (free_blocks s)" using less.prems(3,4) sp by auto
    from write_round [OF less.prems(1) lx(2) cx k lh] obtain n t b u v w
      where w: "bmap ip (i div BSIZE) s = Inr (n, t)" "i_dev (inode_at t ip) = 1" "bread 1 n t = Inr (b, u)"
        "log_write b (upd_buf b (\<lambda>x. x\<lparr>b_data := put_bytes (i mod BSIZE) ?xs (b_data x)\<rparr>) u) = Inr v" "brelse b v = Inr w"
        "file_step q ip 6 2 s w" "wrote i ?xs ip s w"
      by (elim exE conjE)
    have p: "file_op q ip w" "i + m + length ?ys \<le> MAXFILE * BSIZE" "lh_n w + 6 * int (span (i + m) (length ?ys)) \<le> 28"
        "2 * span (i + m) (length ?ys) \<le> card (free_blocks w)"
      using w(6) less.prems(2-4) m(2) sp by (auto simp: file_step_def)
    obtain y where y: "writei_loop ip (i + m) ?ys w = Inr y" "wrote (i + m) ?ys ip w y"
        "file_step q ip (6 * span (i + m) (length ?ys)) (2 * span (i + m) (length ?ys)) w y"
      using less.hyps [OF lx(3) p] by blast
    have "writei_loop ip i src s = Inr y" using False w(1-5) y(1) by (subst writei_loop.simps) (simp add: Let_def flip: m_def)
    moreover have "wrote i src ip s y" using wrote_trans [OF w(7), of ?ys y] y(2) lx(1) p(2) by simp
    moreover have "file_step q ip (6 * span i (length src)) (2 * span i (length src)) s y"
      using file_step_trans [OF w(6) y(3)] unfolding sp by simp
    ultimately show ?thesis by blast
  qed
qed

lemma file_cong:
  assumes "\<forall>m\<in>file_blocks V x. W m = V m"
  shows "file_block W x k = file_block V x k" "file_shape W x = file_shape V x" "file_blocks W x = file_blocks V x"
    "j < MAXFILE \<Longrightarrow> file_data W x j = file_data V x j"
proof -
  have "i_addrs x ! NDIRECT \<noteq> 0 \<Longrightarrow> W (i_addrs x ! NDIRECT) = V (i_addrs x ! NDIRECT)" using assms file_blocksI(2) [of x V] by blast
  then have b: "file_block W x k = file_block V x k" for k by (simp add: file_block_def)
  then show "file_block W x k = file_block V x k" .
  show "file_shape W x = file_shape V x" unfolding file_shape_def b by (rule refl)
  show "file_blocks W x = file_blocks V x" unfolding file_blocks_def b by (rule refl)
  show "j < MAXFILE \<Longrightarrow> file_data W x j = file_data V x j" using assms file_blocksI(1) [of j V x] unfolding file_data_def b by simp
qed

lemma store_dinode_length [simp]: "length (store_dinode x i d) = length d"
proof -
  have l: "length (foldl (\<lambda>d k. put32 (f k) (g k) d) d ks) = length d" for f g ks d by (induction ks arbitrary: d) simp_all
  show ?thesis unfolding store_dinode_def Let_def l by simp
qed

lemma iupdate_ok:
  assumes "file_op q ip s" and "i_inum (inode_at s ip) < sb_ninodes (sb s)" and "lh_n s < 29"
  shows "\<exists>t. iupdate ip s = Inr t \<and> file_step q ip 1 0 s t \<and> same_data ip s t \<and> inodes t = inodes s"
proof -
  let ?x = "inode_at s ip"
  let ?n = "IBLOCK (i_inum ?x) (sb s)" and ?f = "store_dinode ?x (dinode_off (i_inum ?x))"
  have f: "in_op q {} s" "fs_disk s" "file_ok s ip" using assms(1) by (simp_all add: file_op_def)
  have ib: "?n \<in> inode_blocks s" "?n \<in> meta s" using assms(2) by (auto simp: inode_blocks_def meta_def)
  have n: "?n < disksize s" "?n \<notin> log_area s" "?n \<notin> bitmap_blocks s" using f(2) ib by (auto simp: fs_disk_def intro: less_le_trans)
  have hm: "home_ok s (?n, ?f (view s ?n))" using n view_length [OF in_opD(1) [OF f(1)]] by (simp add: home_ok_def)
  have "lh_n s + int (card {}) < 29" using assms(3) by simp
  then obtain b u v t where t: "bread 1 ?n s = Inr (b, u)" "log_write b (upd_buf b (\<lambda>x. x\<lparr>b_data := ?f (b_data x)\<rparr>) u) = Inr v" "brelse b v = Inr t"
      "in_op q {} t" "logged [(?n, ?f (view s ?n))] s t" "logged [] s u"
    using update_ok [where f = ?f, OF f(1) hm] by auto
  have bm: "fst ` set [(?n, ?f (view s ?n))] \<inter> bitmap_blocks s = {}" using n(3) by simp
  note d = logged_data [OF t(5) bm] and it = logged_icache(1) [OF t(5)]
  have vt: "view t m = view s m" if "m \<in> data_blocks s" for m
    using that ib(2) t(5) by (auto simp: logged_def data_blocks_def)
  have fb: "file_blocks (view s) ?x \<subseteq> data_blocks s" using f(3) by (simp add: file_ok_def)
  then have "\<forall>m\<in>file_blocks (view s) ?x. view t m = view s m" using vt by blast
  note c = file_cong [OF this]
  have "file_op q ip t" using t(4) f(3) logged_fs_disk [OF t(5) bm f(2)] c(2,3) d it by (simp add: file_op_def file_ok_def)
  moreover have "fs_step ip s t"
  proof -
    have "op_frame s (t\<lparr>inodes := inodes s\<rparr>)" unfolding logged_inodes [OF t(5)] using t(5) by (simp add: logged_def)
    moreover have "memdisk t = memdisk s" "diskw t = diskw s" using t(5) by (simp_all add: logged_def)
    ultimately show ?thesis using it d vt c(3) by (simp add: fs_step_def)
  qed
  moreover have "iupdate ip s = Inr t"
    using f(3) t(1-3) logged_icache(1) [OF t(6)] by (simp add: iupdate_def file_ok_def Let_def)
  moreover have "same_data ip s t" unfolding same_data_def it using c(1,4) by simp
  ultimately show ?thesis using it d t(5) by (auto simp: file_step_def logged_def)
qed

lemma file_size [simp]: "file_block V (x\<lparr>i_size := z\<rparr>) k = file_block V x k" "file_data V (x\<lparr>i_size := z\<rparr>) k = file_data V x k"
  "file_blocks V (x\<lparr>i_size := z\<rparr>) = file_blocks V x" "file_shape V (x\<lparr>i_size := z\<rparr>) = file_shape V x"
  "file_byte V (x\<lparr>i_size := z\<rparr>) = file_byte V x"
proof -
  show b: "file_block V (x\<lparr>i_size := z\<rparr>) k = file_block V x k" for k by (simp add: file_block_def)
  show d: "file_data V (x\<lparr>i_size := z\<rparr>) k = file_data V x k" for k unfolding file_data_def b by (rule refl)
  show "file_blocks V (x\<lparr>i_size := z\<rparr>) = file_blocks V x" unfolding file_blocks_def b by simp
  show "file_shape V (x\<lparr>i_size := z\<rparr>) = file_shape V x" unfolding file_shape_def b by simp
  show "file_byte V (x\<lparr>i_size := z\<rparr>) = file_byte V x" by (rule ext) (simp add: file_byte_def d)
qed

lemma set_size_step:
  assumes "file_op q ip s" and "t = upd_inode ip (\<lambda>x. x\<lparr>i_size := z\<rparr>) s"
  shows "file_step q ip 0 0 s t" "inode_at t ip = (inode_at s ip)\<lparr>i_size := z\<rparr>" "view t = view s" "sb t = sb s"
proof -
  have ip: "ip < length (inodes s)" using assms(1) by (simp add: file_op_def file_ok_def)
  show at: "inode_at t ip = (inode_at s ip)\<lparr>i_size := z\<rparr>" "view t = view s" "sb t = sb s" using ip assms(2) by (simp_all add: upd_nth_sel)
  have l: "length (inodes t) = length (inodes s)" "\<And>i. i \<noteq> ip \<Longrightarrow> inode_at t i = inode_at s i" using ip assms(2) by (simp_all add: upd_nth_def)
  have b: "data_blocks t = data_blocks s" "free_blocks t = free_blocks s" "memdisk t = memdisk s" "diskw t = diskw s" "lh_n t = lh_n s"
    using assms(2) by simp_all
  have "file_op q ip t" using assms l(1) at b by (simp add: file_op_def file_ok_def)
  moreover have "fs_step ip s t" unfolding fs_step_def at(1,2) b l(1)
    using l(2) assms(2) by (simp add: inode_kept_def)
  ultimately show "file_step q ip 0 0 s t" using b by (simp add: file_step_def)
qed

lemma splice_nth:
  assumes "i \<le> length c" and "j < max (length c) (i + length xs)"
  shows "(take i c @ xs @ drop (i + length xs) c) ! j = (if i \<le> j \<and> j < i + length xs then xs ! (j - i) else c ! j)"
proof (cases "j < i + length xs")
  case True
  then show ?thesis using assms(1) by (auto simp: nth_append)
next
  case False
  then have "j - i - length xs = j - (i + length xs)" "i + length xs \<le> length c" "\<not> j - i < length xs" using assms by auto
  then show ?thesis using False assms(1) by (simp add: nth_append)
qed

lemma contents_wrote:
  assumes "wrote i src ip s t" and "i \<le> unat (i_size (inode_at s ip))" and "i + length src \<le> MAXFILE * BSIZE" and "file_mapped s ip"
    and "unat (i_size (inode_at u ip)) = max (unat (i_size (inode_at s ip))) (i + length src)"
    and "\<forall>k<MAXFILE. file_data (view u) (inode_at u ip) k = file_data (view t) (inode_at t ip) k"
    and "\<forall>k<MAXFILE. file_block (view t) (inode_at t ip) k \<noteq> 0 \<longrightarrow> file_block (view u) (inode_at u ip) k \<noteq> 0"
  shows "contents u ip = take i (contents s ip) @ src @ drop (i + length src) (contents s ip)" "file_mapped u ip"
proof -
  let ?c = "contents s ip"
  have sz: "unat (i_size (inode_at s ip)) \<le> MAXFILE * BSIZE" using assms(4) by (simp add: file_mapped_def)
  then have su: "unat (i_size (inode_at u ip)) \<le> MAXFILE * BSIZE" using assms(3,5) by simp
  have fb: "file_byte (view u) (inode_at u ip) j = file_byte (view t) (inode_at t ip) j" if "j < MAXFILE * BSIZE" for j
  proof -
    have "j div BSIZE < MAXFILE" using that by (simp add: div_less_iff_less_mult)
    then show ?thesis using assms(6) by (simp add: file_byte_def)
  qed
  show "contents u ip = take i ?c @ src @ drop (i + length src) ?c"
  proof (rule nth_equalityI)
    show "length (contents u ip) = length (take i ?c @ src @ drop (i + length src) ?c)" using assms(2,5) by (simp add: max_def)
    fix j assume hj: "j < length (contents u ip)"
    then have j: "j < max (unat (i_size (inode_at s ip))) (i + length src)" using assms(5) by simp
    have j2: "j < MAXFILE * BSIZE" using hj su contents_length [of u ip] by linarith
    have "contents u ip ! j = (if i \<le> j \<and> j < i + length src then src ! (j - i) else file_byte (view s) (inode_at s ip) j)"
      using hj fb [OF j2] assms(1) j2 unfolding wrote_def by (simp add: contents_def)
    moreover have "\<not> (i \<le> j \<and> j < i + length src) \<Longrightarrow> ?c ! j = file_byte (view s) (inode_at s ip) j"
      using j assms(2) by (auto simp: contents_def max_def split: if_splits)
    ultimately show "contents u ip ! j = (take i ?c @ src @ drop (i + length src) ?c) ! j"
      using splice_nth [of i ?c j src] j assms(2) by auto
  qed
  show "file_mapped u ip" unfolding file_mapped_def
  proof (intro conjI allI impI)
    show "unat (i_size (inode_at u ip)) \<le> MAXFILE * BSIZE" by (rule su)
    fix k assume k: "k * BSIZE < unat (i_size (inode_at u ip))"
    then have km: "k < MAXFILE" using su by simp
    have "file_block (view t) (inode_at t ip) k \<noteq> 0"
    proof (cases "k * BSIZE < unat (i_size (inode_at s ip))")
      case True
      then show ?thesis using assms(1,4) km by (simp add: wrote_def file_mapped_def)
    next
      case False
      then have "i \<le> k * BSIZE" "k * BSIZE < i + length src" using assms(2,5) k by auto
      then have "file_block (view t) (inode_at t ip) ((k * BSIZE) div BSIZE) \<noteq> 0" using assms(1) unfolding wrote_def by blast
      then show ?thesis by simp
    qed
    then show "file_block (view u) (inode_at u ip) k \<noteq> 0" using assms(7) km by blast
  qed
qed

lemma inode_kept_fields:
  assumes "inode_kept x y"
  shows "i_type y = i_type x" "i_inum y = i_inum x"
  using arg_cong [OF assms [unfolded inode_kept_def], of i_type] arg_cong [OF assms [unfolded inode_kept_def], of i_inum] by simp_all

lemma file_step_inode:
  assumes "file_step q ip l f s t"
  shows "i_type (inode_at t ip) = i_type (inode_at s ip)" "i_inum (inode_at t ip) = i_inum (inode_at s ip)" "sb t = sb s" "file_op q ip t"
proof -
  have k: "inode_kept (inode_at s ip) (inode_at t ip)" and f: "op_frame s (t\<lparr>inodes := inodes s\<rparr>)"
    using assms by (simp_all add: file_step_def fs_step_def)
  show "i_type (inode_at t ip) = i_type (inode_at s ip)" "i_inum (inode_at t ip) = i_inum (inode_at s ip)"
    by (rule inode_kept_fields [OF k])+
  show "sb t = sb s" by (rule op_frame_sb(1) [OF f])
  show "file_op q ip t" using assms by (simp add: file_step_def)
qed

lemma writei_ok:
  assumes "file_op q ip s" and "file_mapped s ip" and "i_type (inode_at s ip) \<noteq> T_DEV" and "i_inum (inode_at s ip) < sb_ninodes (sb s)"
    and "unat off \<le> unat (i_size (inode_at s ip))" and "unat off + length src \<le> MAXFILE * BSIZE"
    and "lh_n s + 6 * int (span (unat off) (length src)) \<le> 28" and "2 * span (unat off) (length src) \<le> card (free_blocks s)"
  shows "\<exists>t. writei ip src off s = Inr (int (length src), t) \<and> fs_step ip s t \<and> file_op q ip t \<and> file_mapped t ip \<and>
    contents t ip = take (unat off) (contents s ip) @ src @ drop (unat off + length src) (contents s ip)"
proof -
  let ?z = "i_size (inode_at s ip)" and ?n = "of_nat (length src) :: u32"
  have un: "unat ?n = length src" using assms(6) by (simp add: unat_of_nat)
  have on: "unat (off + ?n) = unat off + length src" using assms(6) un by (simp add: unat_word_ariths)
  have sn: "sint ?n = int (length src)" using sint_small [of ?n] un assms(6) by simp
  have g: "\<not> off > ?z" "\<not> off + ?n < off" "\<not> off + ?n > of_nat (MAXFILE * BSIZE)"
    using assms(5,6) on by (simp_all add: word_less_nat_alt)
  obtain t where t: "writei_loop ip (unat off) src s = Inr t" "wrote (unat off) src ip s t"
      "file_step q ip (6 * span (unat off) (length src)) (2 * span (unat off) (length src)) s t"
    using writei_loop_ok [OF assms(1,6,7,8)] by blast
  have st: "i_size (inode_at t ip) = ?z" using t(2) by (simp add: wrote_def)
  note it = file_step_inode [OF t(3)]
  show ?thesis
  proof (cases "?n > 0 \<and> off + ?n > ?z")
    case True
    define u where "u = upd_inode ip (\<lambda>x. x\<lparr>i_size := off + ?n\<rparr>) t"
    note su = set_size_step [OF it(4) u_def]
    have "lh_n u < 29" using t(3) su(1) assms(7) by (simp add: file_step_def)
    then obtain v where v: "iupdate ip u = Inr v" "file_step q ip 1 0 u v" "same_data ip u v"
      using iupdate_ok [OF file_step_inode(4) [OF su(1)]] assms(4) it(2,3) su(2,4) by auto
    have uv: "fs_step ip s v" "file_op q ip v"
      using file_step_trans [OF file_step_trans [OF t(3) su(1)] v(2)] by (simp_all add: file_step_def)
    have fd: "\<forall>k<MAXFILE. file_data (view v) (inode_at v ip) k = file_data (view t) (inode_at t ip) k"
      "\<forall>k<MAXFILE. file_block (view t) (inode_at t ip) k \<noteq> 0 \<longrightarrow> file_block (view v) (inode_at v ip) k \<noteq> 0"
      using v(3) unfolding same_data_def su(2,3) by simp_all
    have "unat (i_size (inode_at v ip)) = max (unat ?z) (unat off + length src)"
      using v(3) su(2) on True unfolding same_data_def by (simp add: word_less_nat_alt)
    note c = contents_wrote [OF t(2) assms(5,6,2) this fd]
    have "writei ip src off s = Inr (int (length src), v)"
      using g assms(3) t(1) True v(1) st sn unfolding writei_def Let_def u_def by simp
    then show ?thesis using uv c by blast
  next
    case False
    have "unat ?z = max (unat ?z) (unat off + length src)"
      using False on un assms(5) by (auto simp: word_less_nat_alt max_def)
    then have "unat (i_size (inode_at t ip)) = max (unat ?z) (unat off + length src)" using st by simp
    note c = contents_wrote [OF t(2) assms(5,6,2) this]
    have "writei ip src off s = Inr (int (length src), t)"
      using g assms(3) t(1) False st sn unfolding writei_def Let_def by auto
    then show ?thesis using t(3) c it(4) by (simp add: file_step_def)
  qed
qed

lemma other_file_kept:
  assumes "fs_step ip s t" and "j \<noteq> ip" and "file_ok s j" and "file_mapped s j"
    and "file_blocks (view s) (inode_at s j) \<inter> file_blocks (view s) (inode_at s ip) = {}"
  shows "contents t j = contents s j" "file_ok t j" "file_mapped t j"
proof -
  have j: "inode_at t j = inode_at s j" "length (inodes t) = length (inodes s)" "data_blocks s \<subseteq> data_blocks t" using assms(1,2) by (simp_all add: fs_step_def)
  have fj: "file_blocks (view s) (inode_at s j) \<subseteq> data_blocks s" using assms(3) by (simp add: file_ok_def)
  have "\<forall>m\<in>file_blocks (view s) (inode_at s j). view t m = view s m"
  proof
    fix m assume "m \<in> file_blocks (view s) (inode_at s j)"
    then have "m \<in> data_blocks s - file_blocks (view s) (inode_at s ip)" using fj assms(5) by blast
    then show "view t m = view s m" using assms(1) unfolding fs_step_def by blast
  qed
  note c = file_cong [OF this]
  show "file_ok t j" using assms(3) j fj c(2,3) by (auto simp: file_ok_def)
  show "file_mapped t j" using assms(4) unfolding file_mapped_def j(1) c(1) .
  have "file_byte (view t) (inode_at s j) i = file_byte (view s) (inode_at s j) i" if "i < unat (i_size (inode_at s j))" for i
  proof -
    have "i < MAXFILE * BSIZE" using that assms(4) unfolding file_mapped_def by linarith
    then have "i div BSIZE < MAXFILE" by (simp add: div_less_iff_less_mult)
    then show ?thesis using c(4) by (simp add: file_byte_def)
  qed
  then show "contents t j = contents s j" by (simp add: contents_def j(1))
qed

section \<open>A file\<close>

definition demo_file :: inode where
  "demo_file = \<lparr>i_dev = 1, i_inum = 2, i_ref = 1, i_valid = True, i_type = 2, i_major = 0, i_minor = 0, i_nlink = 1, i_size = 100,
     i_addrs = 59 # replicate 12 0\<rparr>"

definition demo_files :: pipest where
  "demo_files = upd_inode 0 (\<lambda>_. demo_file) ((demo_fs ())\<lparr>outstanding := 1\<rparr>)"

lemma demo_file_block: "file_block V demo_file k = (if k = 0 then 59 else 0)" if "k < MAXFILE"
  using that by (simp add: file_block_def demo_file_def nth_Cons')

lemma demo_files_ok:
  "in_op 1 {} demo_files" "fs_disk demo_files" "file_ok demo_files 0" "file_mapped demo_files 0" "2 \<le> card (free_blocks demo_files)"
  "inode_at demo_files 0 = demo_file" "sb demo_files = demo_sb" "lh_n demo_files = 0"
proof -
  let ?s = "(demo_fs ())\<lparr>outstanding := 1\<rparr>"
  show "in_op 1 {} demo_files" "fs_disk demo_files" by (simp_all only: demo_files_def upd_inode_op demo_fs_op)
  show at: "inode_at demo_files 0 = demo_file" "sb demo_files = demo_sb" "lh_n demo_files = 0" by (simp_all add: demo_files_def upd_nth_sel)
  have b: "file_block V demo_file k \<noteq> 0 \<longleftrightarrow> k = 0" if "k < MAXFILE" for V k using demo_file_block [OF that] by simp
  have a12: "i_addrs demo_file ! NDIRECT = 0" by (simp add: demo_file_def nth_Cons')
  have "length (i_addrs demo_file) = NDIRECT + 1" by (simp add: demo_file_def)
  then have sh: "file_shape V demo_file" for V unfolding file_shape_def a12 by (simp add: demo_file_block)
  have bl: "file_blocks V demo_file \<subseteq> {59}" for V unfolding file_blocks_def a12 using demo_file_block by auto
  have u: "used demo_files n = used (demo_fs ()) n" for n by (simp only: demo_files_def upd_inode_op demo_fs_op)
  have "meta ?s = meta (demo_fs ())" by (simp add: meta_def bitmap_blocks_def inode_blocks_def)
  then have mt: "meta demo_files = meta (demo_fs ())" by (simp only: demo_files_def upd_inode_op)
  have "n < 59" if "n \<in> meta (demo_fs ())" for n using demo_fs_meta [of n "()"] that by blast
  then have "59 \<notin> meta demo_files" unfolding mt by blast
  then have "59 \<in> data_blocks demo_files" using u demo_fs_used(2) [of 59 "()"] at(2) by (simp add: data_blocks_def demo_sb_def)
  then show "file_ok demo_files 0" using sh bl [of "view demo_files"] at(1) by (auto simp: file_ok_def demo_files_def demo_file_def)
  show "file_mapped demo_files 0" 
  proof -
    have sz: "i_size demo_file = 100" by (simp add: demo_file_def)
    show ?thesis unfolding file_mapped_def at(1) sz
    proof (intro conjI allI impI)
      fix k assume "k * BSIZE < unat (100 :: u32)"
      then have "k = 0" by (cases k) simp_all
      then show "file_block (view demo_files) demo_file k \<noteq> 0" using b [of 0] by simp
    qed simp
  qed
  have "{100, 101} \<subseteq> free_blocks demo_files" using u demo_fs_free [of 100 "()"] demo_fs_free [of 101 "()"] at(2) by (simp add: free_blocks_def demo_sb_def)
  then have "card {100, 101 :: u32} \<le> card (free_blocks demo_files)" by (rule card_mono [OF finite_free])
  then show "2 \<le> card (free_blocks demo_files)" by simp
qed

section \<open>Properties\<close>

text \<open>
  C7: \<open>readi\<close> returns the contents of the file. For a file whose blocks are in order, read by a
  process alone in the file system, the bytes from \<open>off\<close> on are returned, \<open>n\<close> of them or as many
  as there are, with their number, and neither the disk nor what the cache shows of it changes; an
  offset behind the end, or one that overflows with \<open>n\<close>, gives \<open>-1\<close>.
\<close>

theorem readi_returns_contents:
  assumes "cache_inv q {} s" and "card (dirty_blocks s) < NBUF" and "fs_disk s" and "file_ok s ip" and "file_mapped s ip"
    and "i_type (inode_at s ip) \<noteq> T_DEV"
  shows "if unat off \<le> length (contents s ip) \<and> unat off + unat n < 2 ^ 32
    then returnsR (readi ip off n envs s) (\<lambda>((r, bytes), t). bytes = take (unat n) (drop (unat off) (contents s ip)) \<and> r = int (length bytes) \<and>
      cache_inv q {} t \<and> view t = view s \<and> inodes t = inodes s \<and> memdisk t = memdisk s)
    else readi ip off n envs s = Inr ((-1, []), s)"
proof (cases "unat off \<le> length (contents s ip) \<and> unat off + unat n < 2 ^ 32")
  case True
  then obtain t where t: "readi ip off n envs s = Inr ((int (length (take (unat n) (drop (unat off) (contents s ip)))), take (unat n) (drop (unat off) (contents s ip))), t)" "quiet q s t"
    using readi_ok [OF assms, of off n envs] by auto
  note q = quiet_icache [OF t(2)]
  have "memdisk t = memdisk s" using t(2) by (simp add: quiet_def)
  then show ?thesis using True t(1) q by (simp add: returnsR_iff)
next
  case False
  have "off > i_size (inode_at s ip) \<or> off + n < off"
  proof (cases "unat off \<le> length (contents s ip)")
    case True
    then have "2 ^ 32 \<le> unat off + unat n" using False by simp
    then have "unat (off + n) < unat off" by (rule u32_wraps)
    then show ?thesis by (simp add: word_less_nat_alt)
  qed (simp add: word_less_nat_alt)
  then have "readi ip off n envs s = Inr ((-1, []), s)" using assms(6) unfolding readi_def by auto
  then show ?thesis using False by simp
qed

theorem readi_returns_contents_witness:
  "if unat (90 :: u32) \<le> length (contents demo_files 0) \<and> unat (90 :: u32) + unat (20 :: u32) < 2 ^ 32
    then returnsR (readi 0 90 20 [] demo_files) (\<lambda>((r, bytes), t). bytes = take (unat (20 :: u32)) (drop (unat (90 :: u32)) (contents demo_files 0)) \<and>
      r = int (length bytes) \<and> cache_inv 1 {} t \<and> view t = view demo_files \<and> inodes t = inodes demo_files \<and> memdisk t = memdisk demo_files)
    else readi 0 90 20 [] demo_files = Inr ((-1, []), demo_files)"
proof (rule readi_returns_contents [OF _ _ demo_files_ok(2-4)])
  note i = in_opD [OF demo_files_ok(1)]
  show "cache_inv 1 {} demo_files" by (rule i(1))
  show "card (dirty_blocks demo_files) < NBUF" using i(8) demo_files_ok(8) by simp
  show "i_type (inode_at demo_files 0) \<noteq> T_DEV" unfolding demo_files_ok(6) by (simp add: demo_file_def)
qed

text \<open>
  C6: files are lists of bytes. In an operation with room in the log and enough free blocks, \<open>writei\<close>
  replaces the bytes of the file from \<open>off\<close> on by \<open>src\<close>, lengthening it when they go past its end,
  and returns their number; the file stays in order, \<open>readi\<close> gives \<open>src\<close> back, and every other file
  keeps its contents. An offset behind the end, or a file that would become too large, gives \<open>-1\<close> and
  changes nothing.
\<close>

theorem writei_splices:
  assumes "file_op q ip s" and "file_mapped s ip" and "i_type (inode_at s ip) \<noteq> T_DEV" and "i_inum (inode_at s ip) < sb_ninodes (sb s)"
    and "length src < 2 ^ 32" and "lh_n s + 6 * int (span (unat off) (length src)) \<le> 28" and "2 * span (unat off) (length src) \<le> card (free_blocks s)"
  shows "if unat off \<le> length (contents s ip) \<and> unat off + length src \<le> MAXFILE * BSIZE
    then returnsR (writei ip src off s) (\<lambda>(r, t). r = int (length src) \<and> file_op q ip t \<and> file_mapped t ip \<and>
      contents t ip = take (unat off) (contents s ip) @ src @ drop (unat off + length src) (contents s ip) \<and>
      returnsR (readi ip off (of_nat (length src)) [] t) (\<lambda>((r, bytes), u). bytes = src) \<and>
      (\<forall>j. j \<noteq> ip \<longrightarrow> file_ok s j \<longrightarrow> file_mapped s j \<longrightarrow> file_blocks (view s) (inode_at s j) \<inter> file_blocks (view s) (inode_at s ip) = {} \<longrightarrow>
         contents t j = contents s j))
    else writei ip src off s = Inr (-1, s)"
proof (cases "unat off \<le> length (contents s ip) \<and> unat off + length src \<le> MAXFILE * BSIZE")
  case True
  then obtain t where t: "writei ip src off s = Inr (int (length src), t)" "fs_step ip s t" "file_op q ip t" "file_mapped t ip"
      "contents t ip = take (unat off) (contents s ip) @ src @ drop (unat off + length src) (contents s ip)"
    using writei_ok [OF assms(1-4) _ _ assms(6,7)] by auto
  have o: "in_op q {} t" "fs_disk t" "file_ok t ip" using t(3) by (simp_all add: file_op_def)
  have "inode_kept (inode_at s ip) (inode_at t ip)" using t(2) by (simp add: fs_step_def)
  then have ty: "i_type (inode_at t ip) \<noteq> T_DEV" using inode_kept_fields(1) assms(3) by metis
  have "lh_n t < 30" using in_opD(3) [OF o(1)] by (simp add: txn_inv_def)
  then have "card (dirty_blocks t) < NBUF" using in_opD(7,8) [OF o(1)] by simp
  moreover have un: "unat (of_nat (length src) :: u32) = length src" using assms(5) by (simp add: unat_of_nat)
  moreover have "length (contents t ip) = max (length (contents s ip)) (unat off + length src)" unfolding t(5) using True by (simp add: max_def)
  then have "unat off \<le> unat (i_size (inode_at t ip))" unfolding contents_length by linarith
  moreover have "unat off + unat (of_nat (length src) :: u32) < 2 ^ 32" using True unfolding un by simp
  ultimately obtain u where "readi ip off (of_nat (length src)) [] t =
      Inr ((int (length (take (length src) (drop (unat off) (contents t ip)))), take (length src) (drop (unat off) (contents t ip))), u)"
    using readi_ok [OF in_opD(1) [OF o(1)] _ o(2,3) t(4) ty] by metis
  moreover have "take (length src) (drop (unat off) (contents t ip)) = src" using True unfolding t(5) by simp
  ultimately have "returnsR (readi ip off (of_nat (length src)) [] t) (\<lambda>((r, bytes), u). bytes = src)" by (simp add: returnsR_iff)
  then show ?thesis using True t other_file_kept(1) [OF t(2)] by (simp add: returnsR_iff)
next
  case False
  let ?n = "of_nat (length src) :: u32"
  have "off > i_size (inode_at s ip) \<or> off + ?n < off \<or> off + ?n > of_nat (MAXFILE * BSIZE)"
  proof (cases "unat off \<le> length (contents s ip)")
    case True
    then have "MAXFILE * BSIZE < unat off + length src" "unat ?n = length src" using False assms(5) by (simp_all add: unat_of_nat)
    then have "unat (off + ?n) < unat off \<or> unat (off + ?n) > MAXFILE * BSIZE"
      using u32_wraps [of off ?n] unat_u32_add [of off ?n] by (cases "2 ^ 32 \<le> unat off + unat ?n") simp_all
    then show ?thesis by (simp add: word_less_nat_alt)
  qed (simp add: word_less_nat_alt)
  then have "writei ip src off s = Inr (-1, s)" using assms(3) unfolding writei_def Let_def by auto
  then show ?thesis using False by simp
qed

theorem writei_splices_witness:
  "let s = demo_files; src = [1, 2, 3] in
   if unat (99 :: u32) \<le> length (contents s 0) \<and> unat (99 :: u32) + length src \<le> MAXFILE * BSIZE
    then returnsR (writei 0 src 99 s) (\<lambda>(r, t). r = int (length src) \<and> file_op 1 0 t \<and> file_mapped t 0 \<and>
      contents t 0 = take (unat (99 :: u32)) (contents s 0) @ src @ drop (unat (99 :: u32) + length src) (contents s 0) \<and>
      returnsR (readi 0 99 (of_nat (length src)) [] t) (\<lambda>((r, bytes), u). bytes = src) \<and>
      (\<forall>j. j \<noteq> 0 \<longrightarrow> file_ok s j \<longrightarrow> file_mapped s j \<longrightarrow> file_blocks (view s) (inode_at s j) \<inter> file_blocks (view s) (inode_at s 0) = {} \<longrightarrow>
         contents t j = contents s j))
    else writei 0 src 99 s = Inr (-1, s)"
  unfolding Let_def
proof (rule writei_splices)
  have sp: "span (unat (99 :: u32)) (length [1 :: u8, 2, 3]) = 1" by (simp add: span_def)
  show "file_op 1 0 demo_files" using demo_files_ok(1-3) by (simp add: file_op_def)
  show "file_mapped demo_files 0" by (rule demo_files_ok(4))
  show "i_type (inode_at demo_files 0) \<noteq> T_DEV" "i_inum (inode_at demo_files 0) < sb_ninodes (sb demo_files)"
    unfolding demo_files_ok(6,7) by (simp_all add: demo_file_def demo_sb_def)
  show "lh_n demo_files + 6 * int (span (unat (99 :: u32)) (length [1 :: u8, 2, 3])) \<le> 28"
    "2 * span (unat (99 :: u32)) (length [1 :: u8, 2, 3]) \<le> card (free_blocks demo_files)"
    unfolding sp demo_files_ok(8) using demo_files_ok(5) by simp_all
qed simp

end
