(* ===== verification/Umalloc.thy ===== *)
theory Umalloc
  imports Xv6_Prelude
begin

text \<open>
  The memory allocator of the user library (\<open>umalloc.c\<close>): \<open>free\<close>, \<open>morecore\<close> and
  \<open>malloc\<close> on the headers of the blocks. Pointers are numbers below \<open>2 ^ 32\<close> with the
  wrap-around written out, and the system call \<open>sbrk\<close>, which works on a state of its own, is an argument. The
  free list is a circular list of headers; the searches of \<open>free\<close> and \<open>malloc\<close> walk it and
  may not end on other data, so they are partial functions. The lemmas relate the list to the
  set of free bytes: it stays sorted, with a gap between any two blocks; \<open>free\<close> adds the bytes
  of a block, whichever neighbours it is joined with, and \<open>malloc\<close> takes a block out of
  them.
\<close>

section \<open>Definitions\<close>

abbreviation (input) W32 :: nat where "W32 \<equiv> 4294967296"

record header =
  hptr :: nat
  hsize :: nat

text \<open>
  The headers in memory, by address, and \<open>freep\<close>, which is 0 before the first allocation; \<open>'w\<close> is
  what the system call \<open>sbrk\<close> works on.
\<close>

record 'w umem =
  hdr :: "nat \<Rightarrow> header"
  freep :: nat
  brk :: 'w

text \<open>\<open>p + k\<close> for a pointer \<open>p\<close> to headers, which have 8 bytes.\<close>

definition unit_add :: "nat \<Rightarrow> nat \<Rightarrow> nat" where
  "unit_add p k = (p + 8 * k) mod W32"

partial_function (option) free_find :: "nat \<Rightarrow> nat \<Rightarrow> (nat \<Rightarrow> header) \<Rightarrow> nat option" where
  "free_find bp p h =
     (if bp > p \<and> bp < hptr (h p) then Some p
      else if p \<ge> hptr (h p) \<and> (bp > p \<or> bp < hptr (h p)) then Some p
      else free_find bp (hptr (h p)) h)"

definition free_link :: "nat \<Rightarrow> nat \<Rightarrow> (nat \<Rightarrow> header) \<Rightarrow> nat \<Rightarrow> header" where
  "free_link bp p h =
     (let h = (if unit_add bp (hsize (h bp)) = hptr (h p)
               then h(bp := \<lparr>hptr = hptr (h (hptr (h p))), hsize = (hsize (h bp) + hsize (h (hptr (h p)))) mod W32\<rparr>)
               else h(bp := (h bp)\<lparr>hptr := hptr (h p)\<rparr>))
      in if unit_add p (hsize (h p)) = bp
         then h(p := \<lparr>hptr = hptr (h bp), hsize = (hsize (h p) + hsize (h bp)) mod W32\<rparr>)
         else h(p := (h p)\<lparr>hptr := bp\<rparr>))"

definition ufree :: "nat \<Rightarrow> 'w umem \<Rightarrow> 'w umem option" where
  "ufree ap s =
     (let bp = (ap + W32 - 8) mod W32
      in Option.bind (free_find bp (freep s) (hdr s)) (\<lambda>p.
         Some (s\<lparr>hdr := free_link bp p (hdr s), freep := p\<rparr>)))"

definition morecore :: "(nat \<Rightarrow> 'w \<Rightarrow> (nat \<times> 'w) option) \<Rightarrow> nat \<Rightarrow> 'w umem \<Rightarrow> (nat \<times> 'w umem) option" where
  "morecore sbrk nu s =
     (let nu = (if nu < 4096 then 4096 else nu)
      in Option.bind (sbrk (nu * 8 mod W32) (brk s)) (\<lambda>(p, w).
         let s = s\<lparr>brk := w\<rparr>
         in if p = W32 - 1 then Some (0, s)
            else
              let s = s\<lparr>hdr := (hdr s)(p := (hdr s p)\<lparr>hsize := nu\<rparr>)\<rparr>
              in Option.bind (ufree (unit_add p 1) s) (\<lambda>s. Some (freep s, s))))"

text \<open>What \<open>malloc\<close> does with a block \<open>p\<close> that is large enough; \<open>prevp\<close> is the one before it.\<close>

definition malloc_take :: "nat \<Rightarrow> nat \<Rightarrow> nat \<Rightarrow> 'w umem \<Rightarrow> nat \<times> 'w umem" where
  "malloc_take nunits prevp p s =
     (let h = hdr s
      in if hsize (h p) = nunits
         then (unit_add p 1, s\<lparr>hdr := h(prevp := (h prevp)\<lparr>hptr := hptr (h p)\<rparr>), freep := prevp\<rparr>)
         else
           let h = h(p := (h p)\<lparr>hsize := hsize (h p) - nunits\<rparr>);
               q = unit_add p (hsize (h p));
               h = h(q := (h q)\<lparr>hsize := nunits\<rparr>)
           in (unit_add q 1, s\<lparr>hdr := h, freep := prevp\<rparr>))"

partial_function (option) malloc_loop :: "(nat \<Rightarrow> 'w \<Rightarrow> (nat \<times> 'w) option) \<Rightarrow> nat \<Rightarrow> nat \<Rightarrow> nat \<Rightarrow> 'w umem \<Rightarrow> (nat \<times> 'w umem) option" where
  "malloc_loop sbrk nunits prevp p s =
     (if hsize (hdr s p) \<ge> nunits then Some (malloc_take nunits prevp p s)
      else if p = freep s then
        Option.bind (morecore sbrk nunits s) (\<lambda>(p, s).
        if p = 0 then Some (0, s) else malloc_loop sbrk nunits p (hptr (hdr s p)) s)
      else malloc_loop sbrk nunits p (hptr (hdr s p)) s)"

definition malloc_units :: "nat \<Rightarrow> nat" where
  "malloc_units nbytes = (nbytes + 8 - 1) mod W32 div 8 + 1"

definition malloc_start :: "nat \<Rightarrow> 'w umem \<Rightarrow> 'w umem" where
  "malloc_start base s = (if freep s = 0 then s\<lparr>hdr := (hdr s)(base := \<lparr>hptr = base, hsize = 0\<rparr>), freep := base\<rparr> else s)"

definition malloc :: "(nat \<Rightarrow> 'w \<Rightarrow> (nat \<times> 'w) option) \<Rightarrow> nat \<Rightarrow> nat \<Rightarrow> 'w umem \<Rightarrow> (nat \<times> 'w umem) option" where
  "malloc sbrk base nbytes s =
     (let s = malloc_start base s
      in malloc_loop sbrk (malloc_units nbytes) (freep s) (hptr (hdr s (freep s))) s)"

section \<open>The free list\<close>

text \<open>The blocks of \<open>xs\<close> are linked one after the other, from \<open>p\<close> to \<open>q\<close>.\<close>

fun links :: "(nat \<Rightarrow> header) \<Rightarrow> nat \<Rightarrow> nat list \<Rightarrow> nat \<Rightarrow> bool" where
  "links h p [] q \<longleftrightarrow> hptr (h p) = q"
| "links h p (x # xs) q \<longleftrightarrow> hptr (h p) = x \<and> links h x xs q"

text \<open>The blocks of \<open>xs\<close> lie one behind the other between \<open>lo\<close> and \<open>hi\<close>, with gaps between them.\<close>

fun chain :: "(nat \<Rightarrow> header) \<Rightarrow> nat \<Rightarrow> nat list \<Rightarrow> nat \<Rightarrow> bool" where
  "chain h lo [] hi \<longleftrightarrow> lo \<le> hi"
| "chain h lo (x # xs) hi \<longleftrightarrow> lo < x \<and> 0 < hsize (h x) \<and> chain h (x + 8 * hsize (h x)) xs hi"

definition block :: "(nat \<Rightarrow> header) \<Rightarrow> nat \<Rightarrow> nat set" where
  "block h x = {x..<x + 8 * hsize (h x)}"

definition free_bytes :: "(nat \<Rightarrow> header) \<Rightarrow> nat list \<Rightarrow> nat set" where
  "free_bytes h xs = (\<Union>x\<in>set xs. block h x)"

text \<open>
  The heap between \<open>base\<close> and \<open>hi\<close>: the free blocks \<open>xs\<close> form a circular list that starts at
  \<open>base\<close> and is sorted by address; \<open>freep\<close> is one of them. The 8 bytes of \<open>base\<close> are not in a
  block.
\<close>

definition heap_ok :: "nat \<Rightarrow> nat \<Rightarrow> nat list \<Rightarrow> 'w umem \<Rightarrow> bool" where
  "heap_ok base hi xs s \<longleftrightarrow> 0 < base \<and> base + 8 \<le> hi \<and> hi < 2 ^ 31 \<and> hsize (hdr s base) = 0 \<and> links (hdr s) base xs base \<and>
     chain (hdr s) (base + 7) xs hi \<and> freep s \<in> set (base # xs)"

text \<open>The headers that differ are \<open>base\<close> and headers inside \<open>A\<close>.\<close>

definition writes_in :: "nat set \<Rightarrow> nat \<Rightarrow> 'w umem \<Rightarrow> 'w umem \<Rightarrow> bool" where
  "writes_in A base s t \<longleftrightarrow> (\<forall>x. hdr t x \<noteq> hdr s x \<longrightarrow> x = base \<or> {x..<x + 8} \<subseteq> A)"

lemma links_append: "links h p (xs @ y # ys) q \<longleftrightarrow> links h p xs y \<and> links h y ys q"
  by (induction xs arbitrary: p) auto

lemma links_cong: "links h p xs q \<Longrightarrow> (\<And>x. x \<in> set (p # xs) \<Longrightarrow> hptr (g x) = hptr (h x)) \<Longrightarrow> links g p xs q"
  by (induction xs arbitrary: p) auto

lemma chain_mono: "chain h lo xs hi \<Longrightarrow> lo \<le> hi"
proof (induction xs arbitrary: lo)
  case (Cons x xs)
  then have "x + 8 * hsize (h x) \<le> hi" by simp
  then show ?case using Cons.prems by simp
qed simp

lemma chain_weaken: "chain h lo xs hi \<Longrightarrow> lo' \<le> lo \<Longrightarrow> hi \<le> hi' \<Longrightarrow> chain h lo' xs hi'"
  by (induction xs arbitrary: lo lo') auto

lemma chain_cong: "chain h lo xs hi \<Longrightarrow> (\<And>x. x \<in> set xs \<Longrightarrow> hsize (g x) = hsize (h x)) \<Longrightarrow> chain g lo xs hi"
  by (induction xs arbitrary: lo) auto

text \<open>Where the last block of a chain ends.\<close>

fun chain_end :: "(nat \<Rightarrow> header) \<Rightarrow> nat \<Rightarrow> nat list \<Rightarrow> nat" where
  "chain_end h lo [] = lo"
| "chain_end h lo (x # xs) = chain_end h (x + 8 * hsize (h x)) xs"

lemma chain_append: "chain h lo (xs @ ys) hi \<longleftrightarrow> chain h lo xs (chain_end h lo xs) \<and> chain h (chain_end h lo xs) ys hi"
  by (induction xs arbitrary: lo) (auto dest: chain_mono)

lemma chain_bounds: "chain h lo xs hi \<Longrightarrow> x \<in> set xs \<Longrightarrow> lo < x \<and> 0 < hsize (h x) \<and> x + 8 * hsize (h x) \<le> hi"
  by (induction xs arbitrary: lo) (fastforce dest: chain_mono)+

lemma chain_sorted: "chain h lo xs hi \<Longrightarrow> sorted_wrt (\<lambda>x y. x + 8 * hsize (h x) < y) xs"
  by (induction xs arbitrary: lo) (auto dest: chain_bounds)

lemma chain_distinct: "chain h lo xs hi \<Longrightarrow> distinct xs"
  by (induction xs arbitrary: lo) (auto dest: chain_bounds)

lemma chain_end_last: "chain_end h lo xs = (if xs = [] then lo else last xs + 8 * hsize (h (last xs)))"
  by (induction xs arbitrary: lo) auto

lemma chain_end_cong: "(\<And>x. x \<in> set xs \<Longrightarrow> hsize (g x) = hsize (h x)) \<Longrightarrow> chain_end g lo xs = chain_end h lo xs"
  by (induction xs arbitrary: lo) auto

lemma free_bytes_simps [simp]: "free_bytes h [] = {}" "free_bytes h (x # xs) = block h x \<union> free_bytes h xs"
  "free_bytes h (xs @ ys) = free_bytes h xs \<union> free_bytes h ys"
  by (auto simp: free_bytes_def)

lemma free_bytes_cong: "(\<And>x. x \<in> set xs \<Longrightarrow> hsize (g x) = hsize (h x)) \<Longrightarrow> free_bytes g xs = free_bytes h xs"
  by (auto simp: free_bytes_def block_def)

lemma malloc_units_wraps: "malloc_units 0xFFFFFFFF = 1"
  by (simp add: malloc_units_def)

lemma unit_add_small: "p + 8 * k < 2 ^ 31 \<Longrightarrow> unit_add p k = p + 8 * k"
  by (simp add: unit_add_def)

text \<open>A block that is apart from all free blocks cuts the list in two.\<close>

lemma chain_cut:
  assumes "chain h lo xs hi" and "lo \<le> bp" and "0 < n" and "free_bytes h xs \<inter> {bp..<bp + 8 * n} = {}"
  shows "\<exists>ls rs. xs = ls @ rs \<and> chain h lo ls bp \<and> chain h (bp + 8 * n - 1) rs (max hi (bp + 8 * n))"
  using assms
proof (induction xs arbitrary: lo)
  case Nil
  then show ?case by (intro exI [of _ "[]"]) auto
next
  case (Cons x xs)
  let ?e = "x + 8 * hsize (h x)"
  have x: "lo < x" "0 < hsize (h x)" "chain h ?e xs hi" using Cons.prems(1) by simp_all
  have y: "{x..<?e} \<inter> {bp..<bp + 8 * n} = {}" "free_bytes h xs \<inter> {bp..<bp + 8 * n} = {}"
    using Cons.prems(4) unfolding free_bytes_simps block_def by blast+
  show ?case
  proof (cases "bp \<le> x")
    case True
    have "bp + 8 * n \<le> x"
    proof (rule ccontr)
      assume "\<not> bp + 8 * n \<le> x"
      then have "x \<in> {x..<?e} \<inter> {bp..<bp + 8 * n}" using True x(2) by simp
      then show False using y(1) by blast
    qed
    then have "chain h (bp + 8 * n - 1) (x # xs) (max hi (bp + 8 * n))" using x(2,3) Cons.prems(3) by (auto intro: chain_weaken)
    then show ?thesis using Cons.prems(2) by (intro exI [of _ "[]"] exI [of _ "x # xs"]) simp
  next
    case False
    have e: "?e \<le> bp"
    proof (rule ccontr)
      assume "\<not> ?e \<le> bp"
      then have "bp \<in> {x..<?e} \<inter> {bp..<bp + 8 * n}" using False Cons.prems(3) by simp
      then show False using y(1) by blast
    qed
    obtain ls rs where "xs = ls @ rs" "chain h ?e ls bp" "chain h (bp + 8 * n - 1) rs (max hi (bp + 8 * n))"
      using Cons.IH [OF x(3) e Cons.prems(3) y(2)] by blast
    then show ?thesis using x(1,2) by (intro exI [of _ "x # ls"] exI [of _ rs]) simp
  qed
qed

section \<open>Giving a block back\<close>

definition stops :: "nat \<Rightarrow> (nat \<Rightarrow> header) \<Rightarrow> nat \<Rightarrow> bool" where
  "stops bp h p \<longleftrightarrow> p < bp \<and> bp < hptr (h p) \<or> hptr (h p) \<le> p \<and> (p < bp \<or> bp < hptr (h p))"

lemma free_find_stop: "stops bp h p \<Longrightarrow> free_find bp p h = Some p"
  by (subst free_find.simps) (auto simp: stops_def)

lemma free_find_skip: "links h x ys p \<Longrightarrow> (\<And>y. y \<in> set (x # ys) \<Longrightarrow> \<not> stops bp h y) \<Longrightarrow> free_find bp x h = free_find bp p h"
proof (induction ys arbitrary: x)
  case Nil
  have "\<not> stops bp h x" "hptr (h x) = p" using Nil.prems(1) Nil.prems(2) [of x] by simp_all
  then show ?case by (subst free_find.simps) (auto simp: stops_def)
next
  case (Cons y ys)
  have "free_find bp y h = free_find bp p h" using Cons.IH [of y] Cons.prems by simp
  moreover have "\<not> stops bp h x" "hptr (h x) = y" using Cons.prems(1) Cons.prems(2) [of x] by simp_all
  ultimately show ?case by (subst free_find.simps) (auto simp: stops_def)
qed

text \<open>The successor of each block of a circular list.\<close>

lemma links_nth: "links h p (xs @ y # ys) q \<Longrightarrow> hptr (h y) = hd (ys @ [q])"
  by (cases ys) (auto simp: links_append)

lemma links_first: "links h p xs q \<Longrightarrow> hptr (h p) = hd (xs @ [q])"
  by (cases xs) auto

lemma links_last: "links h p xs q \<Longrightarrow> hptr (h (last (p # xs))) = q"
  by (induction xs arbitrary: p) auto

text \<open>The search stops only at the block in front of which the new one belongs.\<close>

lemma stops_iff:
  assumes "links h b (ls @ rs) b" and "chain h b ls bp" and "chain h bp rs hi" and "b < bp" and "x \<in> set (b # ls @ rs)"
  shows "stops bp h x \<longleftrightarrow> x = last (b # ls)"
proof -
  have l: "b < y \<and> y < bp" if "y \<in> set ls" for y using chain_bounds [OF assms(2) that] by auto
  have r: "bp < y" if "y \<in> set rs" for y using chain_bounds [OF assms(3) that] by auto
  have lt: "x < hd vs" if "sorted_wrt (\<lambda>x y. x + 8 * hsize (h x) < y) (us @ x # vs)" "vs \<noteq> []" for us vs
    using that by (cases vs) (auto simp: sorted_wrt_append)
  consider (right) "x \<in> set rs" | (pred) "x = last (b # ls)" | (first) "x = b" "ls \<noteq> []" | (left) "x \<in> set ls" "x \<noteq> last ls"
    using assms(5) by (cases "ls = []") auto
  then show ?thesis
  proof cases
    case right
    then obtain us vs where v: "rs = us @ x # vs" using split_list by metis
    have "hptr (h x) = hd (vs @ [b])" using links_nth [of h b "ls @ us" x vs b] assms(1) v by simp
    then have "hptr (h x) = b \<or> x < hptr (h x)" using lt [of us vs] chain_sorted [OF assms(3)] v by (cases vs) auto
    moreover have "x \<noteq> last (b # ls)" using r [OF right] l [of "last ls"] assms(4) by (auto split: if_splits)
    ultimately show ?thesis using r [OF right] assms(4) by (auto simp: stops_def)
  next
    case pred
    have "hptr (h x) = hd (rs @ [b])"
    proof (cases ls rule: rev_cases)
      case Nil
      then show ?thesis using pred links_first [OF assms(1)] by simp
    next
      case (snoc us y)
      then show ?thesis using pred links_nth [of h b us y rs b] assms(1) by simp
    qed
    moreover have "b \<le> x" "x < bp" using pred l [of "last ls"] assms(4) by (auto split: if_splits)
    ultimately show ?thesis using pred r [of "hd rs"] by (cases rs) (auto simp: stops_def)
  next
    case first
    then have "hptr (h x) = hd ls" using links_first [OF assms(1)] by (cases ls) auto
    moreover have "x \<noteq> last (b # ls)" using first l [of "last ls"] by auto
    ultimately show ?thesis using first l [of "hd ls"] by (auto simp: stops_def)
  next
    case left
    then obtain us vs where v: "ls = us @ x # vs" "vs \<noteq> []" using split_list by (metis append_is_Nil_conv last_snoc)
    have "hptr (h x) = hd (vs @ rs @ [b])" using links_nth [of h b us x "vs @ rs" b] assms(1) v by simp
    then have "hptr (h x) = hd vs" using v(2) by simp
    moreover have "x < hd vs" using lt [of us vs] chain_sorted [OF assms(2)] v by simp
    moreover have "hd vs < bp" using l [of "hd vs"] v by simp
    moreover have "x \<noteq> last (b # ls)" using left v by auto
    ultimately show ?thesis by (auto simp: stops_def)
  qed
qed

lemma free_find_pred:
  assumes "links h b (ls @ rs) b" and "chain h b ls bp" and "chain h bp rs hi" and "b < bp" and "f \<in> set (b # ls @ rs)"
  shows "free_find bp f h = Some (last (b # ls))"
proof -
  let ?p = "last (b # ls)"
  have st: "stops bp h x \<longleftrightarrow> x = ?p" if "x \<in> set (b # ls @ rs)" for x by (rule stops_iff [OF assms(1-4) that])
  have pin: "?p \<in> set (b # ls @ rs)" by auto
  have d: "distinct (b # ls @ rs)"
    using chain_distinct [OF assms(2)] chain_distinct [OF assms(3)] chain_bounds [OF assms(2)] chain_bounds [OF assms(3)] assms(4) by fastforce
  have self: "free_find bp ?p h = Some ?p" using st [OF pin] free_find_stop by simp
  have left: "free_find bp x h = Some ?p" if "b # ls = us @ x # vs" for us x vs
  proof (cases vs rule: rev_cases)
    case Nil
    then have "?p = x" using that by simp
    then show ?thesis using self by simp
  next
    case (snoc ws y)
    then have y: "?p = y" "b # ls @ rs = us @ x # ws @ y # rs" using that by (simp, metis append_Cons append_assoc append_Nil)
    have "links h x ws y"
    proof (cases us)
      case Nil
      then show ?thesis using y(2) assms(1) by (auto simp: links_append)
    next
      case (Cons a as)
      then show ?thesis using y(2) assms(1) by (auto simp: links_append)
    qed
    moreover have "set (x # ws) \<subseteq> set (b # ls @ rs)" "y \<notin> set (x # ws)" using d unfolding y(2) by auto
    ultimately have "free_find bp x h = free_find bp y h" using st y(1) by (intro free_find_skip) auto
    then show ?thesis using self y(1) by simp
  qed
  show ?thesis
  proof (cases "f \<in> set rs")
    case True
    then obtain us vs where v: "rs = us @ f # vs" using split_list by metis
    have lv: "links h f vs b" using assms(1) links_append [of h b "ls @ us" f vs b] v by simp
    moreover have "?p \<in> set (b # ls)" by (rule last_in_set) simp
    then have "?p \<notin> set rs" using d by (auto simp del: last.simps)
    then have "set (f # vs) \<subseteq> set (b # ls @ rs)" "?p \<notin> set (f # vs)" using v by (auto simp del: last.simps)
    ultimately have "free_find bp f h = free_find bp b h" using st by (intro free_find_skip) auto
    then show ?thesis using left [of "[]" b ls] by simp
  next
    case False
    then have "f \<in> set (b # ls)" using assms(5) by auto
    then obtain us vs where "b # ls = us @ f # vs" using split_list by metis
    then show ?thesis by (rule left)
  qed
qed

text \<open>
  Linking the block \<open>bp\<close> into the list behind \<open>p\<close>, joining it with its neighbours where they touch.
\<close>

lemma links_snoc: "links h p (xs @ [y]) q \<longleftrightarrow> links h p xs y \<and> hptr (h y) = q"
  by (induction xs arbitrary: p) auto

lemma links_pred: "links h b (ls @ rs) b \<longleftrightarrow> links h b ls (hd (rs @ [b])) \<and> (rs \<noteq> [] \<longrightarrow> links h (hd rs) (tl rs) b)"
  by (cases rs) (auto simp: links_append)

lemma links_redirect:
  assumes "links h b ls y" and "p = last (b # ls)" and "distinct (b # ls)" and "\<And>x. x \<in> set (b # ls) - {p} \<Longrightarrow> hptr (g x) = hptr (h x)" and "hptr (g p) = z"
  shows "links g b ls z"
  using assms
proof (induction ls arbitrary: b)
  case (Cons a ls)
  have "p \<noteq> b" using Cons.prems(2,3) by (auto split: if_splits)
  moreover have "links g a ls z" using Cons.IH [of a] Cons.prems by auto
  ultimately show ?case using Cons.prems(1) Cons.prems(4) [of b] by simp
qed auto

text \<open>Joining \<open>bp\<close> with the block behind it.\<close>

lemma join_next:
  assumes "links h p rs b" and "chain h (bp + 8 * n - 1) rs hi" and "b < bp" and "hsize (h bp) = n" and "0 < n" and "bp + 8 * n \<le> hi" and "hi < 2 ^ 31"
  shows "\<exists>ts m. (if unit_add bp (hsize (h bp)) = hptr (h p)
      then h(bp := \<lparr>hptr = hptr (h (hptr (h p))), hsize = (hsize (h bp) + hsize (h (hptr (h p)))) mod W32\<rparr>)
      else h(bp := (h bp)\<lparr>hptr := hptr (h p)\<rparr>)) = h(bp := \<lparr>hptr = hd (ts @ [b]), hsize = m\<rparr>) \<and>
    n \<le> m \<and> chain h (bp + 8 * m) ts hi \<and> (ts \<noteq> [] \<longrightarrow> links h (hd ts) (tl ts) b) \<and> set ts \<subseteq> set rs \<and>
    free_bytes h rs \<union> {bp..<bp + 8 * n} = free_bytes h ts \<union> {bp..<bp + 8 * m}"
proof -
  have ua: "unit_add bp (hsize (h bp)) = bp + 8 * n" using assms(4,6,7) by (simp add: unit_add_small)
  show ?thesis
  proof (cases rs)
    case Nil
    then have "hptr (h p) = b" using assms(1) by simp
    moreover have "(h bp)\<lparr>hptr := b\<rparr> = \<lparr>hptr = b, hsize = n\<rparr>" using assms(4) by (cases "h bp") simp
    ultimately show ?thesis using Nil ua assms(3,4,6) by (intro exI [of _ "[]"] exI [of _ n]) auto
  next
    case (Cons y ys)
    have y: "hptr (h p) = y" "links h y ys b" "bp + 8 * n \<le> y" "0 < hsize (h y)" "chain h (y + 8 * hsize (h y)) ys hi"
      using assms(1,2,5) Cons by auto
    have yn: "hptr (h y) = hd (ys @ [b])" by (rule links_first [OF y(2)])
    show ?thesis
    proof (cases "bp + 8 * n = y")
      case True
      let ?m = "n + hsize (h y)"
      have e: "y + 8 * hsize (h y) = bp + 8 * ?m" using True by simp
      then have "?m < W32" using chain_mono [OF y(5)] assms(7) by simp
      moreover have "ys \<noteq> [] \<longrightarrow> links h (hd ys) (tl ys) b" using y(2) by (cases ys) auto
      moreover have "block h y \<union> {bp..<bp + 8 * n} = {bp..<bp + 8 * ?m}" using True by (auto simp: block_def)
      then have "free_bytes h rs \<union> {bp..<bp + 8 * n} = free_bytes h ys \<union> {bp..<bp + 8 * ?m}" unfolding Cons free_bytes_simps by blast
      ultimately show ?thesis using y(1,5) yn ua True Cons assms(4) e by (intro exI [of _ ys] exI [of _ ?m]) auto
    next
      case False
      then show ?thesis using y Cons ua assms(4,5) by (intro exI [of _ rs] exI [of _ n]) auto
    qed
  qed
qed

lemma chain_strict: "chain h lo ls e \<Longrightarrow> chain_end h lo ls \<noteq> e \<Longrightarrow> chain h lo ls (e - 1)"
  by (induction ls arbitrary: lo) auto

lemma chain_insert:
  "chain h lo ls e \<Longrightarrow> e < x \<Longrightarrow> 0 < hsize (h x) \<Longrightarrow> chain h (x + 8 * hsize (h x)) ts hi \<Longrightarrow> chain h lo (ls @ x # ts) hi"
  by (induction ls arbitrary: lo) auto

text \<open>The two ways to link \<open>bp\<close> behind \<open>p\<close>: as a block of its own, or as the end of \<open>p\<close>.\<close>

lemma link_apart:
  assumes "links h b ls y" and "chain h lo ls bp" and "chain_end h lo ls \<noteq> bp" and "b \<le> lo" and "lo < bp" and "p = last (b # ls)" and "0 < m"
    and "chain h (bp + 8 * m) ts hi" and "ts \<noteq> [] \<longrightarrow> links h (hd ts) (tl ts) b"
    and "g = h(bp := \<lparr>hptr = hd (ts @ [b]), hsize = m\<rparr>, p := (h p)\<lparr>hptr := bp\<rparr>)"
  shows "links g b (ls @ bp # ts) b \<and> chain g lo (ls @ bp # ts) hi \<and> free_bytes g (ls @ bp # ts) = free_bytes h ls \<union> free_bytes h ts \<union> {bp..<bp + 8 * m}"
proof -
  have d: "distinct (b # ls)" "\<And>x. x \<in> set ls \<Longrightarrow> x < bp \<and> b < x" "\<And>x. x \<in> set ts \<Longrightarrow> bp < x"
    using chain_distinct [OF assms(2)] chain_bounds [OF assms(2)] chain_bounds [OF assms(8)] assms(4) by fastforce+
  have "p \<in> set (b # ls)" unfolding assms(6) by (rule last_in_set) simp
  then have pbp: "p < bp" using d(2) assms(4,5) by auto
  have gp: "hptr (g p) = bp" "\<And>x. hsize (g x) = (if x = bp then m else hsize (h x))" "hptr (g bp) = hd (ts @ [b])"
    "\<And>x. x \<noteq> p \<Longrightarrow> x \<noteq> bp \<Longrightarrow> hptr (g x) = hptr (h x)" using assms(10) pbp by auto
  have "links g b ls bp" by (rule links_redirect [OF assms(1,6) d(1)]) (use gp d(2) assms(4,5) in auto)
  moreover have "ts \<noteq> [] \<longrightarrow> links g (hd ts) (tl ts) b"
  proof
    assume "ts \<noteq> []"
    moreover have "hptr (g x) = hptr (h x)" if "x \<in> set ts" for x using d(3) [OF that] pbp by (intro gp(4)) auto
    ultimately show "links g (hd ts) (tl ts) b" using assms(9) by (cases ts) (auto intro: links_cong)
  qed
  ultimately have "links g b (ls @ bp # ts) b" using gp(3) by (cases ts) (auto simp: links_append)
  moreover have "chain g lo (ls @ bp # ts) hi"
  proof (rule chain_insert)
    show "chain g lo ls (bp - 1)" using chain_strict [OF assms(2,3)] by (rule chain_cong) (use gp(2) d(2) in auto)
    have "chain g (bp + 8 * m) ts hi" using assms(8) by (rule chain_cong) (use gp(2) d(3) in force)
    then show "chain g (bp + 8 * hsize (g bp)) ts hi" by (simp add: gp(2))
  qed (use gp(2) assms(5,7) in auto)
  moreover have "free_bytes g ls = free_bytes h ls" "free_bytes g ts = free_bytes h ts"
    by (rule free_bytes_cong, use gp(2) d in fastforce)+
  ultimately show ?thesis using gp(2) by (auto simp: block_def)
qed

lemma link_joined:
  assumes "links h b (us @ [p]) y" and "chain h lo (us @ [p]) bp" and "p + 8 * hsize (h p) = bp" and "b \<le> lo"
    and "chain h (bp + 8 * m) ts hi" and "hi < 2 ^ 31" and "ts \<noteq> [] \<longrightarrow> links h (hd ts) (tl ts) b"
    and "g = h(bp := v, p := \<lparr>hptr = hd (ts @ [b]), hsize = (hsize (h p) + m) mod W32\<rparr>)"
  shows "links g b (us @ p # ts) b \<and> chain g lo (us @ p # ts) hi \<and> free_bytes g (us @ p # ts) = free_bytes h (us @ [p]) \<union> free_bytes h ts \<union> {bp..<bp + 8 * m}"
proof -
  have d: "distinct (b # us @ [p])" "\<And>x. x \<in> set (us @ [p]) \<Longrightarrow> x < bp \<and> b < x \<and> 0 < hsize (h x)" "\<And>x. x \<in> set ts \<Longrightarrow> bp < x"
    using chain_distinct [OF assms(2)] chain_bounds [OF assms(2)] chain_bounds [OF assms(5)] assms(4) by fastforce+
  have "hsize (h p) + m < W32" using assms(3,6) chain_mono [OF assms(5)] by simp
  then have gp: "g p = \<lparr>hptr = hd (ts @ [b]), hsize = hsize (h p) + m\<rparr>" "\<And>x. x \<noteq> p \<Longrightarrow> x \<noteq> bp \<Longrightarrow> g x = h x" using assms(8) by auto
  have same: "g x = h x" if "x \<in> set (b # us) \<union> set ts" for x using that d d(2) [of p] by (intro gp(2)) fastforce+
  have "links g b us p" by (rule links_cong [of h]) (use assms(1) same in \<open>auto simp: links_snoc\<close>)
  moreover have "ts \<noteq> [] \<longrightarrow> links g (hd ts) (tl ts) b"
  proof
    assume "ts \<noteq> []"
    then have "links h (hd ts) (tl ts) b" "set (hd ts # tl ts) = set ts" using assms(7) by simp_all
    then show "links g (hd ts) (tl ts) b" by (elim links_cong) (simp only: same [OF UnI2])
  qed
  ultimately have "links g b (us @ p # ts) b" using gp(1) by (cases ts) (auto simp: links_append)
  moreover have "chain g lo (us @ p # ts) hi"
  proof (rule chain_insert)
    have c: "chain h lo us (chain_end h lo us)" "chain_end h lo us < p" using assms(2) by (auto simp: chain_append)
    show "chain g lo us (chain_end h lo us)" using c(1) by (rule chain_cong) (use same in auto)
    show "chain_end h lo us < p" by (rule c(2))
    have "p + 8 * hsize (g p) = bp + 8 * m" using gp(1) assms(3) by simp
    then show "chain g (p + 8 * hsize (g p)) ts hi" using assms(5) same by (auto intro: chain_cong)
  qed (use gp(1) d(2) [of p] in auto)
  moreover have "free_bytes g us = free_bytes h us" "free_bytes g ts = free_bytes h ts"
    by (rule free_bytes_cong, simp add: same)+
  moreover have "block g p = block h p \<union> {bp..<bp + 8 * m}" using gp(1) assms(3) by (auto simp: block_def)
  ultimately show ?thesis by auto
qed

lemma free_link_ok:
  assumes "links h b (ls @ rs) b" and "chain h lo ls bp" and "chain h (bp + 8 * n - 1) rs hi" and "b \<le> lo" and "lo < bp" and "hsize (h bp) = n" and "0 < n"
    and "hsize (h b) = 0" and "bp + 8 * n \<le> hi" and "hi < 2 ^ 31" and "p = last (b # ls)" and "g = free_link bp p h"
  shows "\<exists>xs. links g b xs b \<and> chain g lo xs hi \<and> free_bytes g xs = free_bytes h (ls @ rs) \<union> {bp..<bp + 8 * n} \<and> hsize (g b) = 0 \<and>
    p \<in> set (b # xs) \<and> (\<forall>x. g x \<noteq> h x \<longrightarrow> x = b \<or> {x..<x + 8} \<subseteq> free_bytes g xs)"
proof -
  have bb: "b < bp" using assms(4,5) by simp
  have lr: "links h b ls (hd (rs @ [b]))" using assms(1) by (simp add: links_pred)
  then have hp: "hptr (h p) = hd (rs @ [b])" using links_last assms(11) by simp
  then have "links h p rs b" using assms(1) by (cases rs) (auto simp: links_append)
  then obtain ts m where j: "(if unit_add bp (hsize (h bp)) = hptr (h p)
      then h(bp := \<lparr>hptr = hptr (h (hptr (h p))), hsize = (hsize (h bp) + hsize (h (hptr (h p)))) mod W32\<rparr>)
      else h(bp := (h bp)\<lparr>hptr := hptr (h p)\<rparr>)) = h(bp := \<lparr>hptr = hd (ts @ [b]), hsize = m\<rparr>)"
    "n \<le> m" "chain h (bp + 8 * m) ts hi" "ts \<noteq> [] \<longrightarrow> links h (hd ts) (tl ts) b" "set ts \<subseteq> set rs"
    "free_bytes h rs \<union> {bp..<bp + 8 * n} = free_bytes h ts \<union> {bp..<bp + 8 * m}"
    using join_next [OF _ assms(3) bb assms(6,7,9,10)] by blast
  have "p \<in> set (b # ls)" unfolding assms(11) by (rule last_in_set) simp
  then have pbp: "p < bp" and pls: "p = b \<or> p \<in> set ls" using chain_bounds [OF assms(2)] bb by fastforce+
  have "p + 8 * hsize (h p) \<le> bp" using pls chain_bounds [OF assms(2)] assms(8) bb by auto
  then have ua: "unit_add p (hsize (h p)) = p + 8 * hsize (h p)" using assms(9,10) by (intro unit_add_small) simp
  have g: "g = (if p + 8 * hsize (h p) = bp
      then h(bp := \<lparr>hptr = hd (ts @ [b]), hsize = m\<rparr>, p := \<lparr>hptr = hd (ts @ [b]), hsize = (hsize (h p) + m) mod W32\<rparr>)
      else h(bp := \<lparr>hptr = hd (ts @ [b]), hsize = m\<rparr>, p := (h p)\<lparr>hptr := bp\<rparr>))"
    using pbp ua unfolding assms(12) free_link_def Let_def j(1) by simp
  then have gx: "g x = h x" if "x \<noteq> p" "x \<noteq> bp" for x using that by simp
  have "{p..<p + 8} \<subseteq> free_bytes h ls" if "p \<in> set ls" using that chain_bounds [OF assms(2) that] by (auto simp: free_bytes_def block_def)
  moreover have "{bp..<bp + 8} \<subseteq> {bp..<bp + 8 * n}" using assms(7) by auto
  ultimately have ch: "x = b \<or> {x..<x + 8} \<subseteq> free_bytes h (ls @ rs) \<union> {bp..<bp + 8 * n}" if "g x \<noteq> h x" for x
    using gx [of x] that pls unfolding free_bytes_simps by blast
  have fb: "free_bytes h ls \<union> free_bytes h ts \<union> {bp..<bp + 8 * m} = free_bytes h (ls @ rs) \<union> {bp..<bp + 8 * n}"
    unfolding free_bytes_simps using j(6) by blast
  have "b \<noteq> bp" using bb by simp
  show ?thesis
  proof (cases "p + 8 * hsize (h p) = bp")
    case True
    then have pb: "p \<noteq> b" using assms(8) bb by auto
    then obtain us where us: "ls = us @ [p]" using assms(11) by (metis append_butlast_last_id last.simps)
    have "links g b (us @ p # ts) b \<and> chain g lo (us @ p # ts) hi \<and> free_bytes g (us @ p # ts) = free_bytes h (us @ [p]) \<union> free_bytes h ts \<union> {bp..<bp + 8 * m}"
      using True by (intro link_joined [OF lr [unfolded us] assms(2) [unfolded us] True assms(4) j(3) assms(10) j(4)]) (simp add: g)
    then show ?thesis using ch fb [unfolded us] us gx [of b] pb \<open>b \<noteq> bp\<close> assms(8) by (intro exI [of _ "us @ p # ts"]) auto
  next
    case False
    have ce: "chain_end h lo ls \<noteq> bp" using False assms(5,11) by (auto simp: chain_end_last)
    have "links g b (ls @ bp # ts) b \<and> chain g lo (ls @ bp # ts) hi \<and> free_bytes g (ls @ bp # ts) = free_bytes h ls \<union> free_bytes h ts \<union> {bp..<bp + 8 * m}"
      using False j(2) assms(7) by (intro link_apart [OF lr assms(2) ce assms(4,5,11) _ j(3,4)]) (simp_all add: g)
    moreover have "hsize (g b) = 0" using False assms(8) \<open>b \<noteq> bp\<close> by (auto simp: g)
    ultimately show ?thesis using ch fb pls by (intro exI [of _ "ls @ bp # ts"]) auto
  qed
qed

text \<open>
  Returning a block that is apart from the free ones; the heap may end behind it.
\<close>

lemma ufree_ok:
  assumes "heap_ok base hi xs s" and "base + 8 \<le> bp" and "hsize (hdr s bp) = n" and "0 < n" and "bp + 8 * n \<le> hi'" and "hi \<le> hi'" and "hi' < 2 ^ 31"
    and "free_bytes (hdr s) xs \<inter> {bp..<bp + 8 * n} = {}"
  shows "\<exists>ys t. ufree (bp + 8) s = Some t \<and> heap_ok base hi' ys t \<and> brk t = brk s \<and>
    free_bytes (hdr t) ys = free_bytes (hdr s) xs \<union> {bp..<bp + 8 * n} \<and> writes_in (free_bytes (hdr t) ys) base s t"
proof -
  let ?h = "hdr s"
  have k: "0 < base" "hsize (?h base) = 0" "links ?h base xs base" "chain ?h (base + 7) xs hi" "freep s \<in> set (base # xs)"
    using assms(1) by (auto simp: heap_ok_def)
  have "base + 7 \<le> bp" using assms(2) by simp
  from chain_cut [OF k(4) this assms(4,8)] obtain ls rs where c: "xs = ls @ rs" "chain ?h (base + 7) ls bp"
    "chain ?h (bp + 8 * n - 1) rs (max hi (bp + 8 * n))" by blast
  have rs: "chain ?h (bp + 8 * n - 1) rs hi'" by (rule chain_weaken [OF c(3)]) (use assms(5,6) in auto)
  have f: "free_find bp (freep s) ?h = Some (last (base # ls))"
  proof (rule free_find_pred)
    show "chain ?h base ls bp" by (rule chain_weaken [OF c(2)]) simp_all
    show "chain ?h bp rs hi'" by (rule chain_weaken [OF rs]) (use assms(4) in simp_all)
  qed (use k c(1) assms(2) in auto)
  define g where "g = free_link bp (last (base # ls)) ?h"
  have bl: "base + 7 < bp" "base \<le> base + 7" using assms(2) by simp_all
  from free_link_ok [OF k(3) [unfolded c(1)] c(2) rs bl(2,1) assms(3,4) k(2) assms(5,7) refl g_def]
  obtain ys where y: "links g base ys base" "chain g (base + 7) ys hi'" "free_bytes g ys = free_bytes ?h xs \<union> {bp..<bp + 8 * n}"
    "hsize (g base) = 0" "last (base # ls) \<in> set (base # ys)" "\<forall>x. g x \<noteq> ?h x \<longrightarrow> x = base \<or> {x..<x + 8} \<subseteq> free_bytes g ys"
    unfolding c(1) by (elim exE conjE)
  have "(bp + 8 + W32 - 8) mod W32 = bp" using assms(5,7) by simp
  then have "ufree (bp + 8) s = Some (s\<lparr>hdr := g, freep := last (base # ls)\<rparr>)"
    unfolding ufree_def Let_def by (simp only: f g_def bind.bind_lunit)
  moreover have "heap_ok base hi' ys (s\<lparr>hdr := g, freep := last (base # ls)\<rparr>)"
    unfolding heap_ok_def using y(1,2,4,5) k(1) assms(1,6,7) by (simp add: heap_ok_def)
  ultimately show ?thesis using y(3,6) by (intro exI [of _ ys] exI [of _ "s\<lparr>hdr := g, freep := last (base # ls)\<rparr>"]) (simp add: writes_in_def del: last.simps)
qed

section \<open>Taking a block\<close>

lemma links_map: "links h p xs q \<longleftrightarrow> map (\<lambda>x. hptr (h x)) (p # xs) = xs @ [q]"
  by (induction xs arbitrary: p) simp_all

lemma ring_inj:
  assumes "links h b xs b" and "distinct (b # xs)" and "x \<in> set (b # xs)" and "y \<in> set (b # xs)" and "hptr (h x) = hptr (h y)"
  shows "x = y"
proof -
  have "distinct (map (\<lambda>x. hptr (h x)) (b # xs))" using assms(1,2) by (simp only: links_map) auto
  then have "inj_on (\<lambda>x. hptr (h x)) (set (b # xs))" unfolding distinct_map by (rule conjunct2)
  then show ?thesis using assms(5,3,4) by (rule inj_onD)
qed

lemma chain_remove: "chain h lo (ls @ w # rs) hi \<Longrightarrow> chain h lo (ls @ rs) hi"
proof (induction ls arbitrary: lo)
  case Nil
  then have "lo \<le> w + 8 * hsize (h w)" "chain h (w + 8 * hsize (h w)) rs hi" by simp_all
  then show ?case using chain_weaken [of h "w + 8 * hsize (h w)" rs hi lo hi] by simp
qed simp

lemma chain_shrink:
  assumes "chain h lo (ls @ w # rs) hi" and "\<And>x. x \<in> set ls \<union> set rs \<Longrightarrow> hsize (g x) = hsize (h x)" and "0 < hsize (g w)" and "hsize (g w) \<le> hsize (h w)"
  shows "chain g lo (ls @ w # rs) hi"
proof (rule chain_insert)
  have c: "chain h lo ls (chain_end h lo ls)" "chain_end h lo ls < w" "chain h (w + 8 * hsize (h w)) rs hi"
    using assms(1) by (auto simp: chain_append)
  show "chain g lo ls (chain_end h lo ls)" by (rule chain_cong [OF c(1)]) (simp add: assms(2))
  show "chain_end h lo ls < w" by (rule c(2))
  have "chain g (w + 8 * hsize (h w)) rs hi" by (rule chain_cong [OF c(3)]) (simp add: assms(2))
  then show "chain g (w + 8 * hsize (g w)) rs hi" by (rule chain_weaken) (use assms(4) in simp_all)
qed (rule assms(3))

lemma free_bytes_minus:
  assumes "chain h lo (ls @ w # rs) hi" and "A \<subseteq> block h w"
  shows "free_bytes h (ls @ w # rs) - A = free_bytes h (ls @ rs) \<union> (block h w - A)"
proof -
  have "block h x \<inter> block h w = {}" if "x \<in> set (ls @ rs)" for x
    using that chain_sorted [OF assms(1)] by (fastforce simp: block_def sorted_wrt_append)
  then have "free_bytes h (ls @ rs) \<inter> block h w = {}" unfolding free_bytes_def by blast
  then show ?thesis using assms(2) by auto
qed

text \<open>A block that has exactly the size wanted leaves the list.\<close>

lemma take_whole:
  assumes "heap_ok base hi (ls @ w # rs) s" and "hptr (hdr s pv) = w" and "pv = last (base # ls)"
    and "t = s\<lparr>hdr := (hdr s)(pv := (hdr s pv)\<lparr>hptr := hptr (hdr s w)\<rparr>), freep := pv\<rparr>"
  shows "heap_ok base hi (ls @ rs) t" and "free_bytes (hdr t) (ls @ rs) = free_bytes (hdr s) (ls @ w # rs) - block (hdr s) w"
    and "hsize (hdr t x) = hsize (hdr s x)"
proof -
  let ?h = "hdr s" and ?g = "hdr t"
  have k: "links ?h base (ls @ w # rs) base" "chain ?h (base + 7) (ls @ w # rs) hi" using assms(1) by (auto simp: heap_ok_def)
  have g: "hptr (?g pv) = hptr (?h w)" "\<And>x. hsize (?g x) = hsize (?h x)" "\<And>x. x \<noteq> pv \<Longrightarrow> ?g x = ?h x" using assms(4) by simp_all
  have d: "distinct (base # ls @ w # rs)" using chain_distinct [OF k(2)] chain_bounds [OF k(2)] by force
  have pin: "pv \<in> set (base # ls)" unfolding assms(3) by (rule last_in_set) simp
  have l: "links ?h base ls w" "hptr (?h w) = hd (rs @ [base])" "rs \<noteq> [] \<longrightarrow> links ?h (hd rs) (tl rs) base"
    using k(1) by (cases rs; simp add: links_append)+
  have "links ?g base ls (hd (rs @ [base]))"
    by (rule links_redirect [OF l(1) assms(3)]) (use d g l(2) in auto)
  moreover have "rs \<noteq> [] \<longrightarrow> links ?g (hd rs) (tl rs) base"
  proof
    assume "rs \<noteq> []"
    then have "links ?h (hd rs) (tl rs) base" "set (hd rs # tl rs) = set rs" using l(3) by simp_all
    moreover have "pv \<notin> set rs" using pin d by auto
    ultimately show "links ?g (hd rs) (tl rs) base" by (elim links_cong) (metis g(3))
  qed
  ultimately have "links ?g base (ls @ rs) base" by (simp add: links_pred)
  moreover have "chain ?g (base + 7) (ls @ rs) hi" by (rule chain_cong [OF chain_remove [OF k(2)]]) (simp add: g(2))
  ultimately show "heap_ok base hi (ls @ rs) t" using assms(1,4) pin g(2) by (auto simp: heap_ok_def)
  show "free_bytes ?g (ls @ rs) = free_bytes ?h (ls @ w # rs) - block ?h w"
    using free_bytes_minus [OF k(2) order_refl] free_bytes_cong [of "ls @ rs" ?g ?h] g(2) by simp
qed (simp add: assms(4))

text \<open>A larger one gives its end.\<close>

lemma take_end:
  assumes "heap_ok base hi (ls @ w # rs) s" and "0 < n" and "n < hsize (hdr s w)" and "q = w + 8 * (hsize (hdr s w) - n)"
    and "pv \<in> set (base # ls @ w # rs)" and "hdr t = (hdr s)(w := (hdr s w)\<lparr>hsize := hsize (hdr s w) - n\<rparr>, q := (hdr s q)\<lparr>hsize := n\<rparr>)"
    and "freep t = pv"
  shows "heap_ok base hi (ls @ w # rs) t" and "free_bytes (hdr t) (ls @ w # rs) = free_bytes (hdr s) (ls @ w # rs) - {q..<q + 8 * n}"
    and "{q..<q + 8 * n} \<subseteq> block (hdr s) w"
proof -
  let ?h = "hdr s" and ?g = "hdr t"
  have k: "links ?h base (ls @ w # rs) base" "chain ?h (base + 7) (ls @ w # rs) hi" using assms(1) by (auto simp: heap_ok_def)
  have qw: "w < q" "q + 8 * n = w + 8 * hsize (?h w)" using assms(3,4) by auto
  show qb: "{q..<q + 8 * n} \<subseteq> block ?h w" using qw by (auto simp: block_def)
  have q: "q \<notin> set (base # ls @ rs)"
  proof -
    have "x + 8 * hsize (?h x) < w" if "x \<in> set ls" for x using that chain_sorted [OF k(2)] by (auto simp: sorted_wrt_append)
    moreover have "w + 8 * hsize (?h w) < x" if "x \<in> set rs" for x using that chain_sorted [OF k(2)] by (auto simp: sorted_wrt_append)
    moreover have "base < w" using chain_bounds [OF k(2), of w] by simp
    ultimately show ?thesis using qw assms(2) by fastforce
  qed
  have d: "distinct (base # ls @ w # rs)" using chain_distinct [OF k(2)] chain_bounds [OF k(2)] by force
  have g: "\<And>x. hptr (?g x) = hptr (?h x)" "hsize (?g w) = hsize (?h w) - n" "\<And>x. x \<noteq> w \<Longrightarrow> x \<noteq> q \<Longrightarrow> hsize (?g x) = hsize (?h x)"
    using assms(6) qw(1) by auto
  have same: "hsize (?g x) = hsize (?h x)" if "x \<in> set ls \<union> set rs" for x using that q d by (intro g(3)) auto
  have "links ?g base (ls @ w # rs) base" using k(1) by (rule links_cong) (rule g(1))
  moreover have "chain ?g (base + 7) (ls @ w # rs) hi" by (rule chain_shrink [OF k(2) same]) (use g(2) assms(3) in simp_all)
  moreover have "hsize (?g base) = hsize (?h base)" using q d by (intro g(3)) auto
  ultimately show "heap_ok base hi (ls @ w # rs) t" using assms(1,5,7) by (simp add: heap_ok_def)
  have "block ?g w = block ?h w - {q..<q + 8 * n}" using g(2) qw by (auto simp: block_def assms(4))
  moreover have "free_bytes ?g (ls @ rs) = free_bytes ?h (ls @ rs)" by (rule free_bytes_cong) (simp add: same)
  ultimately show "free_bytes ?g (ls @ w # rs) = free_bytes ?h (ls @ w # rs) - {q..<q + 8 * n}"
    unfolding free_bytes_minus [OF k(2) qb] by auto
qed

text \<open>
  A block of \<open>n\<close> units was cut out of the free bytes \<open>F\<close>, its header says \<open>n\<close>, and only headers
  in \<open>F\<close> were written.
\<close>

definition handed_out :: "nat \<Rightarrow> nat \<Rightarrow> nat \<Rightarrow> nat set \<Rightarrow> 'w umem \<Rightarrow> nat \<Rightarrow> 'w umem \<Rightarrow> bool" where
  "handed_out base hi n F s r t \<longleftrightarrow> (\<exists>q ys. r = q + 8 \<and> base + 8 \<le> q \<and> heap_ok base hi ys t \<and> {q..<q + 8 * n} \<subseteq> F \<and>
     free_bytes (hdr t) ys = F - {q..<q + 8 * n} \<and> hsize (hdr t q) = n \<and> writes_in F base s t)"

lemma malloc_take_ok:
  assumes "heap_ok base hi xs s" and "pv \<in> set (base # xs)" and "hptr (hdr s pv) = w" and "n \<le> hsize (hdr s w)" and "0 < n"
  shows "\<exists>r t. malloc_take n pv w s = (r, t) \<and> brk t = brk s \<and> handed_out base hi n (free_bytes (hdr s) xs) s r t"
proof -
  let ?h = "hdr s" and ?F = "free_bytes (hdr s) xs"
  have k: "links ?h base xs base" "chain ?h (base + 7) xs hi" "hi < 2 ^ 31" "hsize (?h base) = 0" using assms(1) by (auto simp: heap_ok_def)
  have "w \<in> set (xs @ [base])"
    using assms(2,3) k(1) [unfolded links_map] by (metis imageI list.set_map)
  moreover have "w \<noteq> base" using assms(4,5) k(4) by auto
  ultimately have "w \<in> set xs" by simp
  then obtain ls rs where xs: "xs = ls @ w # rs" by (auto simp: in_set_conv_decomp)
  have b: "base + 7 < w" "w + 8 * hsize (?h w) \<le> hi" using chain_bounds [OF k(2) \<open>w \<in> set xs\<close>] by auto
  have wF: "block ?h w \<subseteq> ?F" unfolding xs by auto
  have w8: "{w..<w + 8} \<subseteq> block ?h w" using assms(4,5) by (auto simp: block_def)
  have d: "distinct (base # xs)" using chain_distinct [OF k(2)] chain_bounds [OF k(2)] by force
  have pv8: "pv = base \<or> {pv..<pv + 8} \<subseteq> ?F"
    using assms(2) chain_bounds [OF k(2), of pv] by (fastforce simp: free_bytes_def block_def)
  show ?thesis
  proof (cases "hsize (?h w) = n")
    case True
    have "last (base # ls) \<in> set (base # ls)" by (rule last_in_set) simp
    then have "last (base # ls) \<in> set (base # xs)" unfolding xs by (simp del: last.simps) blast
    moreover have "hptr (?h (last (base # ls))) = w" using k(1) unfolding xs links_append by (intro links_last) simp
    ultimately have pv: "pv = last (base # ls)"
      using assms(3) by (intro ring_inj [OF k(1) d assms(2)]) (simp_all only:)
    define t where "t = s\<lparr>hdr := ?h(pv := (?h pv)\<lparr>hptr := hptr (?h w)\<rparr>), freep := pv\<rparr>"
    note tw = take_whole [OF assms(1) [unfolded xs] assms(3) pv t_def, folded xs]
    have "writes_in ?F base s t" using pv8 by (auto simp: writes_in_def t_def)
    then have "handed_out base hi n ?F s (w + 8) t" unfolding handed_out_def
      using tw True b wF by (intro exI [of _ w] exI [of _ "ls @ rs"]) (simp add: block_def)
    moreover have "malloc_take n pv w s = (w + 8, t)" using True b k(3) assms(5) by (simp add: malloc_take_def Let_def t_def unit_add_small)
    ultimately show ?thesis by (intro exI [of _ "w + 8"] exI [of _ t]) (simp add: t_def)
  next
    case False
    then have n: "n < hsize (?h w)" using assms(4) by simp
    define q where "q = w + 8 * (hsize (?h w) - n)"
    define t where "t = s\<lparr>hdr := ?h(w := (?h w)\<lparr>hsize := hsize (?h w) - n\<rparr>, q := (?h q)\<lparr>hsize := n\<rparr>), freep := pv\<rparr>"
    have q: "w < q" "q + 8 * n = w + 8 * hsize (?h w)" using n by (auto simp: q_def)
    have te: "heap_ok base hi xs t" "free_bytes (hdr t) xs = ?F - {q..<q + 8 * n}" "{q..<q + 8 * n} \<subseteq> block ?h w"
      unfolding xs by (rule take_end [OF assms(1) [unfolded xs] assms(5) n q_def, of pv t]; use assms(2) in \<open>simp add: t_def xs\<close>)+
    have "{q..<q + 8} \<subseteq> {q..<q + 8 * n}" using assms(5) by auto
    then have f: "{q..<q + 8} \<subseteq> ?F" "{w..<w + 8} \<subseteq> ?F" using w8 wF te(3) by blast+
    have "x = w \<or> x = q" if "hdr t x \<noteq> ?h x" for x using that by (auto simp: t_def split: if_splits)
    then have "writes_in ?F base s t" unfolding writes_in_def using f by metis
    then have "handed_out base hi n ?F s (q + 8) t" unfolding handed_out_def
      using te b q wF by (intro exI [of _ q] exI [of _ xs]) (auto simp: t_def)
    moreover have "unit_add w (hsize (?h w) - n) = q" "unit_add q 1 = q + 8" using b(2) q k(3) assms(5) by (simp_all add: unit_add_small q_def)
    then have "malloc_take n pv w s = (q + 8, t)" using False q(1) by (simp add: malloc_take_def Let_def t_def)
    ultimately show ?thesis by (intro exI [of _ "q + 8"] exI [of _ t]) (simp add: t_def)
  qed
qed

section \<open>The search\<close>

lemma malloc_loop_cases:
  shows "n \<le> hsize (hdr s p) \<Longrightarrow> malloc_loop sbrk n pv p s = Some (malloc_take n pv p s)"
    and "\<not> n \<le> hsize (hdr s p) \<Longrightarrow> p \<noteq> freep s \<Longrightarrow> malloc_loop sbrk n pv p s = malloc_loop sbrk n p (hptr (hdr s p)) s"
    and "\<not> n \<le> hsize (hdr s p) \<Longrightarrow> p = freep s \<Longrightarrow> malloc_loop sbrk n pv p s =
      Option.bind (morecore sbrk n s) (\<lambda>(p, s). if p = 0 then Some (0, s) else malloc_loop sbrk n p (hptr (hdr s p)) s)"
  by (subst malloc_loop.simps, simp)+

lemma malloc_walk:
  assumes "links (hdr s) pv ws (freep s)" and "freep s \<notin> set ws" and "p = hptr (hdr s pv)"
  shows "(\<exists>us w. set us \<subseteq> set ws \<and> w \<in> set (ws @ [freep s]) \<and> n \<le> hsize (hdr s w) \<and> hptr (hdr s (last (pv # us))) = w \<and>
      malloc_loop sbrk n pv p s = Some (malloc_take n (last (pv # us)) w s)) \<or>
    (\<forall>w\<in>set (ws @ [freep s]). hsize (hdr s w) < n) \<and>
      malloc_loop sbrk n pv p s = Option.bind (morecore sbrk n s) (\<lambda>(p, s). if p = 0 then Some (0, s) else malloc_loop sbrk n p (hptr (hdr s p)) s)"
  using assms
proof (induction ws arbitrary: pv p)
  case Nil
  then have p: "p = freep s" by simp
  show ?case
  proof (cases "n \<le> hsize (hdr s p)")
    case True
    then show ?thesis using Nil p by (intro disjI1 exI [of _ "[]"] exI [of _ p]) (simp add: malloc_loop_cases(1))
  next
    case False
    then show ?thesis using p malloc_loop_cases(3) [OF False p] by (intro disjI2 conjI) (simp, assumption)
  qed
next
  case (Cons a ws)
  then have p: "p = a" "a \<noteq> freep s" "links (hdr s) a ws (freep s)" "freep s \<notin> set ws" by auto
  show ?case
  proof (cases "n \<le> hsize (hdr s a)")
    case True
    then show ?thesis using Cons.prems p by (intro disjI1 exI [of _ "[]"] exI [of _ a]) (simp add: malloc_loop_cases(1))
  next
    case False
    then have e: "malloc_loop sbrk n pv p s = malloc_loop sbrk n a (hptr (hdr s a)) s" using p malloc_loop_cases(2) [of n s p sbrk pv] by simp
    from Cons.IH [OF p(3,4) refl] show ?thesis
    proof (elim disjE exE conjE)
      fix us w assume u: "set us \<subseteq> set ws" "w \<in> set (ws @ [freep s])" "n \<le> hsize (hdr s w)" "hptr (hdr s (last (a # us))) = w"
        "malloc_loop sbrk n a (hptr (hdr s a)) s = Some (malloc_take n (last (a # us)) w s)"
      then show ?thesis unfolding e by (intro disjI1 exI [of _ "a # us"] exI [of _ w]) auto
    qed (use False e in auto)
  qed
qed

lemma ring_from:
  assumes "heap_ok base hi xs s"
  shows "\<exists>ws. links (hdr s) (freep s) ws (freep s) \<and> freep s \<notin> set ws \<and> set (freep s # ws) = set (base # xs)"
proof -
  have k: "links (hdr s) base xs base" "chain (hdr s) (base + 7) xs hi" "freep s \<in> set (base # xs)" using assms by (auto simp: heap_ok_def)
  have d: "distinct (base # xs)" using chain_distinct [OF k(2)] chain_bounds [OF k(2)] by force
  show ?thesis
  proof (cases "freep s = base")
    case True
    then show ?thesis using k(1) d by (intro exI [of _ xs]) simp
  next
    case False
    then obtain as bs where xs: "xs = as @ freep s # bs" using k(3) by (auto simp: in_set_conv_decomp)
    then have "links (hdr s) (freep s) (bs @ base # as) (freep s)" using k(1) by (simp add: links_append)
    then show ?thesis using d xs False by (intro exI [of _ "bs @ base # as"]) auto
  qed
qed

text \<open>Bytes that are free and contiguous are in one block, as blocks that touch are joined.\<close>

lemma one_block:
  assumes "chain h lo ys hi" and "{a..<a + 8 * m} \<subseteq> free_bytes h ys" and "0 < m"
  shows "\<exists>y\<in>set ys. m \<le> hsize (h y)"
proof -
  have "a \<in> free_bytes h ys" using assms(2,3) by (auto simp: subset_iff)
  then obtain y where y: "y \<in> set ys" "y \<le> a" "a < y + 8 * hsize (h y)" by (auto simp: free_bytes_def block_def)
  have "a + 8 * m \<le> y + 8 * hsize (h y)"
  proof (rule ccontr)
    assume "\<not> ?thesis"
    then have "y + 8 * hsize (h y) \<in> free_bytes h ys" using y assms(2) by (auto simp: subset_iff)
    then obtain z where z: "z \<in> set ys" "z \<le> y + 8 * hsize (h y)" "y + 8 * hsize (h y) < z + 8 * hsize (h z)"
      by (auto simp: free_bytes_def block_def)
    obtain i j where i: "i < length ys" "ys ! i = y" "j < length ys" "ys ! j = z" using y(1) z(1) by (auto simp: in_set_conv_nth)
    have "i < j \<Longrightarrow> y + 8 * hsize (h y) < z" "j < i \<Longrightarrow> z + 8 * hsize (h z) < y"
      using chain_sorted [OF assms(1)] i by (auto simp: sorted_wrt_iff_nth_less)
    then show False using z y i by (cases i j rule: linorder_cases) auto
  qed
  then show ?thesis using y by (intro bexI [of _ y]) auto
qed

lemma first_fit:
  assumes "heap_ok base hi xs s" and "0 < n"
  shows "(\<exists>r t. malloc_loop sbrk n (freep s) (hptr (hdr s (freep s))) s = Some (r, t) \<and> brk t = brk s \<and> handed_out base hi n (free_bytes (hdr s) xs) s r t) \<or>
    (\<forall>x\<in>set xs. hsize (hdr s x) < n) \<and> malloc_loop sbrk n (freep s) (hptr (hdr s (freep s))) s =
      Option.bind (morecore sbrk n s) (\<lambda>(p, s). if p = 0 then Some (0, s) else malloc_loop sbrk n p (hptr (hdr s p)) s)"
proof -
  from ring_from [OF assms(1)] obtain ws where w: "links (hdr s) (freep s) ws (freep s)" "freep s \<notin> set ws" "set (freep s # ws) = set (base # xs)"
    by blast
  from malloc_walk [OF w(1,2) refl, of n sbrk] show ?thesis
  proof (elim disjE exE conjE)
    fix us v assume u: "set us \<subseteq> set ws" "n \<le> hsize (hdr s v)" "hptr (hdr s (last (freep s # us))) = v"
      "malloc_loop sbrk n (freep s) (hptr (hdr s (freep s))) s = Some (malloc_take n (last (freep s # us)) v s)"
    have "last (freep s # us) \<in> set (freep s # us)" by (rule last_in_set) simp
    moreover have "set (freep s # us) \<subseteq> set (freep s # ws)" using u(1) by auto
    ultimately have "last (freep s # us) \<in> set (base # xs)" unfolding w(3) by (rule rev_subsetD)
    from malloc_take_ok [OF assms(1) this u(3,2) assms(2)] show ?thesis using u(4) by (intro disjI1) (simp del: last.simps)
  next
    assume a: "\<forall>w\<in>set (ws @ [freep s]). hsize (hdr s w) < n"
    have "set xs \<subseteq> set (ws @ [freep s])" using w(3) by auto
    then have "\<forall>x\<in>set xs. hsize (hdr s x) < n" using a by blast
    moreover assume "malloc_loop sbrk n (freep s) (hptr (hdr s (freep s))) s =
      Option.bind (morecore sbrk n s) (\<lambda>(p, s). if p = 0 then Some (0, s) else malloc_loop sbrk n p (hptr (hdr s p)) s)"
    ultimately show ?thesis by (rule disjI2 [OF conjI])
  qed
qed

end
