(* ===== verification/User_Heap.thy ===== *)
theory User_Heap
  imports Umalloc Trap Vm_Grow Proc_Sync
begin

text \<open>
  The heap of a user program. The locale \<open>break\<close> is what \<open>malloc\<close> relies on of the system call
  \<open>sbrk\<close>; in it \<open>morecore\<close> and \<open>malloc\<close> are shown to return and to hand out memory
  that is not in use. A program is a sequence of steps that allocate, free and store, and the
  invariant says that the memory it got from the kernel is divided into free and used blocks. The
  locale is interpreted on \<open>sys_sbrk\<close> and \<open>growproc\<close> of the kernel, whose law follows from
  the lemmas on \<open>allocuvm\<close>.
\<close>

section \<open>Definitions\<close>

text \<open>
  The heap before the first allocation, when the free list has not been set up, or later. The
  blocks lie below \<open>hi\<close>.
\<close>

definition heap :: "nat \<Rightarrow> nat \<Rightarrow> nat list \<Rightarrow> 'w umem \<Rightarrow> bool" where
  "heap base hi xs s \<longleftrightarrow> (if freep s = 0 then xs = [] \<and> 0 < base \<and> base + 8 \<le> hi \<and> hi < 2 ^ 31 else heap_ok base hi xs s)"

text \<open>The bytes of the blocks in use: pairs of what \<open>malloc\<close> returned and the number of units.\<close>

definition live :: "(nat \<times> nat) list \<Rightarrow> nat set" where
  "live L = (\<Union>(r, n)\<in>set L. {r - 8..<r - 8 + 8 * n})"

fun disjoint_blocks :: "(nat \<times> nat) list \<Rightarrow> bool" where
  "disjoint_blocks [] \<longleftrightarrow> True"
| "disjoint_blocks ((r, n) # L) \<longleftrightarrow> {r - 8..<r - 8 + 8 * n} \<inter> live L = {} \<and> disjoint_blocks L"

text \<open>
  A program that uses the allocator: it allocates at most \<open>2 ^ 31 - 16\<close> bytes at a time, frees only
  what it was given and has not freed, and writes what it likes into the blocks it has, but nowhere
  else. What it writes shows in the headers at the addresses it overwrites.
\<close>

inductive heap_step :: "(nat \<Rightarrow> 'w \<Rightarrow> (nat \<times> 'w) option) \<Rightarrow> nat \<Rightarrow> (nat \<times> nat) list \<Rightarrow> 'w umem \<Rightarrow> (nat \<times> nat) list \<Rightarrow> 'w umem \<Rightarrow> bool"
  for sbrk :: "nat \<Rightarrow> 'w \<Rightarrow> (nat \<times> 'w) option" and base :: nat where
  step_malloc: "nbytes \<le> 2 ^ 31 - 16 \<Longrightarrow> malloc sbrk base nbytes s = Some (r, t) \<Longrightarrow>
    heap_step sbrk base L s (if r = 0 then L else (r, malloc_units nbytes) # L) t"
| step_free: "(r, n) \<in> set L \<Longrightarrow> ufree r s = Some t \<Longrightarrow> heap_step sbrk base L s (remove1 (r, n) L) t"
| step_store: "(r, n) \<in> set L \<Longrightarrow> \<forall>x. {x..<x + 8} \<inter> {r..<r - 8 + 8 * n} = {} \<longrightarrow> g x = hdr s x \<Longrightarrow>
    heap_step sbrk base L s L (s\<lparr>hdr := g\<rparr>)"

inductive heap_run :: "(nat \<Rightarrow> 'w \<Rightarrow> (nat \<times> 'w) option) \<Rightarrow> nat \<Rightarrow> 'w umem \<Rightarrow> (nat \<times> nat) list \<Rightarrow> 'w umem \<Rightarrow> bool"
  for sbrk :: "nat \<Rightarrow> 'w \<Rightarrow> (nat \<times> 'w) option" and base :: nat and s :: "'w umem" where
  run_start: "heap_run sbrk base s [] s"
| run_step: "heap_run sbrk base s L t \<Longrightarrow> heap_step sbrk base L t M u \<Longrightarrow> heap_run sbrk base s M u"

text \<open>
  All the memory from \<open>lo\<close> to the break is free or in use, and not both; blocks in use do not
  overlap and have their size in their headers.
\<close>

definition heap_inv :: "('w \<Rightarrow> nat) \<Rightarrow> nat \<Rightarrow> nat \<Rightarrow> (nat \<times> nat) list \<Rightarrow> 'w umem \<Rightarrow> bool" where
  "heap_inv lim base lo L s \<longleftrightarrow> base + 8 \<le> lo \<and> lo \<le> lim (brk s) \<and> (freep s = 0 \<longrightarrow> L = []) \<and> disjoint_blocks L \<and>
     (\<forall>(r, n)\<in>set L. 0 < n \<and> 8 \<le> r \<and> hsize (hdr s (r - 8)) = n) \<and>
     (\<exists>xs. heap base (lim (brk s)) xs s \<and> free_bytes (hdr s) xs \<inter> live L = {} \<and> free_bytes (hdr s) xs \<union> live L = {lo..<lim (brk s)})"

text \<open>No header that overlaps a block in use was changed.\<close>

definition untouched :: "(nat \<times> nat) list \<Rightarrow> 'w umem \<Rightarrow> 'w umem \<Rightarrow> bool" where
  "untouched L s t \<longleftrightarrow> (\<forall>x. {x..<x + 8} \<inter> live L \<noteq> {} \<longrightarrow> hdr t x = hdr s x)"

section \<open>A source of memory\<close>

lemma heap_ok_freep: "heap_ok base hi xs s \<Longrightarrow> 0 < freep s"
  using chain_bounds [of "hdr s" "base + 7" xs hi "freep s"] by (auto simp: heap_ok_def)

lemma heap_okI: "heap_ok base hi xs s \<Longrightarrow> heap base hi xs s"
  using heap_ok_freep [of base hi xs s] by (simp add: heap_def)

lemma writes_in_trans: "writes_in A base s t \<Longrightarrow> writes_in A base t u \<Longrightarrow> writes_in A base s u"
  unfolding writes_in_def by metis

lemma writes_in_mono: "writes_in A base s t \<Longrightarrow> A \<subseteq> B \<Longrightarrow> writes_in B base s t"
  unfolding writes_in_def by (meson subset_trans)

lemma malloc_start_ok:
  assumes "heap base hi xs s"
  shows "heap_ok base hi xs (malloc_start base s)" and "free_bytes (hdr (malloc_start base s)) xs = free_bytes (hdr s) xs"
    and "writes_in A base s (malloc_start base s)" and "brk (malloc_start base s) = brk s"
  using assms by (auto simp: heap_def malloc_start_def heap_ok_def writes_in_def)

text \<open>
  What \<open>malloc\<close> relies on: while \<open>inv\<close> holds, \<open>sbrk\<close> returns the end \<open>lim\<close> of the memory of
  the process and moves it up, or fails and leaves it where it is.
\<close>

locale break =
  fixes sbrk :: "nat \<Rightarrow> 'w \<Rightarrow> (nat \<times> 'w) option"
    and lim :: "'w \<Rightarrow> nat"
    and inv :: "'w \<Rightarrow> bool"
  assumes sbrk_grows: "inv w \<Longrightarrow> 0 < n \<Longrightarrow> n < 2 ^ 31 \<Longrightarrow> \<exists>r v. sbrk n w = Some (r, v) \<and> inv v \<and>
    (r = 2 ^ 32 - 1 \<and> lim v = lim w \<or> r = lim w \<and> lim v = lim w + n \<and> lim v < 2 ^ 31)"
begin

lemma morecore_ok:
  assumes "heap_ok base (lim (brk s)) xs s" and "inv (brk s)" and "n < 2 ^ 28"
  shows "\<exists>r t. morecore sbrk n s = Some (r, t) \<and> inv (brk t) \<and> lim (brk s) \<le> lim (brk t) \<and>
    (r = 0 \<and> t = s\<lparr>brk := brk t\<rparr> \<and> lim (brk t) = lim (brk s) \<or>
     r = freep t \<and> r \<noteq> 0 \<and> (\<exists>ys. heap_ok base (lim (brk t)) ys t \<and> (\<exists>y\<in>set ys. n \<le> hsize (hdr t y)) \<and>
       free_bytes (hdr t) ys = free_bytes (hdr s) xs \<union> {lim (brk s)..<lim (brk t)} \<and> writes_in (free_bytes (hdr t) ys) base s t))"
proof -
  define m where "m = (if n < 4096 then 4096 else n)"
  have m: "0 < m" "n \<le> m" "m * 8 < 2 ^ 31" using assms(3) by (simp_all add: m_def)
  have k: "0 < base" "base + 8 \<le> lim (brk s)" "chain (hdr s) (base + 7) xs (lim (brk s))" using assms(1) by (auto simp: heap_ok_def)
  obtain r v where v: "sbrk (m * 8) (brk s) = Some (r, v)" "inv v"
    "r = 2 ^ 32 - 1 \<and> lim v = lim (brk s) \<or> r = lim (brk s) \<and> lim v = lim (brk s) + m * 8 \<and> lim v < 2 ^ 31"
    using sbrk_grows [of "brk s" "m * 8"] assms(2) m by auto
  have mm: "m * 8 mod W32 = m * 8" using m(3) by simp
  show ?thesis
  proof (cases "r = 2 ^ 32 - 1")
    case True
    then have "lim v = lim (brk s)" using v(3) by auto
    moreover have "morecore sbrk n s = Some (0, s\<lparr>brk := v\<rparr>)" unfolding morecore_def m_def [symmetric] Let_def mm v(1) using True by simp
    ultimately show ?thesis using v(2) by (intro exI [of _ 0] exI [of _ "s\<lparr>brk := v\<rparr>"]) simp
  next
    case False
    then have r: "r = lim (brk s)" "lim v = r + 8 * m" "lim v < 2 ^ 31" using v(3) by auto
    define s1 where "s1 = s\<lparr>brk := v, hdr := (hdr s)(r := (hdr s r)\<lparr>hsize := m\<rparr>)\<rparr>"
    have xr: "x < r" if "x \<in> set xs" for x using chain_bounds [OF k(3) that] r(1) by auto
    have rb: "base + 8 \<le> r" using k(2) r(1) by simp
    have same: "hdr s1 x = hdr s x" if "x \<in> set (base # xs)" for x using that xr rb by (auto simp: s1_def)
    have fb: "free_bytes (hdr s1) xs = free_bytes (hdr s) xs" by (rule free_bytes_cong) (simp add: same)
    have "links (hdr s1) base xs base" by (rule links_cong [of "hdr s"]) (use assms(1) same in \<open>simp_all add: heap_ok_def\<close>)
    moreover have "chain (hdr s1) (base + 7) xs r" using k(3) unfolding r(1) by (rule chain_cong) (simp add: same)
    ultimately have h1: "heap_ok base r xs s1" using assms(1) same [of base] by (simp add: heap_ok_def r(1) s1_def)
    have "x < r" if "x \<in> free_bytes (hdr s1) xs" for x
      using that chain_bounds [OF k(3)] r(1) unfolding fb by (fastforce simp: free_bytes_def block_def)
    then have "free_bytes (hdr s1) xs \<inter> {r..<r + 8 * m} = {}" by fastforce
    moreover have "hsize (hdr s1 r) = m" "r \<le> lim v" "r + 8 * m \<le> lim v" using r by (simp_all add: s1_def)
    ultimately obtain ys t where t: "ufree (r + 8) s1 = Some t" "heap_ok base (lim v) ys t" "brk t = brk s1"
      "free_bytes (hdr t) ys = free_bytes (hdr s1) xs \<union> {r..<r + 8 * m}" "writes_in (free_bytes (hdr t) ys) base s1 t"
      using ufree_ok [OF h1 rb _ m(1) _ _ r(3)] by blast
    have bt: "brk t = v" using t(3) by (simp add: s1_def)
    have "unit_add r 1 = r + 8" using r m(1) by (simp add: unit_add_small)
    then have "morecore sbrk n s = Some (freep t, t)"
      unfolding morecore_def m_def [symmetric] Let_def mm v(1) using False t(1) by (simp add: s1_def)
    moreover have "freep t \<noteq> 0" using heap_ok_freep [OF t(2)] by simp
    moreover have "\<exists>y\<in>set ys. m \<le> hsize (hdr t y)"
      using one_block [of "hdr t" "base + 7" ys "lim v" r m] t(2,4) m(1) by (simp add: heap_ok_def)
    then have "\<exists>y\<in>set ys. n \<le> hsize (hdr t y)" using m(2) by (meson order_trans)
    moreover have "{r..<r + 8} \<subseteq> free_bytes (hdr t) ys" using t(4) m(1) by auto
    then have "writes_in (free_bytes (hdr t) ys) base s t" using t(5) by (auto simp: writes_in_def s1_def split: if_splits)
    ultimately show ?thesis using t(2,4) v(2) r fb bt by (intro exI [of _ "freep t"] exI [of _ t]) auto
  qed
qed

lemma malloc_loop_ok:
  assumes "heap_ok base (lim (brk s)) xs s" and "inv (brk s)" and "0 < n" and "n < 2 ^ 28"
  shows "\<exists>r t. malloc_loop sbrk n (freep s) (hptr (hdr s (freep s))) s = Some (r, t) \<and> inv (brk t) \<and> lim (brk s) \<le> lim (brk t) \<and>
    (r = 0 \<and> t = s\<lparr>brk := brk t\<rparr> \<and> lim (brk t) = lim (brk s) \<or>
     handed_out base (lim (brk t)) n (free_bytes (hdr s) xs \<union> {lim (brk s)..<lim (brk t)}) s r t)"
  using first_fit [OF assms(1,3), of sbrk]
proof (elim disjE exE conjE)
  fix r t assume "malloc_loop sbrk n (freep s) (hptr (hdr s (freep s))) s = Some (r, t)" "brk t = brk s"
    "handed_out base (lim (brk s)) n (free_bytes (hdr s) xs) s r t"
  then show ?thesis using assms(2) by (intro exI [of _ r] exI [of _ t]) simp
next
  assume e: "malloc_loop sbrk n (freep s) (hptr (hdr s (freep s))) s =
    Option.bind (morecore sbrk n s) (\<lambda>(p, s). if p = 0 then Some (0, s) else malloc_loop sbrk n p (hptr (hdr s p)) s)"
  from morecore_ok [OF assms(1,2,4)] obtain r u where u: "morecore sbrk n s = Some (r, u)" "inv (brk u) \<and> lim (brk s) \<le> lim (brk u)"
    "r = 0 \<and> u = s\<lparr>brk := brk u\<rparr> \<and> lim (brk u) = lim (brk s) \<or>
     r = freep u \<and> r \<noteq> 0 \<and> (\<exists>ys. heap_ok base (lim (brk u)) ys u \<and> (\<exists>y\<in>set ys. n \<le> hsize (hdr u y)) \<and>
       free_bytes (hdr u) ys = free_bytes (hdr s) xs \<union> {lim (brk s)..<lim (brk u)} \<and> writes_in (free_bytes (hdr u) ys) base s u)"
    by blast
  from u(3) show ?thesis
  proof (elim disjE exE conjE)
    assume "r = 0" "u = s\<lparr>brk := brk u\<rparr>" "lim (brk u) = lim (brk s)"
    then show ?thesis using e u(1,2) by (intro exI [of _ 0] exI [of _ u]) simp
  next
    fix ys assume y: "r = freep u" "r \<noteq> 0" "heap_ok base (lim (brk u)) ys u" "\<exists>y\<in>set ys. n \<le> hsize (hdr u y)"
      "free_bytes (hdr u) ys = free_bytes (hdr s) xs \<union> {lim (brk s)..<lim (brk u)}" "writes_in (free_bytes (hdr u) ys) base s u"
    have "\<not> (\<forall>y\<in>set ys. hsize (hdr u y) < n)" using y(4) by (auto simp: not_less)
    then obtain q t where t: "malloc_loop sbrk n (freep u) (hptr (hdr u (freep u))) u = Some (q, t)" "brk t = brk u"
      "handed_out base (lim (brk u)) n (free_bytes (hdr u) ys) u q t"
      using first_fit [OF y(3) assms(3), of sbrk] by blast
    have "handed_out base (lim (brk u)) n (free_bytes (hdr u) ys) s q t"
      using t(3) y(6) writes_in_trans unfolding handed_out_def by blast
    then show ?thesis using e u(1,2) t(1,2) y(1,2,5) by (intro exI [of _ q] exI [of _ t]) simp
  qed
qed

lemma malloc_ok:
  assumes "heap base (lim (brk s)) xs s" and "inv (brk s)" and "nbytes \<le> 2 ^ 31 - 16"
  shows "\<exists>r t. malloc sbrk base nbytes s = Some (r, t) \<and> inv (brk t) \<and> lim (brk s) \<le> lim (brk t) \<and>
    (r = 0 \<and> heap_ok base (lim (brk t)) xs t \<and> lim (brk t) = lim (brk s) \<and> free_bytes (hdr t) xs = free_bytes (hdr s) xs \<and> writes_in {} base s t \<or>
     handed_out base (lim (brk t)) (malloc_units nbytes) (free_bytes (hdr s) xs \<union> {lim (brk s)..<lim (brk t)}) s r t)"
proof -
  let ?s = "malloc_start base s"
  note m = malloc_start_ok [OF assms(1)]
  have n: "0 < malloc_units nbytes" "malloc_units nbytes < 2 ^ 28" using assms(3) by (simp_all add: malloc_units_def)
  from malloc_loop_ok [of base ?s xs, unfolded m(2,4), OF m(1) assms(2) n]
  obtain r t where t: "malloc sbrk base nbytes s = Some (r, t)" "inv (brk t) \<and> lim (brk s) \<le> lim (brk t)"
    "r = 0 \<and> t = ?s\<lparr>brk := brk t\<rparr> \<and> lim (brk t) = lim (brk s) \<or>
     handed_out base (lim (brk t)) (malloc_units nbytes) (free_bytes (hdr s) xs \<union> {lim (brk s)..<lim (brk t)}) ?s r t"
    unfolding malloc_def Let_def by blast
  from t(3) show ?thesis
  proof (elim disjE conjE)
    assume r: "r = 0" "t = ?s\<lparr>brk := brk t\<rparr>" "lim (brk t) = lim (brk s)"
    have h: "hdr t = hdr ?s" "freep t = freep ?s" by (subst r(2), simp)+
    then have "heap_ok base (lim (brk t)) xs t" using m(1) unfolding heap_ok_def r(3) by simp
    moreover have "writes_in {} base s t" using m(3) [of "{}"] h by (simp add: writes_in_def)
    ultimately show ?thesis using t(1,2) r(1,3) m(2) h by (intro exI [of _ r] exI [of _ t]) simp
  next
    assume "handed_out base (lim (brk t)) (malloc_units nbytes) (free_bytes (hdr s) xs \<union> {lim (brk s)..<lim (brk t)}) ?s r t"
    then have "handed_out base (lim (brk t)) (malloc_units nbytes) (free_bytes (hdr s) xs \<union> {lim (brk s)..<lim (brk t)}) s r t"
      unfolding handed_out_def using writes_in_trans [OF m(3)] by blast
    then show ?thesis using t(1,2) by blast
  qed
qed

end

section \<open>Blocks in use\<close>

lemma live_simps [simp]: "live [] = {}" "live ((r, n) # L) = {r - 8..<r - 8 + 8 * n} \<union> live L"
  by (auto simp: live_def)

lemma live_remove1:
  assumes "disjoint_blocks L" and "(r, n) \<in> set L"
  shows "live L = {r - 8..<r - 8 + 8 * n} \<union> live (remove1 (r, n) L)" and "{r - 8..<r - 8 + 8 * n} \<inter> live (remove1 (r, n) L) = {}"
    and "disjoint_blocks (remove1 (r, n) L)"
proof -
  have "live (remove1 (r, n) L) \<subseteq> live L" for L :: "(nat \<times> nat) list" unfolding live_def using set_remove1_subset by fast
  then have "live L = {r - 8..<r - 8 + 8 * n} \<union> live (remove1 (r, n) L) \<and> {r - 8..<r - 8 + 8 * n} \<inter> live (remove1 (r, n) L) = {} \<and>
    disjoint_blocks (remove1 (r, n) L)"
    using assms
  proof (induction L)
    case (Cons a L)
    obtain r' n' where a: "a = (r', n')" by (cases a)
    show ?case
    proof (cases "a = (r, n)")
      case True
      then show ?thesis using Cons.prems by simp
    next
      case False
      then have m: "(r, n) \<in> set L" using Cons.prems(3) by simp
      then have "{r - 8..<r - 8 + 8 * n} \<subseteq> live L" by (auto simp: live_def)
      moreover have "{r' - 8..<r' - 8 + 8 * n'} \<inter> live L = {}" "disjoint_blocks L" using Cons.prems(2) a by simp_all
      moreover note Cons.IH [OF Cons.prems(1) \<open>disjoint_blocks L\<close> m] Cons.prems(1) [of L]
      ultimately show ?thesis using False unfolding a remove1.simps live_simps by (simp add: a [symmetric]) (use a in auto)
    qed
  qed simp
  then show "live L = {r - 8..<r - 8 + 8 * n} \<union> live (remove1 (r, n) L)" "{r - 8..<r - 8 + 8 * n} \<inter> live (remove1 (r, n) L) = {}"
    "disjoint_blocks (remove1 (r, n) L)" by blast+
qed

lemma writes_in_untouched:
  assumes "writes_in A base s t" and "A \<inter> live L = {}" and "{base..<base + 8} \<inter> live L = {}"
  shows "untouched L s t"
  unfolding untouched_def using assms unfolding writes_in_def by blast

lemma untouched_header:
  assumes "untouched L s t" and "(r, n) \<in> set L" and "0 < n"
  shows "hdr t (r - 8) = hdr s (r - 8)"
proof -
  have "r - 8 \<in> live L" using assms(2,3) by (force simp: live_def)
  moreover have "r - 8 \<in> {r - 8..<r - 8 + 8}" by simp
  ultimately show ?thesis using assms(1) unfolding untouched_def by blast
qed

lemma heap_invI:
  assumes "base + 8 \<le> lo" and "lo \<le> lim (brk s)" and "freep s \<noteq> 0 \<or> L = []" and "disjoint_blocks L"
    and "\<And>r n. (r, n) \<in> set L \<Longrightarrow> 0 < n \<and> 8 \<le> r \<and> hsize (hdr s (r - 8)) = n" and "heap base (lim (brk s)) xs s"
    and "free_bytes (hdr s) xs \<inter> live L = {}" and "free_bytes (hdr s) xs \<union> live L = {lo..<lim (brk s)}"
  shows "heap_inv lim base lo L s"
  unfolding heap_inv_def using assms by (intro conjI exI [of _ xs]) auto

lemma heap_invD:
  assumes "heap_inv lim base lo L s"
  shows "\<exists>xs. base + 8 \<le> lo \<and> lo \<le> lim (brk s) \<and> disjoint_blocks L \<and>
    (\<forall>r n. (r, n) \<in> set L \<longrightarrow> 0 < n \<and> 8 \<le> r \<and> hsize (hdr s (r - 8)) = n \<and> lo \<le> r - 8 \<and> r - 8 + 8 * n \<le> lim (brk s)) \<and>
    heap base (lim (brk s)) xs s \<and> free_bytes (hdr s) xs \<inter> live L = {} \<and> free_bytes (hdr s) xs \<union> live L = {lo..<lim (brk s)} \<and>
    {base..<base + 8} \<inter> live L = {} \<and> (L \<noteq> [] \<longrightarrow> heap_ok base (lim (brk s)) xs s)"
proof -
  obtain xs where x: "heap base (lim (brk s)) xs s" "free_bytes (hdr s) xs \<inter> live L = {}" "free_bytes (hdr s) xs \<union> live L = {lo..<lim (brk s)}"
    using assms by (auto simp: heap_inv_def)
  have k: "base + 8 \<le> lo" "lo \<le> lim (brk s)" "disjoint_blocks L" "\<And>r n. (r, n) \<in> set L \<Longrightarrow> 0 < n \<and> 8 \<le> r \<and> hsize (hdr s (r - 8)) = n" "freep s = 0 \<longrightarrow> L = []"
    using assms by (auto simp: heap_inv_def)
  have "lo \<le> r - 8 \<and> r - 8 + 8 * n \<le> lim (brk s)" if "(r, n) \<in> set L" for r n
  proof -
    have "{r - 8..<r - 8 + 8 * n} \<subseteq> live L" using that by (auto simp: live_def)
    then have "{r - 8..<r - 8 + 8 * n} \<subseteq> {lo..<lim (brk s)}" using x(3) by blast
    then show ?thesis using k(4) [OF that] by (simp, arith)
  qed
  moreover have "live L \<subseteq> {lo..<lim (brk s)}" using x(3) by blast
  then have "{base..<base + 8} \<inter> live L = {}" using k(1) by auto
  moreover have "L \<noteq> [] \<longrightarrow> heap_ok base (lim (brk s)) xs s" using x(1) k(5) by (auto simp: heap_def)
  ultimately show ?thesis using k(1-4) x by (intro exI [of _ xs] conjI allI impI) auto
qed

lemma free_step:
  assumes "heap_inv lim base lo L s" and "(r, n) \<in> set L"
  shows "\<exists>t. ufree r s = Some t \<and> brk t = brk s \<and> heap_inv lim base lo (remove1 (r, n) L) t \<and> untouched (remove1 (r, n) L) s t"
proof -
  let ?L = "remove1 (r, n) L"
  from heap_invD [OF assms(1)] obtain xs where k: "base + 8 \<le> lo" "lo \<le> lim (brk s)" "disjoint_blocks L"
    "\<forall>r n. (r, n) \<in> set L \<longrightarrow> 0 < n \<and> 8 \<le> r \<and> hsize (hdr s (r - 8)) = n \<and> lo \<le> r - 8 \<and> r - 8 + 8 * n \<le> lim (brk s)"
    "free_bytes (hdr s) xs \<inter> live L = {}" "free_bytes (hdr s) xs \<union> live L = {lo..<lim (brk s)}" "{base..<base + 8} \<inter> live L = {}"
    "L \<noteq> [] \<longrightarrow> heap_ok base (lim (brk s)) xs s" by (elim exE conjE)
  have h: "heap_ok base (lim (brk s)) xs s" using k(8) assms(2) by auto
  have b: "0 < n" "8 \<le> r" "hsize (hdr s (r - 8)) = n" "lo \<le> r - 8" "r - 8 + 8 * n \<le> lim (brk s)" using k(4) assms(2) by blast+
  note l = live_remove1 [OF k(3) assms(2)]
  have "base + 8 \<le> r - 8" "lim (brk s) < 2 ^ 31" using b(4) k(1) h by (simp_all add: heap_ok_def)
  moreover have "free_bytes (hdr s) xs \<inter> {r - 8..<r - 8 + 8 * n} = {}" using k(5) l(1) by blast
  ultimately obtain ys t where t: "ufree (r - 8 + 8) s = Some t" "heap_ok base (lim (brk s)) ys t" "brk t = brk s"
    "free_bytes (hdr t) ys = free_bytes (hdr s) xs \<union> {r - 8..<r - 8 + 8 * n}" "writes_in (free_bytes (hdr t) ys) base s t"
    using ufree_ok [OF h _ b(3,1,5) order_refl] by blast
  have d: "free_bytes (hdr t) ys \<inter> live ?L = {}" unfolding t(4) using k(5) l(1,2) by blast
  have "{base..<base + 8} \<inter> live ?L = {}" using k(7) l(1) by blast
  then have ut: "untouched ?L s t" by (rule writes_in_untouched [OF t(5) d])
  have "heap_inv lim base lo ?L t"
  proof (rule heap_invI)
    show "freep t \<noteq> 0 \<or> ?L = []" using heap_ok_freep [OF t(2)] by simp
    show "heap base (lim (brk t)) ys t" unfolding t(3) by (rule heap_okI [OF t(2)])
    show "free_bytes (hdr t) ys \<union> live ?L = {lo..<lim (brk t)}" unfolding t(3,4) using k(6) l(1) by blast
    show "0 < m \<and> 8 \<le> p \<and> hsize (hdr t (p - 8)) = m" if p: "(p, m) \<in> set ?L" for p m
    proof -
      have m: "0 < m" "8 \<le> p" "hsize (hdr s (p - 8)) = m" using k(4) p set_remove1_subset [of "(r, n)" L] by auto
      then show ?thesis using untouched_header [OF ut p] by simp
    qed
  qed (use k(1,2) t(3) l(3) d in simp_all)
  then show ?thesis using t(1,3) b(2) ut by auto
qed

lemma store_step:
  assumes "heap_inv lim base lo L s" and "(r, n) \<in> set L" and "\<forall>x. {x..<x + 8} \<inter> {r..<r - 8 + 8 * n} = {} \<longrightarrow> g x = hdr s x"
  shows "heap_inv lim base lo L (s\<lparr>hdr := g\<rparr>)"
proof -
  from heap_invD [OF assms(1)] obtain xs where k: "base + 8 \<le> lo" "lo \<le> lim (brk s)" "disjoint_blocks L"
    "\<forall>r n. (r, n) \<in> set L \<longrightarrow> 0 < n \<and> 8 \<le> r \<and> hsize (hdr s (r - 8)) = n \<and> lo \<le> r - 8 \<and> r - 8 + 8 * n \<le> lim (brk s)"
    "free_bytes (hdr s) xs \<inter> live L = {}" "free_bytes (hdr s) xs \<union> live L = {lo..<lim (brk s)}"
    "L \<noteq> [] \<longrightarrow> heap_ok base (lim (brk s)) xs s" by (elim exE conjE)
  have h: "heap_ok base (lim (brk s)) xs s" using k(7) assms(2) by auto
  have b: "0 < n" "8 \<le> r" "lo \<le> r - 8" using k(4) assms(2) by auto
  note l = live_remove1 [OF k(3) assms(2)]
  have pay: "{r..<r - 8 + 8 * n} \<subseteq> {r - 8..<r - 8 + 8 * n}" using b(2) by auto
  have gb: "g base = hdr s base" using b k(1) by (intro assms(3) [rule_format]) auto
  have gx: "g x = hdr s x" if "x \<in> set xs" for x
  proof (rule assms(3) [rule_format])
    have "0 < hsize (hdr s x)" using that h chain_bounds by (fastforce simp: heap_ok_def)
    then have "{x..<x + 8} \<subseteq> free_bytes (hdr s) xs" using that by (fastforce simp: free_bytes_def block_def)
    then show "{x..<x + 8} \<inter> {r..<r - 8 + 8 * n} = {}" using k(5) l(1) pay by blast
  qed
  have gl: "g (p - 8) = hdr s (p - 8)" if p: "(p, m) \<in> set L" for p m
  proof (rule assms(3) [rule_format])
    have m: "0 < m" "8 \<le> p" using k(4) p by auto
    have pm: "{p - 8..<p - 8 + 8} \<subseteq> {p - 8..<p - 8 + 8 * m}" using m by auto
    show "{p - 8..<p - 8 + 8} \<inter> {r..<r - 8 + 8 * n} = {}"
    proof (cases "(p, m) = (r, n)")
      case True
      then show ?thesis using m by auto
    next
      case False
      then have "(p, m) \<in> set (remove1 (r, n) L)" using p by (simp add: in_set_remove1)
      then have "{p - 8..<p - 8 + 8 * m} \<subseteq> live (remove1 (r, n) L)" unfolding live_def by auto
      then show ?thesis using l(2) pm pay by blast
    qed
  qed
  have f: "free_bytes g xs = free_bytes (hdr s) xs" by (rule free_bytes_cong) (simp add: gx)
  have "links g base xs base" by (rule links_cong [of "hdr s"]) (use h gb gx in \<open>auto simp: heap_ok_def\<close>)
  moreover have "chain g (base + 7) xs (lim (brk s))" by (rule chain_cong [of "hdr s"]) (use h gx in \<open>simp_all add: heap_ok_def\<close>)
  ultimately have "heap_ok base (lim (brk s)) xs (s\<lparr>hdr := g\<rparr>)" using h gb by (simp add: heap_ok_def)
  then show ?thesis using k(1-6) f gl heap_ok_freep [OF h] by (intro heap_invI [where xs = xs]) (simp_all add: heap_okI)
qed

context break
begin

lemma malloc_step:
  assumes "heap_inv lim base lo L s" and "inv (brk s)" and "nbytes \<le> 2 ^ 31 - 16"
  shows "\<exists>r t. malloc sbrk base nbytes s = Some (r, t) \<and> inv (brk t) \<and>
    heap_inv lim base lo (if r = 0 then L else (r, malloc_units nbytes) # L) t \<and> untouched L s t"
proof -
  let ?n = "malloc_units nbytes"
  from heap_invD [OF assms(1)] obtain xs where k: "base + 8 \<le> lo" "lo \<le> lim (brk s)" "disjoint_blocks L"
    "\<forall>r n. (r, n) \<in> set L \<longrightarrow> 0 < n \<and> 8 \<le> r \<and> hsize (hdr s (r - 8)) = n \<and> lo \<le> r - 8 \<and> r - 8 + 8 * n \<le> lim (brk s)"
    "heap base (lim (brk s)) xs s" "free_bytes (hdr s) xs \<inter> live L = {}" "free_bytes (hdr s) xs \<union> live L = {lo..<lim (brk s)}" "{base..<base + 8} \<inter> live L = {}"
    by (elim exE conjE)
  let ?F = "\<lambda>t. free_bytes (hdr s) xs \<union> {lim (brk s)..<lim (brk t)}"
  from malloc_ok [OF k(5) assms(2,3)] obtain r t where t: "malloc sbrk base nbytes s = Some (r, t)" "inv (brk t)" "lim (brk s) \<le> lim (brk t)"
    "r = 0 \<and> heap_ok base (lim (brk t)) xs t \<and> lim (brk t) = lim (brk s) \<and> free_bytes (hdr t) xs = free_bytes (hdr s) xs \<and> writes_in {} base s t \<or>
     handed_out base (lim (brk t)) ?n (?F t) s r t" by blast
  have "live L \<subseteq> {lo..<lim (brk s)}" using k(7) by blast
  then have "live L \<inter> {lim (brk s)..<lim (brk t)} = {}" by auto
  then have F: "?F t \<inter> live L = {}" using k(6) by blast
  have all: "?F t \<union> live L = {lo..<lim (brk t)}" using k(2,7) t(3) ivl_disj_un_two(3) [of lo "lim (brk s)" "lim (brk t)"] by blast
  from t(4) have "heap_inv lim base lo (if r = 0 then L else (r, ?n) # L) t \<and> untouched L s t"
  proof (elim disjE conjE)
    assume r: "r = 0" "heap_ok base (lim (brk t)) xs t" "lim (brk t) = lim (brk s)" "free_bytes (hdr t) xs = free_bytes (hdr s) xs" "writes_in {} base s t"
    have ut: "untouched L s t" by (rule writes_in_untouched [OF r(5) _ k(8)]) simp
    have h: "hdr t (q - 8) = hdr s (q - 8)" if "(q, n) \<in> set L" for q n using untouched_header [OF ut that] k(4) [rule_format, OF that] by simp
    have "heap_inv lim base lo L t"
    proof (rule heap_invI)
      show "freep t \<noteq> 0 \<or> L = []" using heap_ok_freep [OF r(2)] by simp
      show "heap base (lim (brk t)) xs t" by (rule heap_okI [OF r(2)])
      show "0 < n \<and> 8 \<le> p \<and> hsize (hdr t (p - 8)) = n" if "(p, n) \<in> set L" for p n using that k(4) h by simp
    qed (use k(1-3,6,7) r(3,4) in simp_all)
    then show ?thesis using r(1) ut by simp
  next
    assume "handed_out base (lim (brk t)) ?n (?F t) s r t"
    then obtain q ys where q: "r = q + 8" "base + 8 \<le> q" "heap_ok base (lim (brk t)) ys t" "{q..<q + 8 * ?n} \<subseteq> ?F t"
      "free_bytes (hdr t) ys = ?F t - {q..<q + 8 * ?n}" "hsize (hdr t q) = ?n" "writes_in (?F t) base s t" unfolding handed_out_def by blast
    have ut: "untouched L s t" by (rule writes_in_untouched [OF q(7) F k(8)])
    have h: "hdr t (p - 8) = hdr s (p - 8)" if "(p, n) \<in> set L" for p n using untouched_header [OF ut that] k(4) [rule_format, OF that] by simp
    have l: "live ((r, ?n) # L) = {q..<q + 8 * ?n} \<union> live L" using q(1) by simp
    have "heap_inv lim base lo ((r, ?n) # L) t"
    proof (rule heap_invI)
      show "freep t \<noteq> 0 \<or> (r, ?n) # L = []" using heap_ok_freep [OF q(3)] by simp
      show "disjoint_blocks ((r, ?n) # L)" using F q(1,4) k(3) by auto
      show "heap base (lim (brk t)) ys t" by (rule heap_okI [OF q(3)])
      show "free_bytes (hdr t) ys \<inter> live ((r, ?n) # L) = {}" unfolding l q(5) using F by blast
      show "free_bytes (hdr t) ys \<union> live ((r, ?n) # L) = {lo..<lim (brk t)}" unfolding l q(5) all [symmetric] using q(4) by blast
      show "0 < n \<and> 8 \<le> p \<and> hsize (hdr t (p - 8)) = n" if "(p, n) \<in> set ((r, ?n) # L)" for p n
        using that k(4) [rule_format, of p n] h q(1,6) by (auto simp: malloc_units_def)
    qed (use k(1,2) t(3) in auto)
    then show ?thesis using q(1) ut by simp
  qed
  then show ?thesis using t(1,2) by blast
qed

lemma heap_step_inv: "heap_step sbrk base L s M t \<Longrightarrow> heap_inv lim base lo L s \<Longrightarrow> inv (brk s) \<Longrightarrow> heap_inv lim base lo M t \<and> inv (brk t)"
proof (induction rule: heap_step.induct)
  case (step_malloc nbytes s r t L)
  then show ?case using malloc_step [OF step_malloc.prems step_malloc.hyps(1)] by auto
next
  case (step_free r n L s t)
  then show ?case using free_step [OF step_free.prems(1) step_free.hyps(1)] by auto
next
  case (step_store r n L g s)
  then show ?case using store_step [OF step_store.prems(1) step_store.hyps] by simp
qed

lemma heap_run_inv:
  "heap_run sbrk base s L t \<Longrightarrow> heap_inv lim base lo [] s \<Longrightarrow> inv (brk s) \<Longrightarrow> heap_inv lim base lo L t \<and> inv (brk t)"
  by (induction rule: heap_run.induct) (auto dest: heap_step_inv)

end
section \<open>The system call\<close>

text \<open>\<open>sys_sbrk\<close> behind the fetching of its argument, and what the user program sees of it.\<close>

definition sbrk_call :: "u32 \<Rightarrow> 'z ptab_scheme \<Rightarrow> ('z ptab_scheme, int \<times> 'z ptab_scheme) kres" where
  "sbrk_call n s =
     bindR (curproc s) (\<lambda>(cp, s).
     let addr = sz (proc_at s cp)
     in bindR (growproc n s) (\<lambda>(r, s).
        if r < 0 then Inr (-1, s) else Inr (sint addr, s)))"

definition user_sbrk :: "nat \<Rightarrow> 'z ptab_scheme \<Rightarrow> (nat \<times> 'z ptab_scheme) option" where
  "user_sbrk n s = (case sbrk_call (of_nat n) s of Inl e \<Rightarrow> None | Inr (r, t) \<Rightarrow> Some (nat (r mod 2 ^ 32), t))"

lemma sys_sbrk_call: "argint 0 s = Inr (Some n, t) \<Longrightarrow> sys_sbrk s = sbrk_call n t"
  by (simp add: sys_sbrk_def sbrk_call_def)

text \<open>
  A process that runs on this processor with its memory in order: its pages are those below \<open>sz\<close>.
\<close>

definition sbrk_ready :: "'z ptab_scheme \<Rightarrow> bool" where
  "sbrk_ready s \<longleftrightarrow> (\<exists>i G ps. cur s = Some i \<and> i < length (procs s) \<and> kstack (proc_at s i) \<noteq> 0 \<and> pgdir (proc_at s i) \<noteq> 0 \<and>
     sz (proc_at s i) < KERNBASE \<and> aspace (pgdir (proc_at s i)) G ps s \<and>
     uset (mem s) (pgdir (proc_at s i)) = {v. 4096 * v < unat (sz (proc_at s i))})"

definition proc_sz :: "'z ptab_scheme \<Rightarrow> nat" where
  "proc_sz s = (case cur s of None \<Rightarrow> 0 | Some i \<Rightarrow> unat (sz (proc_at s i)))"

lemma aspace_same:
  assumes "aspace pd G ps s" and "mem t = mem s" and "freelist t = freelist s" and "ld_end t = ld_end s" and "mem_calm t"
  shows "aspace pd G ps t"
  using assms by (simp add: aspace_def kmem_inv_def)

lemma switchuvm_calm:
  assumes "calm s" and "ks \<noteq> 0" and "pd \<noteq> 0"
  shows "\<exists>g d. switchuvm (Some (ks, pd)) s = Inr (s\<lparr>gdt := g, tss := d, task_reg := 40, cr3 := V2P pd\<rparr>)"
proof -
  have ok: "cpu_ok s" and n: "noted s = s" using assms(1) by (simp_all add: calm_def)
  have m: "mycpu (pushed s) = Inr (this_cpu s)" using ok by (simp add: mycpu_this)
  have "popcli ((pushed s)\<lparr>gdt := g, tss := d, task_reg := 40, cr3 := V2P pd\<rparr>) = Inr (s\<lparr>gdt := g, tss := d, task_reg := 40, cr3 := V2P pd\<rparr>)" for g d
  proof -
    let ?u = "s\<lparr>gdt := g, tss := d, task_reg := 40, cr3 := V2P pd\<rparr>"
    have "calm ?u" using assms(1) calm_same [of s ?u] by (simp add: mach_same_def)
    then have "popcli (pushed ?u) = Inr ?u" by (simp add: calm_def popcli_ok cpu_ok_depth popped_pushed)
    moreover have "pushed ?u = (pushed s)\<lparr>gdt := g, tss := d, task_reg := 40, cr3 := V2P pd\<rparr>"
      using this_cpu_cong [of ?u s] by (intro vm.equality) (simp_all add: pushed_def)
    ultimately show ?thesis by simp
  qed
  then show ?thesis using assms(2,3) m by (auto simp: switchuvm_def pushcli_ok [OF ok] Let_def)
qed

text \<open>
  Growing: the process has more memory, with all its pages, or memory ran out and nothing of it
  is left behind.
\<close>

lemma sbrk_ready_after:
  assumes "mem_frame s t" and "aspace pd G ps t" and "uset (mem t) pd = {v. 4096 * v < unat z}" and "z < KERNBASE"
    and "cur s = Some i" and "i < length (procs s)" and "kstack (proc_at s i) \<noteq> 0" and "pd = pgdir (proc_at s i)" and "pd \<noteq> 0"
    and "u = (upd_proc i (\<lambda>q. q\<lparr>sz := z\<rparr>) t)\<lparr>gdt := g, tss := d, task_reg := 40, cr3 := c\<rparr>"
  shows "sbrk_ready u" and "proc_sz u = unat z"
proof -
  obtain m l where t: "t = s\<lparr>mem := m, freelist := l\<rparr>" using mem_frameD [OF assms(1)] by blast
  have ms: "mach_same t u" by (simp add: assms(10) upd_proc_def mach_same_def)
  have cu: "cur u = Some i" using cur_same [OF ms] mem_frame_calm(3) [OF assms(1)] assms(5) by simp
  have p: "procs u = upd_nth i (\<lambda>q. q\<lparr>sz := z\<rparr>) (procs s)" by (simp add: assms(10) t upd_proc_def)
  have pi: "proc_at u i = (proc_at s i)\<lparr>sz := z\<rparr>" using assms(6) by (simp add: p)
  have "mem_calm u" using aspaceD(1) [OF assms(2)] calm_same [OF ms] mach_same_facts [OF ms] by (simp add: mem_calm_def)
  then have "aspace pd G ps u" by (rule aspace_same [OF assms(2), rotated -1]) (simp_all add: assms(10) upd_proc_def)
  moreover have "mem u = mem t" by (simp add: assms(10) upd_proc_def)
  ultimately show "sbrk_ready u" unfolding sbrk_ready_def using cu pi p assms(3,4,6-9)
    by (intro exI [of _ i] exI [of _ G] exI [of _ ps]) simp
  show "proc_sz u = unat z" by (simp add: proc_sz_def cu pi)
qed

lemma growproc_grows:
  assumes "sbrk_ready s" and "0 < n" and "n < 2 ^ 31"
  shows "\<exists>r t. growproc (of_nat n) s = Inr (r, t) \<and> sbrk_ready t \<and>
    (r = -1 \<and> proc_sz t = proc_sz s \<or> r = 0 \<and> proc_sz t = proc_sz s + n)"
proof -
  from assms(1) obtain i G ps where k: "cur s = Some i" "i < length (procs s)" "kstack (proc_at s i) \<noteq> 0" "pgdir (proc_at s i) \<noteq> 0"
    "sz (proc_at s i) < KERNBASE" "aspace (pgdir (proc_at s i)) G ps s"
    "uset (mem s) (pgdir (proc_at s i)) = {v. 4096 * v < unat (sz (proc_at s i))}"
    unfolding sbrk_ready_def by (elim exE conjE)
  let ?pd = "pgdir (proc_at s i)" and ?z = "sz (proc_at s i)" and ?n = "of_nat n :: u32"
  let ?D = "urange ?z (?z + ?n)"
  have c: "calm s" using aspaceD(1) [OF k(6)] by (simp add: mem_calm_def)
  have un: "unat ?n = n" using assms(3) by (simp add: unat_of_nat)
  have uz: "unat ?z < 2147483648" using k(5) by (simp add: word_less_nat_alt)
  have us: "unat (?z + ?n) = unat ?z + n" using un uz assms(3) by (simp add: unat_word_ariths)
  have "sint ?n = int n" using sint_small [of ?n] un assms(3) by simp
  then have sn: "0 < sint ?n" "?n \<noteq> 0" using assms(2) un by auto
  have nz: "?z + ?n \<noteq> 0" using us assms(2) by (simp add: u32_eq_iff)
  have sz: "proc_sz s = unat ?z" by (simp add: proc_sz_def k(1))
  have g: "growproc ?n s = bindR (allocuvm ?pd ?z (?z + ?n) s) (\<lambda>(sz1, t). if sz1 = 0 then Inr (-1, t)
      else bindR (switchuvm (Some (kstack (proc_at (upd_proc i (\<lambda>q. q\<lparr>sz := sz1\<rparr>) t) i), pgdir (proc_at (upd_proc i (\<lambda>q. q\<lparr>sz := sz1\<rparr>) t) i)))
        (upd_proc i (\<lambda>q. q\<lparr>sz := sz1\<rparr>) t)) (\<lambda>t. Inr (0, t)))"
    using c k(1) sn unfolding growproc_def Let_def by simp
  show ?thesis
  proof (cases "?z + ?n < KERNBASE")
    case False
    then have "growproc ?n s = Inr (-1, s)" unfolding g by (simp add: allocuvm_def linorder_not_less)
    then show ?thesis using assms(1) by (intro exI [of _ "-1"] exI [of _ s]) simp
  next
    case True
    have le: "?z \<le> ?z + ?n" using us by (simp add: word_le_nat_alt)
    have dis: "uset (mem s) ?pd \<inter> ?D = {}" unfolding k(7) by (auto simp: urange_def)
    from allocuvm_grows_or_undoes [OF k(6) True le dis] obtain r ps' t where t: "allocuvm ?pd ?z (?z + ?n) s = Inr (r, t)"
      "r = ?z + ?n \<and> grown ?pd G (\<lambda>_. 6) (\<lambda>_ _. 0) ?D ps s ps' t \<or> r = 0 \<and> undone ?pd G ?D s ps' t" by blast
    from t(2) show ?thesis
    proof (elim disjE conjE)
      assume r: "r = ?z + ?n" and gr: "grown ?pd G (\<lambda>_. 6) (\<lambda>_ _. 0) ?D ps s ps' t"
      let ?t = "upd_proc i (\<lambda>q. q\<lparr>sz := ?z + ?n\<rparr>) t"
      have fr: "mem_frame s t" "aspace ?pd G ps' t" using gr by (simp_all add: grown_def)
      then obtain m l where tt: "t = s\<lparr>mem := m, freelist := l\<rparr>" using mem_frameD by blast
      have pt: "proc_at ?t i = (proc_at s i)\<lparr>sz := ?z + ?n\<rparr>" using k(2) by (simp add: tt upd_proc_def)
      have "uset (mem t) ?pd = {v. 4096 * v < unat (?z + ?n)}"
        unfolding grown_uset(1) [OF gr] k(7) us by (auto simp: urange_def us)
      moreover have "calm ?t" using c mem_frame_calm(1) [OF fr(1)] by simp
      then obtain x d where x: "switchuvm (Some (kstack (proc_at s i), ?pd)) ?t = Inr (?t\<lparr>gdt := x, tss := d, task_reg := 40, cr3 := V2P ?pd\<rparr>)"
        using switchuvm_calm [OF _ k(3,4)] by blast
      ultimately have "sbrk_ready (?t\<lparr>gdt := x, tss := d, task_reg := 40, cr3 := V2P ?pd\<rparr>)"
        "proc_sz (?t\<lparr>gdt := x, tss := d, task_reg := 40, cr3 := V2P ?pd\<rparr>) = unat (?z + ?n)"
        using sbrk_ready_after [OF fr _ True k(1-3) refl k(4) refl] by blast+
      moreover have "growproc ?n s = Inr (0, ?t\<lparr>gdt := x, tss := d, task_reg := 40, cr3 := V2P ?pd\<rparr>)"
        unfolding g t(1) using nz x pt by (simp add: r)
      ultimately show ?thesis using sz us by (intro exI conjI disjI2) simp_all
    next
      assume r: "r = 0" and ud: "undone ?pd G ?D s ps' t"
      have fr: "mem_frame s t" "aspace ?pd G ps' t" "uset (mem t) ?pd \<inter> ?D = {}" using ud by (simp_all add: undone_def)
      then obtain m l where tt: "t = s\<lparr>mem := m, freelist := l\<rparr>" using mem_frameD by blast
      have "present (mem t) ?pd v = present (mem s) ?pd v" if "v < 524288" "v \<notin> ?D" for v using ud that by (simp add: undone_def present_def)
      then have "uset (mem t) ?pd = uset (mem s) ?pd" using fr(3) dis unfolding uset_def by blast
      moreover have "procs t = procs s" "cur t = Some i" using tt mem_frame_calm(3) [OF fr(1)] k(1) by simp_all
      ultimately have "sbrk_ready t" "proc_sz t = proc_sz s" using k fr(2) unfolding sbrk_ready_def proc_sz_def by auto
      then show ?thesis unfolding g t(1) using r by (intro exI [of _ "-1"] exI [of _ t]) simp
    qed
  qed
qed

lemma user_sbrk_grows:
  assumes "sbrk_ready w" and "0 < n" and "n < 2 ^ 31"
  shows "\<exists>r v. user_sbrk n w = Some (r, v) \<and> sbrk_ready v \<and>
    (r = 2 ^ 32 - 1 \<and> proc_sz v = proc_sz w \<or> r = proc_sz w \<and> proc_sz v = proc_sz w + n \<and> proc_sz v < 2 ^ 31)"
proof -
  from growproc_grows [OF assms] obtain r v where v: "growproc (of_nat n) w = Inr (r, v)" "sbrk_ready v"
    "r = -1 \<and> proc_sz v = proc_sz w \<or> r = 0 \<and> proc_sz v = proc_sz w + n" by blast
  have lt: "proc_sz u < 2 ^ 31" if "sbrk_ready u" for u :: "'a ptab_scheme"
    using that by (auto simp: sbrk_ready_def proc_sz_def word_less_nat_alt)
  obtain i where i: "cur w = Some i" "calm w" using assms(1) by (auto simp: sbrk_ready_def dest!: aspaceD(1) simp: mem_calm_def)
  have "sint (sz (proc_at w i)) = int (proc_sz w)" using lt [OF assms(1)] i(1) by (intro trans [OF sint_small]) (simp_all add: proc_sz_def)
  then have "user_sbrk n w = Some (if r < 0 then 2 ^ 32 - 1 else proc_sz w, v)"
    using i v(1) lt [OF assms(1)] by (simp add: user_sbrk_def sbrk_call_def Let_def nat_mod_distrib)
  then show ?thesis using v(2,3) lt [OF v(2)] by auto
qed

interpretation ub: break user_sbrk proc_sz sbrk_ready
  by unfold_locales (rule user_sbrk_grows)

section \<open>Demonstration\<close>

text \<open>
  A process with one page, whose \<open>base\<close> is at 2048. In \<open>demo_heap\<close> it has not allocated
  anything; \<open>demo_heap2\<close> has a free block of 100 units at 2056 and a block in use behind it.
\<close>

definition demo_user :: ptab where
  "demo_user = demo_run\<lparr>mem := mem demo_as, freelist := freelist demo_as, ld_end := ld_end demo_as,
     procs := upd_nth 1 (\<lambda>p. p\<lparr>pgdir := 0x80400000, kstack := 0x80404000, sz := 0x1000\<rparr>) (procs demo_run)\<rparr>"

definition demo_heap :: "ptab umem" where
  "demo_heap = \<lparr>hdr = (\<lambda>_. \<lparr>hptr = 0, hsize = 0\<rparr>), freep = 0, brk = demo_user\<rparr>"

definition demo_heap2 :: "ptab umem" where
  "demo_heap2 = \<lparr>hdr = (\<lambda>_. \<lparr>hptr = 0, hsize = 0\<rparr>)(2048 := \<lparr>hptr = 2056, hsize = 0\<rparr>, 2056 := \<lparr>hptr = 2048, hsize = 100\<rparr>,
     2856 := \<lparr>hptr = 0, hsize = 155\<rparr>), freep = 2048, brk = demo_user\<rparr>"

lemma demo_user_ready: "sbrk_ready demo_user" "proc_sz demo_user = 4096"
proof -
  have ms: "mach_same demo_run demo_user" by (simp add: demo_user_def mach_same_def)
  have c: "calm demo_user" "cur demo_user = Some 1" "lock_free L_kmem demo_user"
    using calm_same [OF ms] cur_same [OF ms] mach_same_facts [OF ms] demo_run_calm by simp_all
  have p: "length (procs demo_user) = 64" "proc_at demo_user 1 = (proc_at demo_run 1)\<lparr>pgdir := 0x80400000, kstack := 0x80404000, sz := 0x1000\<rparr>"
    using demo_run_calm(7) by (simp_all add: demo_user_def)
  have m: "mem demo_user = mem demo_as" by (simp add: demo_user_def)
  have "aspace 0x80400000 {} [0x80403000] demo_user"
    by (rule aspace_same [OF demo_as_aspace]) (use c in \<open>simp_all add: demo_user_def mem_calm_def\<close>)
  moreover have "{v. 4096 * v < (4096 :: nat)} = {0}" by auto
  ultimately show "sbrk_ready demo_user" unfolding sbrk_ready_def
    using c(2) p m demo_as_uset by (intro exI [of _ 1] exI [of _ "{}"] exI [of _ "[0x80403000]"]) simp
  show "proc_sz demo_user = 4096" using c(2) p by (simp add: proc_sz_def)
qed

lemma demo_heap_inv: "heap_inv proc_sz 2048 4096 [] demo_heap" "heap_inv proc_sz 2048 2056 [(2864, 155)] demo_heap2"
proof -
  show "heap_inv proc_sz 2048 4096 [] demo_heap"
    by (rule heap_invI [where xs = "[]"]) (simp_all add: demo_heap_def demo_user_ready heap_def)
  show "heap_inv proc_sz 2048 2056 [(2864, 155)] demo_heap2"
    by (rule heap_invI [where xs = "[2056]"]) (auto simp: demo_heap2_def demo_user_ready heap_def heap_ok_def block_def)
qed

section \<open>Properties\<close>



text \<open>
  C8: a program that uses the heap. Whatever it allocates, frees and stores, in any order, as long
  as it frees only blocks it has and stores only into them: the blocks in use never overlap,
  nothing in use is on the free list, and no byte that the kernel gave for the heap is lost; the
  headers of the blocks in use are intact; and the next \<open>malloc\<close> and the \<open>free\<close> of any block in
  use return, without a change to the (other) blocks in use.
\<close>

theorem heap_run_conserves:
  assumes "heap_run user_sbrk base s L t" and "sbrk_ready (brk s)" and "freep s = 0" and "0 < base" and "base + 8 \<le> proc_sz (brk s)"
  shows "disjoint_blocks L \<and> (\<exists>xs. heap base (proc_sz (brk t)) xs t \<and> free_bytes (hdr t) xs \<inter> live L = {} \<and>
      free_bytes (hdr t) xs \<union> live L = {proc_sz (brk s)..<proc_sz (brk t)}) \<and>
    (\<forall>r n. (r, n) \<in> set L \<longrightarrow> hsize (hdr t (r - 8)) = n \<and> (\<exists>u. ufree r t = Some u \<and> untouched (remove1 (r, n) L) t u)) \<and>
    (\<forall>nbytes\<le>2 ^ 31 - 16. \<exists>r u. malloc user_sbrk base nbytes t = Some (r, u) \<and> untouched L t u)"
proof -
  have "proc_sz (brk s) < 2 ^ 31" using assms(2) by (auto simp: sbrk_ready_def proc_sz_def word_less_nat_alt)
  then have "heap_inv proc_sz base (proc_sz (brk s)) [] s"
    using assms(3-5) by (intro heap_invI [where xs = "[]"]) (simp_all add: heap_def)
  then have h: "heap_inv proc_sz base (proc_sz (brk s)) L t" "sbrk_ready (brk t)" using ub.heap_run_inv [OF assms(1)] assms(2) by blast+
  have "\<exists>u. ufree r t = Some u \<and> untouched (remove1 (r, n) L) t u" if "(r, n) \<in> set L" for r n using free_step [OF h(1) that] by blast
  moreover have "\<exists>r u. malloc user_sbrk base nbytes t = Some (r, u) \<and> untouched L t u" if "nbytes \<le> 2 ^ 31 - 16" for nbytes
    using ub.malloc_step [OF h that] by blast
  ultimately show ?thesis using heap_invD [OF h(1)] by blast
qed

theorem heap_run_conserves_witness:
  "\<exists>L t. heap_run user_sbrk 2048 demo_heap L t \<and> (\<exists>q. malloc user_sbrk 2048 100 demo_heap = Some (q, t)) \<and>
    disjoint_blocks L \<and> (\<exists>xs. heap 2048 (proc_sz (brk t)) xs t \<and> free_bytes (hdr t) xs \<inter> live L = {} \<and>
      free_bytes (hdr t) xs \<union> live L = {proc_sz (brk demo_heap)..<proc_sz (brk t)}) \<and>
    (\<forall>r n. (r, n) \<in> set L \<longrightarrow> hsize (hdr t (r - 8)) = n \<and> (\<exists>u. ufree r t = Some u \<and> untouched (remove1 (r, n) L) t u)) \<and>
    (\<forall>nbytes\<le>2 ^ 31 - 16. \<exists>r u. malloc user_sbrk 2048 nbytes t = Some (r, u) \<and> untouched L t u)"
proof -
  have r: "sbrk_ready (brk demo_heap)" "freep demo_heap = 0" "0 < (2048 :: nat)" "2048 + 8 \<le> proc_sz (brk demo_heap)"
    by (simp_all add: demo_heap_def demo_user_ready)
  from ub.malloc_step [OF demo_heap_inv(1) r(1), of 100] obtain q t where t: "malloc user_sbrk 2048 100 demo_heap = Some (q, t)" by auto
  have "heap_run user_sbrk 2048 demo_heap (if q = 0 then [] else [(q, malloc_units 100)]) t"
    by (rule run_step [OF run_start step_malloc [OF _ t]]) simp
  then show ?thesis using heap_run_conserves [OF _ r] t by blast
qed

end
