(* ===== verification/Mp.thy ===== *)
theory Mp
  imports Kalloc Spinlock
begin

unbundle bit_operations_syntax

text \<open>
  Finding the processors at boot (\<open>mp.c\<close>, \<open>mp.h\<close>): the search for the tables that the BIOS left
  in memory, their checks, and \<open>mpinit\<close>, which fills \<open>cpus\<close> from them. The memory is read only;
  the fields of the structures are at their offsets in it.
\<close>

section \<open>Definitions\<close>

text \<open>
  The state of the machine with the variables of \<open>mp.c\<close>; \<open>ports\<close> are the bytes written to I/O
  ports, in order.
\<close>

record mpst = mach +
  lapic :: u32
  ioapicid :: u8
  ports :: "(nat \<times> u8) list"

definition load16 :: "memory \<Rightarrow> u32 \<Rightarrow> u16" where
  "load16 m a = ucast (m a) OR push_bit 8 (ucast (m (a + 1)))"

text \<open>\<open>memcmp\<close> with a string constant gives 0.\<close>

definition has_sig :: "memory \<Rightarrow> u32 \<Rightarrow> u8 list \<Rightarrow> bool" where
  "has_sig m p cs \<longleftrightarrow> map (\<lambda>i. m (p + of_nat i)) [0..<length cs] = cs"

primrec mp_sum_loop :: "memory \<Rightarrow> u32 \<Rightarrow> nat \<Rightarrow> u32 \<Rightarrow> u32" where
  "mp_sum_loop m addr 0 acc = acc"
| "mp_sum_loop m addr (Suc n) acc = mp_sum_loop m (addr + 1) n (acc + ucast (m addr))"

definition mp_sum :: "memory \<Rightarrow> u32 \<Rightarrow> nat \<Rightarrow> u8" where
  "mp_sum m addr len = ucast (mp_sum_loop m addr len 0)"

text \<open>
  The search takes steps of 16 bytes, the size of \<open>struct mp\<close>; the lengths it is called with are
  multiples of that, and the ranges do not reach the end of the address space.
\<close>

primrec mpsearch1_loop :: "memory \<Rightarrow> nat \<Rightarrow> u32 \<Rightarrow> u32" where
  "mpsearch1_loop m 0 p = 0"
| "mpsearch1_loop m (Suc n) p =
     (if has_sig m p [0x5F, 0x4D, 0x50, 0x5F] \<and> mp_sum m p 16 = 0 then p else mpsearch1_loop m n (p + 16))"

definition mpsearch1 :: "memory \<Rightarrow> u32 \<Rightarrow> nat \<Rightarrow> u32" where
  "mpsearch1 m a len = mpsearch1_loop m (len div 16) (P2V a)"

definition mpsearch :: "memory \<Rightarrow> u32" where
  "mpsearch m =
     (let bda = P2V 0x400;
          p = push_bit 4 (push_bit 8 (ucast (m (bda + 0x0F))) OR ucast (m (bda + 0x0E)))
      in if p \<noteq> 0 then
           let mp = mpsearch1 m p 1024
           in if mp \<noteq> 0 then mp else mpsearch1 m 0xF0000 0x10000
         else
           let p = (push_bit 8 (ucast (m (bda + 0x14))) OR ucast (m (bda + 0x13))) * 1024;
               mp = mpsearch1 m (p - 1024) 1024
           in if mp \<noteq> 0 then mp else mpsearch1 m 0xF0000 0x10000)"

text \<open>The configuration table and the floating pointer structure that led to it.\<close>

definition mpconfig :: "memory \<Rightarrow> (u32 \<times> u32) option" where
  "mpconfig m =
     (let mp = mpsearch m
      in if mp = 0 \<or> load32 m (mp + 4) = 0 then None
         else
           let conf = P2V (load32 m (mp + 4))
           in if \<not> has_sig m conf [0x50, 0x43, 0x4D, 0x50] then None
              else if m (conf + 6) \<noteq> 1 \<and> m (conf + 6) \<noteq> 4 then None
              else if mp_sum m conf (unat (load16 m (conf + 4))) \<noteq> 0 then None
              else Some (conf, mp))"

text \<open>
  The loop over the entries of the table; \<open>None\<close> when \<open>fuel\<close> rounds were not enough. The
  \<open>break\<close> of the last case leaves the \<open>switch\<close> and not the loop.
\<close>

fun mpinit_loop :: "nat \<Rightarrow> memory \<Rightarrow> u32 \<Rightarrow> u32 \<Rightarrow> bool \<Rightarrow> 'z mpst_scheme \<Rightarrow> (bool \<times> 'z mpst_scheme) option" where
  "mpinit_loop 0 m p e ismp s = None"
| "mpinit_loop (Suc fuel) m p e ismp s =
     (if p < e then
        if m p = 0 then
          let s = (if ncpu s < 8
                   then s\<lparr>cpus := upd_nth (ncpu s) (\<lambda>c. c\<lparr>apicid := m (p + 1)\<rparr>) (cpus s), ncpu := ncpu s + 1\<rparr>
                   else s)
          in mpinit_loop fuel m (p + 20) e ismp s
        else if m p = 2 then mpinit_loop fuel m (p + 8) e ismp (s\<lparr>ioapicid := m (p + 1)\<rparr>)
        else if m p = 1 \<or> m p = 3 \<or> m p = 4 then mpinit_loop fuel m (p + 8) e ismp s
        else mpinit_loop fuel m p e False s
      else Some (ismp, s))"

text \<open>\<open>imcr\<close> is what the port 0x23 reads as.\<close>

definition mpinit :: "nat \<Rightarrow> memory \<Rightarrow> u8 \<Rightarrow> 'z mpst_scheme \<Rightarrow> ('z mpst_scheme, 'z mpst_scheme) kres" where
  "mpinit fuel m imcr s = (case mpconfig m of
     None \<Rightarrow> Inl (Panic ''Expect to run on an SMP'')
   | Some (conf, mp) \<Rightarrow>
       let s = s\<lparr>lapic := load32 m (conf + 36)\<rparr>
       in case mpinit_loop fuel m (conf + 44) (conf + ucast (load16 m (conf + 4))) True s of
            None \<Rightarrow> Inl Diverges
          | Some (ismp, s) \<Rightarrow>
              if \<not> ismp then Inl (Panic ''Didn't find a suitable machine'')
              else if m (mp + 12) \<noteq> 0 then Inr (s\<lparr>ports := ports s @ [(0x22, 0x70), (0x23, imcr OR 1)]\<rparr>)
              else Inr s)"

section \<open>Tables\<close>

text \<open>
  The entries of a table that the code knows: a processor, an I/O APIC, and others, which it skips; how long
  they are and what they look like in memory.
\<close>

datatype mp_entry = Cpu u8 | Ioapic u8 | Other u8

fun entry_size :: "mp_entry \<Rightarrow> nat" where
  "entry_size (Cpu a) = 20"
| "entry_size (Ioapic a) = 8"
| "entry_size (Other t) = 8"

fun entry_at :: "memory \<Rightarrow> u32 \<Rightarrow> mp_entry \<Rightarrow> bool" where
  "entry_at m p (Cpu a) \<longleftrightarrow> m p = 0 \<and> m (p + 1) = a"
| "entry_at m p (Ioapic a) \<longleftrightarrow> m p = 2 \<and> m (p + 1) = a"
| "entry_at m p (Other t) \<longleftrightarrow> m p = t \<and> (t = 1 \<or> t = 3 \<or> t = 4)"

fun table_at :: "memory \<Rightarrow> u32 \<Rightarrow> mp_entry list \<Rightarrow> bool" where
  "table_at m p [] \<longleftrightarrow> True"
| "table_at m p (x # xs) \<longleftrightarrow> entry_at m p x \<and> table_at m (p + of_nat (entry_size x)) xs"

definition table_size :: "mp_entry list \<Rightarrow> nat" where
  "table_size xs = sum_list (map entry_size xs)"

fun cpu_ids :: "mp_entry list \<Rightarrow> u8 list" where
  "cpu_ids [] = []"
| "cpu_ids (Cpu a # xs) = a # cpu_ids xs"
| "cpu_ids (x # xs) = cpu_ids xs"

text \<open>What one entry does to the state.\<close>

fun note_entry :: "mp_entry \<Rightarrow> 'z mpst_scheme \<Rightarrow> 'z mpst_scheme" where
  "note_entry (Cpu a) s = (if ncpu s < 8 then s\<lparr>cpus := upd_nth (ncpu s) (\<lambda>c. c\<lparr>apicid := a\<rparr>) (cpus s), ncpu := ncpu s + 1\<rparr> else s)"
| "note_entry (Ioapic a) s = s\<lparr>ioapicid := a\<rparr>"
| "note_entry (Other t) s = s"

lemma mpinit_loop_entry:
  assumes "entry_at m p x" and "p < e"
  shows "mpinit_loop (Suc fuel) m p e ismp s = mpinit_loop fuel m (p + of_nat (entry_size x)) e ismp (note_entry x s)"
  using assms by (cases x) auto

lemma mpinit_loop_table:
  assumes "table_at m p xs" and "unat p + table_size xs \<le> unat e"
  shows "mpinit_loop (length xs + fuel) m p e ismp s = mpinit_loop fuel m (p + of_nat (table_size xs)) e ismp (fold note_entry xs s)"
  using assms
proof (induction xs arbitrary: p s)
  case Nil
  then show ?case by (simp add: table_size_def)
next
  case (Cons x xs)
  have z: "table_size (x # xs) = entry_size x + table_size xs" "0 < entry_size x" by (cases x; simp add: table_size_def)+
  have lt: "p < e" using Cons.prems(2) z by (simp add: word_less_nat_alt)
  have "unat p + entry_size x < 2 ^ 32" using Cons.prems(2) z unat_u32_less [of e] by simp
  then have u: "unat (p + of_nat (entry_size x)) = unat p + entry_size x" by (simp add: unat_word_ariths unat_of_nat)
  then have "mpinit_loop (length xs + fuel) m (p + of_nat (entry_size x)) e ismp (note_entry x s) =
    mpinit_loop fuel m (p + of_nat (entry_size x) + of_nat (table_size xs)) e ismp (fold note_entry xs (note_entry x s))"
    using Cons.prems z by (intro Cons.IH) simp_all
  then show ?case using mpinit_loop_entry [OF _ lt, of m x "length xs + fuel" ismp s] Cons.prems(1) by (simp add: z(1) add.assoc)
qed

lemma fold_note:
  assumes "length (cpus s) = 8" and "ncpu s \<le> 8" and "t = fold note_entry xs s"
  shows "length (cpus t) = 8 \<and> ncpu t = min 8 (ncpu s + length (cpu_ids xs)) \<and> lapic t = lapic s \<and> locks t = locks s \<and> ports t = ports s \<and>
    map apicid (take (ncpu t) (cpus t)) = map apicid (take (ncpu s) (cpus s)) @ take (8 - ncpu s) (cpu_ids xs)"
  using assms
proof (induction xs arbitrary: s)
  case (Cons x xs)
  show ?case
  proof (cases x)
    case (Cpu a)
    show ?thesis
    proof (cases "ncpu s < 8")
      case True
      define u where "u = s\<lparr>cpus := upd_nth (ncpu s) (\<lambda>c. c\<lparr>apicid := a\<rparr>) (cpus s), ncpu := ncpu s + 1\<rparr>"
      have u: "ncpu u = ncpu s + 1" "length (cpus u) = 8" "lapic u = lapic s" "locks u = locks s" "ports u = ports s"
        using Cons.prems(1) by (simp_all add: u_def)
      have m: "map apicid (take (ncpu u) (cpus u)) = map apicid (take (ncpu s) (cpus s)) @ [a]"
        using True Cons.prems(1) by (simp add: u_def upd_nth_def take_Suc_conv_app_nth)
      have "t = fold note_entry xs u" using Cons.prems(3) Cpu True by (simp add: u_def)
      then have "length (cpus t) = 8 \<and> ncpu t = min 8 (ncpu u + length (cpu_ids xs)) \<and> lapic t = lapic u \<and> locks t = locks u \<and> ports t = ports u \<and>
        map apicid (take (ncpu t) (cpus t)) = map apicid (take (ncpu u) (cpus u)) @ take (8 - ncpu u) (cpu_ids xs)"
        using True u(1,2) by (intro Cons.IH) simp_all
      moreover have "take (8 - ncpu s) (a # cpu_ids xs) = a # take (8 - ncpu u) (cpu_ids xs)" using True u(1) by (simp add: take_Cons')
      ultimately show ?thesis unfolding u(3-5) m Cpu cpu_ids.simps using u(1) by auto
    next
      case False
      then show ?thesis using Cons.IH [of s] Cons.prems Cpu by auto
    qed
  next
    case (Ioapic a)
    then show ?thesis using Cons.IH [of "s\<lparr>ioapicid := a\<rparr>"] Cons.prems by auto
  next
    case (Other a)
    then show ?thesis using Cons.IH [of s] Cons.prems by auto
  qed
qed simp

text \<open>What the searches find is what they look for.\<close>

lemma mpsearch1_loop_sound: "mpsearch1_loop m n p \<noteq> 0 \<Longrightarrow>
    has_sig m (mpsearch1_loop m n p) [0x5F, 0x4D, 0x50, 0x5F] \<and> mp_sum m (mpsearch1_loop m n p) 16 = 0"
  by (induction n arbitrary: p) auto

lemma mpsearch_sound:
  assumes "mpsearch m \<noteq> 0"
  shows "has_sig m (mpsearch m) [0x5F, 0x4D, 0x50, 0x5F] \<and> mp_sum m (mpsearch m) 16 = 0"
proof -
  obtain a n where "mpsearch m = mpsearch1 m a n" unfolding mpsearch_def Let_def by metis
  then show ?thesis using mpsearch1_loop_sound [of m] assms by (simp add: mpsearch1_def)
qed

lemma mpconfigD:
  assumes "mpconfig m = Some (conf, mp)"
  shows "mp = mpsearch m" "mp \<noteq> 0" "conf = P2V (load32 m (mp + 4))" "has_sig m conf [0x50, 0x43, 0x4D, 0x50]"
    "mp_sum m conf (unat (load16 m (conf + 4))) = 0"
  using assms by (auto simp: mpconfig_def Let_def split: if_splits)

text \<open>At an entry the code does not know the loop stays where it is.\<close>

lemma mpinit_loop_stuck: "p < e \<Longrightarrow> m p \<notin> {0, 1, 2, 3, 4} \<Longrightarrow> mpinit_loop fuel m p e ismp s = None"
  by (induction fuel arbitrary: ismp) auto

lemma mpinit_loop_ismp: "mpinit_loop fuel m p e True s = Some (ismp, t) \<Longrightarrow> ismp"
proof (induction fuel arbitrary: p s)
  case (Suc fuel)
  show ?case
  proof (cases "p < e \<and> m p \<noteq> 0 \<and> m p \<noteq> 2 \<and> \<not> (m p = 1 \<or> m p = 3 \<or> m p = 4)")
    case True
    then show ?thesis using mpinit_loop_stuck [of p e m "Suc fuel" True s] True Suc.prems by simp
  next
    case False
    then show ?thesis using Suc by (auto simp: Let_def split: if_splits)
  qed
qed simp

lemma mpinit_loop_more: "mpinit_loop fuel m p e ismp s = Some r \<Longrightarrow> mpinit_loop (k + fuel) m p e ismp s = Some r"
proof (induction fuel arbitrary: p ismp s)
  case (Suc fuel)
  then show ?case by (auto simp: Let_def split: if_splits)
qed simp

declare mpinit_loop.simps [simp del]

lemma unat_ucast_u16: "unat (ucast (x :: u16) :: u32) = unat x"
proof -
  have "unat x < 2 ^ 16" using unsigned_less [of x] by simp
  then show ?thesis by (simp add: unsigned_ucast_eq take_bit_nat_eq_self)
qed

lemma find_first:
  assumes "distinct xs" and "i < length xs" and "\<And>j. j < length xs \<Longrightarrow> f j = xs ! j"
  shows "find (\<lambda>j. f j = xs ! i) [0..<length xs] = Some i"
  unfolding find_upt_Some using assms by (auto simp: nth_eq_iff_index_eq)

section \<open>Demonstration\<close>

text \<open>
  The tables of a machine with two processors in the extended BIOS data area at 0x9FC00, the
  floating pointer structure followed by the configuration table; in \<open>demo_bad\<close> the last entry
  has the unknown type 9.
\<close>

definition mp_bytes :: "u8 list \<Rightarrow> memory" where
  "mp_bytes bs a = (if a = 0x8000040E then 0xC0 else if a = 0x8000040F then 0x9F
     else if 0x8009FC00 \<le> a \<and> unat (a - 0x8009FC00) < length bs then bs ! unat (a - 0x8009FC00) else 0)"

definition demo_good :: memory where
  "demo_good = mp_bytes ([95, 77, 80, 95, 16, 252, 9, 0, 1, 4, 11, 0, 128, 0, 0, 0] @
     [80, 67, 77, 80, 108, 0, 4, 182, 32, 32, 32, 32, 32, 32, 32, 32, 32, 32, 32, 32, 32, 32, 32, 32, 32, 32, 32, 32, 0, 0, 0, 0, 0, 0, 5, 0, 0, 
     0, 224, 254, 0, 0, 0, 0, 0, 0, 20, 3, 0, 0, 0, 0, 0, 0, 0, 0, 0, 0, 0, 0, 0, 0, 0, 0, 0, 4, 20, 1, 0, 0, 0, 0, 0, 0, 0, 0, 0, 0, 0, 0, 0, 0, 
     0, 0, 1, 0, 73, 83, 65, 32, 32, 32, 2, 2, 17, 1, 0, 0, 192, 254, 3, 0, 0, 0, 0, 0, 2, 0])"

definition demo_bad :: memory where
  "demo_bad = mp_bytes ([95, 77, 80, 95, 16, 252, 9, 0, 1, 4, 11, 0, 128, 0, 0, 0] @
     [80, 67, 77, 80, 92, 0, 4, 214, 32, 32, 32, 32, 32, 32, 32, 32, 32, 32, 32, 32, 32, 32, 32, 32, 32, 32, 32, 32, 0, 0, 0, 0, 0, 0, 3, 0, 0, 
     0, 224, 254, 0, 0, 0, 0, 0, 0, 20, 3, 0, 0, 0, 0, 0, 0, 0, 0, 0, 0, 0, 0, 0, 0, 0, 0, 0, 4, 20, 1, 0, 0, 0, 0, 0, 0, 0, 0, 0, 0, 0, 0, 0, 0, 
     0, 0, 9, 0, 0, 0, 0, 0, 0, 0])"

definition demo_boot :: mpst where
  "demo_boot = \<lparr>cpus = replicate 8 \<lparr>apicid = 0, ncli = 0, intena = False, cpu_proc = None\<rparr>, ncpu = 0, lapic_id = 0, eflags_if = False,
     locks = (\<lambda>_. \<lparr>lk_locked = 0, lk_cpu = None\<rparr>), lapic = 0, ioapicid = 0, ports = []\<rparr>"

lemma demo_config: "mpconfig demo_good = Some (0x8009FC10, 0x8009FC00)" "mpconfig demo_bad = Some (0x8009FC10, 0x8009FC00)"
  by code_simp+

section \<open>Properties\<close>

text \<open>
  C16: finding the processors. Where the tables are as the specification has them, with entries
  \<open>xs\<close> that the code knows, \<open>mpinit\<close> returns with the local APIC ids of the first eight
  processors in \<open>cpus\<close>, in the order of the table, and with their number in \<open>ncpu\<close>; the table it used was found
  through a floating pointer structure with the right signature and check sum. If the ids are
  different, each processor then finds its own entry with \<open>mycpu\<close>.
\<close>

theorem mpinit_finds_processors:
  assumes "mpconfig m = Some (conf, mp)" and "table_at m (conf + 44) xs" and "unat (load16 m (conf + 4)) = 44 + table_size xs"
    and "unat conf + 44 + table_size xs < 2 ^ 32" and "length xs < fuel" and "length (cpus s) = 8" and "ncpu s = 0"
  shows "returnsR (mpinit fuel m imcr s) (\<lambda>t. ncpu t = min 8 (length (cpu_ids xs)) \<and> map apicid (take (ncpu t) (cpus t)) = take 8 (cpu_ids xs) \<and>
    lapic t = load32 m (conf + 36) \<and> locks t = locks s \<and> has_sig m mp [0x5F, 0x4D, 0x50, 0x5F] \<and> mp_sum m mp 16 = 0 \<and>
    (distinct (take 8 (cpu_ids xs)) \<longrightarrow> (\<forall>i<ncpu t. mycpu (t\<lparr>lapic_id := cpu_ids xs ! i, eflags_if := False\<rparr>) = Inr i)))"
proof -
  let ?s = "s\<lparr>lapic := load32 m (conf + 36)\<rparr>" and ?e = "conf + ucast (load16 m (conf + 4))"
  define t where "t = fold note_entry xs ?s"
  have e: "unat (conf + 44) = unat conf + 44" "unat ?e = unat conf + 44 + table_size xs"
    using assms(3,4) by (simp_all add: unat_word_ariths unat_ucast_u16)
  obtain k where k: "fuel = length xs + Suc k" using assms(5) less_imp_Suc_add by fastforce
  have "ucast (load16 m (conf + 4)) = (of_nat (44 + table_size xs) :: u32)"
    using assms(3,4) by (simp add: u32_eq_iff unat_ucast_u16 unat_of_nat del: of_nat_add)
  then have ce: "conf + 44 + of_nat (table_size xs) = ?e" by (simp add: add.assoc)
  have "mpinit_loop fuel m (conf + 44) ?e True ?s = mpinit_loop (Suc k) m (conf + 44 + of_nat (table_size xs)) ?e True t"
    unfolding k t_def by (rule mpinit_loop_table [OF assms(2)]) (use e in simp)
  also have "\<dots> = Some (True, t)" unfolding ce by (simp add: mpinit_loop.simps(2))
  finally have l: "mpinit_loop fuel m (conf + 44) ?e True ?s = Some (True, t)" .
  define u where "u = (if m (mp + 12) \<noteq> 0 then t\<lparr>ports := ports t @ [(0x22, 0x70), (0x23, imcr OR 1)]\<rparr> else t)"
  have "mpinit fuel m imcr s = Inr u" by (simp add: mpinit_def assms(1) l u_def)
  moreover have f: "length (cpus u) = 8" "ncpu u = min 8 (length (cpu_ids xs))" "lapic u = load32 m (conf + 36)" "locks u = locks s"
    "map apicid (take (ncpu u) (cpus u)) = take 8 (cpu_ids xs)"
    using fold_note [OF _ _ t_def] assms(6,7) by (auto simp: u_def)
  moreover have "has_sig m mp [0x5F, 0x4D, 0x50, 0x5F] \<and> mp_sum m mp 16 = 0"
    using mpsearch_sound mpconfigD(1,2) [OF assms(1)] by simp
  moreover have "mycpu (u\<lparr>lapic_id := cpu_ids xs ! i, eflags_if := False\<rparr>) = Inr i" if d: "distinct (take 8 (cpu_ids xs))" and i: "i < ncpu u" for i
  proof -
    have n: "ncpu u = length (take 8 (cpu_ids xs))" using f(2) by simp
    have "apicid (cpus u ! j) = take 8 (cpu_ids xs) ! j" if "j < ncpu u" for j
      using that arg_cong [OF f(5), of "\<lambda>l. l ! j"] f(1) n by simp
    then show ?thesis using find_first [OF d, of i "\<lambda>j. apicid (cpus u ! j)"] i n by (simp add: mycpu_def)
  qed
  ultimately show ?thesis by simp
qed

theorem mpinit_finds_processors_witness:
  "returnsR (mpinit 6 demo_good 0 demo_boot) (\<lambda>t. ncpu t = Suc (Suc 0) \<and> map apicid (take (ncpu t) (cpus t)) = [0, 4] \<and>
    lapic t = 0xFEE00000 \<and> locks t = locks demo_boot \<and> has_sig demo_good 0x8009FC00 [0x5F, 0x4D, 0x50, 0x5F] \<and> mp_sum demo_good 0x8009FC00 16 = 0 \<and>
    (\<forall>i<ncpu t. mycpu (t\<lparr>lapic_id := [0, 4] ! i, eflags_if := False\<rparr>) = Inr i))"
proof -
  let ?xs = "[Cpu 0, Cpu 4, Other 1, Ioapic 2, Other 3]"
  have t: "table_at demo_good (0x8009FC10 + 44) ?xs" "load16 demo_good (0x8009FC10 + 4) = 108" "load32 demo_good (0x8009FC10 + 36) = 0xFEE00000" by code_simp+
  have z: "table_size ?xs = 64" by (simp add: table_size_def)
  have "length (cpus demo_boot) = 8" "ncpu demo_boot = 0" by (simp_all add: demo_boot_def)
  then show ?thesis using mpinit_finds_processors [OF demo_config(1) t(1), of 6 demo_boot 0] t(2,3) z by simp
qed

text \<open>
  C17: an unknown entry. Where the table has, after some entries the code knows, one of another
  type, \<open>mpinit\<close> never returns: the loop looks at the same entry again and again. The message
  for an unsuitable machine is never shown, for any contents of the memory.
\<close>

theorem mpinit_unknown_entry_hangs:
  "mpinit fuel m imcr s \<noteq> Inl (Panic ''Didn't find a suitable machine'') \<and>
   (mpconfig m = Some (conf, mp) \<and> table_at m (conf + 44) xs \<and> 44 + table_size xs < unat (load16 m (conf + 4)) \<and>
    unat conf + unat (load16 m (conf + 4)) < 2 ^ 32 \<and> 4 < m (conf + of_nat (44 + table_size xs)) \<longrightarrow> mpinit fuel m imcr s = Inl Diverges)"
proof (intro conjI impI)
  show "mpinit fuel m imcr s \<noteq> Inl (Panic ''Didn't find a suitable machine'')"
    using mpinit_loop_ismp by (fastforce simp: mpinit_def Let_def split: option.splits if_splits)
next
  assume a: "mpconfig m = Some (conf, mp) \<and> table_at m (conf + 44) xs \<and> 44 + table_size xs < unat (load16 m (conf + 4)) \<and>
    unat conf + unat (load16 m (conf + 4)) < 2 ^ 32 \<and> 4 < m (conf + of_nat (44 + table_size xs))"
  let ?s = "s\<lparr>lapic := load32 m (conf + 36)\<rparr>" and ?e = "conf + ucast (load16 m (conf + 4))" and ?p = "conf + of_nat (44 + table_size xs)"
  have u: "unat (ucast (load16 m (conf + 4)) :: u32) = unat (load16 m (conf + 4))" by (rule unat_ucast_u16)
  have e: "unat ?e = unat conf + unat (load16 m (conf + 4))" "unat (conf + 44) = unat conf + 44" "unat ?p = unat conf + (44 + table_size xs)"
    using a u by (simp_all add: unat_word_ariths unat_of_nat del: of_nat_add)
  have p: "?p < ?e" using a e by (simp add: word_less_nat_alt del: of_nat_add)
  have n: "m ?p \<notin> {0, 1, 2, 3, 4}" using a by auto
  have "mpinit_loop (length xs + fuel) m (conf + 44) ?e True ?s = mpinit_loop fuel m ?p ?e True (fold note_entry xs ?s)"
    using mpinit_loop_table [of m "conf + 44" xs ?e fuel True ?s] a e by (simp add: add.assoc)
  then have "mpinit_loop fuel m (conf + 44) ?e True ?s = None"
    using mpinit_loop_stuck [where m = m, OF p n] mpinit_loop_more [of fuel m "conf + 44" ?e True ?s _ "length xs"] by (cases "mpinit_loop fuel m (conf + 44) ?e True ?s") auto
  then show "mpinit fuel m imcr s = Inl Diverges" using a by (simp add: mpinit_def)
qed

theorem mpinit_unknown_entry_hangs_witness:
  "mpconfig demo_bad = Some (0x8009FC10, 0x8009FC00) \<and> mpinit 1000 demo_bad 0 demo_boot = Inl Diverges"
proof -
  have "table_at demo_bad (0x8009FC10 + 44) [Cpu 0, Cpu 4]" "load16 demo_bad (0x8009FC10 + 4) = 92" "4 < demo_bad (0x8009FC10 + 84)" by code_simp+
  then show ?thesis
    using mpinit_unknown_entry_hangs [of 1000 demo_bad 0 demo_boot "0x8009FC10" "0x8009FC00" "[Cpu 0, Cpu 4]"] demo_config(2)
    by (simp add: table_size_def)
qed

end
