(* ===== verification/Apic.thy ===== *)
theory Apic
  imports Mp Memory
begin

unbundle bit_operations_syntax

text \<open>
  The interrupt controllers and the clock: \<open>ioapic.c\<close>, \<open>lapic.c\<close>, \<open>picirq.c\<close> and \<open>uartinit\<close> of
  \<open>uart.c\<close>. What the devices answer is an argument; what is written to them is kept in the state.
  The lemmas show which interrupts are delivered after the boot, and that \<open>cmostime\<close> returns a
  date that the clock showed twice in a row.
\<close>

section \<open>Definitions\<close>

text \<open>
  The registers of the I/O APIC, by their numbers, and all writes to the registers of the local
  APIC, in order; \<open>cons_msgs\<close> are the messages printed.
\<close>

record apicst = mpst +
  ioregs :: "nat \<Rightarrow> u32"
  lapic_writes :: "(nat \<times> u32) list"
  cons_msgs :: "string list"

subsection \<open>The I/O APIC\<close>

definition ioapicread :: "nat \<Rightarrow> 'z apicst_scheme \<Rightarrow> u32" where
  "ioapicread reg s = ioregs s reg"

definition ioapicwrite :: "nat \<Rightarrow> u32 \<Rightarrow> 'z apicst_scheme \<Rightarrow> 'z apicst_scheme" where
  "ioapicwrite reg v s = s\<lparr>ioregs := (ioregs s)(reg := v)\<rparr>"

fun ioapicinit_loop :: "nat \<Rightarrow> nat \<Rightarrow> 'z apicst_scheme \<Rightarrow> 'z apicst_scheme" where
  "ioapicinit_loop i 0 s = s"
| "ioapicinit_loop i (Suc n) s =
     ioapicinit_loop (i + 1) n
       (ioapicwrite (0x10 + 2 * i + 1) 0 (ioapicwrite (0x10 + 2 * i) (0x10000 OR of_nat (32 + i)) s))"

definition ioapicinit :: "'z apicst_scheme \<Rightarrow> 'z apicst_scheme" where
  "ioapicinit s =
     (let maxintr = drop_bit 16 (ioapicread 1 s) AND 0xFF;
          id = drop_bit 24 (ioapicread 0 s);
          s = (if id \<noteq> ucast (ioapicid s) then s\<lparr>cons_msgs := cons_msgs s @ [''ioapicinit: id isn't equal to ioapicid; not a MP'']\<rparr> else s)
      in ioapicinit_loop 0 (unat maxintr + 1) s)"

definition ioapicenable :: "nat \<Rightarrow> u32 \<Rightarrow> 'z apicst_scheme \<Rightarrow> 'z apicst_scheme" where
  "ioapicenable irq cpunum s =
     ioapicwrite (0x10 + 2 * irq + 1) (push_bit 24 cpunum) (ioapicwrite (0x10 + 2 * irq) (of_nat (32 + irq)) s)"

subsection \<open>The local APIC\<close>

definition lapicw :: "nat \<Rightarrow> u32 \<Rightarrow> 'z apicst_scheme \<Rightarrow> 'z apicst_scheme" where
  "lapicw index v s = s\<lparr>lapic_writes := lapic_writes s @ [(index, v)]\<rparr>"

text \<open>Waiting for the delivery of an interrupt: the values read from the register, one for each round.\<close>

fun lapic_wait :: "u32 list \<Rightarrow> bool" where
  "lapic_wait [] = False"
| "lapic_wait (v # vs) = (if v AND 0x1000 \<noteq> 0 then lapic_wait vs else True)"

definition lapicinit :: "u32 \<Rightarrow> u32 list \<Rightarrow> 'z apicst_scheme \<Rightarrow> ('z apicst_scheme, 'z apicst_scheme) kres" where
  "lapicinit ver icrlo s =
     (if lapic s = 0 then Inr s
      else
        let s = lapicw (0xF0 div 4) (0x100 OR (32 + 31)) s;
            s = lapicw (0x3E0 div 4) 0xB s;
            s = lapicw (0x320 div 4) (0x20000 OR (32 + 0)) s;
            s = lapicw (0x380 div 4) 10000000 s;
            s = lapicw (0x350 div 4) 0x10000 s;
            s = lapicw (0x360 div 4) 0x10000 s;
            s = (if drop_bit 16 ver AND 0xFF \<ge> 4 then lapicw (0x340 div 4) 0x10000 s else s);
            s = lapicw (0x370 div 4) (32 + 19) s;
            s = lapicw (0x280 div 4) 0 s;
            s = lapicw (0x280 div 4) 0 s;
            s = lapicw (0xB0 div 4) 0 s;
            s = lapicw (0x310 div 4) 0 s;
            s = lapicw (0x300 div 4) (0x80000 OR 0x500 OR 0x8000) s
        in if \<not> lapic_wait icrlo then Inl Diverges
           else Inr (lapicw (0x80 div 4) 0 s))"

text \<open>\<open>idreg\<close> is what the ID register reads as.\<close>

definition lapicid :: "u32 \<Rightarrow> 'z apicst_scheme \<Rightarrow> u32" where
  "lapicid idreg s = (if lapic s = 0 then 0 else drop_bit 24 idreg)"

definition lapiceoi :: "'z apicst_scheme \<Rightarrow> 'z apicst_scheme" where
  "lapiceoi s = (if lapic s \<noteq> 0 then lapicw (0xB0 div 4) 0 s else s)"

definition outb :: "nat \<Rightarrow> u8 \<Rightarrow> 'z apicst_scheme \<Rightarrow> 'z apicst_scheme" where
  "outb port v s = s\<lparr>ports := ports s @ [(port, v)]\<rparr>"

text \<open>The warm reset vector at 40:67 is written in memory.\<close>

definition store16 :: "memory \<Rightarrow> u32 \<Rightarrow> u16 \<Rightarrow> memory" where
  "store16 m a v = m(a := ucast v, a + 1 := ucast (drop_bit 8 v))"

definition lapicstartap :: "u8 \<Rightarrow> u32 \<Rightarrow> memory \<Rightarrow> 'z apicst_scheme \<Rightarrow> memory \<times> 'z apicst_scheme" where
  "lapicstartap apic addr m s =
     (let s = outb 0x70 0xF s;
          s = outb 0x71 0x0A s;
          wrv = P2V (0x40 * 16 OR 0x67);
          m = store16 m wrv 0;
          m = store16 m (wrv + 2) (ucast (drop_bit 4 addr));
          s = lapicw (0x310 div 4) (push_bit 24 (ucast apic)) s;
          s = lapicw (0x300 div 4) (0x500 OR 0x8000 OR 0x4000) s;
          s = lapicw (0x300 div 4) (0x500 OR 0x8000) s;
          s = lapicw (0x310 div 4) (push_bit 24 (ucast apic)) s;
          s = lapicw (0x300 div 4) (0x600 OR drop_bit 12 addr) s;
          s = lapicw (0x310 div 4) (push_bit 24 (ucast apic)) s;
          s = lapicw (0x300 div 4) (0x600 OR drop_bit 12 addr) s
      in (m, s))"

definition picinit :: "'z apicst_scheme \<Rightarrow> 'z apicst_scheme" where
  "picinit s = outb 0xA1 0xFF (outb 0x21 0xFF s)"

subsection \<open>The serial port\<close>

text \<open>
  \<open>status\<close> is what the line status register reads as; the result says whether there is a serial
  port. \<open>uartputc\<close> writes each character of the greeting to the data port.
\<close>

definition uartinit :: "u8 \<Rightarrow> 'z apicst_scheme \<Rightarrow> bool \<times> 'z apicst_scheme" where
  "uartinit status s =
     (let s = outb (0x3F8 + 2) 0 s;
          s = outb (0x3F8 + 3) 0x80 s;
          s = outb (0x3F8 + 0) (115200 div 9600) s;
          s = outb (0x3F8 + 1) 0 s;
          s = outb (0x3F8 + 3) 0x03 s;
          s = outb (0x3F8 + 4) 0 s;
          s = outb (0x3F8 + 1) 0x01 s
      in if status = 0xFF then (False, s)
         else
           let s = ioapicenable 4 0 s
           in (True, fold (outb (0x3F8 + 0)) [0x78, 0x76, 0x36, 0x2E, 0x2E, 0x2E, 0x0A] s))"

text \<open>
  The calls of \<open>main\<close> that program the interrupt controllers, with those that \<open>consoleinit\<close> and
  \<open>ideinit\<close> make.
\<close>

definition main_irqs :: "u8 \<Rightarrow> 'z apicst_scheme \<Rightarrow> 'z apicst_scheme" where
  "main_irqs status s =
     (let s = ioapicinit (picinit s);
          s = ioapicenable 1 0 s;
          s = snd (uartinit status s)
      in ioapicenable 14 (of_nat (ncpu s) - 1) s)"

subsection \<open>The clock\<close>

record rtcdate =
  second :: u32
  minute :: u32
  hour :: u32
  day :: u32
  month :: u32
  year :: u32

text \<open>
  The clock answers reads one after the other: a list of answers, and \<open>None\<close> where it gives out.
  The number of the register, which is written first, does not matter for that.
\<close>

fun cmos_read :: "u8 \<Rightarrow> u8 list \<Rightarrow> (u32 \<times> u8 list) option" where
  "cmos_read reg [] = None"
| "cmos_read reg (v # vs) = Some (ucast v, vs)"

definition fill_rtcdate :: "u8 list \<Rightarrow> (rtcdate \<times> u8 list) option" where
  "fill_rtcdate vs =
     Option.bind (cmos_read 0 vs) (\<lambda>(s, vs).
     Option.bind (cmos_read 2 vs) (\<lambda>(mi, vs).
     Option.bind (cmos_read 4 vs) (\<lambda>(h, vs).
     Option.bind (cmos_read 7 vs) (\<lambda>(d, vs).
     Option.bind (cmos_read 8 vs) (\<lambda>(mo, vs).
     Option.bind (cmos_read 9 vs) (\<lambda>(y, vs).
     Some (\<lparr>second = s, minute = mi, hour = h, day = d, month = mo, year = y\<rparr>, vs)))))))"

lemma fill_rtcdate_eq: "fill_rtcdate vs = (case vs of a # b # c # d # e # f # ws \<Rightarrow>
    Some (\<lparr>second = ucast a, minute = ucast b, hour = ucast c, day = ucast d, month = ucast e, year = ucast f\<rparr>, ws) | _ \<Rightarrow> None)"
  by (auto simp: fill_rtcdate_def split: list.splits)

function cmostime_loop :: "u8 list \<Rightarrow> (rtcdate \<times> u8 list) option" where
  "cmostime_loop vs =
     (case fill_rtcdate vs of
        None \<Rightarrow> None
      | Some (t1, vs) \<Rightarrow>
          (case cmos_read 0x0A vs of
             None \<Rightarrow> None
           | Some (a, vs) \<Rightarrow>
               if a AND 0x80 \<noteq> 0 then cmostime_loop vs
               else (case fill_rtcdate vs of
                       None \<Rightarrow> None
                     | Some (t2, vs) \<Rightarrow> if t1 = t2 then Some (t1, vs) else cmostime_loop vs)))"
  by pat_completeness auto
termination
  by (relation "measure length") (auto simp: fill_rtcdate_eq split: list.splits elim!: cmos_read.elims)

declare cmostime_loop.simps [simp del]

definition conv :: "u32 \<Rightarrow> u32" where
  "conv x = drop_bit 4 x * 10 + (x AND 0xF)"

definition cmostime :: "u8 list \<Rightarrow> (rtcdate \<times> u8 list) option" where
  "cmostime vs =
     Option.bind (cmos_read 0x0B vs) (\<lambda>(sb, vs).
     Option.bind (cmostime_loop vs) (\<lambda>(t1, vs).
     let t1 = (if sb AND 4 = 0
               then \<lparr>second = conv (second t1), minute = conv (minute t1), hour = conv (hour t1), day = conv (day t1),
                     month = conv (month t1), year = conv (year t1)\<rparr>
               else t1)
     in Some (t1\<lparr>year := year t1 + 2000\<rparr>, vs)))"

section \<open>Interrupts\<close>

lemma ioapicinit_loop_regs:
  "ioregs (ioapicinit_loop i n s) r = (if 16 + 2 * i \<le> r \<and> r < 16 + 2 * (i + n)
     then (if even r then 0x10000 OR of_nat (32 + (r - 16) div 2) else 0) else ioregs s r)"
proof (induction n arbitrary: i s)
  case (Suc n)
  have "r = 16 + 2 * i \<or> r = 16 + 2 * i + 1 \<or> r < 16 + 2 * i \<or> 16 + 2 * (i + 1) \<le> r" by arith
  then show ?case
  proof (elim disjE)
    assume "r = 16 + 2 * i"
    then show ?thesis unfolding ioapicinit_loop.simps Suc.IH by (simp add: ioapicwrite_def)
  next
    assume "r = 16 + 2 * i + 1"
    then show ?thesis unfolding ioapicinit_loop.simps Suc.IH by (simp add: ioapicwrite_def)
  qed (unfold ioapicinit_loop.simps Suc.IH, auto simp: ioapicwrite_def)
qed auto

text \<open>Interrupt \<open>irq\<close> is delivered (its entry is not masked), with this vector, to this processor.\<close>

definition irq_on :: "'z apicst_scheme \<Rightarrow> nat \<Rightarrow> bool" where
  "irq_on s irq \<longleftrightarrow> \<not> bit (ioregs s (16 + 2 * irq)) 16"

definition irq_vector :: "'z apicst_scheme \<Rightarrow> nat \<Rightarrow> u32" where
  "irq_vector s irq = ioregs s (16 + 2 * irq) AND 0xFF"

definition irq_dest :: "'z apicst_scheme \<Rightarrow> nat \<Rightarrow> u32" where
  "irq_dest s irq = drop_bit 24 (ioregs s (16 + 2 * irq + 1))"

definition irq_max :: "'z apicst_scheme \<Rightarrow> nat" where
  "irq_max s = unat (drop_bit 16 (ioregs s 1) AND 0xFF)"

lemma ioapicenable_regs:
  "ioregs (ioapicenable irq cpu s) r = (if r = 16 + 2 * irq then of_nat (32 + irq) else if r = 16 + 2 * irq + 1 then push_bit 24 cpu else ioregs s r)"
  by (simp add: ioapicenable_def ioapicwrite_def)

lemma ioapicinit_off: "i \<le> irq_max s \<Longrightarrow> \<not> irq_on (ioapicinit s) i"
  unfolding irq_on_def ioapicinit_def Let_def ioapicinit_loop_regs by (simp add: irq_max_def ioapicread_def bit_or_iff)

lemma vector_bits:
  assumes "i < 224"
  shows "(of_nat (32 + i) :: u32) AND 0xFF = of_nat (32 + i)" and "\<not> bit (of_nat (32 + i) :: u32) 16"
proof -
  let ?w = "of_nat (32 + i) :: u32"
  have "take_bit 8 (32 + i) = 32 + i" using assms by (intro take_bit_nat_eq_self) simp
  then have t: "take_bit 8 ?w = ?w" by (simp only: take_bit_of_nat)
  have "(0xFF :: u32) = mask 8" by (simp add: mask_eq_exp_minus_1)
  then show "?w AND 0xFF = ?w" using t by (simp only: take_bit_eq_mask)
  have "\<not> bit (take_bit 8 ?w) 16" by (simp add: bit_take_bit_iff)
  then show "\<not> bit ?w 16" by (subst (asm) t)
qed

text \<open>
  After the initialization exactly the interrupts that were enabled since are delivered, with the
  vectors that \<open>trap\<close> expects and to the processor that was asked for last.
\<close>

lemma ioapic_enabled:
  assumes "i \<le> irq_max s" and "\<forall>(irq, c)\<in>set es. irq < 224"
  shows "irq_on (fold (\<lambda>(irq, c). ioapicenable irq c) es (ioapicinit s)) i \<longleftrightarrow> i \<in> fst ` set es"
proof -
  have "irq_on (fold (\<lambda>(irq, c). ioapicenable irq c) es t) i \<longleftrightarrow> irq_on t i \<or> i \<in> fst ` set es" for t :: "'a apicst_scheme"
    using assms(2)
  proof (induction es arbitrary: t)
    case (Cons e es)
    obtain irq c where e: "e = (irq, c)" by (cases e)
    have "irq_on (ioapicenable irq c t) i \<longleftrightarrow> irq_on t i \<or> i = irq"
      using Cons.prems e vector_bits(2) [of irq] by (auto simp: irq_on_def ioapicenable_regs)
    then show ?case using Cons.IH [of "ioapicenable irq c t"] Cons.prems e by auto
  qed simp
  then show ?thesis using ioapicinit_off [OF assms(1)] by simp
qed

lemma ioapicenable_routes:
  assumes "irq < 224" and "cpu < 256"
  shows "irq_vector (ioapicenable irq cpu s) irq = of_nat (32 + irq)" and "irq_dest (ioapicenable irq cpu s) irq = cpu"
    and "i \<noteq> irq \<Longrightarrow> irq_on (ioapicenable irq cpu s) i = irq_on s i \<and> irq_vector (ioapicenable irq cpu s) i = irq_vector s i \<and>
      irq_dest (ioapicenable irq cpu s) i = irq_dest s i"
proof -
  show "irq_vector (ioapicenable irq cpu s) irq = of_nat (32 + irq)" using vector_bits(1) [OF assms(1)] by (simp add: irq_vector_def ioapicenable_regs)
  have "unat cpu < 256" using assms(2) by (simp add: word_less_nat_alt)
  then have "drop_bit 24 (push_bit 24 cpu) = cpu"
    by (simp add: u32_eq_iff unat_drop_bit_eq drop_bit_eq_div push_bit_eq_mult unat_word_ariths)
  then show "irq_dest (ioapicenable irq cpu s) irq = cpu" by (simp add: irq_dest_def ioapicenable_regs)
  show "i \<noteq> irq \<Longrightarrow> irq_on (ioapicenable irq cpu s) i = irq_on s i \<and> irq_vector (ioapicenable irq cpu s) i = irq_vector s i \<and>
      irq_dest (ioapicenable irq cpu s) i = irq_dest s i"
  proof -
    assume "i \<noteq> irq"
    moreover have "16 + 2 * i \<noteq> 16 + 2 * irq + 1" "16 + 2 * i + 1 \<noteq> 16 + 2 * irq" by presburger+
    ultimately show ?thesis unfolding irq_on_def irq_vector_def irq_dest_def ioapicenable_regs by simp
  qed
qed

lemma outb_irqs [simp]: "ioregs (outb p v s) = ioregs s" "ioregs (fold (outb p) vs s) = ioregs s"
  by (induction vs arbitrary: s) (simp_all add: outb_def)

lemma uartinit_irqs: "ioregs (snd (uartinit status s)) r = (if status = 0xFF then ioregs s r else ioregs (ioapicenable 4 0 s) r)"
  by (simp add: uartinit_def Let_def ioapicenable_regs)

text \<open>After the boot the keyboard, the disk and, if there is one, the serial port interrupt, and nothing else.\<close>

lemma main_irqs_on:
  assumes "i \<le> irq_max s"
  shows "irq_on (main_irqs status s) i \<longleftrightarrow> i = 1 \<or> i = 14 \<or> i = 4 \<and> status \<noteq> 0xFF"
proof -
  have m: "irq_max (picinit s) = irq_max s" by (simp add: irq_max_def picinit_def)
  have o: "irq_on (ioapicenable irq c t) i \<longleftrightarrow> irq_on t i \<or> i = irq" if "irq < 224" for irq c and t :: "'a apicst_scheme"
    using vector_bits(2) [OF that] by (auto simp: irq_on_def ioapicenable_regs)
  have u: "irq_on (snd (uartinit status t)) i \<longleftrightarrow> irq_on t i \<or> i = 4 \<and> status \<noteq> 0xFF" for t :: "'a apicst_scheme"
    using o [of 4 0 t] by (auto simp: irq_on_def uartinit_irqs)
  have "\<not> irq_on (ioapicinit (picinit s)) i" using assms by (intro ioapicinit_off) (simp add: m)
  then show ?thesis unfolding main_irqs_def Let_def by (auto simp: o u)
qed

lemma lapic_wait_iff: "lapic_wait vs \<longleftrightarrow> (\<exists>v\<in>set vs. v AND 0x1000 = 0)"
  by (induction vs) auto

section \<open>The clock\<close>

lemma conv_bcd: "n < 100 \<Longrightarrow> conv (of_nat (16 * (n div 10) + n mod 10)) = of_nat n"
proof -
  have "\<forall>n\<in>set [0..<100]. conv (of_nat (16 * (n div 10) + n mod 10)) = of_nat n" by code_simp
  then show "n < 100 \<Longrightarrow> conv (of_nat (16 * (n div 10) + n mod 10)) = of_nat n" by simp
qed

text \<open>Six answers of the clock as a date.\<close>

definition date_of :: "u8 list \<Rightarrow> rtcdate" where
  "date_of bs = \<lparr>second = ucast (bs ! 0), minute = ucast (bs ! 1), hour = ucast (bs ! 2), day = ucast (bs ! 3), month = ucast (bs ! 4),
     year = ucast (bs ! 5)\<rparr>"

lemma ucast_u8_inj: "ucast (a :: u8) = (ucast b :: u32) \<longleftrightarrow> a = b"
proof -
  have "unat (ucast x :: u32) = unat x" for x :: u8
  proof -
    have "unat x < 2 ^ 8" using unsigned_less [of x] by simp
    then show ?thesis by (simp add: unsigned_ucast_eq take_bit_nat_eq_self)
  qed
  then show ?thesis by (metis word_unat_eq_iff)
qed

lemma date_of_inj: "length bs = 6 \<Longrightarrow> length cs = 6 \<Longrightarrow> date_of bs = date_of cs \<Longrightarrow> bs = cs"
  by (rule nth_equalityI) (auto simp: date_of_def ucast_u8_inj less_Suc_eq numeral_eq_Suc)

lemma fill_Some: "fill_rtcdate vs = Some (t, ws) \<longleftrightarrow> (\<exists>bs. length bs = 6 \<and> vs = bs @ ws \<and> t = date_of bs)"
proof
  assume "fill_rtcdate vs = Some (t, ws)"
  then obtain a b c d e f where "vs = [a, b, c, d, e, f] @ ws" "t = date_of [a, b, c, d, e, f]"
    by (auto simp: fill_rtcdate_eq date_of_def split: list.splits)
  then show "\<exists>bs. length bs = 6 \<and> vs = bs @ ws \<and> t = date_of bs" by (intro exI [of _ "[a, b, c, d, e, f]"]) simp
next
  assume "\<exists>bs. length bs = 6 \<and> vs = bs @ ws \<and> t = date_of bs"
  then obtain bs where b: "length bs = 6" "vs = bs @ ws" "t = date_of bs" by blast
  then obtain a b c d e f where "bs = [a, b, c, d, e, f]" by (auto simp: length_Suc_conv numeral_eq_Suc)
  then show "fill_rtcdate vs = Some (t, ws)" using b by (simp add: fill_rtcdate_eq date_of_def)
qed

lemma cmos_read_Some: "cmos_read r vs = Some (a, ws) \<longleftrightarrow> (\<exists>x. vs = x # ws \<and> a = ucast x)"
  by (cases vs) auto

text \<open>The date that was read is one the clock showed twice in a row, with no update in progress in between.\<close>

lemma cmostime_loop_sound:
  "cmostime_loop vs = Some (t, ws) \<Longrightarrow> \<exists>us bs x. vs = us @ bs @ x # bs @ ws \<and> length bs = 6 \<and> (ucast x :: u32) AND 0x80 = 0 \<and> t = date_of bs"
proof (induction vs rule: cmostime_loop.induct)
  case (1 vs)
  obtain t1 vs1 x vs2 where f: "fill_rtcdate vs = Some (t1, vs1)" "cmos_read 0x0A vs1 = Some (ucast x, vs2)" "vs1 = x # vs2"
    using "1.prems" by (subst (asm) cmostime_loop.simps) (auto split: option.splits simp: cmos_read_Some)
  obtain bs where b: "length bs = 6" "vs = bs @ x # vs2" "t1 = date_of bs" using f(1,3) by (auto simp: fill_Some)
  show ?case
  proof (cases "(ucast x :: u32) AND 0x80 \<noteq> 0")
    case True
    then have "cmostime_loop vs2 = Some (t, ws)" using "1.prems" f by (subst (asm) cmostime_loop.simps) simp
    from "1.IH"(1) [OF f(1) refl f(2) refl True this] obtain us cs y
      where "vs2 = us @ cs @ y # cs @ ws" "length cs = 6" "(ucast y :: u32) AND 0x80 = 0" "t = date_of cs" by blast
    then show ?thesis using b(2) by (intro exI [of _ "bs @ x # us"] exI [of _ cs] exI [of _ y]) simp
  next
    case False
    obtain t2 vs3 where g: "fill_rtcdate vs2 = Some (t2, vs3)" "(if t1 = t2 then Some (t1, vs3) else cmostime_loop vs3) = Some (t, ws)"
      using "1.prems" f False by (subst (asm) cmostime_loop.simps) (auto split: option.splits)
    obtain cs where c: "length cs = 6" "vs2 = cs @ vs3" "t2 = date_of cs" using g(1) by (auto simp: fill_Some)
    show ?thesis
    proof (cases "t1 = t2")
      case True
      then have "cs = bs" using date_of_inj [OF b(1) c(1)] b(3) c(3) by simp
      then show ?thesis using True g(2) b c False by (intro exI [of _ "[]"] exI [of _ bs] exI [of _ x]) simp
    next
      case ne: False
      then have "cmostime_loop vs3 = Some (t, ws)" using g(2) by simp
      from "1.IH"(2) [OF f(1) refl f(2) refl False g(1) refl ne this] obtain us ds y
        where "vs3 = us @ ds @ y # ds @ ws" "length ds = 6" "(ucast y :: u32) AND 0x80 = 0" "t = date_of ds" by blast
      then show ?thesis using b(2) c(2) by (intro exI [of _ "bs @ x # cs @ us"] exI [of _ ds] exI [of _ y]) simp
    qed
  qed
qed

lemma ucast_of_nat_u8: "n < 256 \<Longrightarrow> ucast (of_nat n :: u8) = (of_nat n :: u32)"
  by (simp add: u32_eq_iff unsigned_ucast_eq unat_of_nat take_bit_nat_eq_self)

text \<open>
  A clock that stands at a date in decimal digits, with no update in progress: \<open>cmostime\<close>
  returns the date.
\<close>

lemma cmostime_bcd:
  assumes "length ds = 6" and "\<forall>d\<in>set ds. d < 100" and "bs = map (\<lambda>d. of_nat (16 * (d div 10) + d mod 10)) ds"
    and "(ucast sb :: u32) AND 4 = 0" and "(ucast x :: u32) AND 0x80 = 0"
  shows "cmostime (sb # bs @ x # bs @ ws) = Some (\<lparr>second = of_nat (ds ! 0), minute = of_nat (ds ! 1), hour = of_nat (ds ! 2),
    day = of_nat (ds ! 3), month = of_nat (ds ! 4), year = of_nat (2000 + ds ! 5)\<rparr>, ws)"
proof -
  have l: "length bs = 6" using assms(1,3) by simp
  then have "fill_rtcdate (bs @ x # bs @ ws) = Some (date_of bs, x # bs @ ws)" "fill_rtcdate (bs @ ws) = Some (date_of bs, ws)"
    by (auto simp: fill_Some)
  then have "cmostime_loop (bs @ x # bs @ ws) = Some (date_of bs, ws)" using assms(5) by (subst cmostime_loop.simps) simp
  moreover have "conv (ucast (bs ! k)) = of_nat (ds ! k)" if "k < 6" for k
  proof -
    have d: "ds ! k < 100" using assms(1,2) that by simp
    have "16 * (ds ! k div 10) + ds ! k mod 10 < 256" using d by simp
    from ucast_of_nat_u8 [OF this] show ?thesis using conv_bcd [OF d] assms(1,3) that by (simp del: of_nat_add of_nat_mult)
  qed
  ultimately show ?thesis using assms(4) by (simp add: cmostime_def date_of_def Let_def)
qed

end
