(* ===== verification/User_Lib.thy ===== *)
theory User_Lib
  imports Memory
begin

text \<open>
  The library of the user programs: the string functions of \<open>ulib.c\<close> and the formatted output of
  \<open>printf.c\<close>, with the view of an input that the programs share.
\<close>

text \<open>
  A file descriptor as a program reads it: the bytes still to come, and how many of them (one more
  than the numbers given) are there at each of the next calls. A call that asks for \<open>n\<close> bytes
  gets at least one unless \<open>n\<close> is 0 or the input is at its end.
\<close>

datatype instream = In (to_come: string) (arrivals: "nat list")

fun read_in :: "nat \<Rightarrow> instream \<Rightarrow> string \<times> instream" where
  "read_in n (In s ks) =
     (let k = (case ks of [] \<Rightarrow> n | k # _ \<Rightarrow> min (Suc k) n)
      in (take k s, In (drop k s) (tl ks)))"

text \<open>
  Strings of a program are lists of characters without the final NUL, and a pointer into a string
  is the rest of the string from there on.
\<close>

fun strcmp :: "string \<Rightarrow> string \<Rightarrow> int" where
  "strcmp (p # ps) (q # qs) = (if p = q then strcmp ps qs else of_char p - of_char q)"
| "strcmp (p # ps) [] = of_char p"
| "strcmp [] (q # qs) = - of_char q"
| "strcmp [] [] = 0"

fun strchr :: "string \<Rightarrow> char \<Rightarrow> string option" where
  "strchr [] c = None"
| "strchr (x # s) c = (if x = c then Some (x # s) else strchr s c)"

fun gets_loop :: "nat \<Rightarrow> string \<Rightarrow> instream \<Rightarrow> string \<times> instream" where
  "gets_loop 0 buf inp = (buf, inp)"
| "gets_loop (Suc k) buf inp =
     (let (cc, inp) = read_in 1 inp
      in case cc of
           [] \<Rightarrow> (buf, inp)
         | c # _ \<Rightarrow>
             if c = CHR 0x0A \<or> c = CHR 0x0D then (buf @ [c], inp) else gets_loop k (buf @ [c]) inp)"

definition gets :: "int \<Rightarrow> instream \<Rightarrow> string \<times> instream" where
  "gets mx inp = gets_loop (nat (mx - 1)) [] inp"

definition is_digit :: "char \<Rightarrow> bool" where
  "is_digit c \<longleftrightarrow> of_char (CHR ''0'') \<le> (of_char c :: nat) \<and> (of_char c :: nat) \<le> of_char (CHR ''9'')"

fun atoi_loop :: "u32 \<Rightarrow> string \<Rightarrow> u32" where
  "atoi_loop n [] = n"
| "atoi_loop n (c # s) = (if is_digit c then atoi_loop (n * 10 + of_char c - of_char (CHR ''0'')) s else n)"

definition atoi :: "string \<Rightarrow> u32" where
  "atoi s = atoi_loop 0 s"

text \<open>The functions that write into memory.\<close>

partial_function (option) strcpy :: "memory \<Rightarrow> u32 \<Rightarrow> u32 \<Rightarrow> memory option" where
  "strcpy m s t = (let c = m t; m = m(s := c) in if c \<noteq> 0 then strcpy m (s + 1) (t + 1) else Some m)"

definition u_memset :: "memory \<Rightarrow> u32 \<Rightarrow> u32 \<Rightarrow> u32 \<Rightarrow> memory" where
  "u_memset m dst c n = stosb m dst (ucast c) (unat n)"

fun u_memmove_loop :: "memory \<Rightarrow> u32 \<Rightarrow> u32 \<Rightarrow> nat \<Rightarrow> memory" where
  "u_memmove_loop m dst src 0 = m"
| "u_memmove_loop m dst src (Suc n) = u_memmove_loop (m(dst := m src)) (dst + 1) (src + 1) n"

definition u_memmove :: "memory \<Rightarrow> u32 \<Rightarrow> u32 \<Rightarrow> int \<Rightarrow> memory" where
  "u_memmove m dst src n = u_memmove_loop m dst src (nat n)"

text \<open>Formatted output: the digits of a number, last one first, and the text of a format.\<close>

definition digits :: string where
  "digits = ''0123456789ABCDEF''"

function u_digits :: "nat \<Rightarrow> nat \<Rightarrow> string" where
  "u_digits x b = (let c = digits ! (x mod b) in if b < 2 \<or> x div b = 0 then [c] else c # u_digits (x div b) b)"
  by pat_completeness auto
termination
  by (relation "measure fst") (auto simp: not_less intro!: div_less_dividend intro: gr0I)

declare u_digits.simps [simp del]

definition u_printint :: "u32 \<Rightarrow> nat \<Rightarrow> bool \<Rightarrow> string" where
  "u_printint xx b sn =
     (let neg = (sn \<and> sint xx < 0);
          x = (if neg then - xx else xx)
      in rev (u_digits (unat x) b @ (if neg then ''-'' else [])))"

text \<open>
  The arguments of \<open>printf\<close> are numbers or strings (None is the null pointer); the result None
  means that it reads an argument that is not there or is of another kind.
\<close>

datatype parg = P_num u32 | P_str "string option"

fun u_printf :: "string \<Rightarrow> parg list \<Rightarrow> string option" where
  "u_printf [] as = Some []"
| "u_printf [c] as = (if c \<noteq> CHR ''%'' then Some [c] else Some [])"
| "u_printf (c # d # fmt) as =
     (if c \<noteq> CHR ''%'' then map_option ((#) c) (u_printf (d # fmt) as)
      else if d = CHR ''d'' then
        (case as of P_num n # as \<Rightarrow> map_option ((@) (u_printint n 10 True)) (u_printf fmt as) | _ \<Rightarrow> None)
      else if d = CHR ''x'' \<or> d = CHR ''p'' then
        (case as of P_num n # as \<Rightarrow> map_option ((@) (u_printint n 16 False)) (u_printf fmt as) | _ \<Rightarrow> None)
      else if d = CHR ''s'' then
        (case as of
           P_str None # as \<Rightarrow> map_option ((@) ''(null)'') (u_printf fmt as)
         | P_str (Some t) # as \<Rightarrow> map_option ((@) t) (u_printf fmt as)
         | _ \<Rightarrow> None)
      else if d = CHR ''c'' then
        (case as of P_num n # as \<Rightarrow> map_option ((#) (char_of (unat n))) (u_printf fmt as) | _ \<Rightarrow> None)
      else if d = CHR ''%'' then map_option ((#) d) (u_printf fmt as)
      else map_option (\<lambda>t. CHR ''%'' # d # t) (u_printf fmt as))"

section \<open>Reading\<close>

lemma read_in_stream: "read_in n inp = (c, inp') \<Longrightarrow> to_come inp = c @ to_come inp' \<and> length c \<le> n"
  by (cases inp) (auto simp: Let_def split: list.splits)

lemma read_in_end: "read_in n inp = ([], inp') \<Longrightarrow> 0 < n \<Longrightarrow> to_come inp = []"
  by (cases inp) (auto simp: Let_def split: list.splits)

lemma read_in_less: "read_in n inp = (c, inp') \<Longrightarrow> c \<noteq> [] \<Longrightarrow> length (to_come inp') < length (to_come inp)"
  using read_in_stream [of n inp c inp'] by auto

lemma gets_loop_consumes: "gets_loop k buf inp = (b, inp') \<Longrightarrow> buf @ to_come inp = b @ to_come inp'"
proof (induction k buf inp rule: gets_loop.induct)
  case (2 k buf inp)
  obtain cc i where r: "read_in 1 inp = (cc, i)" by fastforce
  have c: "to_come inp = cc @ to_come i" "length cc \<le> 1" using read_in_stream [OF r] by simp_all
  show ?case
  proof (cases cc)
    case Nil
    then show ?thesis using 2 r c by auto
  next
    case (Cons x xs)
    then show ?thesis using "2.IH" [OF r [symmetric] refl Cons] "2.prems" r c by (auto split: if_splits)
  qed
qed simp

lemma gets_consumes: "gets mx inp = (b, inp') \<Longrightarrow> to_come inp = b @ to_come inp'"
  using gets_loop_consumes [of _ "[]"] by (simp add: gets_def)

lemma strchr_takeWhile_pos: "strchr (takeWhile P p) c = Some q \<Longrightarrow> p \<noteq> []"
  by (cases p) auto

lemma strchr_None: "strchr s c = None \<longleftrightarrow> c \<notin> set s"
  by (induction s) auto

lemma strchr_Some: "strchr s c = Some q \<Longrightarrow> s = takeWhile (\<lambda>x. x \<noteq> c) s @ q \<and> (\<exists>r. q = c # r)"
  by (induction s) auto

section \<open>Numbers\<close>

lemma digit_char:
  assumes "d < 10"
  shows "is_digit (digits ! d)" "(of_char (digits ! d) :: u32) = 48 + of_nat d"
proof -
  have "d = 0 \<or> d = 1 \<or> d = 2 \<or> d = 3 \<or> d = 4 \<or> d = 5 \<or> d = 6 \<or> d = 7 \<or> d = 8 \<or> d = 9" using assms by presburger
  then show "is_digit (digits ! d)" "(of_char (digits ! d) :: u32) = 48 + of_nat d"
    by (elim disjE; simp add: is_digit_def digits_def)+
qed

lemma u_digits_base10: "u_digits x 10 = (if x < 10 then [digits ! x] else digits ! (x mod 10) # u_digits (x div 10) 10)"
  by (subst u_digits.simps) (auto simp: Let_def)

lemma atoi_append: "\<forall>c\<in>set s. is_digit c \<Longrightarrow> atoi_loop n (s @ t) = atoi_loop (atoi_loop n s) t"
  by (induction s arbitrary: n) auto

lemma u_digits_are: "\<forall>c\<in>set (u_digits x 10). is_digit c"
proof (induction x rule: less_induct)
  case (less x)
  have "\<forall>c\<in>set (u_digits (x div 10) 10). is_digit c" if "\<not> x < 10" using less [of "x div 10"] that by simp
  then show ?case using digit_char(1) [of x] digit_char(1) [of "x mod 10"] by (subst u_digits_base10) simp
qed

lemma atoi_digits: "atoi_loop 0 (rev (u_digits x 10)) = of_nat x"
proof (induction x rule: less_induct)
  case (less x)
  show ?case
  proof (cases "x < 10")
    case True
    then show ?thesis using digit_char [OF True] by (subst u_digits_base10) simp
  next
    case False
    have d: "x mod 10 < 10" by simp
    have "atoi_loop 0 (rev (u_digits (x div 10) 10)) = of_nat (x div 10)" using less False by simp
    moreover have "(of_nat (x div 10) * 10 + of_nat (x mod 10) :: u32) = of_nat x"
      by (metis div_mult_mod_eq of_nat_add of_nat_mult of_nat_numeral)
    ultimately show ?thesis using False digit_char [OF d] u_digits_are [of "x div 10"]
      by (subst u_digits_base10) (simp add: atoi_append add.commute)
  qed
qed

lemma u_digits_length:
  assumes "2 \<le> b" and "x < b ^ Suc n"
  shows "length (u_digits x b) \<le> Suc n"
  using assms(2)
proof (induction n arbitrary: x)
  case 0
  then show ?case using assms(1) by (subst u_digits.simps) (simp add: Let_def)
next
  case (Suc n)
  have "x div b < b ^ Suc n" using Suc.prems assms(1) by (simp add: less_mult_imp_div_less mult.commute)
  then show ?case using Suc.IH [of "x div b"] by (subst u_digits.simps) (simp add: Let_def)
qed

section \<open>Properties\<close>

text \<open>
  C37: numbers survive printing and reading. \<open>atoi\<close> of what \<open>printf\<close> prints for \<open>%d\<close> is
  the number again unless it is negative, and 0 for a negative number, whose sign \<open>atoi\<close> does not
  read.
\<close>

theorem atoi_of_printed:
  "u_printf ''%d'' [P_num x] = Some (u_printint x 10 True) \<and>
   atoi (u_printint x 10 True) = (if sint x < 0 then 0 else x)"
  by (simp add: u_printint_def atoi_def atoi_digits Let_def is_digit_def)

text \<open>
  \<open>printint\<close> collects its digits in an array of 16 bytes and never overruns it, in base 10 and in base 16:
  it needs at most 11 of them.
\<close>

theorem printint_fits:
  "length (u_printint x 10 True) \<le> 11 \<and> length (u_printint x 16 False) \<le> 8"
proof -
  have a: "unat x < 4294967296" "unat (- x) < 4294967296" using unat_u32_less by blast+
  have "length (u_digits (unat x) 10) \<le> Suc 9" "length (u_digits (unat (- x)) 10) \<le> Suc 9" "length (u_digits (unat x) 16) \<le> Suc 7"
    using a by (intro u_digits_length; simp)+
  then show ?thesis by (simp add: u_printint_def Let_def)
qed

end
