(* ===== verification/Grep.thy ===== *)
theory Grep
  imports User_Lib
begin

text \<open>
  The program \<open>grep.c\<close>: the matcher for patterns with \<open>^\<close>, \<open>.\<close>, \<open>*\<close> and \<open>$\<close>,
  with the language a pattern stands for, and the search through an input that arrives in pieces.
\<close>

text \<open>The matcher. The end of a list is the NUL at the end of the string.\<close>

function matchhere :: "string \<Rightarrow> string \<Rightarrow> bool"
  and matchstar :: "char \<Rightarrow> string \<Rightarrow> string \<Rightarrow> bool" where
  "matchhere re tx =
     (case re of
        [] \<Rightarrow> True
      | c # re' \<Rightarrow>
          if re' \<noteq> [] \<and> hd re' = CHR ''*'' then matchstar c (tl re') tx
          else if c = CHR ''$'' \<and> re' = [] then tx = []
          else case tx of
            [] \<Rightarrow> False
          | t # tx' \<Rightarrow> if c = CHR ''.'' \<or> c = t then matchhere re' tx' else False)"
| "matchstar c re tx =
     (if matchhere re tx then True
      else case tx of
        [] \<Rightarrow> False
      | t # tx' \<Rightarrow> if t = c \<or> c = CHR ''.'' then matchstar c re tx' else False)"
  by pat_completeness auto
termination
  by (relation "measures [\<lambda>x. case x of Inl (re, tx) \<Rightarrow> 2 * length re | Inr (c, re, tx) \<Rightarrow> 2 * length re + 1,
      \<lambda>x. case x of Inl (re, tx) \<Rightarrow> length tx | Inr (c, re, tx) \<Rightarrow> length tx]") auto

declare matchhere.simps [simp del] matchstar.simps [simp del]

fun match_loop :: "string \<Rightarrow> string \<Rightarrow> bool" where
  "match_loop re tx = (if matchhere re tx then True else case tx of [] \<Rightarrow> False | t # tx \<Rightarrow> match_loop re tx)"

declare match_loop.simps [simp del]

definition match :: "string \<Rightarrow> string \<Rightarrow> bool" where
  "match re tx = (if re \<noteq> [] \<and> hd re = CHR ''^'' then matchhere (tl re) tx else match_loop re tx)"

text \<open>
  The lines of the buffer from \<open>p\<close> on: what is printed, and where the first incomplete line
  starts. \<open>strchr\<close> does not look beyond a NUL.
\<close>

function grep_lines :: "string \<Rightarrow> string \<Rightarrow> string \<times> string" where
  "grep_lines pattern p =
     (case strchr (takeWhile (\<lambda>c. c \<noteq> CHR 0x00) p) (CHR 0x0A) of
        None \<Rightarrow> ([], p)
      | Some q \<Rightarrow>
          let line = takeWhile (\<lambda>c. c \<noteq> CHR 0x0A) p;
              (out, r) = grep_lines pattern (drop (Suc (length line)) p)
          in ((if match pattern line then line @ [CHR 0x0A] else []) @ out, r))"
  by pat_completeness auto
termination
  by (relation "measure (\<lambda>(pattern, p). length p)") (auto dest!: strchr_takeWhile_pos simp: diff_less)

declare grep_lines.simps [simp del]

text \<open>
  The loop over the input, with the bytes in the buffer that belong to an incomplete line; the
  result is what is written to standard output.
\<close>

function grep_loop :: "string \<Rightarrow> string \<Rightarrow> instream \<Rightarrow> string" where
  "grep_loop pattern buf inp =
     (case read_in (1023 - length buf) inp of
        (c, inp') \<Rightarrow>
          if c = [] then []
          else case grep_lines pattern (buf @ c) of
            (out, p) \<Rightarrow> out @ grep_loop pattern (if p = buf @ c then [] else p) inp')"
  by pat_completeness auto
termination
  by (relation "measure (\<lambda>(pattern, buf, inp). length (to_come inp))") (auto dest!: sym [THEN read_in_less])

declare grep_loop.simps [simp del]

definition grep :: "string \<Rightarrow> instream \<Rightarrow> string" where
  "grep pattern inp = grep_loop pattern [] inp"

text \<open>
  The program: its arguments, the file each name opens, standard input; the result is what it writes
  to standard output and to standard error.
\<close>

fun grep_files :: "string \<Rightarrow> (string \<Rightarrow> instream option) \<Rightarrow> string list \<Rightarrow> string" where
  "grep_files pattern fs [] = []"
| "grep_files pattern fs (f # args) =
     (case fs f of
        None \<Rightarrow> the (u_printf ''grep: cannot open %s\<newline>'' [P_str (Some f)])
      | Some inp \<Rightarrow> grep pattern inp @ grep_files pattern fs args)"

definition grep_main :: "string list \<Rightarrow> (string \<Rightarrow> instream option) \<Rightarrow> instream \<Rightarrow> string \<times> string" where
  "grep_main argv fs stdin =
     (if length argv \<le> 1 then ([], ''usage: grep pattern [file ...]\<newline>'')
      else if length argv \<le> 2 then (grep (argv ! 1) stdin, [])
      else (grep_files (argv ! 1) fs (drop 2 argv), []))"

text \<open>
  What a pattern means: a list of items, each a character (or any, for \<open>.\<close>) once or repeated,
  and whether the match must reach the end of the tx.
\<close>

datatype item = One char | Star char

fun items :: "string \<Rightarrow> item list" where
  "items [] = []"
| "items [c] = (if c = CHR ''$'' then [] else [One c])"
| "items (c # d # re) = (if d = CHR ''*'' then Star c # items re else One c # items (d # re))"

fun to_end :: "string \<Rightarrow> bool" where
  "to_end [] = False"
| "to_end [c] = (c = CHR ''$'')"
| "to_end (c # d # re) = (if d = CHR ''*'' then to_end re else to_end (d # re))"

definition fits :: "char \<Rightarrow> char \<Rightarrow> bool" where
  "fits c t \<longleftrightarrow> c = CHR ''.'' \<or> c = t"

fun lang :: "item list \<Rightarrow> string set" where
  "lang [] = {[]}"
| "lang (One c # is) = {t # w |t w. fits c t \<and> w \<in> lang is}"
| "lang (Star c # is) = {v @ w |v w. (\<forall>t\<in>set v. fits c t) \<and> w \<in> lang is}"

text \<open>The complete lines of a text after \<open>acc\<close>, what follows the last of them, and the output for them.\<close>

fun lines_from :: "string \<Rightarrow> string \<Rightarrow> string list" where
  "lines_from acc [] = []"
| "lines_from acc (c # s) = (if c = CHR 0x0A then acc # lines_from [] s else lines_from (acc @ [c]) s)"

fun rest_from :: "string \<Rightarrow> string \<Rightarrow> string" where
  "rest_from acc [] = acc"
| "rest_from acc (c # s) = (if c = CHR 0x0A then rest_from [] s else rest_from (acc @ [c]) s)"

definition print_matching :: "string \<Rightarrow> string list \<Rightarrow> string" where
  "print_matching pattern ls = concat (map (\<lambda>l. l @ [CHR 0x0A]) (filter (match pattern) ls))"

text \<open>\<open>tx\<close> starts with a word of the pattern, and with nothing after it if that is asked for.\<close>

definition starts :: "string \<Rightarrow> string \<Rightarrow> bool" where
  "starts re tx \<longleftrightarrow> (\<exists>v w. tx = v @ w \<and> v \<in> lang (items re) \<and> (to_end re \<longrightarrow> w = []))"

section \<open>The matcher and the language of its pattern\<close>

lemma starts_simps:
  "starts [] tx"
  "starts ''$'' tx \<longleftrightarrow> tx = []"
  "c \<noteq> CHR ''$'' \<or> re \<noteq> [] \<Longrightarrow> re = [] \<or> hd re \<noteq> CHR ''*'' \<Longrightarrow>
     starts (c # re) tx \<longleftrightarrow> (\<exists>t tx'. tx = t # tx' \<and> fits c t \<and> starts re tx')"
proof -
  show "starts [] tx" "starts ''$'' tx \<longleftrightarrow> tx = []" by (auto simp: starts_def)
  assume "c \<noteq> CHR ''$'' \<or> re \<noteq> []" "re = [] \<or> hd re \<noteq> CHR ''*''"
  then have "items (c # re) = One c # items re" "to_end (c # re) = to_end re" by (cases re; simp)+
  then have "starts (c # re) tx \<longleftrightarrow> (\<exists>x w. tx = x @ w \<and> x \<in> lang (One c # items re) \<and> (to_end re \<longrightarrow> w = []))"
    by (simp only: starts_def)
  also have "\<dots> \<longleftrightarrow> (\<exists>t v w. tx = (t # v) @ w \<and> fits c t \<and> v \<in> lang (items re) \<and> (to_end re \<longrightarrow> w = []))"
    unfolding lang.simps mem_Collect_eq by blast
  also have "\<dots> \<longleftrightarrow> (\<exists>t tx'. tx = t # tx' \<and> fits c t \<and> starts re tx')"
    unfolding starts_def append_Cons by blast
  finally show "starts (c # re) tx \<longleftrightarrow> (\<exists>t tx'. tx = t # tx' \<and> fits c t \<and> starts re tx')" .
qed

lemma starts_star:
  "starts (c # CHR ''*'' # re) s \<longleftrightarrow> (\<exists>v w. s = v @ w \<and> (\<forall>t\<in>set v. fits c t) \<and> starts re w)"
proof -
  have "items (c # CHR ''*'' # re) = Star c # items re" "to_end (c # CHR ''*'' # re) = to_end re" by simp_all
  then have "starts (c # CHR ''*'' # re) s \<longleftrightarrow> (\<exists>x w. s = x @ w \<and> x \<in> lang (Star c # items re) \<and> (to_end re \<longrightarrow> w = []))"
    by (simp only: starts_def)
  also have "\<dots> \<longleftrightarrow> (\<exists>v u w. s = (v @ u) @ w \<and> (\<forall>t\<in>set v. fits c t) \<and> u \<in> lang (items re) \<and> (to_end re \<longrightarrow> w = []))"
    unfolding lang.simps mem_Collect_eq by blast
  also have "\<dots> \<longleftrightarrow> (\<exists>v w. s = v @ w \<and> (\<forall>t\<in>set v. fits c t) \<and> starts re w)"
    unfolding starts_def append_assoc by blast
  finally show ?thesis .
qed

lemma ex_list: "(\<exists>v. P v) \<longleftrightarrow> P [] \<or> (\<exists>u v. P (u # v))"
  by (metis list.exhaust)

lemma starts_star_step:
  "starts (c # CHR ''*'' # re) s \<longleftrightarrow> starts re s \<or> (case s of [] \<Rightarrow> False | t # s' \<Rightarrow> fits c t \<and> starts (c # CHR ''*'' # re) s')"
proof -
  have "starts (c # CHR ''*'' # re) s \<longleftrightarrow> starts re s \<or> (\<exists>u v w. s = u # v @ w \<and> fits c u \<and> (\<forall>t\<in>set v. fits c t) \<and> starts re w)"
    unfolding starts_star by (subst ex_list) simp
  also have "(\<exists>u v w. s = u # v @ w \<and> fits c u \<and> (\<forall>t\<in>set v. fits c t) \<and> starts re w) \<longleftrightarrow>
      (case s of [] \<Rightarrow> False | t # s' \<Rightarrow> fits c t \<and> starts (c # CHR ''*'' # re) s')"
    unfolding starts_star by (cases s) (simp, simp, blast)
  finally show ?thesis .
qed

lemma matchhere_starts:
  "matchhere re s = starts re s" "matchstar c re s = starts (c # CHR ''*'' # re) s"
proof (induction re s and c re s rule: matchhere_matchstar.induct)
  case (1 re s)
  show ?case
  proof (cases re)
    case Nil
    then show ?thesis by (simp add: matchhere.simps starts_simps)
  next
    case (Cons c re')
    consider "re' \<noteq> []" "hd re' = CHR ''*''" | "c = CHR ''$''" "re' = []" | "re' = [] \<or> hd re' \<noteq> CHR ''*''" "c \<noteq> CHR ''$'' \<or> re' \<noteq> []" by blast
    then show ?thesis
    proof cases
      case 1
      then show ?thesis using "1.IH"(1) [OF Cons] Cons by (cases re') (simp_all add: matchhere.simps)
    next
      case 2
      then show ?thesis using Cons by (simp add: matchhere.simps starts_simps)
    next
      case 3
      then show ?thesis using "1.IH"(2) [OF Cons] Cons
        by (subst matchhere.simps) (auto simp: starts_simps(3) fits_def split: list.splits)
    qed
  qed
next
  case (2 c re s)
  show ?case using 2 by (subst matchstar.simps, subst starts_star_step) (auto simp: fits_def split: list.splits)
qed

lemma ex_suffix: "(\<exists>u w'. s = u @ w' \<and> (\<exists>v w. w' = v @ w \<and> P v w)) \<longleftrightarrow> (\<exists>u v w. s = u @ v @ w \<and> P v w)"
  by auto

lemma match_loop_starts: "match_loop re s \<longleftrightarrow> (\<exists>u w. s = u @ w \<and> starts re w)"
proof (induction s)
  case Nil
  then show ?case by (simp add: match_loop.simps matchhere_starts)
next
  case (Cons t s)
  have "(\<exists>u w. t # s = u @ w \<and> starts re w) \<longleftrightarrow> starts re (t # s) \<or> (\<exists>u w. s = u @ w \<and> starts re w)"
    by (subst ex_list) simp
  then show ?case using Cons by (subst match_loop.simps) (simp add: matchhere_starts)
qed

section \<open>Lines\<close>

lemma takeWhile_no_nul: "CHR 0x00 \<notin> set p \<Longrightarrow> takeWhile (\<lambda>c. c \<noteq> CHR 0x00) p = p"
  by (induction p) auto

lemma split_line: "CHR 0x0A \<in> set s \<Longrightarrow> \<exists>l r. s = l @ CHR 0x0A # r \<and> CHR 0x0A \<notin> set l"
  by (rule split_list_first)

lemma lines_from_line: "CHR 0x0A \<notin> set l \<Longrightarrow> lines_from acc (l @ CHR 0x0A # r) = (acc @ l) # lines_from [] r"
  "CHR 0x0A \<notin> set l \<Longrightarrow> rest_from acc (l @ CHR 0x0A # r) = rest_from [] r"
  by (induction l arbitrary: acc) auto

lemma lines_none: "CHR 0x0A \<notin> set s \<Longrightarrow> lines_from acc s = []" "CHR 0x0A \<notin> set s \<Longrightarrow> rest_from acc s = acc @ s"
  by (induction s arbitrary: acc) auto

lemma rest_no_newline: "CHR 0x0A \<notin> set acc \<Longrightarrow> CHR 0x0A \<notin> set (rest_from acc s)"
  by (induction s arbitrary: acc) auto

lemma rest_length: "length (rest_from acc s) \<le> length acc + length s" "CHR 0x0A \<in> set s \<Longrightarrow> length (rest_from acc s) < length acc + length s"
proof (induction s arbitrary: acc)
  case (Cons c s)
  { case 1 show ?case using Cons(1) [of "[]"] Cons(1) [of "acc @ [c]"] by simp }
  { case 2 show ?case using Cons(1) [of "[]"] Cons(2) [of "acc @ [c]"] 2 by (cases "c = CHR 0x0A") auto }
qed simp_all

lemma rest_set: "set (rest_from acc s) \<subseteq> set acc \<union> set s"
proof (induction s arbitrary: acc)
  case (Cons c s)
  show ?case using Cons [of "[]"] Cons [of "acc @ [c]"] by auto
qed simp

lemma lines_append: "lines_from acc (s @ t) = lines_from acc s @ lines_from (rest_from acc s) t"
  by (induction s arbitrary: acc) auto

lemma rest_append: "rest_from acc (s @ t) = rest_from (rest_from acc s) t"
  by (induction s arbitrary: acc) auto

lemma lines_from_acc: "CHR 0x0A \<notin> set acc \<Longrightarrow> lines_from acc s = lines_from [] (acc @ s)" 
  using lines_append [of "[]" acc s] lines_none [of acc "[]"] by simp

lemma rest_from_acc: "CHR 0x0A \<notin> set acc \<Longrightarrow> rest_from acc s = rest_from [] (acc @ s)"
  using rest_append [of "[]" acc s] lines_none [of acc "[]"] by simp

lemma grep_lines_prints:
  assumes "CHR 0x00 \<notin> set p"
  shows "grep_lines pattern p = (print_matching pattern (lines_from [] p), rest_from [] p)"
  using assms
proof (induction p rule: measure_induct_rule [where f = length])
  case (less p)
  show ?case
  proof (cases "CHR 0x0A \<in> set p")
    case True
    then obtain l r where p: "p = l @ CHR 0x0A # r" "CHR 0x0A \<notin> set l" using split_line by blast
    have t: "takeWhile (\<lambda>c. c \<noteq> CHR 0x0A) p = l" unfolding p(1) using p(2) by (induction l) auto
    have "strchr p (CHR 0x0A) \<noteq> None" using True by (simp add: strchr_None)
    then obtain q where "strchr p (CHR 0x0A) = Some q" by blast
    moreover have "grep_lines pattern r = (print_matching pattern (lines_from [] r), rest_from [] r)" using less p(1) by simp
    moreover have "drop (Suc (length l)) p = r" by (simp add: p(1))
    ultimately show ?thesis using less.prems t lines_from_line [OF p(2), of "[]" r]
      by (subst grep_lines.simps) (simp only: takeWhile_no_nul [OF less.prems] option.case Let_def prod.case t, simp add: p(1) print_matching_def)
  next
    case False
    then have "strchr p (CHR 0x0A) = None" by (simp add: strchr_None)
    then show ?thesis using less.prems lines_none [OF False, of "[]"]
      by (subst grep_lines.simps) (simp add: takeWhile_no_nul print_matching_def)
  qed
qed

lemma grep_loop_prints:
  assumes "CHR 0x00 \<notin> set (buf @ s)" and "CHR 0x0A \<notin> set buf" and "length buf < 1023" and "\<forall>l\<in>set (lines_from buf s). length l < 1023"
  shows "grep_loop pattern buf (In s []) = print_matching pattern (lines_from buf s)"
  using assms
proof (induction s arbitrary: buf rule: measure_induct_rule [where f = length])
  case (less s)
  let ?n = "1023 - length buf"
  let ?c = "take ?n s" and ?s = "drop ?n s"
  have nul: "CHR 0x00 \<notin> set (buf @ ?c)" "CHR 0x00 \<notin> set ?s" using less.prems(1) by (auto dest: in_set_takeD in_set_dropD)
  have gl: "grep_lines pattern (buf @ ?c) = (print_matching pattern (lines_from buf ?c), rest_from buf ?c)"
    using grep_lines_prints [OF nul(1)] lines_from_acc [OF less.prems(2), of ?c] rest_from_acc [OF less.prems(2), of ?c] by simp
  have la: "lines_from buf s = lines_from buf ?c @ lines_from (rest_from buf ?c) ?s" using lines_append [of buf ?c ?s] by simp
  show ?case
  proof (cases "s = []")
    case True
    then show ?thesis by (subst grep_loop.simps) (simp add: print_matching_def)
  next
    case s: False
    then have c: "?c \<noteq> []" "length ?s < length s" using less.prems(3) by (cases s; simp)+
    have un: "grep_loop pattern buf (In s []) = print_matching pattern (lines_from buf ?c) @
        grep_loop pattern (if rest_from buf ?c = buf @ ?c then [] else rest_from buf ?c) (In ?s [])"
      using c(1) gl by (subst grep_loop.simps) (simp add: Let_def)
    show ?thesis
    proof (cases "CHR 0x0A \<in> set ?c")
      case True
      have lt: "length (rest_from buf ?c) < length (buf @ ?c)" using rest_length(2) [OF True] by simp
      have ne: "rest_from buf ?c \<noteq> buf @ ?c" by (rule notI) (use lt in simp)
      have sm: "length (rest_from buf ?c) < 1023" using lt less.prems(3) by simp
      have "CHR 0x00 \<notin> set (rest_from buf ?c @ ?s)" using rest_set [of buf ?c] nul by auto
      then have "grep_loop pattern (rest_from buf ?c) (In ?s []) = print_matching pattern (lines_from (rest_from buf ?c) ?s)"
        using less.IH [OF c(2) _ rest_no_newline [OF less.prems(2)] sm] less.prems(4) la by simp
      then show ?thesis using un ne la by (simp add: print_matching_def)
    next
      case False
      have r: "rest_from buf ?c = buf @ ?c" "lines_from buf ?c = []" using lines_none [OF False] by simp_all
      have "CHR 0x0A \<notin> set ?s"
      proof
        assume n: "CHR 0x0A \<in> set ?s"
        then obtain l t where lt: "?s = l @ CHR 0x0A # t" "CHR 0x0A \<notin> set l" using split_line by blast
        have "length ?c = ?n" using n by (cases "length s \<le> ?n") auto
        moreover have "((buf @ ?c) @ l) \<in> set (lines_from buf s)" using la r lt lines_from_line(1) [OF lt(2), of "buf @ ?c" t] by simp
        then have "length ((buf @ ?c) @ l) < 1023" using less.prems(4) by blast
        ultimately show False using less.prems(3) by simp
      qed
      then have "lines_from [] ?s = []" "lines_from (buf @ ?c) ?s = []" using lines_none by simp_all
      then show ?thesis using un la r nul(2) less.IH [OF c(2), of "[]"] by (simp add: print_matching_def)
    qed
  qed
qed

text \<open>
  When a read ends before the first newline, what was read is thrown away: here the first call
  returns \<open>ab\<close> of the line \<open>abc\<close>, and the line is not found.
\<close>

lemma grep_short_read_loses_line:
  "match ''abc'' ''abc''" "grep ''abc'' (In ''abc\<newline>'' [1]) = []" "grep ''abc'' (In ''abc\<newline>'' []) = ''abc\<newline>''"
  by code_simp+

section \<open>Properties\<close>

text \<open>
  C35: the recursive matcher accepts a text exactly if some part of it is a word of the language of
  the pattern: a part that begins at the start of the text if the pattern begins with \<open>^\<close>, and
  that reaches the end of the text if the pattern ends with \<open>$\<close>.
\<close>

theorem match_is_language:
  "match re s \<longleftrightarrow>
     (let anchored = (re \<noteq> [] \<and> hd re = CHR ''^''); re' = (if anchored then tl re else re)
      in \<exists>u v w. s = u @ v @ w \<and> v \<in> lang (items re') \<and> (if anchored then u = [] else True) \<and> (if to_end re' then w = [] else True))"
proof (cases "re \<noteq> [] \<and> hd re = CHR ''^''")
  case True
  then show ?thesis by (cases "to_end (tl re)") (simp_all add: match_def matchhere_starts starts_def Let_def)
next
  case False
  then have e: "(re \<noteq> [] \<and> hd re = CHR ''^'') = False" by simp
  show ?thesis unfolding match_def Let_def e if_False match_loop_starts starts_def ex_suffix
    by (cases "to_end re") simp_all
qed

text \<open>
  C36: \<open>grep\<close> of a file without NUL bytes whose complete lines have less than 1023 bytes prints
  exactly the complete lines that match, in order, although it reads the file in pieces that end
  anywhere in a line.
\<close>

theorem grep_prints_matching_lines:
  assumes "CHR 0x00 \<notin> set s" and "\<forall>l\<in>set (lines_from [] s). length l < 1023"
  shows "grep pattern (In s []) = print_matching pattern (lines_from [] s)"
  unfolding grep_def by (rule grep_loop_prints) (use assms in simp_all)

theorem grep_prints_matching_lines_witness:
  "grep ''^a.*c$'' (In ''abbc\<newline>xyz\<newline>ac\<newline>ab'' []) = print_matching ''^a.*c$'' (lines_from [] ''abbc\<newline>xyz\<newline>ac\<newline>ab'')"
  by (rule grep_prints_matching_lines) simp_all

end
