(* ===== verification/User_Progs.thy ===== *)
theory User_Progs
  imports User_Lib
begin

text \<open>The text programs \<open>wc.c\<close>, \<open>cat.c\<close> and \<open>echo.c\<close>, and the names that \<open>ls.c\<close> prints.\<close>

section \<open>Counting: \<open>wc.c\<close>\<close>

record wcount =
  wc_l :: u32
  wc_w :: u32
  wc_c :: u32
  wc_inword :: bool

definition is_space :: "char \<Rightarrow> bool" where
  "is_space c \<longleftrightarrow> strchr [CHR 0x20, CHR 0x0D, CHR 0x09, CHR 0x0A, CHR 0x0B] c \<noteq> None"

definition wc_char :: "wcount \<Rightarrow> char \<Rightarrow> wcount" where
  "wc_char r b =
     (let r = r\<lparr>wc_c := wc_c r + 1\<rparr>;
          r = (if b = CHR 0x0A then r\<lparr>wc_l := wc_l r + 1\<rparr> else r)
      in if is_space b then r\<lparr>wc_inword := False\<rparr>
         else if \<not> wc_inword r then r\<lparr>wc_w := wc_w r + 1, wc_inword := True\<rparr>
         else r)"

function wc_loop :: "wcount \<Rightarrow> instream \<Rightarrow> wcount" where
  "wc_loop r inp =
     (case read_in 512 inp of
        (buf, inp') \<Rightarrow> if buf = [] then r else wc_loop (foldl wc_char r buf) inp')"
  by pat_completeness auto
termination
  by (relation "measure (\<lambda>(r, inp). length (to_come inp))") (auto dest!: sym [THEN read_in_less])

declare wc_loop.simps [simp del]

text \<open>
  \<open>bad\<close> says whether the read that ends the input fails; None is the end of the program with the
  message of a read error.
\<close>

definition wc :: "bool \<Rightarrow> instream \<Rightarrow> string \<Rightarrow> string option" where
  "wc bad inp name =
     (let r = wc_loop \<lparr>wc_l = 0, wc_w = 0, wc_c = 0, wc_inword = False\<rparr> inp
      in if bad then None
         else u_printf ''%d %d %d %s\<newline>'' [P_num (wc_l r), P_num (wc_w r), P_num (wc_c r), P_str (Some name)])"

text \<open>The programs go through the files they are given; \<open>fs\<close> is the file each name opens.\<close>

fun wc_files :: "(string \<Rightarrow> (bool \<times> instream) option) \<Rightarrow> string list \<Rightarrow> string" where
  "wc_files fs [] = []"
| "wc_files fs (f # args) =
     (case fs f of
        None \<Rightarrow> the (u_printf ''wc: cannot open %s\<newline>'' [P_str (Some f)])
      | Some (bad, inp) \<Rightarrow>
          (case wc bad inp f of
             None \<Rightarrow> ''wc: read error\<newline>''
           | Some out \<Rightarrow> out @ wc_files fs args))"

definition wc_main :: "string list \<Rightarrow> (string \<Rightarrow> (bool \<times> instream) option) \<Rightarrow> bool \<times> instream \<Rightarrow> string" where
  "wc_main argv fs stdin =
     (if length argv \<le> 1
      then (case wc (fst stdin) (snd stdin) [] of None \<Rightarrow> ''wc: read error\<newline>'' | Some out \<Rightarrow> out)
      else wc_files fs (tl argv))"

text \<open>The number of words: the places where a character that is no space follows a space or the start.\<close>

definition words :: "string \<Rightarrow> nat" where
  "words s = card {i. i < length s \<and> \<not> is_space (s ! i) \<and> (i = 0 \<or> is_space (s ! (i - 1)))}"

section \<open>Copying: \<open>cat.c\<close>\<close>

text \<open>
  \<open>wr k\<close> says whether the \<open>k\<close>th call of \<open>write\<close> takes all the bytes it is given. The result
  is what has been written, and whether the program went on to the end of the input.
\<close>

function cat_loop :: "(nat \<Rightarrow> bool) \<Rightarrow> nat \<Rightarrow> instream \<Rightarrow> string \<times> bool" where
  "cat_loop wr k inp =
     (case read_in 512 inp of
        (buf, inp') \<Rightarrow>
          if buf = [] then ([], True)
          else if \<not> wr k then ([], False)
          else case cat_loop wr (Suc k) inp' of (out, ok) \<Rightarrow> (buf @ out, ok))"
  by pat_completeness auto
termination
  by (relation "measure (\<lambda>(wr, k, inp). length (to_come inp))") (auto dest!: sym [THEN read_in_less])

declare cat_loop.simps [simp del]

definition cat :: "(nat \<Rightarrow> bool) \<Rightarrow> bool \<Rightarrow> instream \<Rightarrow> string \<times> bool" where
  "cat wr bad inp =
     (case cat_loop wr 0 inp of
        (out, ok) \<Rightarrow>
          if \<not> ok then (out @ ''cat: write error\<newline>'', False)
          else if bad then (out @ ''cat: read error\<newline>'', False)
          else (out, True))"

fun cat_files :: "(nat \<Rightarrow> bool) \<Rightarrow> (string \<Rightarrow> (bool \<times> instream) option) \<Rightarrow> string list \<Rightarrow> string" where
  "cat_files wr fs [] = []"
| "cat_files wr fs (f # args) =
     (case fs f of
        None \<Rightarrow> the (u_printf ''cat: cannot open %s\<newline>'' [P_str (Some f)])
      | Some (bad, inp) \<Rightarrow>
          (case cat wr bad inp of (out, ok) \<Rightarrow> if ok then out @ cat_files wr fs args else out))"

definition cat_main :: "string list \<Rightarrow> (nat \<Rightarrow> bool) \<Rightarrow> (string \<Rightarrow> (bool \<times> instream) option) \<Rightarrow> bool \<times> instream \<Rightarrow> string" where
  "cat_main argv wr fs stdin =
     (if length argv \<le> 1 then fst (cat wr (fst stdin) (snd stdin)) else cat_files wr fs (tl argv))"

section \<open>Arguments and names: \<open>echo.c\<close> and \<open>ls.c\<close>\<close>

fun echo :: "string list \<Rightarrow> string" where
  "echo [] = []"
| "echo [a] = the (u_printf ''%s%s'' [P_str (Some a), P_str (Some ''\<newline>'')])"
| "echo (a # b # argv) = the (u_printf ''%s%s'' [P_str (Some a), P_str (Some '' '')]) @ echo (b # argv)"

definition fmtname :: "string \<Rightarrow> string" where
  "fmtname path =
     (let p = rev (takeWhile (\<lambda>c. c \<noteq> CHR ''/'') (rev path))
      in if length p \<ge> 14 then p else p @ replicate (14 - length p) (CHR '' ''))"

section \<open>What is counted\<close>

text \<open>The words of a text that comes after the inside of a word, or not.\<close>

fun words_after :: "bool \<Rightarrow> string \<Rightarrow> nat" where
  "words_after b [] = 0"
| "words_after b (c # s) = (if is_space c then words_after False s else (if b then 0 else 1) + words_after True s)"

lemma wc_char_counts:
  "wc_l (foldl wc_char r s) = wc_l r + of_nat (count_list s (CHR 0x0A))"
  "wc_w (foldl wc_char r s) = wc_w r + of_nat (words_after (wc_inword r) s)"
  "wc_c (foldl wc_char r s) = wc_c r + of_nat (length s)"
proof (induction s arbitrary: r)
  case (Cons c s)
  { case 1 show ?case using Cons(1) [of "wc_char r c"] by (simp add: wc_char_def Let_def) }
  { case 2 show ?case using Cons(2) [of "wc_char r c"] by (simp add: wc_char_def Let_def) }
  { case 3 show ?case using Cons(3) [of "wc_char r c"] by (simp add: wc_char_def Let_def) }
qed simp_all

lemma wc_loop_all: "wc_loop r inp = foldl wc_char r (to_come inp)"
proof (induction r inp rule: wc_loop.induct)
  case (1 r inp)
  obtain buf inp' where rd: "read_in 512 inp = (buf, inp')" by fastforce
  show ?case
  proof (cases "buf = []")
    case True
    then show ?thesis using rd read_in_end [of 512 inp inp'] by (subst wc_loop.simps) simp
  next
    case False
    then show ?thesis using rd 1 [OF rd [symmetric] False] read_in_stream [OF rd] by (subst wc_loop.simps) simp
  qed
qed

lemma words_after_card:
  "words_after b s = card {i. i < length s \<and> \<not> is_space (s ! i) \<and> (if i = 0 then \<not> b else is_space (s ! (i - 1)))}"
proof (induction s arbitrary: b)
  case (Cons c s)
  let ?A = "\<lambda>b s. {i. i < length s \<and> \<not> is_space (s ! i) \<and> (if i = 0 then \<not> b else is_space (s ! (i - 1)))}"
  have "?A b (c # s) = (if is_space c \<or> b then {} else {0}) \<union> Suc ` ?A (\<not> is_space c) s"
    by (auto simp: image_iff less_Suc_eq_0_disj nth_Cons' split: if_splits)
  then have "card (?A b (c # s)) = (if is_space c \<or> b then 0 else 1) + card (?A (\<not> is_space c) s)"
    by (simp add: card_image)
  moreover have "words_after b (c # s) = (if is_space c \<or> b then 0 else 1) + words_after (\<not> is_space c) s" by simp
  ultimately show ?case by (simp only: Cons)
qed simp

lemma words_after_words: "words_after False s = words s"
  by (simp add: words_after_card words_def) (rule arg_cong [where f = card], auto)

lemma cat_loop_all: "cat_loop (\<lambda>_. True) k inp = (to_come inp, True)"
proof (induction "\<lambda>_ :: nat. True" k inp rule: cat_loop.induct)
  case (1 k inp)
  obtain buf inp' where rd: "read_in 512 inp = (buf, inp')" by fastforce
  show ?case
  proof (cases "buf = []")
    case True
    then show ?thesis using rd read_in_end [of 512 inp inp'] by (subst cat_loop.simps) simp
  next
    case False
    then show ?thesis using rd "1.hyps" [OF rd [symmetric] False] read_in_stream [OF rd] by (subst cat_loop.simps) simp
  qed
qed

section \<open>Properties\<close>

text \<open>
  C38: \<open>wc\<close> prints the numbers of newlines, of words and of bytes of its input (modulo
  \<open>2^32\<close>), however the input is cut into pieces by the calls of \<open>read\<close>.
\<close>

theorem wc_counts:
  "wc False inp name = u_printf ''%d %d %d %s\<newline>''
     [P_num (of_nat (count_list (to_come inp) (CHR 0x0A))), P_num (of_nat (words (to_come inp))),
      P_num (of_nat (length (to_come inp))), P_str (Some name)]"
  by (simp add: wc_def Let_def wc_loop_all wc_char_counts words_after_words)

end
