(* ===== verification/Sh.thy ===== *)
theory Sh
  imports User_Lib
begin

unbundle bit_operations_syntax

text \<open>
  The shell \<open>sh.c\<close>: tokens, the recursive-descent parser, the system calls it makes for a command
  and its main loop; a printer of commands, and the proofs that the parser always returns and reads
  every printed command back.
\<close>

section \<open>Commands\<close>

text \<open>
  The structures \<open>execcmd\<close>, \<open>redircmd\<close>, \<open>pipecmd\<close>, \<open>listcmd\<close> and \<open>backcmd\<close> as one
  type. A word is of type \<open>'a\<close>: the parser makes it a pair of pointers to its start and behind its end.
\<close>

datatype 'a cmd =
    EXEC "'a list"
  | REDIR "'a cmd" 'a u32 nat
  | PIPE "'a cmd" "'a cmd"
  | LIST "'a cmd" "'a cmd"
  | BACK "'a cmd"

text \<open>Ways in which the shell stops: with a message, or because the recursion bound of the model is used up.\<close>

datatype sherr = Sh_panic string | Out_of_fuel

abbreviation O_RDONLY :: u32 where "O_RDONLY \<equiv> 0"
abbreviation O_WRONLY :: u32 where "O_WRONLY \<equiv> 1"
abbreviation O_CREATE :: u32 where "O_CREATE \<equiv> 0x200"
abbreviation MAXARGS :: nat where "MAXARGS \<equiv> 10"

section \<open>Tokens\<close>

text \<open>A pointer into the line is the rest of the line from there; the end of the line is the empty list.\<close>

definition whitespace :: string where
  "whitespace = [CHR 0x20, CHR 0x09, CHR 0x0D, CHR 0x0A, CHR 0x0B]"

definition symbols :: string where
  "symbols = ''<|>&;()''"

definition white :: "char \<Rightarrow> bool" where
  "white c \<longleftrightarrow> strchr whitespace c \<noteq> None"

definition symbol :: "char \<Rightarrow> bool" where
  "symbol c \<longleftrightarrow> strchr symbols c \<noteq> None"

definition skip :: "string \<Rightarrow> string" where
  "skip s = dropWhile white s"

text \<open>The kind of the token, its start and its end, and where parsing goes on.\<close>

definition gettoken :: "string \<Rightarrow> char \<times> (string \<times> string) \<times> string" where
  "gettoken ps =
     (let q = skip ps;
          (ret, eq) =
            (case q of
               [] \<Rightarrow> (CHR 0x00, [])
             | c # s \<Rightarrow>
                 if c = CHR ''|'' \<or> c = CHR ''('' \<or> c = CHR '')'' \<or> c = CHR '';'' \<or> c = CHR ''&'' \<or> c = CHR ''<'' then (c, s)
                 else if c = CHR ''>'' then
                   (if s \<noteq> [] \<and> hd s = CHR ''>'' then (CHR ''+'', tl s) else (c, s))
                 else (CHR ''a'', dropWhile (\<lambda>c. \<not> white c \<and> \<not> symbol c) q))
      in (ret, (q, eq), skip eq))"

definition peek :: "string \<Rightarrow> string \<Rightarrow> bool" where
  "peek ps toks \<longleftrightarrow> skip ps \<noteq> [] \<and> strchr toks (hd (skip ps)) \<noteq> None"

lemma skip_length: "length (skip s) \<le> length s"
  by (simp add: skip_def length_dropWhile_le)

lemma skip_hd: "skip s = c # r \<Longrightarrow> \<not> white c"
  using hd_dropWhile [of white s] by (auto simp: skip_def)

lemma symbol_cases:
  "symbol c \<longleftrightarrow> c = CHR ''<'' \<or> c = CHR ''|'' \<or> c = CHR ''>'' \<or> c = CHR ''&'' \<or> c = CHR '';'' \<or> c = CHR ''('' \<or> c = CHR '')''"
  by (auto simp: symbol_def symbols_def)

lemma gettoken_shorter: "skip ps \<noteq> [] \<Longrightarrow> length (snd (snd (gettoken ps))) < length ps"
proof -
  assume "skip ps \<noteq> []"
  then obtain c s where q: "skip ps = c # s" by (cases "skip ps") auto
  have "dropWhile (\<lambda>c. \<not> white c \<and> \<not> symbol c) (c # s) = dropWhile (\<lambda>c. \<not> white c \<and> \<not> symbol c) s" if "\<not> symbol c"
    using skip_hd [OF q] that by simp
  then have "length (snd (snd (gettoken ps))) \<le> length s"
    using skip_length [of s] skip_length [of "tl s"] skip_length [of "dropWhile (\<lambda>c. \<not> white c \<and> \<not> symbol c) s"]
      length_dropWhile_le [of "\<lambda>c. \<not> white c \<and> \<not> symbol c" s]
    by (auto simp: gettoken_def Let_def q symbol_cases)
  then show ?thesis using skip_length [of ps] q by simp
qed

lemma gettoken_le: "length (snd (snd (gettoken ps))) \<le> length ps"
proof (cases "skip ps = []")
  case True
  then show ?thesis using skip_length [of "[]"] by (simp add: gettoken_def)
next
  case False
  then show ?thesis using gettoken_shorter [OF False] by simp
qed

lemma peek_shorter: "peek ps toks \<Longrightarrow> gettoken ps = (k, w, ps') \<Longrightarrow> length ps' < length ps"
  using gettoken_shorter [of ps] by (simp add: peek_def)

lemma token_le: "gettoken ps = (k, w, ps') \<Longrightarrow> length ps' \<le> length ps"
  using gettoken_le [of ps] by simp

lemma two_shorter: "peek ps toks \<Longrightarrow> (k, w, ps1) = gettoken ps \<Longrightarrow> (l, v, ps2) = gettoken ps1 \<Longrightarrow> length ps2 < length ps"
  using peek_shorter [of ps toks k w ps1] token_le [of ps1 l v ps2] by simp

section \<open>The parser\<close>

text \<open>
  A word is added to the command that the redirections are wrapped around: the shell keeps a pointer
  to it.
\<close>

fun add_arg :: "'a \<Rightarrow> 'a cmd \<Rightarrow> 'a cmd" where
  "add_arg a (EXEC as) = EXEC (as @ [a])"
| "add_arg a (REDIR c f m fd) = REDIR (add_arg a c) f m fd"
| "add_arg a c = c"

function parseredirs :: "(string \<times> string) cmd \<Rightarrow> string \<Rightarrow> sherr + (string \<times> string) cmd \<times> string" where
  "parseredirs cmd ps =
     (if \<not> peek ps ''<>'' then Inr (cmd, skip ps)
      else case gettoken ps of
        (tok, _, ps1) \<Rightarrow>
          (case gettoken ps1 of
             (kind, w, ps2) \<Rightarrow>
               if kind \<noteq> CHR ''a'' then Inl (Sh_panic ''missing file for redirection'')
               else if tok = CHR ''<'' then parseredirs (REDIR cmd w O_RDONLY 0) ps2
               else parseredirs (REDIR cmd w (O_WRONLY OR O_CREATE) 1) ps2))"
  by pat_completeness auto
termination
  by (relation "measure (length \<circ> snd)") (auto intro: two_shorter)

declare parseredirs.simps [simp del]

function parse_backs :: "'a cmd \<Rightarrow> string \<Rightarrow> 'a cmd \<times> string" where
  "parse_backs cmd ps =
     (if peek ps ''&'' then case gettoken ps of (_, _, ps1) \<Rightarrow> parse_backs (BACK cmd) ps1
      else (cmd, skip ps))"
  by pat_completeness auto
termination
  by (relation "measure (length \<circ> snd)") (auto dest: peek_shorter [OF _ sym])

declare parse_backs.simps [simp del]

function parse_args :: "nat \<Rightarrow> (string \<times> string) cmd \<Rightarrow> string \<Rightarrow> sherr + (string \<times> string) cmd \<times> string" where
  "parse_args argc ret ps =
     (if peek ps ''|)&;'' then Inr (ret, skip ps)
      else case gettoken ps of
        (tok, w, ps1) \<Rightarrow>
          if tok = CHR 0x00 then Inr (ret, ps1)
          else if tok \<noteq> CHR ''a'' then Inl (Sh_panic ''syntax'')
          else if Suc argc \<ge> MAXARGS then Inl (Sh_panic ''too many args'')
          else bindR (parseredirs (add_arg w ret) ps1) (\<lambda>(ret, ps). parse_args (Suc argc) ret ps))"
  by pat_completeness auto
termination
  by (relation "measure (\<lambda>(argc, ret, ps). MAXARGS - argc)") auto

declare parse_args.simps [simp del]

fun parseline :: "nat \<Rightarrow> string \<Rightarrow> sherr + (string \<times> string) cmd \<times> string"
  and parsepipe :: "nat \<Rightarrow> string \<Rightarrow> sherr + (string \<times> string) cmd \<times> string"
  and parseblock :: "nat \<Rightarrow> string \<Rightarrow> sherr + (string \<times> string) cmd \<times> string"
  and parseexec :: "nat \<Rightarrow> string \<Rightarrow> sherr + (string \<times> string) cmd \<times> string" where
  "parseline 0 ps = Inl Out_of_fuel"
| "parseline (Suc n) ps =
     bindR (parsepipe n ps) (\<lambda>(cmd, ps).
     case parse_backs cmd ps of
       (cmd, ps) \<Rightarrow>
         if peek ps '';'' then
           (case gettoken ps of (_, _, ps) \<Rightarrow> bindR (parseline n ps) (\<lambda>(right, ps). Inr (LIST cmd right, ps)))
         else Inr (cmd, skip ps))"
| "parsepipe 0 ps = Inl Out_of_fuel"
| "parsepipe (Suc n) ps =
     bindR (parseexec n ps) (\<lambda>(cmd, ps).
     if peek ps ''|'' then
       (case gettoken ps of (_, _, ps) \<Rightarrow> bindR (parsepipe n ps) (\<lambda>(right, ps). Inr (PIPE cmd right, ps)))
     else Inr (cmd, skip ps))"
| "parseblock 0 ps = Inl Out_of_fuel"
| "parseblock (Suc n) ps =
     (if \<not> peek ps ''('' then Inl (Sh_panic ''parseblock'')
      else case gettoken ps of
        (_, _, ps) \<Rightarrow>
          bindR (parseline n ps) (\<lambda>(cmd, ps).
          if \<not> peek ps '')'' then Inl (Sh_panic ''syntax - missing )'')
          else case gettoken ps of (_, _, ps) \<Rightarrow> parseredirs cmd ps))"
| "parseexec 0 ps = Inl Out_of_fuel"
| "parseexec (Suc n) ps =
     (if peek ps ''('' then parseblock n ps
      else bindR (parseredirs (EXEC []) ps) (\<lambda>(ret, ps). parse_args 0 ret ps))"

text \<open>
  After parsing the shell writes a NUL behind every word: the word is then the string that starts at
  its first pointer and ends at its second.
\<close>

fun word :: "string \<times> string \<Rightarrow> string" where
  "word (q, eq) = take (length q - length eq) q"

fun nulterminate :: "(string \<times> string) cmd \<Rightarrow> string cmd" where
  "nulterminate (EXEC as) = EXEC (map word as)"
| "nulterminate (REDIR c f m fd) = REDIR (nulterminate c) (word f) m fd"
| "nulterminate (PIPE l r) = PIPE (nulterminate l) (nulterminate r)"
| "nulterminate (LIST l r) = LIST (nulterminate l) (nulterminate r)"
| "nulterminate (BACK c) = BACK (nulterminate c)"

text \<open>The recursion of the parser on a line is at most four calls deep for each of its characters.\<close>

definition parsecmd :: "string \<Rightarrow> sherr + string cmd" where
  "parsecmd s =
     bindR (parseline (4 * length s + 4) s) (\<lambda>(cmd, s).
     if skip s \<noteq> [] then Inl (Sh_panic ''syntax'') else Inr (nulterminate cmd))"

section \<open>Running commands\<close>

text \<open>
  What a process of the shell does, one system call after the other. A call with several outcomes has
  a continuation for each; \<open>Fork\<close> has those of the child, of the parent and of a failure.
  A descriptor is a number or one end of the pipe made last.
\<close>

datatype fd = Std nat | Rd | Wr

datatype act =
    Exit
  | Exec string "string list" act
  | Close fd act
  | Dup fd act
  | Open string u32 act act
  | Mkpipe act act
  | Fork act act act
  | Wait act
  | Print string act

definition sh_panic :: "string \<Rightarrow> act" where
  "sh_panic s = Print (s @ ''\<newline>'') Exit"

definition fork1 :: "act \<Rightarrow> act \<Rightarrow> act" where
  "fork1 child parent = Fork child parent (sh_panic ''fork'')"

fun runcmd :: "string cmd \<Rightarrow> act" where
  "runcmd (EXEC as) =
     (case as of [] \<Rightarrow> Exit | a # _ \<Rightarrow> Exec a as (Print (the (u_printf ''exec %s failed\<newline>'' [P_str (Some a)])) Exit))"
| "runcmd (REDIR c f m fd) =
     Close (Std fd) (Open f m (runcmd c) (Print (the (u_printf ''open %s failed\<newline>'' [P_str (Some f)])) Exit))"
| "runcmd (LIST l r) = fork1 (runcmd l) (Wait (runcmd r))"
| "runcmd (PIPE l r) =
     Mkpipe
       (fork1 (Close (Std 1) (Dup Wr (Close Rd (Close Wr (runcmd l)))))
       (fork1 (Close (Std 0) (Dup Rd (Close Rd (Close Wr (runcmd r)))))
       (Close Rd (Close Wr (Wait (Wait Exit))))))
       (sh_panic ''pipe'')"
| "runcmd (BACK c) = fork1 (runcmd c) Exit"

text \<open>The lines the shell reads, and for each a change of directory or a command for a child process.\<close>

definition getcmd :: "instream \<Rightarrow> (string \<times> instream) option" where
  "getcmd inp = (case gets 100 inp of (buf, inp) \<Rightarrow> if buf = [] then None else Some (buf, inp))"

datatype shstep = Sh_cd string | Sh_run "sherr + act"

function sh_loop :: "instream \<Rightarrow> shstep list" where
  "sh_loop inp =
     (case getcmd inp of
        None \<Rightarrow> []
      | Some (buf, inp) \<Rightarrow>
          (if take 3 buf = ''cd '' then Sh_cd (drop 3 (butlast buf)) else Sh_run (map_sum id runcmd (parsecmd buf))) # sh_loop inp)"
  by pat_completeness auto
termination
  by (relation "measure (\<lambda>inp. length (to_come inp))")
    (auto simp: getcmd_def split: prod.splits if_splits dest!: gets_consumes)

declare sh_loop.simps [simp del]

text \<open>A parser that returns: with a command and not more of the line left than there was, or with a message.\<close>

definition sh_errors :: "sherr set" where
  "sh_errors = {Sh_panic ''missing file for redirection'', Sh_panic ''syntax'', Sh_panic ''too many args'', Sh_panic ''syntax - missing )''}"

definition returns :: "string \<Rightarrow> sherr + 'a \<times> string \<Rightarrow> bool" where
  "returns ps r \<longleftrightarrow> (case r of Inl e \<Rightarrow> e \<in> sh_errors | Inr (c, ps') \<Rightarrow> length ps' \<le> length ps)"

section \<open>The parser returns\<close>

lemma returns_simps [simp]:
  "returns ps (Inl e) \<longleftrightarrow> e \<in> sh_errors" "returns ps (Inr (c, ps')) \<longleftrightarrow> length ps' \<le> length ps"
  by (simp_all add: returns_def)

lemma returns_bind:
  assumes "returns ps m" and "\<And>c ps'. m = Inr (c, ps') \<Longrightarrow> length ps' \<le> length ps \<Longrightarrow> returns ps (f (c, ps'))"
  shows "returns ps (bindR m f)"
proof (cases m)
  case (Inr x)
  then show ?thesis using assms by (cases x) simp
qed (use assms in simp)

lemma returns_mono: "returns ps r \<Longrightarrow> length ps \<le> length ps' \<Longrightarrow> returns ps' r"
  by (auto simp: returns_def split: sum.splits)

lemma parseredirs_returns: "returns ps (parseredirs cmd ps)"
proof (induction cmd ps rule: parseredirs.induct)
  case (1 cmd ps)
  obtain k1 w1 ps1 where g1: "gettoken ps = (k1, w1, ps1)" by (metis prod.exhaust)
  obtain k2 w2 ps2 where g2: "gettoken ps1 = (k2, w2, ps2)" by (metis prod.exhaust)
  have l: "length ps2 \<le> length ps" using token_le [OF g1] token_le [OF g2] by simp
  show ?case
  proof (cases "\<not> peek ps ''<>'' \<or> k2 \<noteq> CHR ''a''")
    case True
    then show ?thesis using skip_length [of ps] by (subst parseredirs.simps) (auto simp: g1 g2 sh_errors_def)
  next
    case False
    then have "returns ps2 (parseredirs (REDIR cmd w2 O_RDONLY 0) ps2)" if "k1 = CHR ''<''"
      using "1.IH"(1) [OF _ g1 [symmetric] refl g2 [symmetric]] that by simp
    moreover have "returns ps2 (parseredirs (REDIR cmd w2 (O_WRONLY OR O_CREATE) 1) ps2)" if "k1 \<noteq> CHR ''<''"
      using "1.IH"(2) [OF _ g1 [symmetric] refl g2 [symmetric]] that False by simp
    ultimately show ?thesis using False returns_mono [OF _ l] by (subst parseredirs.simps) (auto simp: g1 g2)
  qed
qed

lemma parse_args_returns: "returns ps (parse_args argc ret ps)"
proof (induction argc ret ps rule: parse_args.induct)
  case (1 argc ret ps)
  obtain k w ps1 where g: "gettoken ps = (k, w, ps1)" by (metis prod.exhaust)
  note l = token_le [OF g] skip_length [of ps]
  show ?case
  proof (cases "peek ps ''|)&;'' \<or> k \<noteq> CHR ''a'' \<or> Suc argc \<ge> MAXARGS")
    case True
    then show ?thesis using l by (subst parse_args.simps) (auto simp: g sh_errors_def)
  next
    case False
    have "returns ps1 (bindR (parseredirs (add_arg w ret) ps1) (\<lambda>(ret, ps). parse_args (Suc argc) ret ps))"
    proof (rule returns_bind [OF parseredirs_returns])
      fix c ps2 assume p: "parseredirs (add_arg w ret) ps1 = Inr (c, ps2)" and s: "length ps2 \<le> length ps1"
      have "returns ps2 (parse_args (Suc argc) c ps2)"
        using "1.IH" [OF _ g [symmetric] refl] False p by simp
      then show "returns ps1 ((\<lambda>(ret, ps). parse_args (Suc argc) ret ps) (c, ps2))" using returns_mono [OF _ s] by simp
    qed
    then show ?thesis using returns_mono [OF _ l(1)] False by (subst parse_args.simps) (simp add: g)
  qed
qed

lemma parse_backs_le: "length (snd (parse_backs cmd ps)) \<le> length ps"
proof (induction cmd ps rule: parse_backs.induct)
  case (1 cmd ps)
  obtain k w ps1 where g: "gettoken ps = (k, w, ps1)" by (metis prod.exhaust)
  show ?case using "1.IH" [OF _ g [symmetric] refl] token_le [OF g] skip_length [of ps] by (subst parse_backs.simps) (auto simp: g)
qed

lemma rest_returns:
  assumes "length ps2 \<le> length ps" and "\<And>ps3. length ps3 < length ps \<Longrightarrow> returns ps3 (P ps3)"
  shows "returns ps (if peek ps2 toks then (case gettoken ps2 of (_, _, ps3) \<Rightarrow> bindR (P ps3) (\<lambda>(r, ps). Inr (F r, ps)))
    else Inr (c, skip ps2))"
proof (cases "peek ps2 toks")
  case True
  obtain k w ps3 where h: "gettoken ps2 = (k, w, ps3)" by (metis prod.exhaust)
  have l: "length ps3 < length ps" using peek_shorter [OF True h] assms(1) by simp
  then have "returns ps3 (bindR (P ps3) (\<lambda>(r, ps). Inr (F r, ps)))" by (intro returns_bind assms(2)) simp_all
  then show ?thesis using True h returns_mono [of ps3 _ ps] l by simp
next
  case False
  then show ?thesis using assms(1) skip_length [of ps2] by simp
qed

lemma parser_returns:
  "4 * length ps + 4 \<le> n \<Longrightarrow> returns ps (parseline n ps)"
  "4 * length ps + 3 \<le> n \<Longrightarrow> returns ps (parsepipe n ps)"
  "4 * length ps + 1 \<le> n \<Longrightarrow> peek ps ''('' \<Longrightarrow> returns ps (parseblock n ps)"
  "4 * length ps + 2 \<le> n \<Longrightarrow> returns ps (parseexec n ps)"
proof (induction n arbitrary: ps)
  case (Suc n)
  { case 1
    have r: "returns q (parseline n q)" if "length q < length ps" for q using Suc.IH(1) [of q] 1 that by simp
    show ?case unfolding parseline.simps
    proof (rule returns_bind)
      show "returns ps (parsepipe n ps)" using Suc.IH(2) [of ps] 1 by simp
      fix c :: "(string \<times> string) cmd" and ps1 :: string assume l: "length ps1 \<le> length ps"
      obtain d ps2 where b: "parse_backs c ps1 = (d, ps2)" by fastforce
      have l2: "length ps2 \<le> length ps" using parse_backs_le [of c ps1] b l by simp
      show "returns ps ((\<lambda>(cmd, ps). case parse_backs cmd ps of (cmd, ps) \<Rightarrow> if peek ps '';'' then
           (case gettoken ps of (_, _, ps) \<Rightarrow> bindR (parseline n ps) (\<lambda>(right, ps). Inr (LIST cmd right, ps))) else Inr (cmd, skip ps)) (c, ps1))"
        unfolding prod.case b by (rule rest_returns [OF l2 r])
    qed }
  { case 2
    have r: "returns q (parsepipe n q)" if "length q < length ps" for q using Suc.IH(2) [of q] 2 that by simp
    show ?case unfolding parsepipe.simps
      by (rule returns_bind) (use Suc.IH(4) [of ps] 2 in simp, unfold prod.case, rule rest_returns [OF _ r]) }
  { case 3
    obtain k w ps1 where g: "gettoken ps = (k, w, ps1)" by (metis prod.exhaust)
    have l1: "length ps1 < length ps" by (rule peek_shorter [OF 3(2) g])
    have "returns ps1 (bindR (parseline n ps1) (\<lambda>(cmd, ps). if \<not> peek ps '')'' then Inl (Sh_panic ''syntax - missing )'')
          else case gettoken ps of (_, _, ps) \<Rightarrow> parseredirs cmd ps))"
    proof (rule returns_bind)
      show "returns ps1 (parseline n ps1)" using Suc.IH(1) [of ps1] 3(1) l1 by simp
      fix c and ps2 :: string assume l2: "length ps2 \<le> length ps1"
      obtain k w ps3 where h: "gettoken ps2 = (k, w, ps3)" by (metis prod.exhaust)
      have "returns ps1 (parseredirs c ps3)" by (rule returns_mono [OF parseredirs_returns]) (use token_le [OF h] l2 in simp)
      then show "returns ps1 ((\<lambda>(cmd, ps). if \<not> peek ps '')'' then Inl (Sh_panic ''syntax - missing )'')
          else case gettoken ps of (_, _, ps) \<Rightarrow> parseredirs cmd ps) (c, ps2))" using h by (simp add: sh_errors_def)
    qed
    then show ?case using 3(2) g returns_mono [of ps1 _ ps] l1 by simp }
  { case 4
    have "returns ps (bindR (parseredirs (EXEC []) ps) (\<lambda>(ret, ps). parse_args 0 ret ps))"
      by (rule returns_bind [OF parseredirs_returns]) (simp add: returns_mono [OF parse_args_returns])
    then show ?case using Suc.IH(3) [of ps] 4 by simp }
qed simp_all

section \<open>Printing commands\<close>

text \<open>The constructs of a line, from the loosest to the tightest; a looser one inside a tighter one is put in parentheses.\<close>

datatype level = At_line | At_back | At_pipe | At_exec

definition paren :: "bool \<Rightarrow> string \<Rightarrow> string" where
  "paren b s = (if b then ''('' @ s @ '')'' else s)"

definition show_words :: "string list \<Rightarrow> string" where
  "show_words as = concat (map ((#) (CHR '' '')) as)"

definition show_redir :: "string \<Rightarrow> nat \<Rightarrow> string" where
  "show_redir f fd = (if fd = 0 then ''<'' else ''>'') @ CHR '' '' # f"

fun show_cmd :: "level \<Rightarrow> string cmd \<Rightarrow> string" where
  "show_cmd lv (EXEC as) = show_words as"
| "show_cmd lv (REDIR c f m fd) = show_cmd At_exec c @ show_redir f fd"
| "show_cmd lv (PIPE l r) = paren (lv = At_exec) (show_cmd At_exec l @ ''|'' @ show_cmd At_pipe r)"
| "show_cmd lv (BACK c) = paren (lv = At_exec \<or> lv = At_pipe) (show_cmd At_back c @ ''&'')"
| "show_cmd lv (LIST l r) = paren (lv \<noteq> At_line) (show_cmd At_back l @ '';'' @ show_cmd At_line r)"

text \<open>Commands the shell can have read: proper words, less than \<open>MAXARGS\<close> arguments, the modes of the redirections.\<close>

definition wf_word :: "string \<Rightarrow> bool" where
  "wf_word w \<longleftrightarrow> w \<noteq> [] \<and> (\<forall>c\<in>set w. \<not> white c \<and> \<not> symbol c)"

fun wf_cmd :: "string cmd \<Rightarrow> bool" where
  "wf_cmd (EXEC as) \<longleftrightarrow> length as < MAXARGS \<and> (\<forall>w\<in>set as. wf_word w)"
| "wf_cmd (REDIR c f m fd) \<longleftrightarrow> wf_cmd c \<and> wf_word f \<and> (fd = 0 \<and> m = O_RDONLY \<or> fd = 1 \<and> m = O_WRONLY OR O_CREATE)"
| "wf_cmd (PIPE l r) \<longleftrightarrow> wf_cmd l \<and> wf_cmd r"
| "wf_cmd (LIST l r) \<longleftrightarrow> wf_cmd l \<and> wf_cmd r"
| "wf_cmd (BACK c) \<longleftrightarrow> wf_cmd c"

text \<open>What is left of a line stops a construct if it is empty or goes on with one of the given symbols.\<close>

definition sep :: "string \<Rightarrow> bool" where
  "sep rest \<longleftrightarrow> rest = [] \<or> white (hd rest) \<or> symbol (hd rest)"

definition stops :: "string \<Rightarrow> string \<Rightarrow> bool" where
  "stops S rest \<longleftrightarrow> skip rest = [] \<or> hd (skip rest) \<in> set S"

text \<open>A command of words and redirections, its number of words, and how the parser goes on after it.\<close>

fun simple :: "'a cmd \<Rightarrow> bool" where
  "simple (EXEC as) = True"
| "simple (REDIR c f m fd) = simple c"
| "simple c = False"

fun nargs :: "'a cmd \<Rightarrow> nat" where
  "nargs (EXEC as) = length as"
| "nargs (REDIR c f m fd) = nargs c"
| "nargs c = 0"

definition after :: "(string \<times> string) cmd \<Rightarrow> string \<Rightarrow> sherr + (string \<times> string) cmd \<times> string" where
  "after c rest =
     (if simple c then bindR (parseredirs c rest) (\<lambda>(r, ps). parse_args (nargs c) r ps) else parseredirs c rest)"

definition reads_exec :: "string cmd \<Rightarrow> bool" where
  "reads_exec c \<longleftrightarrow> (\<forall>n rest. stops ''|)&;<>'' rest \<longrightarrow> 4 * length (show_cmd At_exec c @ rest) + 2 \<le> n \<longrightarrow>
     (\<exists>c'. nulterminate c' = c \<and> parseexec n (show_cmd At_exec c @ rest) = after c' rest))"

definition reads_pipe :: "string cmd \<Rightarrow> bool" where
  "reads_pipe c \<longleftrightarrow> (\<forall>n rest. stops '')&;'' rest \<longrightarrow> 4 * length (show_cmd At_pipe c @ rest) + 3 \<le> n \<longrightarrow>
     (\<exists>c'. nulterminate c' = c \<and> parsepipe n (show_cmd At_pipe c @ rest) = Inr (c', skip rest)))"

definition reads_back :: "string cmd \<Rightarrow> bool" where
  "reads_back c \<longleftrightarrow> (\<forall>n rest. stops '')&;'' rest \<longrightarrow> 4 * length (show_cmd At_back c @ rest) + 3 \<le> n \<longrightarrow>
     (\<exists>c' p ps. nulterminate c' = c \<and> parsepipe n (show_cmd At_back c @ rest) = Inr (p, ps) \<and> parse_backs p ps = parse_backs c' rest))"

definition reads_line :: "string cmd \<Rightarrow> bool" where
  "reads_line c \<longleftrightarrow> (\<forall>n rest. stops '')'' rest \<longrightarrow> 4 * length (show_cmd At_line c @ rest) + 4 \<le> n \<longrightarrow>
     (\<exists>c'. nulterminate c' = c \<and> parseline n (show_cmd At_line c @ rest) = Inr (c', skip rest)))"

section \<open>Reading back\<close>

lemma skip_simps [simp]: "skip [] = []" "skip (c # s) = (if white c then skip s else c # s)" "skip (skip s) = skip s"
proof -
  show "skip (skip s) = skip s" by (cases "skip s") (use skip_hd in \<open>simp_all add: skip_def\<close>)
qed (simp_all add: skip_def)

lemma at_skip [simp]: "peek (skip s) toks = peek s toks" "gettoken (skip s) = gettoken s"
  by (simp_all add: peek_def gettoken_def)

lemma parse_at_skip [simp]: "parseredirs c (skip s) = parseredirs c s" "parse_backs d (skip s) = parse_backs d s"
  "parseblock n (skip s) = parseblock n s" "parseexec n (skip s) = parseexec n s" "parsepipe n (skip s) = parsepipe n s"
  "parseline n (skip s) = parseline n s"
proof -
  show r: "parseredirs c (skip s) = parseredirs c s" for c by (simp add: parseredirs.simps)
  show "parse_backs d (skip s) = parse_backs d s" by (simp add: parse_backs.simps)
  show b: "parseblock n (skip s) = parseblock n s" for n by (cases n) simp_all
  show e: "parseexec n (skip s) = parseexec n s" for n by (cases n) (simp_all add: r b)
  show p: "parsepipe n (skip s) = parsepipe n s" for n by (cases n) (simp_all add: e)
  show "parseline n (skip s) = parseline n s" by (cases n) (simp_all add: p)
qed

lemma token_chars [simp]: "\<not> white (CHR ''|'')" "\<not> white (CHR ''('')" "\<not> white (CHR '')'')" "\<not> white (CHR '';'')" "\<not> white (CHR ''&'')"
  "\<not> white (CHR ''<'')" "\<not> white (CHR ''>'')" "white (CHR '' '')"
  by (simp_all add: white_def whitespace_def)

lemma peek_cases: "peek s toks \<longleftrightarrow> (case skip s of [] \<Rightarrow> False | c # _ \<Rightarrow> c \<in> set toks)"
  by (auto simp: peek_def strchr_None split: list.splits)

lemma peek_less: "\<not> peek s T \<Longrightarrow> set toks \<subseteq> set T \<Longrightarrow> \<not> peek s toks"
  by (auto simp: peek_cases split: list.splits)

lemma stops_peek: "stops S rest \<Longrightarrow> set S \<inter> set toks = {} \<Longrightarrow> \<not> peek rest toks"
  by (auto simp: stops_def peek_cases split: list.splits)

lemma stops_sep:
  assumes "stops S rest" and "\<forall>c\<in>set S. symbol c"
  shows "sep rest"
  using assms by (cases rest) (auto simp: stops_def sep_def split: if_splits)

lemma gettoken_word:
  assumes "wf_word w" and "sep rest"
  shows "gettoken (w @ rest) = (CHR ''a'', (w @ rest, rest), skip rest)" "skip (w @ rest) = w @ rest" "word (w @ rest, rest) = w"
    "\<not> peek (w @ rest) ''|)&;<>(''"
proof -
  obtain c v where w: "w = c # v" "\<not> white c" "\<not> symbol c" using assms(1) by (cases w) (auto simp: wf_word_def)
  have d: "dropWhile (\<lambda>c. \<not> white c \<and> \<not> symbol c) (w @ rest) = rest"
    using assms by (cases rest) (auto simp: wf_word_def sep_def dropWhile_append dropWhile_eq_Nil_conv)
  show s: "skip (w @ rest) = w @ rest" using w by simp
  show "gettoken (w @ rest) = (CHR ''a'', (w @ rest, rest), skip rest)"
    unfolding gettoken_def s Let_def using w d by (simp add: symbol_cases)
  show "word (w @ rest, rest) = w" by simp
  show "\<not> peek (w @ rest) ''|)&;<>(''" using w s by (auto simp: peek_cases symbol_cases)
qed

lemma redirs_stop: "stops ''|)&;'' rest \<Longrightarrow> parseredirs c rest = Inr (c, skip rest)"
  using stops_peek [of "''|)&;''" rest "''<>''"] by (simp add: parseredirs.simps)

lemma redirs_word:
  assumes "wf_word w" and "sep rest"
  shows "parseredirs c (CHR '' '' # w @ rest) = Inr (c, w @ rest)"
  using gettoken_word(2) [OF assms] peek_less [OF gettoken_word(4) [OF assms], of "''<>''"] by (simp add: parseredirs.simps peek_def)

lemma redirs_redir:
  assumes "wf_word f" and "sep rest" and "fd = 0 \<and> m = O_RDONLY \<or> fd = 1 \<and> m = O_WRONLY OR O_CREATE"
  shows "parseredirs c (show_redir f fd @ rest) = parseredirs (REDIR c (f @ rest, rest) m fd) rest"
proof -
  have t: "gettoken (CHR '' '' # f @ rest) = (CHR ''a'', (f @ rest, rest), skip rest)"
    using gettoken_word(1) [OF assms(1,2)] at_skip(2) [of "CHR '' '' # f @ rest"] gettoken_word(2) [OF assms(1,2)] by simp
  have "gettoken (CHR ''<'' # CHR '' '' # f @ rest) = (CHR ''<'', (CHR ''<'' # CHR '' '' # f @ rest, CHR '' '' # f @ rest), f @ rest)"
    "gettoken (CHR ''>'' # CHR '' '' # f @ rest) = (CHR ''>'', (CHR ''>'' # CHR '' '' # f @ rest, CHR '' '' # f @ rest), f @ rest)"
    using gettoken_word(2) [OF assms(1,2)] by (simp_all add: gettoken_def)
  then show ?thesis using assms(3) gettoken_word(1) [OF assms(1,2)]
    by (subst parseredirs.simps) (auto simp: show_redir_def peek_cases)
qed

lemma args_stop: "stops ''|)&;'' rest \<Longrightarrow> parse_args k r rest = Inr (r, skip rest)"
proof (cases "skip rest")
  case Nil
  then show ?thesis by (simp add: parse_args.simps peek_cases gettoken_def)
next
  case (Cons c s)
  moreover assume "stops ''|)&;'' rest"
  ultimately show ?thesis by (simp add: parse_args.simps peek_cases stops_def)
qed

lemma args_word:
  assumes "wf_word w" and "sep rest" and "Suc k < MAXARGS"
  shows "parse_args k r (w @ rest) = bindR (parseredirs (add_arg (w @ rest, rest) r) rest) (\<lambda>(r, ps). parse_args (Suc k) r ps)"
  using gettoken_word(1) [OF assms(1,2)] peek_less [OF gettoken_word(4) [OF assms(1,2)], of "''|)&;''"] assms(3)
  by (subst parse_args.simps) simp

lemma words_sep: "stops ''|)&;<>'' rest \<Longrightarrow> sep (show_words ws @ rest)"
  using stops_sep [of "''|)&;<>''" rest] by (cases ws) (simp_all add: show_words_def symbol_cases sep_def)

lemma args_words:
  assumes "\<forall>w\<in>set ws. wf_word w" and "length sp + length ws < MAXARGS" and "stops ''|)&;<>'' rest"
  shows "\<exists>sp'. map word sp' = ws \<and> bindR (parseredirs (EXEC sp) (show_words ws @ rest)) (\<lambda>(r, ps). parse_args (length sp) r ps) =
    bindR (parseredirs (EXEC (sp @ sp')) rest) (\<lambda>(r, ps). parse_args (length (sp @ sp')) r ps)"
  using assms(1,2)
proof (induction ws arbitrary: sp)
  case Nil
  then show ?case by (simp add: show_words_def)
next
  case (Cons w ws)
  let ?r = "show_words ws @ rest"
  have e: "show_words (w # ws) @ rest = CHR '' '' # w @ ?r" by (simp add: show_words_def)
  have w: "wf_word w" "Suc (length sp) < MAXARGS" using Cons.prems by simp_all
  obtain sp' where "map word sp' = ws" "bindR (parseredirs (EXEC (sp @ [(w @ ?r, ?r)])) ?r) (\<lambda>(r, ps). parse_args (length (sp @ [(w @ ?r, ?r)])) r ps) =
      bindR (parseredirs (EXEC ((sp @ [(w @ ?r, ?r)]) @ sp')) rest) (\<lambda>(r, ps). parse_args (length ((sp @ [(w @ ?r, ?r)]) @ sp')) r ps)"
    using Cons.IH [of "sp @ [(w @ ?r, ?r)]"] Cons.prems by auto
  moreover have s: "sep ?r" by (rule words_sep [OF assms(3)])
  ultimately show ?case unfolding e redirs_word [OF w(1) s]
    using args_word [OF w(1) s w(2), of "EXEC sp"] gettoken_word(3) [OF w(1) s]
    by (intro exI [of _ "(w @ ?r, ?r) # sp'"]) simp
qed

lemma after_stop: "stops ''|)&;'' rest \<Longrightarrow> after c rest = Inr (c, skip rest)"
proof -
  assume s: "stops ''|)&;'' rest"
  then have "stops ''|)&;'' (skip rest)" by (simp add: stops_def)
  from args_stop [OF this] show ?thesis using redirs_stop [OF s] by (simp add: after_def)
qed

lemma stops_mono: "stops S rest \<Longrightarrow> set S \<subseteq> set T \<Longrightarrow> stops T rest"
  by (auto simp: stops_def)

lemma stops_Cons [simp]: "\<not> white c \<Longrightarrow> stops S (c # s) \<longleftrightarrow> c \<in> set S"
  by (simp add: stops_def)

lemma gettoken_symbol:
  "c \<in> set ''|();&'' \<Longrightarrow> gettoken (c # s) = (c, (c # s, s), skip s)" "c \<in> set ''|();&'' \<Longrightarrow> peek (c # s) toks \<longleftrightarrow> c \<in> set toks"
  by (auto simp: gettoken_def peek_cases)

lemma exec_reads:
  assumes "wf_cmd (EXEC as)"
  shows "reads_exec (EXEC as)"
  unfolding reads_exec_def
proof (intro allI impI)
  fix n rest assume s: "stops ''|)&;<>'' rest" and "4 * length (show_cmd At_exec (EXEC as) @ rest) + 2 \<le> n"
  then obtain m where n: "n = Suc m" by (cases n) auto
  have "\<not> peek (show_words as @ rest) ''(''"
  proof (cases as)
    case Nil
    then show ?thesis using stops_peek [OF s, of "''(''"] by (simp add: show_words_def)
  next
    case (Cons w ws)
    then have "skip (show_words as @ rest) = w @ show_words ws @ rest" "\<not> peek (w @ show_words ws @ rest) ''(''"
      using assms gettoken_word(2,4) [OF _ words_sep [OF s, of ws], of w] peek_less [of "w @ show_words ws @ rest" "''|)&;<>(''" "''(''"]
      by (auto simp: show_words_def)
    then show ?thesis by (metis at_skip(1))
  qed
  moreover obtain sp where "map word sp = as" "bindR (parseredirs (EXEC []) (show_words as @ rest)) (\<lambda>(r, ps). parse_args 0 r ps) =
      bindR (parseredirs (EXEC sp) rest) (\<lambda>(r, ps). parse_args (length sp) r ps)"
    using args_words [of as "[]" rest] assms s by auto
  ultimately show "\<exists>c'. nulterminate c' = EXEC as \<and> parseexec n (show_cmd At_exec (EXEC as) @ rest) = after c' rest"
    by (intro exI [of _ "EXEC sp"]) (simp add: n after_def)
qed

lemma redir_reads:
  assumes "reads_exec c" and "wf_cmd (REDIR c f m fd)"
  shows "reads_exec (REDIR c f m fd)"
  unfolding reads_exec_def
proof (intro allI impI)
  fix n rest assume s: "stops ''|)&;<>'' rest" and n: "4 * length (show_cmd At_exec (REDIR c f m fd) @ rest) + 2 \<le> n"
  let ?r = "show_redir f fd @ rest"
  have "stops ''|)&;<>'' ?r" by (simp add: show_redir_def)
  then obtain c' where c: "nulterminate c' = c" "parseexec n (show_cmd At_exec c @ ?r) = after c' ?r"
    using assms(1) n unfolding reads_exec_def by fastforce
  have sp: "sep rest" by (rule stops_sep [OF s]) (simp add: symbol_cases)
  have w: "wf_word f" "fd = 0 \<and> m = O_RDONLY \<or> fd = 1 \<and> m = O_WRONLY OR O_CREATE" using assms(2) by simp_all
  have "after c' ?r = after (REDIR c' (f @ rest, rest) m fd) rest" by (simp add: after_def redirs_redir [OF w(1) sp w(2)])
  then show "\<exists>c'. nulterminate c' = REDIR c f m fd \<and> parseexec n (show_cmd At_exec (REDIR c f m fd) @ rest) = after c' rest"
    using c gettoken_word(3) [OF w(1) sp] by (intro exI [of _ "REDIR c' (f @ rest, rest) m fd"]) simp
qed

lemma pipe_from_exec:
  assumes "reads_exec c" and "show_cmd At_pipe c = show_cmd At_exec c"
  shows "reads_pipe c"
  unfolding reads_pipe_def
proof (intro allI impI)
  fix n rest assume s: "stops '')&;'' rest" and n: "4 * length (show_cmd At_pipe c @ rest) + 3 \<le> n"
  then obtain k where k: "n = Suc k" by (cases n) auto
  have "stops ''|)&;<>'' rest" "stops ''|)&;'' rest" using stops_mono [OF s] by auto
  then obtain c' where "nulterminate c' = c" "parseexec k (show_cmd At_exec c @ rest) = Inr (c', skip rest)"
    using assms n k after_stop unfolding reads_exec_def by (metis Suc_le_mono add_Suc_right numeral_2_eq_2 numeral_3_eq_3)
  moreover have "\<not> peek rest ''|''" using stops_peek [OF s] by simp
  ultimately show "\<exists>c'. nulterminate c' = c \<and> parsepipe n (show_cmd At_pipe c @ rest) = Inr (c', skip rest)"
    using assms(2) k by auto
qed

lemma back_from_pipe:
  assumes "reads_pipe c" and "show_cmd At_back c = show_cmd At_pipe c"
  shows "reads_back c"
  using assms unfolding reads_pipe_def reads_back_def by (metis parse_at_skip(2))

lemma line_from_back:
  assumes "reads_back c" and "show_cmd At_line c = show_cmd At_back c"
  shows "reads_line c"
  unfolding reads_line_def
proof (intro allI impI)
  fix n rest assume s: "stops '')'' rest" and n: "4 * length (show_cmd At_line c @ rest) + 4 \<le> n"
  then obtain k where k: "n = Suc k" by (cases n) auto
  have "stops '')&;'' rest" "4 * length (show_cmd At_back c @ rest) + 3 \<le> k" using stops_mono [OF s] n k assms(2) by auto
  then obtain c' p ps where "nulterminate c' = c" "parsepipe k (show_cmd At_back c @ rest) = Inr (p, ps)" "parse_backs p ps = parse_backs c' rest"
    using assms(1) unfolding reads_back_def by blast
  moreover have "\<not> peek rest ''&''" "\<not> peek rest '';''" using stops_peek [OF s] by simp_all
  then have "parse_backs c' rest = (c', skip rest)" by (simp add: parse_backs.simps)
  ultimately show "\<exists>c'. nulterminate c' = c \<and> parseline n (show_cmd At_line c @ rest) = Inr (c', skip rest)"
    using assms(2) k \<open>\<not> peek rest '';''\<close> by auto
qed

lemma exec_from_line:
  assumes "reads_line c" and "show_cmd At_exec c = ''('' @ show_cmd At_line c @ '')''" and "\<not> simple c"
  shows "reads_exec c"
  unfolding reads_exec_def
proof (intro allI impI)
  fix n rest assume s: "stops ''|)&;<>'' rest" and n: "4 * length (show_cmd At_exec c @ rest) + 2 \<le> n"
  then obtain k where k: "n = Suc (Suc k)" by (cases n; cases "n - 1") auto
  let ?r = "CHR '')'' # rest"
  have "stops '')'' ?r" by simp
  then obtain c' where c: "nulterminate c' = c" "parseline k (show_cmd At_line c @ ?r) = Inr (c', skip ?r)"
    using assms(1,2) n k unfolding reads_line_def by fastforce
  have "\<not> simple c'" using c(1) assms(3) by (induction c' arbitrary: c) auto
  moreover have "parseexec n (show_cmd At_exec c @ rest) = parseredirs c' rest"
    using c(2) by (simp add: k assms(2) gettoken_symbol)
  ultimately show "\<exists>c'. nulterminate c' = c \<and> parseexec n (show_cmd At_exec c @ rest) = after c' rest"
    using c(1) by (auto simp: after_def)
qed

lemma pipe_reads:
  assumes "reads_exec l" and "reads_pipe r"
  shows "reads_pipe (PIPE l r)"
  unfolding reads_pipe_def
proof (intro allI impI)
  fix n rest assume s: "stops '')&;'' rest" and n: "4 * length (show_cmd At_pipe (PIPE l r) @ rest) + 3 \<le> n"
  then obtain k where k: "n = Suc k" by (cases n) auto
  let ?r = "CHR ''|'' # show_cmd At_pipe r @ rest"
  have "stops ''|)&;<>'' ?r" "stops ''|)&;'' ?r" "4 * length (show_cmd At_exec l @ ?r) + 2 \<le> k" "4 * length (show_cmd At_pipe r @ rest) + 3 \<le> k"
    using n k by (simp_all add: paren_def)
  then obtain l' r' where "nulterminate l' = l" "parseexec k (show_cmd At_exec l @ ?r) = Inr (l', skip ?r)"
      "nulterminate r' = r" "parsepipe k (show_cmd At_pipe r @ rest) = Inr (r', skip rest)"
    using assms s after_stop unfolding reads_exec_def reads_pipe_def by metis
  then show "\<exists>c'. nulterminate c' = PIPE l r \<and> parsepipe n (show_cmd At_pipe (PIPE l r) @ rest) = Inr (c', skip rest)"
    by (intro exI [of _ "PIPE l' r'"]) (simp add: k paren_def gettoken_symbol)
qed

lemma back_reads:
  assumes "reads_back c"
  shows "reads_back (BACK c)"
  unfolding reads_back_def
proof (intro allI impI)
  fix n rest assume s: "stops '')&;'' rest" and n: "4 * length (show_cmd At_back (BACK c) @ rest) + 3 \<le> n"
  let ?r = "CHR ''&'' # rest"
  have "stops '')&;'' ?r" "4 * length (show_cmd At_back c @ ?r) + 3 \<le> n" using n by (simp_all add: paren_def)
  then obtain c' p ps where c: "nulterminate c' = c" "parsepipe n (show_cmd At_back c @ ?r) = Inr (p, ps)" "parse_backs p ps = parse_backs c' ?r"
    using assms unfolding reads_back_def by metis
  have "parse_backs c' ?r = parse_backs (BACK c') rest" by (subst parse_backs.simps) (simp add: gettoken_symbol)
  then show "\<exists>c' p ps. nulterminate c' = BACK c \<and> parsepipe n (show_cmd At_back (BACK c) @ rest) = Inr (p, ps) \<and> parse_backs p ps = parse_backs c' rest"
    using c by (intro exI [of _ "BACK c'"] exI [of _ p] exI [of _ ps]) (simp add: paren_def)
qed

lemma list_reads:
  assumes "reads_back l" and "reads_line r"
  shows "reads_line (LIST l r)"
  unfolding reads_line_def
proof (intro allI impI)
  fix n rest assume s: "stops '')'' rest" and n: "4 * length (show_cmd At_line (LIST l r) @ rest) + 4 \<le> n"
  then obtain k where k: "n = Suc k" by (cases n) auto
  let ?r = "CHR '';'' # show_cmd At_line r @ rest"
  have "stops '')&;'' ?r" "4 * length (show_cmd At_back l @ ?r) + 3 \<le> k" "4 * length (show_cmd At_line r @ rest) + 4 \<le> k"
    using n k by (simp_all add: paren_def)
  then obtain l' p ps r' where "nulterminate l' = l" "parsepipe k (show_cmd At_back l @ ?r) = Inr (p, ps)" "parse_backs p ps = parse_backs l' ?r"
      "nulterminate r' = r" "parseline k (show_cmd At_line r @ rest) = Inr (r', skip rest)"
    using assms s unfolding reads_back_def reads_line_def by metis
  moreover have "parse_backs l' ?r = (l', ?r)" by (simp add: parse_backs.simps gettoken_symbol)
  ultimately show "\<exists>c'. nulterminate c' = LIST l r \<and> parseline n (show_cmd At_line (LIST l r) @ rest) = Inr (c', skip rest)"
    by (intro exI [of _ "LIST l' r'"]) (simp add: k paren_def gettoken_symbol)
qed

lemma cmd_reads: "wf_cmd c \<Longrightarrow> reads_exec c \<and> reads_pipe c \<and> reads_back c \<and> reads_line c"
proof (induction c)
  case (EXEC as)
  then show ?case using exec_reads pipe_from_exec back_from_pipe line_from_back by simp
next
  case (REDIR c f m fd)
  then show ?case using redir_reads pipe_from_exec back_from_pipe line_from_back by simp
next
  case (PIPE l r)
  then have "reads_pipe (PIPE l r)" using pipe_reads by simp
  then show ?case using back_from_pipe line_from_back exec_from_line by (simp add: paren_def)
next
  case (LIST l r)
  then have "reads_line (LIST l r)" using list_reads by simp
  then show ?case using exec_from_line pipe_from_exec back_from_pipe by (simp add: paren_def)
next
  case (BACK c)
  then have "reads_back (BACK c)" using back_reads by simp
  then show ?case using line_from_back exec_from_line pipe_from_exec by (simp add: paren_def)
qed

section \<open>Properties\<close>

text \<open>
  C39: the parser always returns, whatever the line: with a command, or with one of four messages. The
  recursion between \<open>parseline\<close>, \<open>parsepipe\<close>, \<open>parseexec\<close> and \<open>parseblock\<close> is bounded
  by the length of the line, and the check at the start of \<open>parseblock\<close> never fails.
\<close>

theorem parsecmd_terminates:
  "case parsecmd s of Inr c \<Rightarrow> True
   | Inl e \<Rightarrow> e = Sh_panic ''missing file for redirection'' \<or> e = Sh_panic ''syntax'' \<or> e = Sh_panic ''too many args'' \<or>
       e = Sh_panic ''syntax - missing )''"
proof -
  have "returns s (parseline (4 * length s + 4) s)" by (rule parser_returns(1)) simp
  then show ?thesis by (auto simp: parsecmd_def returns_def sh_errors_def bindR_def split: sum.splits if_splits)
qed

text \<open>
  C40: the shell reads back every command. Whatever pipelines, lists, background commands and
  redirections are nested in each other, parsing the text of a command (with parentheses only where
  a looser construct stands inside a tighter one) gives that command, with the words of the text.
\<close>

theorem parse_print_roundtrip:
  assumes "wf_cmd c"
  shows "parsecmd (show_cmd At_line c) = Inr c"
proof -
  have "stops '')'' []" by (simp add: stops_def)
  moreover have "reads_line c" using cmd_reads [OF assms] by simp
  ultimately obtain c' where "nulterminate c' = c" "parseline (4 * length (show_cmd At_line c) + 4) (show_cmd At_line c) = Inr (c', [])"
    unfolding reads_line_def by (metis append_Nil2 order_refl skip_simps(1))
  then show ?thesis by (simp add: parsecmd_def)
qed

theorem parse_print_roundtrip_witness:
  "parsecmd (show_cmd At_line (LIST (BACK (PIPE (REDIR (EXEC [''cat'']) ''f'' 0 0) (LIST (EXEC [''wc'', ''-l'']) (EXEC [''ls''])))) (EXEC []))) =
    Inr (LIST (BACK (PIPE (REDIR (EXEC [''cat'']) ''f'' 0 0) (LIST (EXEC [''wc'', ''-l'']) (EXEC [''ls''])))) (EXEC []))"
  by (rule parse_print_roundtrip) (simp add: wf_word_def white_def whitespace_def symbol_def symbols_def)

end
