(* ===== verification/User_Access.thy ===== *)
theory User_Access
  imports Syscall_Args Proc_Sync Vm_Free
begin

unbundle bit_operations_syntax

text \<open>
  How far the arguments of a system call can lead the kernel: what \<open>argptr\<close> and \<open>argstr\<close> accept
  lies in the memory of the process.
\<close>

section \<open>Definitions\<close>

text \<open>The memory of process \<open>p\<close>, which runs: every address below its size is mapped.\<close>

definition backed :: "nat \<Rightarrow> 'z ptab_scheme \<Rightarrow> bool" where
  "backed p s \<longleftrightarrow> runs p s \<and> sz (proc_at s p) \<le> 0x80000000 \<and> (\<forall>a. a < sz (proc_at s p) \<longrightarrow> (\<exists>b. uload8 a s = Inr b))"

text \<open>The string \<open>bs\<close> with its NUL stands at \<open>a\<close> in the memory the process has.\<close>

definition string_at :: "u32 \<Rightarrow> u8 list \<Rightarrow> u32 \<Rightarrow> 'z vm_scheme \<Rightarrow> bool" where
  "string_at a bs size' s \<longleftrightarrow> 0 \<notin> set bs \<and> unat a + length bs < unat size' \<and>
     (\<forall>i<length bs. uload8 (a + of_nat i) s = Inr (bs ! i)) \<and> uload8 (a + of_nat (length bs)) s = Inr 0"

text \<open>A process with one page of memory, in the address space of \<open>demo_as\<close>.\<close>

definition demo_user :: ptab where
  "demo_user = demo_run\<lparr>mem := mem demo_as, cr3 := 0x400000, procs := upd_nth 1 (\<lambda>p. p\<lparr>sz := 0x1000\<rparr>) (procs demo_run)\<rparr>"

section \<open>Lemmas\<close>

lemma backed_run: "backed p s \<Longrightarrow> curproc s = Inr (p, s)"
  by (simp add: backed_def runs_def)

lemma backed_load: "backed p s \<Longrightarrow> a < sz (proc_at s p) \<Longrightarrow> \<exists>b. uload8 a s = Inr b"
  by (simp add: backed_def)

lemma sint_nonneg:
  fixes n :: u32
  assumes "0 \<le> sint n"
  shows "unat n < 2147483648"
proof -
  have "\<not> bit n 31" using bit_last_iff [of n] assms by simp
  then have "\<not> bit (unat n) 31" by (simp add: bit_unsigned_iff)
  then have "even (unat n div 2147483648)" by (simp add: bit_iff_odd)
  moreover have "unat n div 2147483648 < 2" by (rule less_mult_imp_div_less) (use unat_u32_less [of n] in simp)
  moreover have "even q \<Longrightarrow> q < 2 \<Longrightarrow> q = 0" for q :: nat by (cases q) auto
  ultimately have "unat n div 2147483648 = 0" by blast
  then show ?thesis by (simp add: div_eq_0_iff)
qed

lemma no_wrap:
  fixes i n z :: u32
  assumes "i < z" and "z \<le> 0x80000000" and "0 \<le> sint n"
  shows "unat (i + n) = unat i + unat n"
proof -
  have "unat n < 2147483648" by (rule sint_nonneg [OF assms(3)])
  moreover have "unat i < 2147483648" using assms(1,2) by (simp add: word_less_nat_alt word_le_nat_alt)
  ultimately show ?thesis by (simp add: unat_u32_add)
qed

lemma backed_load32:
  assumes "backed p s" and "unat a + 4 \<le> unat (sz (proc_at s p))"
  shows "\<exists>w. uload32 a s = Inr w"
proof -
  have "\<exists>b. uload8 (a + k) s = Inr b" if "unat k < 4" for k
    using backed_load [OF assms(1), of "a + k"] assms(2) that unat_u32_less [of "sz (proc_at s p)"]
    by (simp add: word_less_nat_alt unat_u32_add)
  from this [of 0] this [of 1] this [of 2] this [of 3] show ?thesis by (auto simp: uload32_def)
qed

lemma fetchint_returns:
  assumes "backed p s"
  shows "\<exists>r. fetchint a s = Inr (r, s)"
proof -
  note b = backed_run [OF assms]
  show ?thesis
  proof (cases "a \<ge> sz (proc_at s p) \<or> a + 4 > sz (proc_at s p)")
    case True
    then show ?thesis by (auto simp: fetchint_def b)
  next
    case False
    then have "unat (a + 4) = unat a + unat (4 :: u32)" using assms by (intro no_wrap [of _ "sz (proc_at s p)"]) (auto simp: backed_def)
    then have "unat a + 4 \<le> unat (sz (proc_at s p))" using False by (simp add: word_le_nat_alt word_less_nat_alt)
    then show ?thesis using backed_load32 [OF assms] False by (auto simp: fetchint_def b)
  qed
qed

lemma argint_returns: "backed p s \<Longrightarrow> \<exists>r. argint n s = Inr (r, s)"
  using fetchint_returns by (simp add: argint_def backed_run)

lemma fetchstr_loop_returns:
  assumes "backed p s" and "ep = sz (proc_at s p)" and "0 \<notin> set acc" and "unat a + length acc \<le> unat ep"
    and "\<forall>i<length acc. uload8 (a + of_nat i) s = Inr (acc ! i)"
  shows "\<exists>r. fetchstr_loop (a + of_nat (length acc)) ep acc s = Inr r \<and> (\<forall>bs. r = Some bs \<longrightarrow> string_at a bs ep s)"
  using assms(3-5)
proof (induction "unat ep - unat (a + of_nat (length acc))" arbitrary: acc rule: less_induct)
  case less
  let ?b = "a + of_nat (length acc)"
  have u: "unat ?b = unat a + length acc" using less.prems(2) unat_u32_less [of ep] by (simp add: unat_u32_add unat_of_nat)
  show ?case
  proof (cases "?b < ep")
    case True
    then obtain b where b: "uload8 ?b s = Inr b" using backed_load [OF assms(1)] assms(2) by blast
    have lt: "unat a + length acc < unat ep" using True u by (simp add: word_less_nat_alt)
    show ?thesis
    proof (cases "b = 0")
      case b0: True
      then have "string_at a acc ep s" using b lt less.prems by (simp add: string_at_def)
      then show ?thesis using True b b0 by (subst fetchstr_loop.simps) simp
    next
      case nz: False
      let ?acc = "acc @ [b]"
      have "unat (a + of_nat (length ?acc)) = unat a + length ?acc" using lt unat_u32_less [of ep] by (simp add: unat_u32_add unat_of_nat)
      then have i: "\<exists>r. fetchstr_loop (a + of_nat (length ?acc)) ep ?acc s = Inr r \<and> (\<forall>bs. r = Some bs \<longrightarrow> string_at a bs ep s)"
        using less.prems lt u b nz by (intro less.hyps) (auto simp: nth_append less_Suc_eq)
      have e: "a + of_nat (length ?acc) = ?b + 1" by simp
      show ?thesis using i True b nz unfolding e by (subst fetchstr_loop.simps) simp
    qed
  next
    case False
    then show ?thesis by (subst fetchstr_loop.simps) simp
  qed
qed

lemma fetchstr_returns:
  assumes "backed p s"
  shows "\<exists>r. fetchstr a s = Inr (r, s) \<and> (\<forall>bs. r = Some bs \<longrightarrow> string_at a bs (sz (proc_at s p)) s)"
proof (cases "a \<ge> sz (proc_at s p)")
  case True
  then show ?thesis by (simp add: fetchstr_def backed_run [OF assms])
next
  case False
  then have "unat a + length ([] :: u8 list) \<le> unat (sz (proc_at s p))" by (simp add: word_le_nat_alt)
  then show ?thesis using fetchstr_loop_returns [OF assms refl, of "[]" a] False by (auto simp: fetchstr_def backed_run [OF assms])
qed

lemma demo_user_backed: "backed 1 demo_user"
proof -
  have m: "mach_same demo_run demo_user" by (simp add: mach_same_def demo_user_def)
  have "length (procs demo_user) = NPROC" using demo_run_calm(7) by (simp add: demo_user_def)
  then have "runs 1 demo_user" using demo_run_calm calm_same [OF m] cur_same [OF m] mach_same_facts [OF m] by (simp add: runs_def)
  moreover have "sz (proc_at demo_user 1) = 0x1000" using demo_run_calm(7) by (simp add: demo_user_def)
  moreover have "\<exists>b. uload8 a demo_user = Inr b" if "a < 0x1000" for a
  proof -
    have "vpn a = 0" using that by (simp add: vpn_def word_less_nat_alt)
    moreover have "0 \<in> uset (mem demo_as) 0x80400000" by (simp add: demo_as_uset)
    then have "present (mem demo_as) 0x80400000 0" by (simp add: uset_def)
    ultimately show ?thesis by (simp add: uload8_def demo_user_def P2V_def xlate_pte)
  qed
  ultimately show ?thesis by (simp add: backed_def)
qed

section \<open>Properties\<close>

text \<open>
  C10: the kernel never follows a system-call argument out of the memory of the process. For a process
  whose memory is mapped, \<open>argptr\<close> and \<open>argstr\<close> return and change nothing; a pointer they
  accept is the start of a block of the size asked for that lies below the size of the process (with
  no wrap-around of the sum), and a string they accept ends with its NUL below that size.
\<close>

theorem args_in_user_memory:
  assumes "backed p s"
  shows "returnsR (argptr n size' s) (\<lambda>(r, t). t = s \<and>
      (case r of None \<Rightarrow> True | Some i \<Rightarrow> 0 \<le> sint size' \<and> i < sz (proc_at s p) \<and> unat i + unat size' \<le> unat (sz (proc_at s p)))) \<and>
    returnsR (argstr n s) (\<lambda>(r, t). t = s \<and> (case r of None \<Rightarrow> True | Some bs \<Rightarrow> \<exists>a. string_at a bs (sz (proc_at s p)) s))"
proof -
  obtain r where r: "argint n s = Inr (r, s)" using argint_returns [OF assms] by blast
  note b = backed_run [OF assms]
  have "unat i + unat size' \<le> unat (sz (proc_at s p))"
    if "0 \<le> sint size'" "i < sz (proc_at s p)" "i + size' \<le> sz (proc_at s p)" for i
    using no_wrap [of i "sz (proc_at s p)" size'] that assms by (auto simp: backed_def word_le_nat_alt)
  then have "returnsR (argptr n size' s) (\<lambda>(r, t). t = s \<and>
      (case r of None \<Rightarrow> True | Some i \<Rightarrow> 0 \<le> sint size' \<and> i < sz (proc_at s p) \<and> unat i + unat size' \<le> unat (sz (proc_at s p))))"
    using r b by (auto simp: argptr_def not_le not_less split: option.splits)
  moreover have "returnsR (argstr n s) (\<lambda>(r, t). t = s \<and> (case r of None \<Rightarrow> True | Some bs \<Rightarrow> \<exists>a. string_at a bs (sz (proc_at s p)) s))"
  proof (cases r)
    case None
    then show ?thesis using r by (simp add: argstr_def)
  next
    case (Some a)
    obtain q where "fetchstr a s = Inr (q, s)" "\<forall>bs. q = Some bs \<longrightarrow> string_at a bs (sz (proc_at s p)) s" using fetchstr_returns [OF assms] by blast
    then show ?thesis using r Some by (cases q) (auto simp: argstr_def)
  qed
  ultimately show ?thesis by blast
qed

theorem args_in_user_memory_witness:
  "returnsR (argptr 0 8 demo_user) (\<lambda>(r, t). t = demo_user \<and>
      (case r of None \<Rightarrow> True | Some i \<Rightarrow> 0 \<le> sint (8 :: u32) \<and> i < sz (proc_at demo_user 1) \<and> unat i + unat (8 :: u32) \<le> unat (sz (proc_at demo_user 1)))) \<and>
    returnsR (argstr 0 demo_user) (\<lambda>(r, t). t = demo_user \<and> (case r of None \<Rightarrow> True | Some bs \<Rightarrow> \<exists>a. string_at a bs (sz (proc_at demo_user 1)) demo_user))"
  using args_in_user_memory [OF demo_user_backed, of 0 8] .

end
