(* ===== verification/Spec2Isabelle.thy ===== *)
theory Spec2Isabelle
  imports Ide Trap Proc_Sync Vm_Copy Pipe_Queue Log_Crash File_Data User_Heap Apic Grep User_Progs Sh User_Access
begin

text \<open>
  \<^bold>\<open>The program.\<close> The repository is a copy of the xv6 teaching kernel for 32-bit x86 machines
  (\<open>src/xv6-public\<close>) whose round-robin scheduler has been replaced by one with three
  priorities, promotion of processes and accounting of the time they run, wait and sleep. A
  process enters the kernel through a trap (\<open>trap.c\<close>, \<open>syscall.c\<close>); the system calls on
  processes (\<open>sysproc.c\<close>) work on the process table (\<open>proc.c\<close>) and on address spaces
  (\<open>vm.c\<close>, \<open>kalloc.c\<close>), those on files (\<open>sysfile.c\<close>) on open files (\<open>file.c\<close>), which are
  pipes (\<open>pipe.c\<close>), devices (\<open>console.c\<close>) or inodes (\<open>fs.c\<close>). Inodes live in disk blocks
  that are cached (\<open>bio.c\<close>), written through a log (\<open>log.c\<close>) and moved by a disk driver
  (\<open>ide.c\<close>, or \<open>memide.c\<close> for a disk in memory). All of it is guarded by spin locks
  (\<open>spinlock.c\<close>) and sleep locks (\<open>sleeplock.c\<close>). User programs (\<open>sh.c\<close>, \<open>grep.c\<close>, ...)
  run on a small library (\<open>ulib.c\<close>, \<open>printf.c\<close>, \<open>umalloc.c\<close>).

  \<^bold>\<open>How the code is modelled.\<close> The kernel state is one record that grows from theory to theory,
  each extension holding the static variables of one source file: \<open>mach\<close> (processors, interrupt
  flag and locks), \<open>kmem\<close> (memory and the free list), \<open>vm\<close>, \<open>ptab\<close> (the process table),
  \<open>slk\<close> (sleep locks), \<open>bio\<close>, \<open>logst\<close>, \<open>icache\<close>, \<open>cons\<close>, \<open>pipest\<close>, \<open>files\<close> and
  \<open>trapst\<close>. An operation takes a state and returns a \<open>kres\<close>: \<open>Inr\<close> with the result and the new
  state, or \<open>Inl\<close> with a value of \<open>kerr\<close> that says why it did not return: \<open>Panic\<close> with the
  message of the source; \<open>Spin\<close> on a lock that is held; \<open>Sleeping\<close>, \<open>Switched\<close>, \<open>Exited\<close> or
  \<open>Running\<close> when the processor is given away and nothing that happens meanwhile was supplied;
  \<open>Wrapped\<close>, \<open>Diverges\<close> and \<open>Undefined\<close> where an address wraps around inside a loop, a loop
  does not end, or C gives the code no meaning. Where the
  code gives up the processor (\<open>sleep\<close>, \<open>yield\<close>, the scheduler's switch to a process), the
  operation takes a list of functions on states, one for each time: what the rest of the system
  does until control returns. Machine integers are words of their width and wrap around; memory
  is a function from 32-bit addresses to bytes, and page tables, free-list links and trap frames
  are read from and written to it at the addresses the code uses. The theorems on operations of
  several steps take a process that runs alone with no spin lock held (\<open>runs\<close>, \<open>calm\<close>), and say
  so in their hypotheses; those on locks, on \<open>sleep\<close> and \<open>wakeup\<close>, and on the scheduler are
  about interleavings.

  \<^bold>\<open>Theories.\<close>
  \<^item> \<open>Xv6_Prelude\<close>: results, the error type, the lemma collections, lemmas on words and lists;
    \<open>Fifo\<close>: a bounded ring buffer against a queue, as a locale.
  \<^item> \<open>Spinlock\<close> (\<open>spinlock.c\<close>, \<open>mycpu\<close> and \<open>cpuid\<close> of \<open>proc.c\<close>): at most one processor
    holds a lock in every reachable state, interrupts are restored at the end of the outermost
    section.
  \<^item> \<open>Memory\<close> (\<open>string.c\<close>, \<open>x86.h\<close>) and \<open>Kalloc\<close> (\<open>kalloc.c\<close>): block moves, strings;
    the free list holds each page once, allocation hands out distinct pages.
  \<^item> \<open>Vm\<close> (\<open>vm.c\<close>, \<open>mmu.h\<close>) with \<open>Vm_Maps\<close>, \<open>Vm_Free\<close>, \<open>Vm_Grow\<close> and \<open>Vm_Copy\<close>:
    an address space seen as the set of mapped pages with their frames; mapping translates,
    growing adds zeroed pages, shrinking and freeing give every page back, copying gives the child
    equal contents in fresh pages, also when memory runs out half way.
  \<^item> \<open>Proc\<close> (\<open>proc.c\<close>: process table, \<open>growproc\<close>, sleep, wakeup, wait, both schedulers) and
    \<open>Proc_Sync\<close> (allocation of processes, lost wakeups, kill); \<open>Proc_Life\<close> (\<open>fork\<close>, \<open>exit\<close>,
    \<open>userinit\<close>).
  \<^item> \<open>Sleeplock\<close> (\<open>sleeplock.c\<close>), \<open>Bio\<close> (\<open>bio.c\<close>, \<open>memide.c\<close>) with \<open>Bio_Cache\<close>: the
    list of buffers as a list in order of use, one buffer for each block, the least recently used
    buffer is replaced.
  \<^item> \<open>Log\<close> (\<open>log.c\<close>) with \<open>Log_Crash\<close>: after a crash at any disk write of a transaction,
    recovery leaves the blocks all old or all new; \<open>Ide\<close> (\<open>ide.c\<close>).
  \<^item> \<open>Inode\<close> and \<open>Fs\<close> (\<open>fs.c\<close>) with \<open>Block_Alloc\<close> (the bitmap as the set of blocks in use;
    \<open>balloc\<close> and \<open>bfree\<close>), \<open>File_Map\<close> (the block map of a file and \<open>bmap\<close>) and
    \<open>File_Data\<close> (a file as a list of bytes: \<open>readi\<close> returns a part of the list, \<open>writei\<close>
    replaces a part of it and touches no other file).
  \<^item> \<open>Console\<close> (\<open>console.c\<close>, \<open>kbd.c\<close>, \<open>uart.c\<close>),
    \<open>Pipe\<close> (\<open>pipe.c\<close>) with \<open>Pipe_Queue\<close>: a pipe is a bounded queue of bytes; \<open>File\<close>
    (\<open>file.c\<close>), \<open>Exec\<close> (\<open>exec.c\<close>, \<open>loaduvm\<close> of \<open>vm.c\<close>).
  \<^item> \<open>Syscall_Args\<close> (\<open>syscall.c\<close>) with \<open>User_Access\<close>: arguments that are accepted lie in the
    memory of the process; \<open>Sysfile\<close> (\<open>sysfile.c\<close>), \<open>Trap\<close> (\<open>sysproc.c\<close>, \<open>syscall.c\<close>,
    \<open>trap.c\<close>).
  \<^item> \<open>Demo_Kernel\<close>: concrete states on which the hypotheses of the theorems hold.
  \<^item> \<open>User_Lib\<close> (\<open>ulib.c\<close>, \<open>printf.c\<close>), \<open>Grep\<close> (\<open>grep.c\<close>), \<open>User_Progs\<close> (\<open>wc.c\<close>,
    \<open>cat.c\<close>, \<open>echo.c\<close>, \<open>ls.c\<close>) and \<open>Sh\<close> (\<open>sh.c\<close>): strings are lists of characters without
    the final 0 and pointers into them are suffixes; input is a stream that arrives in pieces.
  \<^item> \<open>Umalloc\<close> (\<open>umalloc.c\<close>) and \<open>User_Heap\<close>: the circular free list against the set of free
    bytes; \<open>malloc\<close> and \<open>free\<close> in any order keep the blocks in use apart and lose no byte. The
    locale \<open>break\<close> states what the allocator relies on of \<open>sbrk\<close>, and is interpreted on
    \<open>growproc\<close> of the kernel.
  \<^item> \<open>Mp\<close> (\<open>mp.c\<close>, \<open>mp.h\<close>) and \<open>Apic\<close> (\<open>ioapic.c\<close>, \<open>lapic.c\<close>, \<open>picirq.c\<close>,
    \<open>uartinit\<close>): the processors found in the tables of the BIOS, the interrupts that are
    delivered after the boot, the reading of the clock.

  \<^bold>\<open>Bounds.\<close> Loops over the source's fixed ranges are recursions over a list of indices; loops
  over page tables, strings and free lists are functions with a termination proof, or stop with
  \<open>Wrapped\<close> or \<open>Diverges\<close> where the C loop would run on. The shell's parser takes a fuel of four
  units for each character of the line and four more, which \<open>parsecmd_terminates\<close> shows to be
  enough for every line. The searches through the buffer list take \<open>NBUF\<close> steps, the length of
  the list. The walks along the free list of \<open>malloc\<close> are partial functions, shown to return on
  every heap a program can reach; the scan of the processor table takes fuel, of which one unit for each entry
  and one more is enough, unless the table has an entry of unknown type, where no fuel is.

  \<^bold>\<open>Not modelled.\<close> The assembly files (\<open>entry.S\<close>, \<open>swtch.S\<close>, \<open>trapasm.S\<close>, ...): the
  switch between contexts appears as the points where control is given away. The boot loader and
  the order of the calls in \<open>main.c\<close> (\<open>bootmain.c\<close>, \<open>main.c\<close>), which works on the machine
  before memory and processors are set up. The tool that builds a disk image on the host
  (\<open>mkfs.c\<close>). The test programs (\<open>usertests.c\<close>,
  \<open>forktest.c\<close>, \<open>stressfs.c\<close>, \<open>sanity.c\<close>, ...) and the user programs that only make system
  calls. Of \<open>proc.c\<close> and \<open>spinlock.c\<close> the debugging listing (\<open>procdump\<close>, \<open>getcallerpcs\<close>).
\<close>

end
